(* ===== verification/Prelude.thy ===== *)
theory Prelude
  imports Complex_Main "HOL-Library.Word" "HOL-Library.Finite_Map"
begin

unbundle bit_operations_syntax

text \<open>
  The vocabulary every component of the model shares: the fixed-width integers and byte
  strings of the Go program, big-endian encodings (encoding/binary; the little-endian one of Procmap is defined there),
  instants and durations (package time), finite maps (Go's map type), and the input side
  of a connection as io.ReadFull sees it.

  Conventions used throughout:
  \<^item> a Go \<^verbatim>\<open>map[K]V\<close> is an \<open>('k, 'v) fmap\<close>, \<open>gosize\<close> is \<^verbatim>\<open>len\<close>; a \<^verbatim>\<open>range\<close> loop over
    a map whose result could depend on the order takes that order as an argument, because
    Go leaves it unspecified;
  \<^item> an instant (\<^verbatim>\<open>time.Time\<close>) is the number of nanoseconds since the zero \<^verbatim>\<open>Time\<close>, so
    \<^verbatim>\<open>t.IsZero()\<close> is \<open>t = 0\<close>; a duration is a number of nanoseconds;
  \<^item> every call of \<^verbatim>\<open>time.Now\<close> is an argument of the operation that makes it.
\<close>

section \<open>Integers and bytes\<close>

type_synonym byte = "8 word"
type_synonym u16 = "16 word"
type_synonym u32 = "32 word"
type_synonym u64 = "64 word"
type_synonym bytes = "byte list"

named_theorems wire_simps "encoding lengths and round trips"
named_theorems map_size_simps "sizes of Go maps"

text \<open>\<^verbatim>\<open>binary.BigEndian.PutUintN\<close> and \<^verbatim>\<open>UintN\<close>, for a width of \<open>n\<close> bytes.\<close>

fun be_put :: "nat \<Rightarrow> 'a::len word \<Rightarrow> bytes" where
  "be_put 0 w = []"
| "be_put (Suc n) w = be_put n (drop_bit 8 w) @ [ucast w]"

definition be_get :: "bytes \<Rightarrow> 'a::len word" where
  "be_get bs = foldl (\<lambda>acc b. push_bit 8 acc OR ucast b) 0 bs"

abbreviation put16 :: "u16 \<Rightarrow> bytes" where "put16 \<equiv> be_put 2"
abbreviation put32 :: "u32 \<Rightarrow> bytes" where "put32 \<equiv> be_put 4"
abbreviation put64 :: "u64 \<Rightarrow> bytes" where "put64 \<equiv> be_put 8"
abbreviation get16 :: "bytes \<Rightarrow> u16" where "get16 \<equiv> be_get"
abbreviation get32 :: "bytes \<Rightarrow> u32" where "get32 \<equiv> be_get"
abbreviation get64 :: "bytes \<Rightarrow> u64" where "get64 \<equiv> be_get"

text \<open>\<^verbatim>\<open>b[i:j]\<close> for indices the caller has checked.\<close>

definition slice :: "nat \<Rightarrow> nat \<Rightarrow> 'a list \<Rightarrow> 'a list" where
  "slice i j xs = take (j - i) (drop i xs)"

lemma length_be_put [simp, wire_simps]: "length (be_put n w) = n"
  by (induction n arbitrary: w) auto

lemma be_get_snoc: "be_get (bs @ [b]) = push_bit 8 (be_get bs) OR ucast b"
  by (simp add: be_get_def)

lemma be_get_Nil [simp]: "be_get [] = 0"
  by (simp add: be_get_def)

lemma be_get_be_put: "be_get (be_put n w) = take_bit (8 * n) (w :: 'a::len word)"
proof (induction n arbitrary: w)
  case 0
  then show ?case by simp
next
  case (Suc n)
  have "push_bit 8 (take_bit (8 * n) (drop_bit 8 w)) OR ucast (ucast w :: byte) = take_bit (8 * Suc n) w"
  proof (rule bit_word_eqI)
    fix i assume "i < LENGTH('a)"
    show "bit (push_bit 8 (take_bit (8 * n) (drop_bit 8 w)) OR ucast (ucast w :: byte)) i
      = bit (take_bit (8 * Suc n) w) i"
      by (cases "i < 8") (use \<open>i < LENGTH('a)\<close> in \<open>auto simp: bit_simps\<close>)
  qed
  then show ?case
    by (simp add: be_get_snoc Suc.IH del: be_put.simps(1))
qed

lemma get16_put16 [simp, wire_simps]: "get16 (put16 w) = w"
  by (simp add: be_get_be_put take_bit_word_eq_self)

lemma get32_put32 [simp, wire_simps]: "get32 (put32 w) = w"
  by (simp add: be_get_be_put take_bit_word_eq_self)

lemma get64_put64 [simp, wire_simps]: "get64 (put64 w) = w"
  by (simp add: be_get_be_put take_bit_word_eq_self)

text \<open>Signed reading of a 32-bit word.\<close>

lemma sint32_word_of_int:
  assumes "- (2 ^ 31) \<le> k" "k < 2 ^ 31"
  shows "sint (word_of_int k :: u32) = k"
proof -
  have "sint (word_of_int k :: u32) = signed_take_bit 31 k"
    by (simp only: sint_sbintrunc') simp
  also have "\<dots> = k" using assms by (intro signed_take_bit_int_eq_self) auto
  finally show ?thesis .
qed

lemma slice_all: "length xs = n \<Longrightarrow> slice 0 n xs = xs"
  by (simp add: slice_def)

lemma length_slice [simp]: "length (slice i j xs) = min (j - i) (length xs - i)"
  by (simp add: slice_def)

lemma slice_append1: "length xs = i \<Longrightarrow> slice i j (xs @ ys) = take (j - i) ys"
  by (simp add: slice_def)

section \<open>Instants and durations\<close>

type_synonym time = int
type_synonym duration = int

definition ms :: duration where "ms = 1000000"
definition sec :: duration where "sec = 1000000000"
definition minute :: duration where "minute = 60 * 1000000000"

text \<open>\<^verbatim>\<open>Duration\<close> is an int64: subtraction of durations wraps around, \<^verbatim>\<open>Time.Sub\<close> saturates.\<close>

definition dur_wrap :: "int \<Rightarrow> duration" where
  "dur_wrap x = (x + 2 ^ 63) mod 2 ^ 64 - 2 ^ 63"

definition time_sub :: "time \<Rightarrow> time \<Rightarrow> duration" where
  "time_sub t u = max (- (2 ^ 63)) (min (2 ^ 63 - 1) (t - u))"

text \<open>Nanoseconds from the zero Time (1 January of year 1) to the Unix epoch.\<close>

definition unix_epoch :: time where
  "unix_epoch = 62135596800 * 1000000000"

definition unix_milli :: "int \<Rightarrow> time" where
  "unix_milli m = unix_epoch + m * 1000000"

definition to_unix_milli :: "time \<Rightarrow> int" where
  "to_unix_milli t = (t - unix_epoch) div 1000000"

lemma time_sub_nonneg: "u \<le> t \<Longrightarrow> 0 \<le> time_sub t u"
  by (simp add: time_sub_def)

lemma time_sub_exact: "\<bar>t - u\<bar> < 2 ^ 63 \<Longrightarrow> time_sub t u = t - u"
  by (simp add: time_sub_def)

lemma time_sub_self [simp]: "time_sub t t = 0"
  by (simp add: time_sub_def)

lemma time_sub_gt: "0 \<le> d \<Longrightarrow> d < 2 ^ 63 - 1 \<Longrightarrow> d < time_sub t u \<longleftrightarrow> d < t - u"
  by (auto simp: time_sub_def)

lemma time_sub_ge: "0 \<le> d \<Longrightarrow> d \<le> 2 ^ 63 - 1 \<Longrightarrow> d \<le> time_sub t u \<longleftrightarrow> d \<le> t - u"
  by (auto simp: time_sub_def)

lemma dur_wrap_exact: "- (2 ^ 63) \<le> x \<Longrightarrow> x < 2 ^ 63 \<Longrightarrow> dur_wrap x = x"
  by (simp add: dur_wrap_def)

section \<open>Go maps\<close>

abbreviation gosize :: "('k, 'v) fmap \<Rightarrow> nat" where
  "gosize m \<equiv> fcard (fmdom m)"

abbreviation goget :: "('k, 'v) fmap \<Rightarrow> 'k \<Rightarrow> 'v \<Rightarrow> 'v" where
  "goget m k zero \<equiv> (case fmlookup m k of None \<Rightarrow> zero | Some v \<Rightarrow> v)"

lemma gosize_fmupd [map_size_simps]:
  "gosize (fmupd k v m) = (if fmlookup m k = None then Suc (gosize m) else gosize m)"
  by (auto simp: fcard_finsert_if fmlookup_dom_iff)

lemma gosize_fmdrop [map_size_simps]:
  "gosize (fmdrop k m) = (if fmlookup m k = None then gosize m else gosize m - 1)"
  by (auto simp: fcard_fminus_fsingleton_if fmlookup_dom_iff)

lemma gosize_pos: "fmlookup m k = Some v \<Longrightarrow> 0 < gosize m"
  by (metis fcard_fempty fmdomI fempty_iff fcard_0_eq gr0I)

declare fcard_fempty [simp]

lemma fmupd_fmupd [simp]: "fmupd k v (fmupd k w m) = fmupd k v m"
  by (rule fmap_ext) simp

text \<open>Sums over the entries of a map; the shared accounting lemmas of every component.\<close>

definition fmsum :: "('v \<Rightarrow> 'a::comm_monoid_add) \<Rightarrow> ('k, 'v) fmap \<Rightarrow> 'a" where
  "fmsum f m = (\<Sum>k\<in>fmdom' m. f (the (fmlookup m k)))"

lemma fmsum_empty [simp]: "fmsum f fmempty = 0"
  by (simp add: fmsum_def)

lemma fmsum_split:
  assumes "fmlookup m k = Some v"
  shows "fmsum f m = f v + fmsum f (fmdrop k m)"
proof -
  have k: "k \<in> fmdom' m" using assms by (rule fmdom'I)
  have "fmsum f m = f v + (\<Sum>j\<in>fmdom' m - {k}. f (the (fmlookup m j)))"
    unfolding fmsum_def using assms sum.remove [OF finite_fmdom' k, of "\<lambda>j. f (the (fmlookup m j))"]
    by simp
  also have "(\<Sum>j\<in>fmdom' m - {k}. f (the (fmlookup m j))) = fmsum f (fmdrop k m)"
    unfolding fmsum_def by (rule sum.cong) auto
  finally show ?thesis .
qed

lemma fmsum_fmupd: "fmsum f (fmupd k v m) = f v + fmsum f (fmdrop k m)"
  using fmsum_split [of "fmupd k v m" k v f] by (simp add: fmdrop_fmupd_same)

lemma fmdrop_absent: "fmlookup m k = None \<Longrightarrow> fmdrop k m = m"
  by (simp add: fmdrop_idle fmdom_notI)

lemma fmsum_fmupd_new: "fmlookup m k = None \<Longrightarrow> fmsum f (fmupd k v m) = f v + fmsum f m"
  by (simp add: fmsum_fmupd fmdrop_absent)

lemma fmsum_replace:
  "fmlookup m k = Some v \<Longrightarrow> fmsum f (fmupd k v' m) + f v = f v' + fmsum f m"
  by (simp add: fmsum_fmupd fmsum_split [of m k v] ac_simps)

lemma fmsum_remove: "fmlookup m k = Some v \<Longrightarrow> fmsum f (fmdrop k m) + f v = fmsum f m"
  by (simp add: fmsum_split [of m k v] ac_simps)

lemma fmsum_pos:
  assumes "fmlookup m k = Some v" "(0::nat) < f v" shows "0 < fmsum f m"
  using fmsum_split [OF assms(1), of f] assms(2) by simp

lemma fmsum_eq_0: "(\<And>k v. fmlookup m k = Some v \<Longrightarrow> f v = 0) \<Longrightarrow> fmsum f m = 0"
  unfolding fmsum_def by (rule sum.neutral) (auto simp: fmlookup_dom'_iff)

lemma fmsum_zero_imp:
  assumes "fmsum f m = (0::nat)" "fmlookup m k = Some v"
  shows "f v = 0"
  using fmsum_split [OF assms(2), of f] assms(1) by simp

lemma fmsum_cong:
  "(\<And>k v. fmlookup m k = Some v \<Longrightarrow> f v = g v) \<Longrightarrow> fmsum f m = fmsum g m"
  unfolding fmsum_def by (rule sum.cong) (auto simp: fmlookup_dom'_iff)

text \<open>The order of a \<^verbatim>\<open>range\<close> loop: each key of the map once, in any order.\<close>

definition range_order :: "(('k, 'v) fmap \<Rightarrow> 'k list) \<Rightarrow> bool" where
  "range_order ord \<longleftrightarrow> (\<forall>m. distinct (ord m) \<and> set (ord m) = fmdom' m)"

lemma range_order_set: "range_order ord \<Longrightarrow> k \<in> set (ord m) \<longleftrightarrow> (\<exists>v. fmlookup m k = Some v)"
  by (auto simp: range_order_def fmlookup_dom'_iff)

lemma range_order_distinct: "range_order ord \<Longrightarrow> distinct (ord m)"
  by (simp add: range_order_def)

definition sorted_order :: "('k::linorder, 'v) fmap \<Rightarrow> 'k list" where
  "sorted_order m = sorted_list_of_fset (fmdom m)"

lemma sorted_order_range [simp]: "range_order sorted_order"
  by (simp add: range_order_def sorted_order_def sorted_list_of_fset.rep_eq fmdom'_alt_def)

lemma sorted_order_empty [simp]: "sorted_order fmempty = []"
  by (simp add: sorted_order_def sorted_list_of_fset.rep_eq)

lemma sorted_order_one [simp]: "sorted_order (fmupd k v fmempty) = [k]"
  by (simp add: sorted_order_def sorted_list_of_fset.rep_eq)

section \<open>Reading from a connection\<close>

text \<open>
  What a connection still has to deliver: the bytes, then the error every later read
  returns (\<open>EOF\<close> for an orderly close, a timeout when a deadline strikes).
\<close>

datatype io_error = EOF | UnexpectedEOF | Timeout | ConnClosed | OtherIO string

type_synonym instream = "bytes \<times> io_error"

text \<open>\<^verbatim>\<open>io.ReadFull\<close>: exactly \<open>n\<close> bytes, or an error; EOF in the middle is \<open>UnexpectedEOF\<close>.\<close>

definition read_full :: "nat \<Rightarrow> instream \<Rightarrow> io_error + (bytes \<times> instream)" where
  "read_full n s =
     (if n \<le> length (fst s) then Inr (take n (fst s), (drop n (fst s), snd s))
      else Inl (if fst s \<noteq> [] \<and> snd s = EOF then UnexpectedEOF else snd s))"

lemma read_full_append [simp, wire_simps]:
  "length xs = n \<Longrightarrow> read_full n (xs @ ys, e) = Inr (xs, (ys, e))"
  by (simp add: read_full_def)

lemma read_full_exact [simp, wire_simps]:
  "length xs = n \<Longrightarrow> read_full n (xs, e) = Inr (xs, ([], e))"
  by (simp add: read_full_def)

lemma read_full_InrD:
  "read_full n s = Inr (xs, s') \<Longrightarrow> fst s = xs @ fst s' \<and> length xs = n \<and> snd s' = snd s"
  by (auto simp: read_full_def split: if_splits)

end
