(* ===== verification/Contracts.thy ===== *)
theory Contracts
  imports Prelude
begin

text \<open>
  The interfaces between components, as locales: what a wire format, a duplicate filter, a
  state machine, a quota and an expiring table promise to the code that uses them, and what
  follows from the promise alone. Each component that provides an interface interprets the
  locale on its own definitions.
\<close>

section \<open>Wire formats read from a stream\<close>

text \<open>Decoding several messages one after the other, as a connection's read loop does.\<close>

fun read_many ::
  "(instream \<Rightarrow> io_error + ('a \<times> instream)) \<Rightarrow> nat \<Rightarrow> instream \<Rightarrow> io_error + ('a list \<times> instream)" where
  "read_many dec 0 s = Inr ([], s)"
| "read_many dec (Suc n) s =
     (case dec s of
        Inl e \<Rightarrow> Inl e
      | Inr (x, s') \<Rightarrow>
          (case read_many dec n s' of Inl e \<Rightarrow> Inl e | Inr (xs, s'') \<Rightarrow> Inr (x # xs, s'')))"

locale stream_codec =
  fixes enc :: "'a \<Rightarrow> bytes"
    and dec :: "instream \<Rightarrow> io_error + ('a \<times> instream)"
    and ok :: "'a \<Rightarrow> bool"
  assumes dec_enc: "ok x \<Longrightarrow> dec (enc x @ rest, e) = Inr (x, (rest, e))"
begin

text \<open>Messages written back to back, in one write or in several, are read back in order.\<close>

lemma read_batch:
  "list_all ok xs \<Longrightarrow> read_many dec (length xs) (concat (map enc xs) @ rest, e) = Inr (xs, (rest, e))"
proof (induction xs)
  case (Cons x xs)
  from Cons have IH: "read_many dec (length xs) (concat (map enc xs) @ rest, e) = Inr (xs, (rest, e))"
    and d: "dec (enc x @ concat (map enc xs) @ rest, e) = Inr (x, (concat (map enc xs) @ rest, e))"
    by (simp_all add: dec_enc)
  show ?case by (simp only: length_Cons read_many.simps list.map concat.simps append_assoc d IH sum.case prod.case)
qed simp

text \<open>The format is self-delimiting: a stream has at most one reading.\<close>

lemma unique_parse:
  assumes "ok x" "ok y" "enc x @ r = enc y @ s"
  shows "x = y \<and> r = s"
proof -
  have "dec (enc x @ r, EOF) = Inr (x, (r, EOF))" using assms(1) by (rule dec_enc)
  then have "dec (enc y @ s, EOF) = Inr (x, (r, EOF))" by (simp only: assms(3))
  moreover have "dec (enc y @ s, EOF) = Inr (y, (s, EOF))" using assms(2) by (rule dec_enc)
  ultimately show ?thesis by simp
qed

lemma enc_inj: "ok x \<Longrightarrow> ok y \<Longrightarrow> enc x = enc y \<Longrightarrow> x = y"
  using unique_parse [of x y "[]" "[]"] by simp

end

section \<open>State machines with an invariant\<close>

locale guarded_system =
  fixes step :: "'s \<Rightarrow> 'e \<Rightarrow> 's"
    and inv :: "'s \<Rightarrow> bool"
    and init :: 's
  assumes init_inv: "inv init"
    and step_inv: "inv s \<Longrightarrow> inv (step s e)"
begin

lemma run_inv_from: "inv s \<Longrightarrow> inv (foldl step s es)"
  by (induction es arbitrary: s) (auto simp: step_inv)

lemma run_inv: "inv (foldl step init es)"
  by (rule run_inv_from) (rule init_inv)

end

section \<open>Duplicate filters\<close>

text \<open>
  A receiver of 32-bit sequence numbers. \<open>view s\<close> is what it remembers: the highest number
  accepted so far, if any, and which numbers of the window below it were accepted.
\<close>

type_synonym dedup_view = "(u32 \<times> u32 set) option"

definition behind :: "u32 \<Rightarrow> u32 \<Rightarrow> nat" where
  "behind hi n = unat (hi - n)"

text \<open>The reference receiver: a sliding window of \<open>w\<close> numbers, kept as a set.\<close>

definition ref_accept :: "nat \<Rightarrow> dedup_view \<Rightarrow> u32 \<Rightarrow> dedup_view \<times> bool" where
  "ref_accept w v n =
     (case v of
        None \<Rightarrow> (Some (n, {n}), True)
      | Some (hi, S) \<Rightarrow>
          if 0 < sint (n - hi)
          then (Some (n, insert n {m \<in> S. behind n m < w}), True)
          else if w \<le> behind hi n \<or> n \<in> S then (v, False)
          else (Some (hi, insert n S), True))"

text \<open>
  Sequence numbers as the sender counts them, without wrap-around: each arrival is less than
  half the number space away from the highest one so far.
\<close>

primrec near :: "nat \<Rightarrow> nat list \<Rightarrow> bool" where
  "near N [] = True"
| "near N (n # ns) = (\<bar>int n - int N\<bar> < 2 ^ 31 \<and> near (max N n) ns)"

lemma sint_of_nat_diff:
  "\<bar>int n - int N\<bar> < 2 ^ 31 \<Longrightarrow> sint (of_nat n - of_nat N :: u32) = int n - int N"
  using sint32_word_of_int [of "int n - int N"] by simp

lemma behind_of_nat: "n \<le> N \<Longrightarrow> N - n < 2 ^ 32 \<Longrightarrow> behind (of_nat N) (of_nat n) = N - n"
  by (simp add: behind_def unat_of_nat flip: of_nat_diff)

lemma behind_ahead:
  assumes "N < m" "m - N < 2 ^ 31" shows "2 ^ 31 \<le> behind (of_nat N) (of_nat m)"
proof -
  have "(of_nat (2 ^ 32 - (m - N)) :: u32) = of_nat (2 ^ 32) - of_nat (m - N)"
    by (rule of_nat_diff) (use assms in simp)
  then have "(of_nat N - of_nat m :: u32) = of_nat (2 ^ 32 - (m - N))" using assms by (simp add: of_nat_diff)
  then have "behind (of_nat N) (of_nat m) = 2 ^ 32 - (m - N)"
    using assms by (simp add: behind_def unat_of_nat del: of_nat_diff)
  then show ?thesis using assms by simp
qed

locale dedup_filter =
  fixes accept :: "'s \<Rightarrow> u32 \<Rightarrow> 's \<times> bool"
    and view :: "'s \<Rightarrow> dedup_view"
    and inv :: "'s \<Rightarrow> bool"
    and w :: nat
  assumes w_bound: "0 < w" "w < 2 ^ 31"
    and accept_inv: "inv s \<Longrightarrow> inv (fst (accept s n))"
    and accept_view: "inv s \<Longrightarrow> view (fst (accept s n)) = fst (ref_accept w (view s) n)"
    and accept_result: "inv s \<Longrightarrow> snd (accept s n) = snd (ref_accept w (view s) n)"
begin

text \<open>The numbers delivered from a list of arrivals.\<close>

primrec delivered :: "'s \<Rightarrow> nat list \<Rightarrow> nat list" where
  "delivered s [] = []"
| "delivered s (n # ns) =
     (if snd (accept s (of_nat n)) then n # delivered (fst (accept s (of_nat n))) ns
      else delivered (fst (accept s (of_nat n))) ns)"

text \<open>
  \<open>tracks s A N\<close>: the sender's unbounded numbers in \<open>A\<close> have been delivered, \<open>N\<close> is the
  highest of them, and the state remembers exactly those of the last \<open>w\<close>.
\<close>

definition tracks :: "'s \<Rightarrow> nat set \<Rightarrow> nat \<Rightarrow> bool" where
  "tracks s A N \<longleftrightarrow> inv s \<and> N \<in> A \<and> (\<forall>n\<in>A. n \<le> N) \<and>
     (\<exists>S. view s = Some (of_nat N, S) \<and> (\<forall>x\<in>S. behind (of_nat N) x < w) \<and>
        (\<forall>m. m \<le> N \<and> N < m + w \<longrightarrow> (of_nat m \<in> S \<longleftrightarrow> m \<in> A)))"

lemma tracks_first:
  assumes "inv s" "view s = None"
  shows "snd (accept s (of_nat n)) \<and> tracks (fst (accept s (of_nat n))) {n} n"
proof -
  have "of_nat m \<noteq> (of_nat n :: u32)" if "m < n" "n < m + w" for m
  proof -
    have "n - m < 2 ^ 32" using that w_bound by simp
    then show ?thesis using that behind_of_nat [of m n] by (auto simp: behind_def)
  qed
  then show ?thesis
    using assms accept_inv [of s "of_nat n"] accept_view [of s "of_nat n"] accept_result [of s "of_nat n"] w_bound
    by (auto simp: tracks_def ref_accept_def behind_def) (metis le_neq_implies_less)
qed

lemma tracks_newer:
  assumes t: "tracks s A N" and n: "N < n" "int n - int N < 2 ^ 31"
  shows "snd (accept s (of_nat n)) \<and> tracks (fst (accept s (of_nat n))) (insert n A) n"
proof -
  from t obtain S where S: "inv s" "view s = Some (of_nat N, S)" "\<forall>x\<in>S. behind (of_nat N) x < w"
    "\<And>m. m \<le> N \<Longrightarrow> N < m + w \<Longrightarrow> of_nat m \<in> S \<longleftrightarrow> m \<in> A" "N \<in> A" "\<forall>n\<in>A. n \<le> N"
    by (auto simp: tracks_def)
  have pos: "0 < sint (of_nat n - of_nat N :: u32)" using n by (simp add: sint_of_nat_diff)
  have "of_nat m \<in> insert (of_nat n) {x \<in> S. behind (of_nat n) x < w} \<longleftrightarrow> m \<in> insert n A"
    if m: "m \<le> n" "n < m + w" for m
  proof (cases "m = n")
    case False
    with m have b: "behind (of_nat n) (of_nat m) = n - m" "n - m \<noteq> 0"
      using w_bound by (auto simp: behind_of_nat)
    then have ne: "of_nat m \<noteq> (of_nat n :: u32)" by (auto simp: behind_def)
    have lt: "n - m < w" using m False by linarith
    show ?thesis
    proof (cases "m \<le> N")
      case True
      then show ?thesis using m n False ne b lt S(4) [of m] by auto
    next
      case ahead: False
      with m n have "2 ^ 31 \<le> behind (of_nat N) (of_nat m)" by (intro behind_ahead) auto
      then have "of_nat m \<notin> S" using S(3) w_bound by force
      then show ?thesis using ahead ne S(6) False by auto
    qed
  qed simp
  then show ?thesis
    using S pos n accept_inv [of s "of_nat n"] accept_view [of s "of_nat n"] accept_result [of s "of_nat n"] w_bound
    by (auto simp: tracks_def ref_accept_def behind_def)
qed

lemma tracks_older:
  assumes t: "tracks s A N" and n: "n \<le> N" "int N - int n < 2 ^ 31"
  shows "(snd (accept s (of_nat n)) \<longleftrightarrow> N < n + w \<and> n \<notin> A) \<and>
         tracks (fst (accept s (of_nat n))) (if N < n + w then insert n A else A) N"
proof -
  from t obtain S where S: "inv s" "view s = Some (of_nat N, S)" "\<forall>x\<in>S. behind (of_nat N) x < w"
    "\<And>m. m \<le> N \<Longrightarrow> N < m + w \<Longrightarrow> of_nat m \<in> S \<longleftrightarrow> m \<in> A" "N \<in> A" "\<forall>n\<in>A. n \<le> N"
    by (auto simp: tracks_def)
  have neg: "\<not> 0 < sint (of_nat n - of_nat N :: u32)" using n by (simp add: sint_of_nat_diff)
  have b: "behind (of_nat N) (of_nat n) = N - n" using n by (simp add: behind_of_nat)
  have inj: "of_nat m = (of_nat n :: u32) \<longleftrightarrow> m = n" if "m \<le> N" "N < m + w" for m
  proof -
    have "N - m < 2 ^ 32" using that w_bound by simp
    then have "behind (of_nat N) (of_nat m) = N - m" using that by (simp add: behind_of_nat)
    then show ?thesis using b that n by (auto simp: behind_def)
  qed
  show ?thesis
    using S neg b n inj accept_inv [of s "of_nat n"] accept_view [of s "of_nat n"] accept_result [of s "of_nat n"]
    by (auto simp: tracks_def ref_accept_def insert_absorb split: if_splits)
qed

lemma delivered_distinct_from:
  "tracks s A N \<Longrightarrow> near N ns \<Longrightarrow> distinct (delivered s ns) \<and> set (delivered s ns) \<inter> A = {}"
proof (induction ns arbitrary: s A N)
  case Nil
  then show ?case by simp
next
  case (Cons n ns)
  show ?case
  proof (cases "N < n")
    case True
    with Cons.prems tracks_newer [of s A N n]
    have "snd (accept s (of_nat n))" "tracks (fst (accept s (of_nat n))) (insert n A) n" "n \<notin> A"
      by (auto simp: tracks_def)
    with Cons.IH [of "fst (accept s (of_nat n))" "insert n A" n] Cons.prems True
    show ?thesis by (auto simp: max_def)
  next
    case False
    with Cons.prems tracks_older [of s A N n]
    have "snd (accept s (of_nat n)) \<longleftrightarrow> N < n + w \<and> n \<notin> A"
      "tracks (fst (accept s (of_nat n))) (if N < n + w then insert n A else A) N"
      by auto
    with Cons.IH [of "fst (accept s (of_nat n))" "if N < n + w then insert n A else A" N] Cons.prems False
    show ?thesis by (auto simp: max_def split: if_splits)
  qed
qed

text \<open>At most once: no number is delivered twice, whatever the order and the copies.\<close>

lemma delivered_distinct:
  assumes "inv s" "view s = None" "near n ns"
  shows "distinct (delivered s (n # ns))"
  using tracks_first [OF assms(1,2), of n] delivered_distinct_from [of _ "{n}" n ns] assms(3)
  by auto

end

section \<open>Tables swept in a range loop\<close>

text \<open>\<^verbatim>\<open>for k, v := range m { if p(k, v) { delete(m, k) } }\<close>, in the given order of the keys.\<close>

definition range_delete :: "('k \<Rightarrow> 'v \<Rightarrow> bool) \<Rightarrow> 'k list \<Rightarrow> ('k, 'v) fmap \<Rightarrow> ('k, 'v) fmap" where
  "range_delete p ks m =
     foldl (\<lambda>m k. case fmlookup m k of None \<Rightarrow> m | Some v \<Rightarrow> if p k v then fmdrop k m else m) m ks"

lemma range_delete_simps [simp]:
  "range_delete p [] m = m"
  "range_delete p (k # ks) m =
     range_delete p ks (case fmlookup m k of None \<Rightarrow> m | Some v \<Rightarrow> if p k v then fmdrop k m else m)"
  by (simp_all add: range_delete_def)

lemma fmlookup_range_delete_list:
  "fmlookup (range_delete p ks m) k =
     (case fmlookup m k of None \<Rightarrow> None | Some v \<Rightarrow> if k \<in> set ks \<and> p k v then None else Some v)"
  by (induction ks arbitrary: m) (auto split: option.splits)

lemma fmlookup_range_delete:
  "range_order ord \<Longrightarrow> fmlookup (range_delete p (ord m) m) k =
     (case fmlookup m k of None \<Rightarrow> None | Some v \<Rightarrow> if p k v then None else Some v)"
  by (auto simp: fmlookup_range_delete_list range_order_set split: option.splits)

text \<open>
  A table whose entries expire: every operation keeps an entry or refreshes it, and only the
  sweep removes one, when it has not been touched for the idle time.
\<close>

locale expiring_table =
  fixes entry :: "'s \<Rightarrow> 'k \<Rightarrow> 'e option"
    and touched :: "'e \<Rightarrow> time"
    and sweep :: "(('k, 'v) fmap \<Rightarrow> 'k list) \<Rightarrow> 's \<Rightarrow> time \<Rightarrow> duration \<Rightarrow> 's"
  assumes sweep_entry:
    "range_order ord \<Longrightarrow> entry (sweep ord s now idle) k =
       (case entry s k of None \<Rightarrow> None | Some e \<Rightarrow> if time_sub now (touched e) > idle then None else Some e)"
begin

lemma sweep_keeps_recent:
  "range_order ord \<Longrightarrow> entry s k = Some e \<Longrightarrow> time_sub now (touched e) \<le> idle \<Longrightarrow>
     entry (sweep ord s now idle) k = Some e"
  by (simp add: sweep_entry)

lemma sweep_only_recent:
  "range_order ord \<Longrightarrow> entry (sweep ord s now idle) k = Some e \<Longrightarrow>
     entry s k = Some e \<and> time_sub now (touched e) \<le> idle"
  by (auto simp: sweep_entry split: option.splits if_splits)

text \<open>The iteration order does not matter, and sweeping twice is sweeping once.\<close>

lemma sweep_order_irrelevant:
  "range_order ord \<Longrightarrow> range_order ord' \<Longrightarrow> entry (sweep ord s now idle) k = entry (sweep ord' s now idle) k"
  by (simp add: sweep_entry)

lemma sweep_idem:
  "range_order ord \<Longrightarrow> entry (sweep ord (sweep ord s now idle) now idle) k = entry (sweep ord s now idle) k"
  by (auto simp: sweep_entry split: option.splits)

end

end
