(* ===== verification/Frame.thy ===== *)
theory Frame
  imports Contracts
begin

unbundle bit_operations_syntax

text \<open>
  internal/frame/frame.go: the frame format of the droppable, glue and vpn channels
  (\<open>marshal\<close>, \<open>read_frame\<close>) and the receiver that drops duplicates and late frames
  (\<open>accept_seq\<close>, \<open>accept\<close>). The receiver's bitmap is shown to implement the sliding
  window of the \<open>dedup_filter\<close> interface, bit operations and 32-bit wrap-around included.
\<close>

section \<open>The wire format\<close>

record frame =
  f_seq :: u32
  f_ts :: u64            \<comment> \<open>TimestampMS, an int64: read with \<open>sint\<close>\<close>
  f_payload :: bytes

definition headerSize :: nat where "headerSize = 4 + 8 + 2"
definition MaxPayload :: nat where "MaxPayload = 65535"

definition frame_new :: "u32 \<Rightarrow> time \<Rightarrow> bytes \<Rightarrow> frame" where
  "frame_new seq now p = \<lparr>f_seq = seq, f_ts = word_of_int (to_unix_milli now), f_payload = p\<rparr>"

text \<open>The nil slice of an oversized frame is the empty byte string: writing it sends nothing.\<close>

definition marshal :: "frame \<Rightarrow> bytes" where
  "marshal f =
     (if length (f_payload f) > MaxPayload then []
      else put32 (f_seq f) @ put64 (f_ts f) @ put16 (of_nat (length (f_payload f))) @ f_payload f)"

definition read_frame :: "instream \<Rightarrow> io_error + (frame \<times> instream)" where
  "read_frame r =
     (case read_full headerSize r of
        Inl err \<Rightarrow> Inl err
      | Inr (header, r1) \<Rightarrow>
          (let seq = get32 (slice 0 4 header);
               ts = get64 (slice 4 12 header);
               n = get16 (slice 12 14 header)
           in case read_full (unat n) r1 of
                Inl err \<Rightarrow> Inl err
              | Inr (p, r2) \<Rightarrow> Inr (\<lparr>f_seq = seq, f_ts = ts, f_payload = p\<rparr>, r2)))"

definition fits :: "frame \<Rightarrow> bool" where
  "fits f \<longleftrightarrow> length (f_payload f) \<le> MaxPayload"

lemma marshal_oversized: "\<not> fits f \<Longrightarrow> marshal f = []"
  by (simp add: marshal_def fits_def)

lemma length_marshal: "fits f \<Longrightarrow> length (marshal f) = headerSize + length (f_payload f)"
  by (simp add: marshal_def fits_def headerSize_def)

lemma unat_len16: "n \<le> MaxPayload \<Longrightarrow> unat (of_nat n :: u16) = n"
  by (simp add: unat_of_nat MaxPayload_def)

lemma read_frame_marshal:
  assumes "fits f"
  shows "read_frame (marshal f @ rest, e) = Inr (f, (rest, e))"
proof -
  let ?h = "put32 (f_seq f) @ put64 (f_ts f) @ put16 (of_nat (length (f_payload f)))"
  have m: "marshal f @ rest = ?h @ (f_payload f @ rest)"
    using assms by (simp add: marshal_def fits_def)
  have h: "read_full headerSize (marshal f @ rest, e) = Inr (?h, (f_payload f @ rest, e))"
    unfolding m by (rule read_full_append) (simp add: headerSize_def)
  have "slice 0 4 ?h = put32 (f_seq f)" "slice 4 12 ?h = put64 (f_ts f)"
    "slice 12 14 ?h = put16 (of_nat (length (f_payload f)))"
    by (simp_all add: slice_def del: be_put.simps)
  then show ?thesis
    using assms
    by (simp add: read_frame_def h Let_def unat_len16 fits_def del: be_put.simps)
qed

interpretation frames: stream_codec marshal read_frame fits
  by unfold_locales (rule read_frame_marshal)

section \<open>The receiver\<close>

definition offsetWindow :: duration where "offsetWindow = 5 * sec"
definition seqWindow :: nat where "seqWindow = 1024"
definition rebaselineAfter :: duration where "rebaselineAfter = sec"

record receiver =
  maxAge :: duration
  haveTop :: bool
  rtop :: u32
  seen :: "u64 list"            \<comment> \<open>\<^verbatim>\<open>[seqWindow / 64]uint64\<close>\<close>
  haveOffset :: bool
  prevMinOffset :: duration
  curMinOffset :: duration
  windowStart :: time
  lateSince :: time

definition NewReceiver :: "duration \<Rightarrow> receiver" where
  "NewReceiver age =
     \<lparr>maxAge = age, haveTop = False, rtop = 0, seen = replicate (seqWindow div 64) 0,
      haveOffset = False, prevMinOffset = 0, curMinOffset = 0, windowStart = 0, lateSince = 0\<rparr>"

text \<open>The word and the bit of the bitmap that hold a sequence number.\<close>

definition slot :: "u32 \<Rightarrow> nat" where
  "slot seq = unat (seq mod of_nat seqWindow div 64)"

definition slot_bit :: "u32 \<Rightarrow> nat" where
  "slot_bit seq = unat (seq mod 64)"

definition mark :: "u64 list \<Rightarrow> u32 \<Rightarrow> u64 list" where
  "mark xs seq = xs[slot seq := xs ! slot seq OR push_bit (slot_bit seq) 1]"

definition unmark :: "u64 list \<Rightarrow> u32 \<Rightarrow> u64 list" where
  "unmark xs seq = xs[slot seq := xs ! slot seq AND NOT (push_bit (slot_bit seq) 1)]"

definition marked :: "u64 list \<Rightarrow> u32 \<Rightarrow> bool" where
  "marked xs seq \<longleftrightarrow> xs ! slot seq AND push_bit (slot_bit seq) 1 \<noteq> 0"

text \<open>\<^verbatim>\<open>for i := 1; i <= d; i++ { r.unmark(r.top + i) }\<close>\<close>

definition unmark_ahead :: "u64 list \<Rightarrow> u32 \<Rightarrow> nat \<Rightarrow> u64 list" where
  "unmark_ahead xs hi d = foldl (\<lambda>ys i. unmark ys (hi + of_nat i)) xs [1..<Suc d]"

text \<open>
  \<open>d\<close> is the int32 distance; its negation is taken in 32 bits too, so that the distance
  \<open>- 2\<^sup>3\<^sup>1\<close> stays negative, as in the code.
\<close>

definition accept_seq :: "receiver \<Rightarrow> frame \<Rightarrow> receiver \<times> bool \<times> string" where
  "accept_seq r f =
     (if \<not> haveTop r then
        (r\<lparr>haveTop := True, rtop := f_seq f, seen := mark (seen r) (f_seq f)\<rparr>, True, '''')
      else
        let d = f_seq f - rtop r in
        if 0 < sint d then
          (let xs = (if int seqWindow \<le> sint d then replicate (seqWindow div 64) 0
                     else unmark_ahead (seen r) (rtop r) (unat d))
           in (r\<lparr>rtop := f_seq f, seen := mark xs (f_seq f)\<rparr>, True, ''''))
        else if int seqWindow \<le> sint (- d) then (r, False, ''too old'')
        else if marked (seen r) (f_seq f) then (r, False, ''duplicate'')
        else (r\<lparr>seen := mark (seen r) (f_seq f)\<rparr>, True, ''''))"

text \<open>The minimum of recv - send seen so far, over two windows (the first half of \<^verbatim>\<open>Accept\<close>).\<close>

definition track_offset :: "receiver \<Rightarrow> time \<Rightarrow> duration \<Rightarrow> receiver" where
  "track_offset r now raw =
     (let r1 = (if \<not> haveOffset r then
                  r\<lparr>haveOffset := True, curMinOffset := raw, prevMinOffset := raw, windowStart := now\<rparr>
                else if raw < curMinOffset r then r\<lparr>curMinOffset := raw\<rparr>
                else r)
      in if offsetWindow \<le> time_sub now (windowStart r1)
         then r1\<lparr>prevMinOffset := curMinOffset r1, curMinOffset := raw, windowStart := now\<rparr>
         else r1)"

definition accept :: "receiver \<Rightarrow> time \<Rightarrow> frame \<Rightarrow> receiver \<times> bool \<times> string" where
  "accept r now f =
     (let raw = time_sub now (unix_milli (sint (f_ts f)));
          r2 = track_offset r now raw;
          baseline = min (prevMinOffset r2) (curMinOffset r2)
      in if dur_wrap (raw - baseline) > maxAge r2 then
           (let r3 = (if lateSince r2 = 0 then r2\<lparr>lateSince := now\<rparr> else r2)
            in if time_sub now (lateSince r3) < rebaselineAfter then (r3, False, ''ttl exceeded'')
               else accept_seq (r3\<lparr>prevMinOffset := raw, curMinOffset := raw, windowStart := now,
                                   lateSince := 0\<rparr>) f)
         else accept_seq (r2\<lparr>lateSince := 0\<rparr>) f)"

section \<open>The bitmap is a sliding window\<close>

definition residue :: "u32 \<Rightarrow> int" where
  "residue n = uint n mod 1024"

lemma residue_diff: "residue (x - y) = (uint x - uint y) mod 1024"
proof -
  have "(uint x - uint y) mod 2 ^ 32 mod 1024 = (uint x - uint y) mod 1024"
    by (rule mod_mod_cancel) simp
  then show ?thesis by (simp add: residue_def uint_word_ariths)
qed

lemma residue_behind: "residue m = (uint hi - int (behind hi m)) mod 1024"
  using residue_diff [of hi "hi - m"] by (simp add: behind_def)

lemma behind_inj: "behind hi m = behind hi n \<longleftrightarrow> m = n"
  using word_unat_eq_iff [of "hi - m" "hi - n"] by (auto simp: behind_def)

lemma residue_eq_iff:
  assumes "behind hi m < 1024" "behind hi n < 1024"
  shows "residue m = residue n \<longleftrightarrow> m = n"
proof
  assume "residue m = residue n"
  then have "(uint hi - int (behind hi m)) mod 1024 = (uint hi - int (behind hi n)) mod 1024"
    by (simp only: residue_behind [of m hi] residue_behind [of n hi])
  then have "1024 dvd int (behind hi n) - int (behind hi m)"
    by (simp only: mod_eq_dvd_iff) simp
  then have "behind hi m = behind hi n" using assms dvd_imp_le_int [of "int (behind hi n) - int (behind hi m)" 1024]
    by (cases "behind hi m = behind hi n") auto
  then show "m = n" by (simp add: behind_inj)
qed simp

lemma slot_residue: "slot n = nat (residue n div 64)"
  by (simp add: slot_def residue_def seqWindow_def unat_div_distrib unat_mod_distrib nat_div_distrib
      nat_mod_distrib)

lemma slot_bit_residue: "slot_bit n = nat (residue n mod 64)"
  by (simp add: slot_bit_def residue_def unat_mod_distrib nat_mod_distrib mod_mod_cancel)

lemma residue_bounds: "0 \<le> residue n" "residue n < 1024"
  by (simp_all add: residue_def)

lemma slot_less: "slot n < 16"
  using residue_bounds [of n] by (simp add: slot_residue nat_less_iff)

lemma slot_bit_less: "slot_bit n < 64"
  by (simp add: slot_bit_residue nat_less_iff)

lemma same_slot_iff: "slot m = slot n \<and> slot_bit m = slot_bit n \<longleftrightarrow> residue m = residue n"
proof
  assume "slot m = slot n \<and> slot_bit m = slot_bit n"
  then have "residue m div 64 = residue n div 64" "residue m mod 64 = residue n mod 64"
    using residue_bounds [of m] residue_bounds [of n]
    by (simp_all add: slot_residue slot_bit_residue eq_nat_nat_iff pos_imp_zdiv_nonneg_iff)
  then show "residue m = residue n" by (metis mult_div_mod_eq)
qed (simp add: slot_residue slot_bit_residue)

lemma marked_bit: "marked xs n \<longleftrightarrow> bit (xs ! slot n) (slot_bit n)"
  by (simp add: marked_def bit_iff_and_push_bit_not_eq_0)

lemma length_mark [simp]: "length (mark xs n) = length xs"
  by (simp add: mark_def)

lemma length_unmark [simp]: "length (unmark xs n) = length xs"
  by (simp add: unmark_def)

lemma marked_mark:
  "length xs = 16 \<Longrightarrow> marked (mark xs n) m \<longleftrightarrow> marked xs m \<or> residue m = residue n"
  using slot_less [of n] slot_less [of m] slot_bit_less [of m]
  by (auto simp: marked_bit mark_def nth_list_update bit_or_iff bit_exp_iff
      simp flip: same_slot_iff)

lemma marked_unmark:
  "length xs = 16 \<Longrightarrow> marked (unmark xs n) m \<longleftrightarrow> marked xs m \<and> residue m \<noteq> residue n"
  using slot_less [of n] slot_less [of m] slot_bit_less [of m]
  by (auto simp: marked_bit unmark_def nth_list_update bit_and_iff bit_not_iff bit_exp_iff
      simp flip: same_slot_iff)

lemma length_unmark_ahead [simp]: "length (unmark_ahead xs hi d) = length xs"
  unfolding unmark_ahead_def by (induction d) auto

lemma unmark_ahead_Suc:
  "unmark_ahead xs hi (Suc d) = unmark (unmark_ahead xs hi d) (hi + of_nat (Suc d))"
  by (simp add: unmark_ahead_def)

lemma marked_unmark_ahead:
  "length xs = 16 \<Longrightarrow> marked (unmark_ahead xs hi d) m \<longleftrightarrow>
     marked xs m \<and> (\<forall>i\<in>{1..d}. residue m \<noteq> residue (hi + of_nat i))"
proof (induction d)
  case 0
  then show ?case by (simp add: unmark_ahead_def)
next
  case (Suc d)
  have "{1..Suc d} = insert (Suc d) {1..d}" by auto
  then show ?case using Suc by (auto simp: unmark_ahead_Suc marked_unmark simp del: of_nat_Suc)
qed

lemma marked_zero: "\<not> marked (replicate 16 0) m"
  using slot_less [of m] by (simp add: marked_bit)

section \<open>Refinement of the reference window\<close>

definition window_view :: "receiver \<Rightarrow> dedup_view" where
  "window_view r =
     (if haveTop r then Some (rtop r, {m. behind (rtop r) m < seqWindow \<and> marked (seen r) m}) else None)"

definition receiver_inv :: "receiver \<Rightarrow> bool" where
  "receiver_inv r \<longleftrightarrow> length (seen r) = 16 \<and>
     (if haveTop r then marked (seen r) (rtop r) else seen r = replicate 16 0)"

lemma receiver_inv_new: "receiver_inv (NewReceiver a)"
  by (simp add: receiver_inv_def NewReceiver_def seqWindow_def)

lemma window_view_new: "window_view (NewReceiver a) = None"
  by (simp add: window_view_def NewReceiver_def)

lemma behind_self [simp]: "behind n n = 0"
  by (simp add: behind_def)

lemma unat_pos_sint:
  fixes d :: u32
  assumes "0 < sint d"
  shows "int (unat d) = sint d \<and> unat d < 2 ^ 31"
proof -
  have "sint d < 2 ^ 31" using sint_lt [of d] by simp
  moreover have "uint d = sint d mod 2 ^ 32"
    using uint_sint [of d] by (simp add: take_bit_eq_mod)
  ultimately have "uint d = sint d" using assms by simp
  with \<open>sint d < 2 ^ 31\<close> show ?thesis by (simp flip: uint_nat) (metis int_ops(3) of_nat_less_iff of_nat_numeral uint_nat zless_nat_conj nat_less_iff)
qed

lemma behind_shift: "int (behind hi m) = (int (behind n m) - int (unat (n - hi))) mod 2 ^ 32"
proof -
  have "hi - m = (n - m) - (n - hi)" by simp
  then have "uint (hi - m) = (uint (n - m) - uint (n - hi)) mod 2 ^ 32"
    by (simp only: uint_word_ariths) simp
  then show ?thesis by (simp add: behind_def)
qed

lemma int_mod32_sub:
  fixes a b d :: nat
  assumes "int a = (int b - int d) mod 2 ^ 32" "b < 2 ^ 32" "d < 2 ^ 31"
  shows "d \<le> b \<Longrightarrow> a = b - d" and "b < d \<Longrightarrow> 2 ^ 31 \<le> a" and "a < 2 ^ 31 \<Longrightarrow> b = a + d"
proof -
  have 1: "a = b - d" if "d \<le> b" using assms that by simp
  have 2: "2 ^ 31 \<le> a" if "b < d"
  proof -
    have "(int b - int d) mod 2 ^ 32 = (int b - int d + 2 ^ 32) mod 2 ^ 32" by simp
    also have "\<dots> = int b - int d + 2 ^ 32" using that assms(3) by (intro mod_pos_pos_trivial) auto
    finally show ?thesis using assms by simp
  qed
  show "d \<le> b \<Longrightarrow> a = b - d" "b < d \<Longrightarrow> 2 ^ 31 \<le> a" by (fact 1, fact 2)
  show "b = a + d" if "a < 2 ^ 31" using 1 2 that by (cases "b < d") auto
qed

lemma behind_slide:
  assumes "unat (n - hi) < 2 ^ 31"
  shows "unat (n - hi) \<le> behind n m \<Longrightarrow> behind hi m = behind n m - unat (n - hi)"
    and "behind n m < unat (n - hi) \<Longrightarrow> 2 ^ 31 \<le> behind hi m"
    and "behind hi m < 2 ^ 31 \<Longrightarrow> behind n m = behind hi m + unat (n - hi)"
proof -
  have "behind n m < 2 ^ 32" using unsigned_less [of "n - m"] by (simp add: behind_def)
  note r = int_mod32_sub [OF behind_shift [of hi m n] this assms]
  show "unat (n - hi) \<le> behind n m \<Longrightarrow> behind hi m = behind n m - unat (n - hi)"
    and "behind n m < unat (n - hi) \<Longrightarrow> 2 ^ 31 \<le> behind hi m"
    and "behind hi m < 2 ^ 31 \<Longrightarrow> behind n m = behind hi m + unat (n - hi)"
    by (fact r)+
qed

lemma unmark_window:
  assumes d: "unat (n - hi) < 1024" and b: "behind n m < 1024"
  shows "(\<forall>i\<in>{1..unat (n - hi)}. residue m \<noteq> residue (hi + of_nat i)) \<longleftrightarrow> unat (n - hi) \<le> behind n m"
proof -
  have bi: "behind n (hi + of_nat i) = unat (n - hi) - i" if "i \<le> unat (n - hi)" for i
  proof -
    have "unat ((n - hi) - of_nat i) = unat (n - hi) - i"
      using that d by (subst unat_sub) (auto simp: word_le_nat_alt unat_of_nat)
    then show ?thesis by (simp add: behind_def diff_diff_eq)
  qed
  have eq: "residue m = residue (hi + of_nat i) \<longleftrightarrow> behind n m = unat (n - hi) - i" if "i \<in> {1..unat (n - hi)}" for i
    using residue_eq_iff [of n m "hi + of_nat i"] behind_inj [of n m "hi + of_nat i"] bi [of i] that d b by auto
  show ?thesis
  proof
    assume a: "\<forall>i\<in>{1..unat (n - hi)}. residue m \<noteq> residue (hi + of_nat i)"
    show "unat (n - hi) \<le> behind n m"
    proof (rule ccontr)
      assume "\<not> unat (n - hi) \<le> behind n m"
      then have "unat (n - hi) - behind n m \<in> {1..unat (n - hi)}" by auto
      then have "behind n m \<noteq> unat (n - hi) - (unat (n - hi) - behind n m)"
        using a eq by blast
      then show False using \<open>\<not> unat (n - hi) \<le> behind n m\<close> by simp
    qed
  qed (use eq in force)
qed

lemma slide_window:
  assumes len: "length xs = 16" and d: "0 < sint (n - hi)"
  defines "ys \<equiv> (if int seqWindow \<le> sint (n - hi) then replicate (seqWindow div 64) 0
                 else unmark_ahead xs hi (unat (n - hi)))"
  shows "length ys = 16"
    and "{m. behind n m < seqWindow \<and> marked (mark ys n) m} =
         insert n {m \<in> {m. behind hi m < seqWindow \<and> marked xs m}. behind n m < seqWindow}"
proof -
  let ?D = "unat (n - hi)"
  have D: "int ?D = sint (n - hi)" "?D < 2 ^ 31" using unat_pos_sint [OF d] by auto
  have W: "int seqWindow \<le> sint (n - hi) \<longleftrightarrow> 1024 \<le> ?D"
    unfolding D(1) [symmetric] seqWindow_def of_nat_le_iff ..
  show l: "length ys = 16" using len by (simp add: ys_def seqWindow_def)
  have "behind n m < 1024 \<and> marked (mark ys n) m \<longleftrightarrow>
        m = n \<or> behind hi m < 1024 \<and> marked xs m \<and> behind n m < 1024" for m
  proof (cases "behind n m < 1024")
    case b: True
    have "marked ys m \<longleftrightarrow> behind hi m < 1024 \<and> marked xs m"
    proof (cases "1024 \<le> ?D")
      case True
      then have "ys = replicate 16 0" unfolding ys_def W by (simp add: seqWindow_def)
      then show ?thesis using behind_slide(3) [OF D(2), of m] b True marked_zero by auto
    next
      case False
      then have "ys = unmark_ahead xs hi ?D" unfolding ys_def W by simp
      then have "marked ys m \<longleftrightarrow> marked xs m \<and> ?D \<le> behind n m"
        using unmark_window [of n hi m] b False len by (auto simp: marked_unmark_ahead)
      then show ?thesis
        using behind_slide(1,2) [OF D(2), of m] b False by force
    qed
    then show ?thesis using b residue_eq_iff [of n m n] l by (auto simp: marked_mark)
  qed auto
  then show "{m. behind n m < seqWindow \<and> marked (mark ys n) m} =
         insert n {m \<in> {m. behind hi m < seqWindow \<and> marked xs m}. behind n m < seqWindow}"
    by (auto simp: seqWindow_def)
qed

text \<open>The duplicate filter as the interface sees it: only the sequence number matters.\<close>

definition seq_accept :: "receiver \<Rightarrow> u32 \<Rightarrow> receiver \<times> bool" where
  "seq_accept r n =
     (let (r', ok, reason) = accept_seq r \<lparr>f_seq = n, f_ts = 0, f_payload = []\<rparr> in (r', ok))"

lemma accept_seq_cong: "f_seq f = f_seq g \<Longrightarrow> accept_seq r f = accept_seq r g"
  by (simp add: accept_seq_def Let_def)

lemma seq_accept_eq: "seq_accept r (f_seq f) = (fst (accept_seq r f), fst (snd (accept_seq r f)))"
  using accept_seq_cong [of f "\<lparr>f_seq = f_seq f, f_ts = 0, f_payload = []\<rparr>" r]
  by (simp add: seq_accept_def split: prod.splits)

lemma seq_accept_simps:
  "seq_accept r n =
     (if \<not> haveTop r then (r\<lparr>haveTop := True, rtop := n, seen := mark (seen r) n\<rparr>, True)
      else if 0 < sint (n - rtop r) then
        (r\<lparr>rtop := n,
           seen := mark (if int seqWindow \<le> sint (n - rtop r) then replicate (seqWindow div 64) 0
                         else unmark_ahead (seen r) (rtop r) (unat (n - rtop r))) n\<rparr>, True)
      else if int seqWindow \<le> sint (- (n - rtop r)) \<or> marked (seen r) n then (r, False)
      else (r\<lparr>seen := mark (seen r) n\<rparr>, True))"
  by (simp add: seq_accept_def accept_seq_def Let_def)

text \<open>
  For a number that is not newer, the signed test \<^verbatim>\<open>-d >= seqWindow\<close> agrees with the unsigned
  distance, except at the distance \<open>2\<^sup>3\<^sup>1\<close>, where the bitmap test catches it.
\<close>

lemma not_newer_distance:
  fixes d :: u32
  assumes "\<not> 0 < sint d"
  shows "int seqWindow \<le> sint (- d) \<or> unat (- d) = 2 ^ 31 \<longleftrightarrow> seqWindow \<le> unat (- d)"
proof -
  have lo: "- (2 ^ 31) \<le> sint d" using sint_ge [of d] by simp
  have "- d = word_of_int (- sint d)" by simp
  then have "uint (- d) = (- sint d) mod 2 ^ 32" by (simp only: uint_word_of_int) simp
  then have unat: "unat (- d) = nat (- sint d)" using assms lo by (simp add: unat_eq_nat_uint)
  have "sint (- d) = - sint d" if "sint d \<noteq> - (2 ^ 31)"
    using sint32_word_of_int [of "- sint d"] assms lo that by simp
  then show ?thesis using unat lo by (cases "sint d = - (2 ^ 31)") (auto simp: seqWindow_def)
qed

lemma marked_half_way: "behind hi n = 2 ^ 31 \<Longrightarrow> marked xs n \<longleftrightarrow> marked xs hi"
proof -
  assume "behind hi n = 2 ^ 31"
  then have "residue n = (uint hi - 2 ^ 31) mod 1024" by (simp add: residue_behind [of n hi])
  also have "\<dots> = residue hi"
    by (simp add: residue_def mod_eq_dvd_iff)
  finally show ?thesis by (simp add: marked_bit slot_residue slot_bit_residue)
qed

lemma mark_window:
  assumes "length xs = 16" "behind hi n < seqWindow"
  shows "{m. behind hi m < seqWindow \<and> marked (mark xs n) m}
    = insert n {m. behind hi m < seqWindow \<and> marked xs m}"
  using assms residue_eq_iff [of hi _ n] by (auto simp: marked_mark seqWindow_def)

lemma seq_accept_first:
  assumes "receiver_inv r" "\<not> haveTop r"
  shows "receiver_inv (fst (seq_accept r n))" "window_view (fst (seq_accept r n)) = Some (n, {n})"
    "snd (seq_accept r n)"
proof -
  have "seen r = replicate 16 0" using assms by (simp add: receiver_inv_def)
  then show "receiver_inv (fst (seq_accept r n))" "window_view (fst (seq_accept r n)) = Some (n, {n})"
    "snd (seq_accept r n)"
    using assms residue_eq_iff [of n _ n] marked_zero
    by (auto simp: seq_accept_simps receiver_inv_def window_view_def marked_mark seqWindow_def)
qed

lemma seq_accept_newer:
  assumes "receiver_inv r" "haveTop r" "0 < sint (n - rtop r)"
  shows "receiver_inv (fst (seq_accept r n))" "snd (seq_accept r n)"
    "window_view (fst (seq_accept r n)) =
       Some (n, insert n {m \<in> {m. behind (rtop r) m < seqWindow \<and> marked (seen r) m}. behind n m < seqWindow})"
proof -
  have len: "length (seen r) = 16" using assms by (simp add: receiver_inv_def)
  define ys where "ys = (if int seqWindow \<le> sint (n - rtop r) then replicate (seqWindow div 64) 0
                 else unmark_ahead (seen r) (rtop r) (unat (n - rtop r)))"
  have ys: "length ys = 16"
    "{m. behind n m < seqWindow \<and> marked (mark ys n) m} =
     insert n {m \<in> {m. behind (rtop r) m < seqWindow \<and> marked (seen r) m}. behind n m < seqWindow}"
    unfolding ys_def by (rule slide_window [OF len assms(3)])+
  have sa: "seq_accept r n = (r\<lparr>rtop := n, seen := mark ys n\<rparr>, True)"
    unfolding ys_def using assms by (simp only: seq_accept_simps) simp
  show "receiver_inv (fst (seq_accept r n))" "snd (seq_accept r n)"
    using assms ys(1) by (simp_all add: sa receiver_inv_def marked_mark)
  show "window_view (fst (seq_accept r n)) =
       Some (n, insert n {m \<in> {m. behind (rtop r) m < seqWindow \<and> marked (seen r) m}. behind n m < seqWindow})"
    unfolding ys(2) [symmetric] using assms by (simp add: sa window_view_def)
qed

lemma seq_accept_older:
  assumes "receiver_inv r" "haveTop r" "\<not> 0 < sint (n - rtop r)"
  shows "snd (seq_accept r n) \<longleftrightarrow> behind (rtop r) n < seqWindow \<and> \<not> marked (seen r) n"
    and "receiver_inv (fst (seq_accept r n))"
    and "window_view (fst (seq_accept r n)) =
      (if behind (rtop r) n < seqWindow
       then Some (rtop r, insert n {m. behind (rtop r) m < seqWindow \<and> marked (seen r) m})
       else window_view r)"
proof -
  have inv: "length (seen r) = 16" "marked (seen r) (rtop r)" using assms by (simp_all add: receiver_inv_def)
  have b: "behind (rtop r) n = unat (- (n - rtop r))" by (simp add: behind_def)
  have refuse: "int seqWindow \<le> sint (- (n - rtop r)) \<or> marked (seen r) n
      \<longleftrightarrow> seqWindow \<le> behind (rtop r) n \<or> marked (seen r) n"
    using not_newer_distance [OF assms(3)] marked_half_way [of "rtop r" n "seen r"] inv(2)
    unfolding b by blast
  have sa: "seq_accept r n = (if seqWindow \<le> behind (rtop r) n \<or> marked (seen r) n then (r, False)
      else (r\<lparr>seen := mark (seen r) n\<rparr>, True))"
    using assms refuse by (simp add: seq_accept_simps)
  show "snd (seq_accept r n) \<longleftrightarrow> behind (rtop r) n < seqWindow \<and> \<not> marked (seen r) n"
    by (auto simp: sa)
  show "receiver_inv (fst (seq_accept r n))"
    using assms inv by (simp add: sa receiver_inv_def marked_mark)
  show "window_view (fst (seq_accept r n)) =
      (if behind (rtop r) n < seqWindow
       then Some (rtop r, insert n {m. behind (rtop r) m < seqWindow \<and> marked (seen r) m})
       else window_view r)"
    using assms(2) inv mark_window [of "seen r" "rtop r" n] by (auto simp: sa window_view_def)
qed

interpretation dedup: dedup_filter seq_accept window_view receiver_inv seqWindow
proof
  show "0 < seqWindow" "seqWindow < 2 ^ 31" by (simp_all add: seqWindow_def)
next
  fix r n assume i: "receiver_inv r"
  show "receiver_inv (fst (seq_accept r n))"
    using i seq_accept_first(1) seq_accept_newer(1) seq_accept_older(2) by metis
  consider (first) "\<not> haveTop r" | (newer) "haveTop r" "0 < sint (n - rtop r)"
    | (older) "haveTop r" "\<not> 0 < sint (n - rtop r)" by blast
  then have "window_view (fst (seq_accept r n)) = fst (ref_accept seqWindow (window_view r) n) \<and>
    snd (seq_accept r n) = snd (ref_accept seqWindow (window_view r) n)"
  proof cases
    case first
    then show ?thesis using seq_accept_first [OF i, of n] by (simp add: ref_accept_def window_view_def)
  next
    case newer
    then show ?thesis using seq_accept_newer [OF i, of n]
      by (simp add: ref_accept_def window_view_def [of r])
  next
    case older
    then show ?thesis using seq_accept_older [OF i, of n]
      by (auto simp: ref_accept_def window_view_def [of r] insert_absorb)
  qed
  then show "window_view (fst (seq_accept r n)) = fst (ref_accept seqWindow (window_view r) n)"
    "snd (seq_accept r n) = snd (ref_accept seqWindow (window_view r) n)" by auto
qed

text \<open>C1. \<^verbatim>\<open>AcceptSeq\<close> (bitmap of 1024 bits, int32 distances, wrap-around at \<open>2\<^sup>3\<^sup>2\<close>) refines the
  reference sliding window: on every receiver state the code can reach it delivers exactly the
  numbers that are ahead of the window, or inside it and not delivered before, and the set it
  remembers afterwards is the reference one.\<close>

theorem accept_seq_refines_window:
  assumes "receiver_inv r"
  shows "receiver_inv (fst (accept_seq r f)) \<and>
    ref_accept seqWindow (window_view r) (f_seq f)
      = (window_view (fst (accept_seq r f)), fst (snd (accept_seq r f)))"
  using dedup.accept_inv [OF assms, of "f_seq f"] dedup.accept_view [OF assms, of "f_seq f"]
    dedup.accept_result [OF assms, of "f_seq f"]
  by (simp add: seq_accept_eq prod_eq_iff)

theorem accept_seq_refines_window_witness:
  "ref_accept seqWindow None 7 =
     (window_view (fst (accept_seq (NewReceiver 0) \<lparr>f_seq = 7, f_ts = 0, f_payload = []\<rparr>)), True)"
  using accept_seq_refines_window [OF receiver_inv_new [of 0], of "\<lparr>f_seq = 7, f_ts = 0, f_payload = []\<rparr>"]
  by (simp add: window_view_new ref_accept_def)

section \<open>Delivery with the age check\<close>

text \<open>A frame is checked with \<open>accept\<close> (\<open>Some now\<close>) or, for pings, with \<open>accept_seq\<close> (\<open>None\<close>).\<close>

definition recv_step :: "receiver \<Rightarrow> time option \<Rightarrow> frame \<Rightarrow> receiver \<times> bool \<times> string" where
  "recv_step r tm f = (case tm of None \<Rightarrow> accept_seq r f | Some now \<Rightarrow> accept r now f)"

primrec deliver :: "receiver \<Rightarrow> ('k \<times> time option \<times> frame) list \<Rightarrow> 'k list" where
  "deliver r [] = []"
| "deliver r (a # as) =
     (case recv_step r (fst (snd a)) (snd (snd a)) of
        (r', ok, reason) \<Rightarrow> if ok then fst a # deliver r' as else deliver r' as)"

definition same_window :: "receiver \<Rightarrow> receiver \<Rightarrow> bool" where
  "same_window r s \<longleftrightarrow> haveTop r = haveTop s \<and> rtop r = rtop s \<and> seen r = seen s"

lemma same_window_view: "same_window r s \<Longrightarrow> window_view r = window_view s"
  by (simp add: same_window_def window_view_def)

lemma same_window_inv: "same_window r s \<Longrightarrow> receiver_inv r = receiver_inv s"
  by (simp add: same_window_def receiver_inv_def)

lemma accept_seq_reason: "snd (snd (accept_seq r f)) \<noteq> ''ttl exceeded''"
  by (auto simp: accept_seq_def Let_def)

text \<open>A frame dropped for its age leaves the duplicate window alone.\<close>

lemma track_offset_frame [simp]:
  "haveTop (track_offset r now raw) = haveTop r" "rtop (track_offset r now raw) = rtop r"
  "seen (track_offset r now raw) = seen r" "lateSince (track_offset r now raw) = lateSince r"
  "maxAge (track_offset r now raw) = maxAge r"
  by (simp_all add: track_offset_def Let_def)

lemma accept_cases:
  obtains (late) r' where "accept r now f = (r', False, ''ttl exceeded'')" "same_window r' r"
      "lateSince r' = (if lateSince r = 0 then now else lateSince r)"
      "time_sub now (lateSince r') < rebaselineAfter"
  | (fresh) r' where "same_window r' r" "lateSince r' = 0" "accept r now f = accept_seq r' f"
proof -
  define raw where "raw = time_sub now (unix_milli (sint (f_ts f)))"
  define r2 where "r2 = track_offset r now raw"
  define r3 where "r3 = (if lateSince r2 = 0 then r2\<lparr>lateSince := now\<rparr> else r2)"
  define old where "old \<longleftrightarrow> dur_wrap (raw - min (prevMinOffset r2) (curMinOffset r2)) > maxAge r2"
  have eq: "accept r now f =
     (if old then
        if time_sub now (lateSince r3) < rebaselineAfter then (r3, False, ''ttl exceeded'')
        else accept_seq (r3\<lparr>prevMinOffset := raw, curMinOffset := raw, windowStart := now, lateSince := 0\<rparr>) f
      else accept_seq (r2\<lparr>lateSince := 0\<rparr>) f)"
    unfolding accept_def Let_def raw_def r2_def r3_def old_def by (rule refl)
  have w: "same_window r2 r" "same_window r3 r" "lateSince r2 = lateSince r"
    by (simp_all add: r2_def r3_def same_window_def)
  have l: "lateSince r3 = (if lateSince r = 0 then now else lateSince r)" by (simp add: r3_def r2_def)
  consider "old" "time_sub now (lateSince r3) < rebaselineAfter"
    | "old" "\<not> time_sub now (lateSince r3) < rebaselineAfter" | "\<not> old" by blast
  then show thesis
  proof cases
    case 1
    then show ?thesis using w l by (intro late [of r3]) (simp_all only: eq if_True)
  next
    case 2
    then show ?thesis
      using fresh [of "r3\<lparr>prevMinOffset := raw, curMinOffset := raw, windowStart := now, lateSince := 0\<rparr>"] w
      by (simp add: eq same_window_def)
  next
    case 3
    then show ?thesis using fresh [of "r2\<lparr>lateSince := 0\<rparr>"] w by (simp add: eq same_window_def)
  qed
qed

lemma tracks_cong: "same_window r s \<Longrightarrow> dedup.tracks r A N = dedup.tracks s A N"
  by (simp add: dedup.tracks_def same_window_view same_window_inv)

lemma recv_step_cases:
  obtains (late) "\<not> fst (snd (recv_step r tm f))" "same_window (fst (recv_step r tm f)) r"
  | (fresh) r' where "same_window r' r"
      "fst (recv_step r tm f) = fst (seq_accept r' (f_seq f))"
      "fst (snd (recv_step r tm f)) = snd (seq_accept r' (f_seq f))"
proof (cases tm)
  case None
  then show thesis using that(2) [of r] by (simp add: recv_step_def seq_accept_eq same_window_def)
next
  case (Some now)
  show thesis
  proof (cases rule: accept_cases [where r = r and now = now and f = f])
    case (late r')
    then show ?thesis using that(1) Some by (simp add: recv_step_def)
  next
    case (fresh r')
    then show ?thesis using that(2) [of r'] Some by (simp add: recv_step_def seq_accept_eq)
  qed
qed

definition numbered :: "nat set \<Rightarrow> (nat \<times> time option \<times> frame) list \<Rightarrow> bool" where
  "numbered K as \<longleftrightarrow> (\<forall>(k, tm, f)\<in>set as. k \<in> K \<and> f_seq f = of_nat k)"

definition close_set :: "nat set \<Rightarrow> bool" where
  "close_set K \<longleftrightarrow> (\<forall>a\<in>K. \<forall>b\<in>K. \<bar>int a - int b\<bar> < 2 ^ 31)"

text \<open>The receiver remembers that the numbers in \<open>A\<close> were delivered (a fresh one: none).\<close>

definition remembers :: "receiver \<Rightarrow> nat set \<Rightarrow> bool" where
  "remembers r A \<longleftrightarrow> (A = {} \<and> receiver_inv r \<and> window_view r = None) \<or> (\<exists>N. dedup.tracks r A N)"

lemma remembers_new [simp]: "remembers (NewReceiver age) {}"
  by (simp add: remembers_def receiver_inv_new window_view_new)

lemma remembers_cong: "same_window r s \<Longrightarrow> remembers r A = remembers s A"
  by (simp add: remembers_def tracks_cong same_window_view same_window_inv)

lemma remembers_seq:
  assumes c: "close_set K" and k: "k \<in> K" and A: "A \<subseteq> K" and r: "remembers r A"
  shows "\<exists>B. remembers (fst (seq_accept r (of_nat k))) B \<and> A \<subseteq> B \<and> B \<subseteq> insert k A \<and>
     (snd (seq_accept r (of_nat k)) \<longrightarrow> k \<notin> A \<and> k \<in> B)"
proof (cases "\<exists>N. dedup.tracks r A N")
  case False
  then have "receiver_inv r" "window_view r = None" "A = {}" using r by (auto simp: remembers_def)
  from dedup.tracks_first [OF this(1,2), of k] this(3) show ?thesis
    by (intro exI [of _ "{k}"]) (auto simp: remembers_def)
next
  case True
  then obtain N where t: "dedup.tracks r A N" by blast
  then have "N \<in> K" using A by (auto simp: dedup.tracks_def)
  then have near: "\<bar>int k - int N\<bar> < 2 ^ 31" using c k by (simp add: close_set_def)
  show ?thesis
  proof (cases "N < k")
    case True
    have "k \<notin> A" using t True by (auto simp: dedup.tracks_def)
    then show ?thesis using dedup.tracks_newer [OF t True] near unfolding abs_less_iff
      by (intro exI [of _ "insert k A"]) (auto simp: remembers_def)
  next
    case False
    then show ?thesis using dedup.tracks_older [OF t, of k] near
      by (intro exI [of _ "if N < k + seqWindow then insert k A else A"]) (auto simp: remembers_def)
  qed
qed

lemma remembers_step:
  assumes "close_set K" "k \<in> K" "f_seq f = of_nat k" "A \<subseteq> K" "remembers r A"
  shows "\<exists>B. remembers (fst (recv_step r tm f)) B \<and> A \<subseteq> B \<and> B \<subseteq> insert k A \<and>
     (fst (snd (recv_step r tm f)) \<longrightarrow> k \<notin> A \<and> k \<in> B)"
proof (cases rule: recv_step_cases [where r = r and tm = tm and f = f])
  case late
  then show ?thesis using assms remembers_cong by (intro exI [of _ A]) auto
next
  case (fresh r')
  then show ?thesis using remembers_seq [OF assms(1,2,4), of r'] assms remembers_cong by simp
qed

lemma deliver_distinct_from:
  assumes "close_set K"
  shows "remembers r A \<Longrightarrow> A \<subseteq> K \<Longrightarrow> numbered K as \<Longrightarrow>
    distinct (deliver r as) \<and> set (deliver r as) \<inter> A = {}"
proof (induction as arbitrary: r A)
  case (Cons a as)
  obtain k tm f where a: "a = (k, tm, f)" by (cases a)
  from Cons.prems a have k: "k \<in> K" "f_seq f = of_nat k" and as: "numbered K as" by (auto simp: numbered_def)
  from remembers_step [OF assms k Cons.prems(2,1), of tm] obtain B where
    B: "remembers (fst (recv_step r tm f)) B" "A \<subseteq> B" "B \<subseteq> insert k A"
    "fst (snd (recv_step r tm f)) \<longrightarrow> k \<notin> A \<and> k \<in> B" by blast
  have "B \<subseteq> K" using B(3) k(1) Cons.prems(2) by auto
  from Cons.IH [OF B(1) this as] B(2,4) show ?case by (auto simp: a case_prod_beta)
qed simp

lemma deliver_distinct:
  "close_set K \<Longrightarrow> numbered K as \<Longrightarrow> distinct (deliver (NewReceiver age) as)"
  using deliver_distinct_from [of K "NewReceiver age" "{}" as] by simp

text \<open>C14. At most once: a fresh receiver never delivers the same frame twice, however many copies
  arrive, in whatever order, mixed with late frames and pings (checked without the age test).
  Frames are numbered by the sender without wrap-around; the sequence field is the number modulo
  \<open>2\<^sup>3\<^sup>2\<close>, and the numbers in play stay less than \<open>2\<^sup>3\<^sup>1\<close> apart.\<close>

theorem deliver_at_most_once:
  assumes "close_set K" "numbered K as"
  shows "distinct (deliver (NewReceiver age) as)"
  using assms by (rule deliver_distinct)

theorem deliver_at_most_once_witness:
  "distinct (deliver (NewReceiver 0)
     [(3::nat, None, \<lparr>f_seq = 3, f_ts = 0, f_payload = []\<rparr>), (5, None, \<lparr>f_seq = 5, f_ts = 0, f_payload = []\<rparr>),
      (3, None, \<lparr>f_seq = 3, f_ts = 0, f_payload = []\<rparr>)])"
  by (rule deliver_at_most_once [where K = "{3, 5}"]) (simp_all add: close_set_def numbered_def)

text \<open>A sender may marshal frames back to back, in one write or in many: the reader's loop gets
  exactly the same frames, in order, and leaves the rest of the stream untouched.\<close>

theorem frames_read_back:
  assumes "list_all fits fs"
  shows "read_many read_frame (length fs) (concat (map marshal fs) @ rest, e) = Inr (fs, (rest, e))"
  using assms by (rule frames.read_batch)

theorem frames_read_back_witness:
  "read_many read_frame 2
     (concat (map marshal [\<lparr>f_seq = 1, f_ts = 2, f_payload = [7]\<rparr>, \<lparr>f_seq = 2, f_ts = 9, f_payload = []\<rparr>]) @ [], EOF)
     = Inr ([\<lparr>f_seq = 1, f_ts = 2, f_payload = [7]\<rparr>, \<lparr>f_seq = 2, f_ts = 9, f_payload = []\<rparr>], ([], EOF))"
  using frames_read_back [of "[\<lparr>f_seq = 1, f_ts = 2, f_payload = [7]\<rparr>, \<lparr>f_seq = 2, f_ts = 9, f_payload = []\<rparr>]" "[]" EOF]
  by (simp add: fits_def MaxPayload_def numeral_2_eq_2 del: read_many.simps)

section \<open>A clock that jumped is forgotten after a second\<close>

primrec verdicts :: "receiver \<Rightarrow> (time \<times> frame) list \<Rightarrow> (bool \<times> string) list" where
  "verdicts r [] = []"
| "verdicts r (a # as) = (case accept r (fst a) (snd a) of (r', v) \<Rightarrow> v # verdicts r' as)"

lemma accept_late:
  assumes "snd (accept r now f) = (False, ''ttl exceeded'')"
  shows "lateSince (fst (accept r now f)) = (if lateSince r = 0 then now else lateSince r)"
    and "now - lateSince (fst (accept r now f)) < rebaselineAfter"
proof -
  show "lateSince (fst (accept r now f)) = (if lateSince r = 0 then now else lateSince r)"
    using assms accept_seq_reason by (cases rule: accept_cases [where r = r and now = now and f = f]) (auto simp: prod_eq_iff)
  show "now - lateSince (fst (accept r now f)) < rebaselineAfter"
    using assms accept_seq_reason time_sub_ge [of rebaselineAfter now "lateSince (fst (accept r now f))"]
    by (cases rule: accept_cases [where r = r and now = now and f = f])
      (auto simp: prod_eq_iff rebaselineAfter_def sec_def)
qed

lemma late_streak_from:
  assumes "lateSince r = t0" "t0 \<noteq> 0"
  shows "\<forall>v\<in>set (verdicts r as). v = (False, ''ttl exceeded'') \<Longrightarrow>
    \<forall>a\<in>set as. fst a - t0 < rebaselineAfter"
  using assms
proof (induction as arbitrary: r)
  case (Cons a as)
  have "snd (accept r (fst a) (snd a)) = (False, ''ttl exceeded'')"
    using Cons.prems by (auto simp: case_prod_beta)
  note l = accept_late [OF this]
  show ?case using Cons.IH [of "fst (accept r (fst a) (snd a))"] Cons.prems l
    by (auto simp: case_prod_beta)
qed simp

text \<open>Recovery: once frames start to be dropped for their age, an uninterrupted run of such drops
  lasts less than \<^verbatim>\<open>rebaselineAfter\<close> (one second); the frame that arrives later is judged by its
  sequence number alone, with a new baseline.\<close>

theorem late_streak_bounded:
  assumes "lateSince r = 0" "\<forall>v\<in>set (verdicts r ((t0, g) # as)). v = (False, ''ttl exceeded'')" "t0 \<noteq> 0"
  shows "\<forall>a\<in>set as. fst a - t0 < rebaselineAfter"
proof -
  have "snd (accept r t0 g) = (False, ''ttl exceeded'')" using assms(2) by (auto simp: case_prod_beta)
  from accept_late(1) [OF this] assms show ?thesis
    by (intro late_streak_from [of "fst (accept r t0 g)"]) (auto simp: case_prod_beta)
qed

theorem late_streak_bounded_witness:
  "unix_epoch + 400 * ms - (unix_epoch + 300 * ms) < rebaselineAfter"
proof -
  let ?f = "\<lparr>f_seq = 2, f_ts = 0, f_payload = []\<rparr>"
  let ?r = "(NewReceiver (100 * ms))\<lparr>haveOffset := True, windowStart := unix_epoch\<rparr>"
  have "\<forall>a\<in>set [(unix_epoch + 400 * ms, ?f)]. fst a - (unix_epoch + 300 * ms) < rebaselineAfter"
    by (rule late_streak_bounded [where r = ?r and g = ?f]) (code_simp, code_simp, code_simp)
  then show ?thesis by simp
qed

end
