(* ===== verification/Sched.thy ===== *)
theory Sched
  imports Contracts
begin

unbundle bit_operations_syntax

text \<open>
  internal/sched/flow.go and internal/sched/fq.go: the flow key of a packet and the FQ-CoDel
  scheduler (RFC 8290, RFC 8289) in front of the tunnel's writers.

  A \<open>flow\<close> is kept in the map \<open>flows\<close> under its bucket; the two linked lists hold buckets, and
  \<open>linked\<close> stands for \<^verbatim>\<open>elem != nil\<close>. An operation on one flow takes the flow out of the map,
  works on it and writes it back with \<open>put_flow\<close>. The seeded hash (maphash) is the argument
  \<open>hash\<close>; every reading of the clock inside one locked call comes from the argument \<open>clock\<close>,
  \<open>clock 0\<close> first.
\<close>

section \<open>The flow of a packet\<close>

record flowkey =
  fk_proto :: byte
  fk_src :: bytes
  fk_dst :: bytes
  fk_sport :: u16
  fk_dport :: u16

definition zero_key :: flowkey where
  "zero_key = \<lparr>fk_proto = 0, fk_src = [0, 0, 0, 0], fk_dst = [0, 0, 0, 0], fk_sport = 0, fk_dport = 0\<rparr>"

definition FlowOf :: "bytes \<Rightarrow> flowkey" where
  "FlowOf pkt =
     (if length pkt < 20 \<or> drop_bit 4 (pkt ! 0) \<noteq> 4 then zero_key
      else
        let k = zero_key\<lparr>fk_proto := pkt ! 9, fk_src := slice 12 16 pkt, fk_dst := slice 16 20 pkt\<rparr>;
            fragmented = (get16 (slice 6 8 pkt) AND 0x3FFF \<noteq> 0);
            ihl = unat (pkt ! 0 AND 0x0F) * 4
        in if \<not> fragmented \<and> (fk_proto k = 6 \<or> fk_proto k = 17) \<and> 20 \<le> ihl \<and> ihl + 4 \<le> length pkt
           then k\<lparr>fk_sport := get16 (slice ihl (ihl + 2) pkt), fk_dport := get16 (slice (ihl + 2) (ihl + 4) pkt)\<rparr>
           else k)"

section \<open>Data\<close>

record config =
  quantum :: int
  limit_bytes :: int
  target :: duration
  interval :: duration

definition defaultQuantum :: int where "defaultQuantum = 1514"
definition defaultLimitBytes :: int where "defaultLimitBytes = 2 * 2 ^ 20"
definition defaultTarget :: duration where "defaultTarget = 5 * ms"
definition defaultInterval :: duration where "defaultInterval = 100 * ms"
definition maxPacket :: int where "maxPacket = 1514"
definition flowBuckets :: u64 where "flowBuckets = 1024"

record stats =
  enqueued :: u64
  dequeued :: u64
  codel_drops :: u64
  overflow_drops :: u64
  queued_bytes :: int
  active_flows :: nat

record packet =
  p_data :: bytes
  p_enq :: time

record codel_state =
  firstAboveTime :: time
  dropNext :: time
  ccount :: u32
  lastCount :: u32
  dropping :: bool

record flow =
  bucket :: u32
  fq :: "packet list"
  fbytes :: int
  deficit :: int
  linked :: bool
  inNew :: bool
  codel :: codel_state

record scheduler =
  cfg :: config
  flows :: "(u32, flow) fmap"
  newFlows :: "u32 list"
  oldFlows :: "u32 list"
  total :: int
  closed :: bool
  sstats :: stats

definition zero_stats :: stats where
  "zero_stats = \<lparr>enqueued = 0, dequeued = 0, codel_drops = 0, overflow_drops = 0, queued_bytes = 0, active_flows = 0\<rparr>"

definition zero_codel :: codel_state where
  "zero_codel = \<lparr>firstAboveTime = 0, dropNext = 0, ccount = 0, lastCount = 0, dropping = False\<rparr>"

definition new_flow :: "u32 \<Rightarrow> flow" where
  "new_flow b = \<lparr>bucket = b, fq = [], fbytes = 0, deficit = 0, linked = False, inNew = False, codel = zero_codel\<rparr>"

definition New :: "config \<Rightarrow> scheduler" where
  "New c =
     (let c1 = (if quantum c \<le> 0 then c\<lparr>quantum := defaultQuantum\<rparr> else c);
          c2 = (if limit_bytes c1 \<le> 0 then c1\<lparr>limit_bytes := defaultLimitBytes\<rparr> else c1);
          c3 = (if target c2 \<le> 0 then c2\<lparr>target := defaultTarget\<rparr> else c2);
          c4 = (if interval c3 \<le> 0 then c3\<lparr>interval := defaultInterval\<rparr> else c3)
      in \<lparr>cfg = c4, flows = fmempty, newFlows = [], oldFlows = [], total = 0, closed = False,
          sstats = zero_stats\<rparr>)"

section \<open>Queues and CoDel\<close>

definition plen :: "packet \<Rightarrow> int" where "plen p = int (length (p_data p))"

definition put_flow :: "scheduler \<Rightarrow> flow \<Rightarrow> scheduler" where
  "put_flow s f = s\<lparr>flows := fmupd (bucket f) f (flows s)\<rparr>"

definition key_bytes :: "flowkey \<Rightarrow> bytes" where
  "key_bytes k = [fk_proto k] @ fk_src k @ fk_dst k @ put16 (fk_sport k) @ put16 (fk_dport k)"

definition bucketOf :: "(bytes \<Rightarrow> u64) \<Rightarrow> flowkey \<Rightarrow> u32" where
  "bucketOf hash k = ucast (hash (key_bytes k) mod flowBuckets)"

text \<open>Both callers have checked that the queue is not empty.\<close>

definition popHead :: "scheduler \<Rightarrow> flow \<Rightarrow> packet \<times> scheduler \<times> flow" where
  "popHead s f =
     (let p = hd (fq f)
      in (p, s\<lparr>total := total s - plen p\<rparr>, f\<lparr>fq := tl (fq f), fbytes := fbytes f - plen p\<rparr>))"

text \<open>
  \<^verbatim>\<open>interval / sqrt(count)\<close>, truncated to nanoseconds: the greatest \<open>d\<close> with
  \<open>d\<^sup>2 * count \<le> interval\<^sup>2\<close> (see \<open>control_gap\<close>). The code computes it in float64, which may
  differ in the last nanosecond; for a count of 0 (after \<open>2\<^sup>3\<^sup>2\<close> drops in a row) it converts
  an infinity, for which amd64 gives the least int64.
\<close>

function isqrt :: "nat \<Rightarrow> nat" where
  "isqrt n =
     (if n = 0 then 0
      else let r = 2 * isqrt (n div 4) in if (r + 1) * (r + 1) \<le> n then r + 1 else r)"
  by pat_completeness auto
termination by (relation "measure id") auto

declare isqrt.simps [simp del]

definition controlLaw :: "time \<Rightarrow> u32 \<Rightarrow> duration \<Rightarrow> time" where
  "controlLaw t count ivl =
     t + (if count = 0 then - (2 ^ 63) else int (isqrt (nat (ivl * ivl) div unat count)))"

text \<open>\<open>None\<close> is \<^verbatim>\<open>have == false\<close>.\<close>

definition doDequeue :: "scheduler \<Rightarrow> flow \<Rightarrow> time \<Rightarrow> scheduler \<times> flow \<times> packet option \<times> bool" where
  "doDequeue s f now =
     (if fq f = [] then (s, f\<lparr>codel := (codel f)\<lparr>firstAboveTime := 0\<rparr>\<rparr>, None, False)
      else case popHead s f of (p, s1, f1) \<Rightarrow>
        if time_sub now (p_enq p) < target (cfg s1) \<or> fbytes f1 \<le> maxPacket then
          (s1, f1\<lparr>codel := (codel f1)\<lparr>firstAboveTime := 0\<rparr>\<rparr>, Some p, False)
        else if firstAboveTime (codel f1) = 0 then
          (s1, f1\<lparr>codel := (codel f1)\<lparr>firstAboveTime := now + interval (cfg s1)\<rparr>\<rparr>, Some p, False)
        else (s1, f1, Some p, firstAboveTime (codel f1) \<le> now))"

definition count_codel_drop :: "scheduler \<Rightarrow> scheduler" where
  "count_codel_drop s = s\<lparr>sstats := (sstats s)\<lparr>codel_drops := codel_drops (sstats s) + 1\<rparr>\<rparr>"

definition set_dropping :: "bool \<Rightarrow> flow \<Rightarrow> flow" where
  "set_dropping b f = f\<lparr>codel := (codel f)\<lparr>dropping := b\<rparr>\<rparr>"

text \<open>One turn of the drop loop of \<^verbatim>\<open>codelDequeue\<close>.\<close>

definition drop_turn :: "scheduler \<Rightarrow> flow \<Rightarrow> time \<Rightarrow> scheduler \<times> flow \<times> packet option \<times> bool" where
  "drop_turn s f now =
     (case doDequeue (count_codel_drop s) (f\<lparr>codel := (codel f)\<lparr>ccount := ccount (codel f) + 1\<rparr>\<rparr>) now of
        (s1, f1, p, ok) \<Rightarrow>
          if \<not> ok then (s1, set_dropping False f1, p, ok)
          else (s1, f1\<lparr>codel := (codel f1)\<lparr>dropNext :=
                        controlLaw (dropNext (codel f1)) (ccount (codel f1)) (interval (cfg s1))\<rparr>\<rparr>, p, ok))"

lemma drop_turn_shrinks:
  "drop_turn s f now = (s1, f1, p, ok) \<Longrightarrow> dropping (codel f) \<Longrightarrow>
     2 * length (fq f1) + (if dropping (codel f1) then 1 else 0) < 2 * length (fq f) + 1"
  by (auto simp: drop_turn_def doDequeue_def popHead_def set_dropping_def Let_def
      split: prod.splits if_splits)

function drop_loop :: "scheduler \<Rightarrow> flow \<Rightarrow> packet option \<Rightarrow> time \<Rightarrow> scheduler \<times> flow \<times> packet option" where
  "drop_loop s f p now =
     (if dropping (codel f) \<and> dropNext (codel f) \<le> now
      then (case drop_turn s f now of (s1, f1, p1, ok) \<Rightarrow> drop_loop s1 f1 p1 now)
      else (s, f, p))"
  by pat_completeness auto
termination
  by (relation "measure (\<lambda>(s, f, p, now). 2 * length (fq f) + (if dropping (codel f) then 1 else 0))")
    (auto dest: drop_turn_shrinks [OF sym])

declare drop_loop.simps [simp del]

text \<open>The control state when a dropping phase starts.\<close>

definition start_dropping :: "scheduler \<Rightarrow> flow \<Rightarrow> time \<Rightarrow> flow" where
  "start_dropping s f now =
     (let c = codel f;
          delta = ccount c - lastCount c;
          n = (if 1 < delta \<and> time_sub now (dropNext c) < 16 * interval (cfg s) then delta else 1)
      in f\<lparr>codel := c\<lparr>dropping := True, ccount := n, dropNext := controlLaw now n (interval (cfg s)),
                     lastCount := n\<rparr>\<rparr>)"

definition codelDequeue :: "scheduler \<Rightarrow> flow \<Rightarrow> time \<Rightarrow> scheduler \<times> flow \<times> bytes option" where
  "codelDequeue s f now =
     (case doDequeue s f now of (s1, f1, p, ok) \<Rightarrow>
        (case (if dropping (codel f1) then
                 drop_loop s1 (if ok then f1 else set_dropping False f1) p now
               else if ok then
                 (case doDequeue (count_codel_drop s1) f1 now of
                    (s2, f2, p2, ok2) \<Rightarrow> (s2, start_dropping s2 f2 now, p2))
               else (s1, f1, p)) of
           (s3, f3, p3) \<Rightarrow> (s3, f3, map_option p_data p3)))"

section \<open>The scheduler's operations\<close>

definition unlink :: "scheduler \<Rightarrow> flow \<Rightarrow> scheduler" where
  "unlink s f =
     (if inNew f then s\<lparr>newFlows := remove1 (bucket f) (newFlows s)\<rparr>
      else s\<lparr>oldFlows := remove1 (bucket f) (oldFlows s)\<rparr>)"

definition moveToOld :: "scheduler \<Rightarrow> flow \<Rightarrow> scheduler" where
  "moveToOld s f =
     (let s1 = unlink s f
      in put_flow (s1\<lparr>oldFlows := oldFlows s1 @ [bucket f]\<rparr>) (f\<lparr>linked := True, inNew := False\<rparr>))"

definition deactivate :: "scheduler \<Rightarrow> flow \<Rightarrow> scheduler" where
  "deactivate s f = (let s1 = unlink s f in s1\<lparr>flows := fmdrop (bucket f) (flows s1)\<rparr>)"

text \<open>The flow with most bytes queued; a tie goes to the one met first.\<close>

definition fatter :: "(u32, flow) fmap \<Rightarrow> flow option \<Rightarrow> u32 \<Rightarrow> flow option" where
  "fatter m fat b =
     (case fmlookup m b of
        None \<Rightarrow> fat
      | Some f \<Rightarrow>
          if fq f \<noteq> [] \<and> (case fat of None \<Rightarrow> True | Some g \<Rightarrow> fbytes g < fbytes f) then Some f else fat)"

definition fattest :: "u32 list \<Rightarrow> (u32, flow) fmap \<Rightarrow> flow option" where
  "fattest ord m = foldl (fatter m) None ord"

definition count_overflow :: "scheduler \<Rightarrow> scheduler" where
  "count_overflow s = s\<lparr>sstats := (sstats s)\<lparr>overflow_drops := overflow_drops (sstats s) + 1\<rparr>\<rparr>"

definition dropFromFattest :: "((u32, flow) fmap \<Rightarrow> u32 list) \<Rightarrow> scheduler \<Rightarrow> scheduler \<times> bool" where
  "dropFromFattest ord s =
     (case fattest (ord (flows s)) (flows s) of
        None \<Rightarrow> (s, False)
      | Some f \<Rightarrow> (case popHead s f of (p, s1, f1) \<Rightarrow> (count_overflow (put_flow s1 f1), True)))"

definition queued :: "scheduler \<Rightarrow> nat" where
  "queued s = fmsum (\<lambda>f. length (fq f)) (flows s)"

text \<open>The chosen flow is one of the map, has a packet, and no flow of the order has more bytes.\<close>

definition nonempty_in :: "(u32, flow) fmap \<Rightarrow> flow \<Rightarrow> bool" where
  "nonempty_in m f \<longleftrightarrow> fq f \<noteq> [] \<and> (\<exists>b. fmlookup m b = Some f)"

lemma fatter_fold_mono:
  "foldl (fatter m) (Some f) bs \<noteq> None \<and> (\<forall>g. foldl (fatter m) (Some f) bs = Some g \<longrightarrow> fbytes f \<le> fbytes g)"
proof (induction bs arbitrary: f)
  case (Cons b bs)
  have "\<exists>g. fatter m (Some f) b = Some g \<and> fbytes f \<le> fbytes g" by (auto simp: fatter_def split: option.splits)
  then show ?case using Cons.IH by (auto intro: order_trans)
qed simp

lemma fatter_fold_in:
  "(\<forall>f. fat = Some f \<longrightarrow> nonempty_in m f) \<Longrightarrow> foldl (fatter m) fat bs = Some g \<Longrightarrow> nonempty_in m g"
proof (induction bs arbitrary: fat)
  case (Cons b bs)
  have "\<forall>f. fatter m fat b = Some f \<longrightarrow> nonempty_in m f"
    using Cons.prems(1) by (auto simp: fatter_def nonempty_in_def split: option.splits if_splits)
  then show ?case using Cons by simp
qed simp

lemma fatter_fold_max:
  "b \<in> set bs \<Longrightarrow> fmlookup m b = Some f \<Longrightarrow> fq f \<noteq> [] \<Longrightarrow>
   \<exists>g. foldl (fatter m) fat bs = Some g \<and> fbytes f \<le> fbytes g"
proof (induction bs arbitrary: fat)
  case (Cons c bs)
  show ?case
  proof (cases "c = b")
    case True
    have "\<exists>h. fatter m fat b = Some h \<and> fbytes f \<le> fbytes h"
      using Cons.prems by (cases fat) (auto simp: fatter_def)
    then obtain h where "fatter m fat b = Some h" "fbytes f \<le> fbytes h" by blast
    then show ?thesis using fatter_fold_mono [of m h bs] True by (auto intro: order_trans)
  next
    case False
    then show ?thesis using Cons by auto
  qed
qed simp

lemma fattest_Some:
  assumes "fattest bs m = Some g"
  shows "nonempty_in m g"
    "b \<in> set bs \<Longrightarrow> fmlookup m b = Some f \<Longrightarrow> fq f \<noteq> [] \<Longrightarrow> fbytes f \<le> fbytes g"
  using fatter_fold_in [of None m bs g] fatter_fold_max [of b bs m f None] assms by (auto simp: fattest_def)

lemma fattest_None:
  "fattest bs m = None \<Longrightarrow> b \<in> set bs \<Longrightarrow> fmlookup m b = Some f \<Longrightarrow> fq f = []"
  using fatter_fold_max [of b bs m f None] by (auto simp: fattest_def)

text \<open>The flows of the map are filed under their own bucket (part of the invariant).\<close>

definition filed :: "scheduler \<Rightarrow> bool" where
  "filed s \<longleftrightarrow> (\<forall>b f. fmlookup (flows s) b = Some f \<longrightarrow> bucket f = b)"

definition drop_ready :: "((u32, flow) fmap \<Rightarrow> u32 list) \<Rightarrow> scheduler \<Rightarrow> bool" where
  "drop_ready ord s \<longleftrightarrow> limit_bytes (cfg s) < total s \<and> snd (dropFromFattest ord s)"

text \<open>
  \<^verbatim>\<open>for s.total > limit && s.dropFromFattest() {}\<close>. The failing call of the loop condition
  changes nothing; \<open>None\<close> would be a loop that never ends.
\<close>

partial_function (option) trim :: "((u32, flow) fmap \<Rightarrow> u32 list) \<Rightarrow> scheduler \<Rightarrow> scheduler option" where
  "trim ord s = (if drop_ready ord s then trim ord (fst (dropFromFattest ord s)) else Some s)"

definition Enqueue ::
  "(bytes \<Rightarrow> u64) \<Rightarrow> ((u32, flow) fmap \<Rightarrow> u32 list) \<Rightarrow> scheduler \<Rightarrow> flowkey \<Rightarrow> bytes \<Rightarrow> time \<Rightarrow> scheduler option" where
  "Enqueue hash ord s key d now =
     (if closed s then Some s
      else
        let b = bucketOf hash key;
            f = (case fmlookup (flows s) b of Some f \<Rightarrow> f | None \<Rightarrow> new_flow b);
            f1 = f\<lparr>fq := fq f @ [\<lparr>p_data = d, p_enq = now\<rparr>], fbytes := fbytes f + int (length d)\<rparr>;
            s1 = s\<lparr>total := total s + int (length d),
                   sstats := (sstats s)\<lparr>enqueued := enqueued (sstats s) + 1\<rparr>\<rparr>;
            s2 = (if \<not> linked f1
                  then put_flow (s1\<lparr>newFlows := newFlows s1 @ [b]\<rparr>)
                         (f1\<lparr>deficit := quantum (cfg s1), linked := True, inNew := True\<rparr>)
                  else put_flow s1 f1)
        in trim ord s2)"

text \<open>
  One turn of \<^verbatim>\<open>dequeueLocked\<close>: \<open>Inl\<close> continues, \<open>Inr\<close> returns. A list element without a
  flow cannot occur in Go (elements hold pointers); here it is the outer \<open>None\<close>, excluded by
  the invariant.
\<close>

definition dequeue_turn :: "scheduler \<Rightarrow> time \<Rightarrow> (scheduler + (scheduler \<times> bytes option)) option" where
  "dequeue_turn s now =
     (case newFlows s @ oldFlows s of
        [] \<Rightarrow> Some (Inr (s, None))
      | b # _ \<Rightarrow>
          (case fmlookup (flows s) b of
             None \<Rightarrow> None
           | Some f \<Rightarrow>
               if deficit f \<le> 0 then Some (Inl (moveToOld s (f\<lparr>deficit := deficit f + quantum (cfg s)\<rparr>)))
               else
                 (case codelDequeue s f now of
                    (s1, f1, None) \<Rightarrow>
                      if inNew f1 \<and> oldFlows s1 \<noteq> [] then Some (Inl (moveToOld s1 f1))
                      else Some (Inl (deactivate s1 f1))
                  | (s1, f1, Some d) \<Rightarrow>
                      Some (Inr ((put_flow s1 (f1\<lparr>deficit := deficit f1 - int (length d)\<rparr>))
                              \<lparr>sstats := (sstats s1)\<lparr>dequeued := dequeued (sstats s1) + 1\<rparr>\<rparr>, Some d)))))"

text \<open>\<open>None\<close>: the loop does not return.\<close>

partial_function (option) dequeueLocked ::
  "(nat \<Rightarrow> time) \<Rightarrow> scheduler \<Rightarrow> (scheduler \<times> bytes option) option" where
  "dequeueLocked clock s =
     (case dequeue_turn s (clock 0) of
        None \<Rightarrow> None
      | Some (Inl s') \<Rightarrow> dequeueLocked (\<lambda>i. clock (Suc i)) s'
      | Some (Inr r) \<Rightarrow> Some r)"

text \<open>
  What a call of \<^verbatim>\<open>Dequeue\<close> or \<^verbatim>\<open>DequeueBatch\<close> does between two waits on the condition variable.
\<close>

datatype 'a outcome = Closed | Wait scheduler | Got scheduler 'a

definition Dequeue :: "(nat \<Rightarrow> time) \<Rightarrow> scheduler \<Rightarrow> bytes outcome option" where
  "Dequeue clock s =
     (if closed s then Some Closed
      else case dequeueLocked clock s of
             None \<Rightarrow> None
           | Some (s', Some d) \<Rightarrow> Some (Got s' d)
           | Some (s', None) \<Rightarrow> Some (Wait s'))"

text \<open>The filling loop of \<^verbatim>\<open>DequeueBatch\<close>; call \<open>i\<close> of \<open>dequeueLocked\<close> reads \<open>clocks i\<close>.\<close>

partial_function (option) fill_batch ::
  "(nat \<Rightarrow> nat \<Rightarrow> time) \<Rightarrow> int \<Rightarrow> int \<Rightarrow> scheduler \<Rightarrow> bytes list \<Rightarrow> (scheduler \<times> bytes list) option" where
  "fill_batch clocks maxBytes sz s batch =
     (if sz < maxBytes then
        (case dequeueLocked (clocks 0) s of
           None \<Rightarrow> None
         | Some (s', None) \<Rightarrow> Some (s', batch)
         | Some (s', Some d) \<Rightarrow>
             fill_batch (\<lambda>i. clocks (Suc i)) maxBytes (sz + int (length d)) s' (batch @ [d]))
      else Some (s, batch))"

definition DequeueBatch ::
  "(nat \<Rightarrow> nat \<Rightarrow> time) \<Rightarrow> scheduler \<Rightarrow> int \<Rightarrow> bytes list outcome option" where
  "DequeueBatch clocks s maxBytes =
     (case Dequeue (clocks 0) s of
        None \<Rightarrow> None
      | Some Closed \<Rightarrow> Some Closed
      | Some (Wait s') \<Rightarrow> Some (Wait s')
      | Some (Got s' d) \<Rightarrow>
          (case fill_batch (\<lambda>i. clocks (Suc i)) maxBytes (int (length d)) s' [d] of
             None \<Rightarrow> None
           | Some (s'', batch) \<Rightarrow> Some (Got s'' batch)))"

definition Close :: "scheduler \<Rightarrow> scheduler" where
  "Close s = s\<lparr>closed := True\<rparr>"

definition Stats :: "scheduler \<Rightarrow> stats" where
  "Stats s = (sstats s)\<lparr>queued_bytes := total s, active_flows := gosize (flows s)\<rparr>"

section \<open>The integer square root\<close>

lemma isqrt_bounds: "isqrt n * isqrt n \<le> n \<and> n < (isqrt n + 1) * (isqrt n + 1)"
proof (induction n rule: isqrt.induct)
  case (1 n)
  show ?case
  proof (cases "n = 0")
    case False
    define r where "r = isqrt (n div 4)"
    have IH: "r * r \<le> n div 4" "n div 4 < (r + 1) * (r + 1)" using 1 [OF False] by (simp_all add: r_def)
    have "4 * (r * r) \<le> n" using IH(1) by linarith
    moreover have "n < 4 * ((r + 1) * (r + 1))" using IH(2) by linarith
    moreover have "isqrt n = (if (2 * r + 1) * (2 * r + 1) \<le> n then 2 * r + 1 else 2 * r)"
      using False by (simp add: isqrt.simps [of n] r_def Let_def)
    ultimately show ?thesis by (auto simp: algebra_simps)
  qed (simp add: isqrt.simps)
qed

text \<open>The drop interval of CoDel: after \<open>count\<close> drops the next one comes
  \<open>\<lfloor>interval / sqrt count\<rfloor>\<close> later, the greatest whole \<open>d\<close> with \<open>d\<^sup>2 * count \<le> interval\<^sup>2\<close>.\<close>

theorem control_gap:
  assumes "0 < ivl" "count \<noteq> 0"
  shows "let d = controlLaw t count ivl - t in
    0 \<le> d \<and> d * d * int (unat count) \<le> ivl * ivl \<and> ivl * ivl < (d + 1) * (d + 1) * int (unat count)"
proof -
  define N where "N = nat (ivl * ivl)"
  define c where "c = unat count"
  define d where "d = isqrt (N div c)"
  have c: "0 < c" using assms(2) by (simp add: c_def unat_gt_0)
  have "d * d \<le> N div c" "N div c < (d + 1) * (d + 1)" using isqrt_bounds [of "N div c"] by (simp_all add: d_def)
  then have 1: "d * d * c \<le> N" "N < (d + 1) * (d + 1) * c"
    using c by (simp_all add: less_eq_div_iff_mult_less_eq div_less_iff_less_mult)
  have N: "int N = ivl * ivl" using assms(1) by (simp add: N_def)
  have "int (d * d * c) \<le> int N" "int N < int ((d + 1) * (d + 1) * c)" using 1 by (simp_all only: of_nat_le_iff of_nat_less_iff)
  moreover have "controlLaw t count ivl - t = int d"
    using assms(2) by (simp add: controlLaw_def d_def N_def c_def)
  ultimately show ?thesis by (simp only: N Let_def) (simp add: c_def algebra_simps)
qed

theorem control_gap_witness:
  "let d = controlLaw 5 4 (100 * ms) - 5 in
    0 \<le> d \<and> d * d * int (unat (4::u32)) \<le> 100 * ms * (100 * ms) \<and>
    100 * ms * (100 * ms) < (d + 1) * (d + 1) * int (unat (4::u32))"
  by (rule control_gap) (simp_all add: ms_def)

section \<open>What a dequeue on one flow does\<close>

definition qbytes :: "packet list \<Rightarrow> int" where
  "qbytes q = sum_list (map plen q)"

lemma qbytes_simps [simp]: "qbytes [] = 0" "qbytes (p # q) = plen p + qbytes q" "qbytes (q @ q') = qbytes q + qbytes q'"
  by (simp_all add: qbytes_def)

lemma plen_nonneg [simp]: "0 \<le> plen p"
  by (simp add: plen_def)

lemma qbytes_nonneg [simp]: "0 \<le> qbytes q"
  by (induction q) (auto simp: add_nonneg_nonneg)

text \<open>
  \<open>took s f s' f' p\<close>: packets were taken off the front of \<open>f\<close>, the last of them is \<open>p\<close>, the
  others are counted as CoDel drops, and nothing else of the accounts changed.
\<close>

definition took :: "scheduler \<Rightarrow> flow \<Rightarrow> scheduler \<Rightarrow> flow \<Rightarrow> packet option \<Rightarrow> bool" where
  "took s f s' f' p \<longleftrightarrow>
     (\<exists>k c. k \<le> length (fq f) \<and>
        f' = f\<lparr>fq := drop k (fq f), fbytes := fbytes f - qbytes (take k (fq f)), codel := c\<rparr> \<and>
        s' = s\<lparr>total := total s - qbytes (take k (fq f)),
               sstats := (sstats s)\<lparr>codel_drops := codel_drops (sstats s) + of_nat (k - 1)\<rparr>\<rparr> \<and>
        p = (if k = 0 then None else Some (fq f ! (k - 1))))"

lemma doDequeue_empty:
  "fq f = [] \<Longrightarrow> doDequeue s f now = (s, f\<lparr>codel := (codel f)\<lparr>firstAboveTime := 0\<rparr>\<rparr>, None, False)"
  by (simp add: doDequeue_def)

lemma flow_codel_update: "f = f\<lparr>codel := codel f\<rparr>"
  by simp

lemma doDequeue_cons:
  assumes "fq f = p # q"
  shows "\<exists>c ok. doDequeue s f now =
       (s\<lparr>total := total s - plen p\<rparr>, f\<lparr>fq := q, fbytes := fbytes f - plen p, codel := c\<rparr>, Some p, ok) \<and>
    dropping c = dropping (codel f) \<and> (ok \<longrightarrow> maxPacket < fbytes f - plen p) \<and>
    (ok \<longrightarrow> target (cfg s) \<le> time_sub now (p_enq p))"
proof -
  let ?low = "time_sub now (p_enq p) < target (cfg s) \<or> fbytes f - plen p \<le> maxPacket"
  consider "?low" | "\<not> ?low" "firstAboveTime (codel f) = 0" | "\<not> ?low" "firstAboveTime (codel f) \<noteq> 0" by blast
  then show ?thesis
  proof cases
    case 1
    then show ?thesis using assms
      by (intro exI [of _ "(codel f)\<lparr>firstAboveTime := 0\<rparr>"] exI [of _ False])
        (auto simp: doDequeue_def popHead_def Let_def)
  next
    case 2
    then show ?thesis using assms
      by (intro exI [of _ "(codel f)\<lparr>firstAboveTime := now + interval (cfg s)\<rparr>"] exI [of _ False])
        (auto simp: doDequeue_def popHead_def Let_def)
  next
    case 3
    then show ?thesis using assms
      by (intro exI [of _ "codel f"] exI [of _ "firstAboveTime (codel f) \<le> now"])
        (auto simp: doDequeue_def popHead_def Let_def)
  qed
qed

lemma took_init: "took s f s (f\<lparr>codel := c\<rparr>) None"
  by (auto simp: took_def intro!: exI [of _ "0::nat"])

lemma took_first:
  "fq f = p # q \<Longrightarrow>
   took s f (s\<lparr>total := total s - plen p\<rparr>) (f\<lparr>fq := q, fbytes := fbytes f - plen p, codel := c\<rparr>) (Some p)"
  unfolding took_def by (rule exI [of _ 1]) (auto intro!: exI [of _ c])

lemma took_codel: "took s f s' f' p \<Longrightarrow> took s f s' (f'\<lparr>codel := c\<rparr>) p"
  unfolding took_def by (elim exE, rule_tac x = k in exI, rule_tac x = c in exI) simp

lemma took_next:
  assumes t: "took s f s1 f1 (Some p0)" and q: "fq f1 = p # q"
  shows "took s f ((count_codel_drop s1)\<lparr>total := total s1 - plen p\<rparr>)
           (f1\<lparr>fq := q, fbytes := fbytes f1 - plen p, codel := c\<rparr>) (Some p)"
proof -
  from t obtain k c' where k: "k \<le> length (fq f)"
    "f1 = f\<lparr>fq := drop k (fq f), fbytes := fbytes f - qbytes (take k (fq f)), codel := c'\<rparr>"
    "s1 = s\<lparr>total := total s - qbytes (take k (fq f)),
            sstats := (sstats s)\<lparr>codel_drops := codel_drops (sstats s) + of_nat (k - 1)\<rparr>\<rparr>"
    "k \<noteq> 0" by (auto simp: took_def split: if_splits)
  from q k(2) have d: "drop k (fq f) = p # q" by simp
  then have l: "k < length (fq f)" by (metis drop_all leI list.discI)
  have p: "fq f ! k = p" "drop (Suc k) (fq f) = q" using Cons_nth_drop_Suc [OF l] d by auto
  then have tk: "take (Suc k) (fq f) = take k (fq f) @ [p]" using l by (simp add: take_Suc_conv_app_nth)
  have "(of_nat (k - 1) + 1 :: u64) = of_nat k" using k(4) by (metis Suc_pred' add.commute not_gr0 of_nat_Suc)
  then show ?thesis
    unfolding took_def using k l p tk
    by (intro exI [of _ "Suc k"] exI [of _ c]) (simp add: count_codel_drop_def add.assoc)
qed

lemma took_bytes: "took s f s' f' p \<Longrightarrow> fbytes f = qbytes (fq f) \<Longrightarrow> fbytes f' = qbytes (fq f')"
proof -
  have "qbytes (take k q) + qbytes (drop k q) = qbytes q" for k q
    by (metis append_take_drop_id qbytes_simps(3))
  then show "took s f s' f' p \<Longrightarrow> fbytes f = qbytes (fq f) \<Longrightarrow> fbytes f' = qbytes (fq f')"
    by (auto simp: took_def) (metis add_diff_cancel_left')
qed

lemma took_dropping_free: "took s f s' f' p \<Longrightarrow> took s f s' (set_dropping b f') p"
  by (simp add: set_dropping_def took_codel)

lemma took_start_dropping: "took s f s' f' p \<Longrightarrow> took s f s' (start_dropping s'' f' now) p"
  unfolding start_dropping_def Let_def by (rule took_codel)

lemma more_bytes_more_packets: "fbytes f = qbytes (fq f) \<Longrightarrow> maxPacket < fbytes f \<Longrightarrow> fq f \<noteq> []"
  by (auto simp: maxPacket_def)

text \<open>A turn of the drop loop drops the packet in hand only when there is another one.\<close>

lemma drop_turn_took:
  assumes t: "took s f s1 f1 (Some p)" and b: "fbytes f = qbytes (fq f)" and ne: "fq f1 \<noteq> []"
    and e: "drop_turn s1 f1 now = (s2, f2, r, ok)"
  shows "took s f s2 f2 r \<and> r \<noteq> None \<and> (dropping (codel f2) \<longrightarrow> fq f2 \<noteq> [])"
proof -
  obtain p' q where q: "fq f1 = p' # q" using ne by (cases "fq f1") auto
  define g where "g = f1\<lparr>codel := (codel f1)\<lparr>ccount := ccount (codel f1) + 1\<rparr>\<rparr>"
  have tg: "took s f s1 g (Some p)" unfolding g_def by (rule took_codel [OF t])
  have qg: "fq g = p' # q" by (simp add: g_def q)
  from doDequeue_cons [OF qg, of "count_codel_drop s1" now] obtain c o' where d:
    "doDequeue (count_codel_drop s1) g now =
       ((count_codel_drop s1)\<lparr>total := total (count_codel_drop s1) - plen p'\<rparr>,
        g\<lparr>fq := q, fbytes := fbytes g - plen p', codel := c\<rparr>, Some p', o')"
    "o' \<longrightarrow> maxPacket < fbytes g - plen p'" by blast
  have tot: "total (count_codel_drop s1) = total s1" by (simp add: count_codel_drop_def)
  note tk = took_next [OF tg qg, of c]
  have ne': "o' \<Longrightarrow> q \<noteq> []"
    using d(2) more_bytes_more_packets [of "g\<lparr>fq := q, fbytes := fbytes g - plen p', codel := c\<rparr>"]
      took_bytes [OF tk b] by simp
  have e': "s2 = (count_codel_drop s1)\<lparr>total := total s1 - plen p'\<rparr> \<and> r = Some p' \<and> ok = o' \<and>
     f2 = (if o' then (g\<lparr>fq := q, fbytes := fbytes g - plen p', codel := c\<rparr>)
             \<lparr>codel := c\<lparr>dropNext := controlLaw (dropNext c) (ccount c) (interval (cfg s2))\<rparr>\<rparr>
           else set_dropping False (g\<lparr>fq := q, fbytes := fbytes g - plen p', codel := c\<rparr>))"
    using e d(1) by (auto simp: drop_turn_def g_def [symmetric] tot)
  show ?thesis
  proof (cases o')
    case True
    with e' have f2: "f2 = (g\<lparr>fq := q, fbytes := fbytes g - plen p', codel := c\<rparr>)
             \<lparr>codel := c\<lparr>dropNext := controlLaw (dropNext c) (ccount c) (interval (cfg s2))\<rparr>\<rparr>" by simp
    have "took s f s2 f2 (Some p')" unfolding f2 using e' tk by (intro took_codel [of s f s2 "g\<lparr>fq := q, fbytes := fbytes g - plen p', codel := c\<rparr>"]) simp
    then show ?thesis using e' ne' True by simp
  next
    case False
    with e' have f2: "f2 = set_dropping False (g\<lparr>fq := q, fbytes := fbytes g - plen p', codel := c\<rparr>)" by simp
    have "took s f s2 f2 (Some p')" unfolding f2 using e' tk by (intro took_dropping_free) simp
    then show ?thesis using e' False f2 by (simp add: set_dropping_def)
  qed
qed

lemma drop_loop_took:
  assumes "fbytes f = qbytes (fq f)"
  shows "took s f s1 f1 r \<Longrightarrow> r \<noteq> None \<Longrightarrow> (dropping (codel f1) \<Longrightarrow> fq f1 \<noteq> []) \<Longrightarrow>
    drop_loop s1 f1 r now = (s2, f2, r2) \<Longrightarrow> took s f s2 f2 r2 \<and> r2 \<noteq> None"
proof (induction s1 f1 r now rule: drop_loop.induct)
  case (1 s1 f1 r now)
  show ?case
  proof (cases "dropping (codel f1) \<and> dropNext (codel f1) \<le> now")
    case True
    obtain p where p: "r = Some p" using 1(3) by auto
    obtain s3 f3 r3 ok where d: "drop_turn s1 f1 now = (s3, f3, r3, ok)" by (metis prod_cases4)
    from drop_turn_took [OF _ assms _ d] 1 True p
    have "took s f s3 f3 r3 \<and> r3 \<noteq> None \<and> (dropping (codel f3) \<longrightarrow> fq f3 \<noteq> [])" by simp
    then show ?thesis using 1(1) [OF True d [symmetric] refl refl] 1(5) True d
      by (simp add: drop_loop.simps [of s1 f1])
  next
    case False
    then show ?thesis using 1 by (auto simp: drop_loop.simps [of s1 f1])
  qed
qed

lemma codelDequeue_empty:
  assumes "fq f = []"
  shows "\<exists>c. codelDequeue s f now = (s, f\<lparr>codel := c\<rparr>, None)"
proof -
  have "\<not> dropping (codel g) \<Longrightarrow> drop_loop s g None now = (s, g, None)" for g
    by (subst drop_loop.simps) simp
  then show ?thesis using doDequeue_empty [OF assms, of s now]
    by (auto simp: codelDequeue_def set_dropping_def)
qed

text \<open>CoDel never drops the last packet: a flow with packets yields one.\<close>

lemma codelDequeue_took:
  assumes b: "fbytes f = qbytes (fq f)" and ne: "fq f \<noteq> []"
  shows "\<exists>s' f' p. codelDequeue s f now = (s', f', Some (p_data p)) \<and> took s f s' f' (Some p)"
proof -
  obtain p q where q: "fq f = p # q" using ne by (cases "fq f") auto
  from doDequeue_cons [OF q, of s now] obtain c ok where d:
    "doDequeue s f now = (s\<lparr>total := total s - plen p\<rparr>, f\<lparr>fq := q, fbytes := fbytes f - plen p, codel := c\<rparr>, Some p, ok)"
    "ok \<longrightarrow> maxPacket < fbytes f - plen p" by blast
  define s1 f1 where "s1 = s\<lparr>total := total s - plen p\<rparr>"
    and "f1 = f\<lparr>fq := q, fbytes := fbytes f - plen p, codel := c\<rparr>"
  have t1: "took s f s1 f1 (Some p)" unfolding s1_def f1_def by (rule took_first [OF q])
  have ne1: "ok \<Longrightarrow> fq f1 \<noteq> []"
    using d(2) more_bytes_more_packets [of f1] took_bytes [OF t1 b] by (simp add: f1_def)
  consider "dropping (codel f1)" | "\<not> dropping (codel f1)" "ok" | "\<not> dropping (codel f1)" "\<not> ok" by blast
  then show ?thesis
  proof cases
    case 1
    obtain s2 f2 r where l: "drop_loop s1 (if ok then f1 else set_dropping False f1) (Some p) now = (s2, f2, r)"
      by (metis prod_cases3)
    have "took s f s2 f2 r \<and> r \<noteq> None"
      by (rule drop_loop_took [OF b _ _ _ l]) (use t1 ne1 in \<open>auto simp: took_codel set_dropping_def split: if_splits\<close>)
    then show ?thesis using 1 d(1) l by (auto simp: codelDequeue_def s1_def [symmetric] f1_def [symmetric])
  next
    case 2
    then obtain p' q' where q': "fq f1 = p' # q'" using ne1 by (cases "fq f1") auto
    from doDequeue_cons [OF q', of "count_codel_drop s1" now] obtain c' o' where d':
      "doDequeue (count_codel_drop s1) f1 now =
        ((count_codel_drop s1)\<lparr>total := total (count_codel_drop s1) - plen p'\<rparr>,
         f1\<lparr>fq := q', fbytes := fbytes f1 - plen p', codel := c'\<rparr>, Some p', o')" by blast
    have "total (count_codel_drop s1) = total s1" by (simp add: count_codel_drop_def)
    then show ?thesis using 2 d(1) d' took_next [OF t1 q', of c']
      by (auto simp: codelDequeue_def s1_def [symmetric] f1_def [symmetric] intro: took_start_dropping)
  next
    case 3
    then show ?thesis using d(1) t1 by (auto simp: codelDequeue_def s1_def [symmetric] f1_def [symmetric])
  qed
qed

section \<open>The invariant\<close>

definition flow_ok :: "scheduler \<Rightarrow> u32 \<Rightarrow> flow \<Rightarrow> bool" where
  "flow_ok s b f \<longleftrightarrow> bucket f = b \<and> b < 1024 \<and> fbytes f = qbytes (fq f) \<and> linked f \<and>
     (inNew f \<longleftrightarrow> b \<in> set (newFlows s)) \<and> deficit f \<le> quantum (cfg s)"

definition lists_ok :: "scheduler \<Rightarrow> bool" where
  "lists_ok s \<longleftrightarrow> distinct (newFlows s @ oldFlows s) \<and> set (newFlows s @ oldFlows s) = fmdom' (flows s)"

definition accounts_ok :: "scheduler \<Rightarrow> bool" where
  "accounts_ok s \<longleftrightarrow> total s = fmsum fbytes (flows s) \<and>
     enqueued (sstats s) = dequeued (sstats s) + codel_drops (sstats s) + overflow_drops (sstats s) + of_nat (queued s)"

definition flows_ok :: "scheduler \<Rightarrow> bool" where
  "flows_ok s \<longleftrightarrow> (\<forall>b f. fmlookup (flows s) b = Some f \<longrightarrow> flow_ok s b f)"

definition sched_inv :: "scheduler \<Rightarrow> bool" where
  "sched_inv s \<longleftrightarrow> 0 < quantum (cfg s) \<and> 0 < limit_bytes (cfg s) \<and> lists_ok s \<and> accounts_ok s \<and> flows_ok s"

definition queue_of :: "scheduler \<Rightarrow> u32 \<Rightarrow> packet list" where
  "queue_of s b = (case fmlookup (flows s) b of None \<Rightarrow> [] | Some f \<Rightarrow> fq f)"

lemma sched_inv_New: "sched_inv (New c)"
  by (auto simp: sched_inv_def New_def Let_def lists_ok_def accounts_ok_def flows_ok_def queued_def
      zero_stats_def defaultQuantum_def defaultLimitBytes_def)

lemma sched_invD:
  assumes "sched_inv s" "fmlookup (flows s) b = Some f"
  shows "bucket f = b" "fbytes f = qbytes (fq f)" "linked f" "inNew f \<longleftrightarrow> b \<in> set (newFlows s)"
    "deficit f \<le> quantum (cfg s)" "b < 1024" "b \<in> set (newFlows s) \<union> set (oldFlows s)"
  using assms fmdom'I [OF assms(2)] by (auto simp: sched_inv_def flows_ok_def flow_ok_def lists_ok_def)

lemma sched_inv_listed:
  "sched_inv s \<Longrightarrow> b \<in> set (newFlows s @ oldFlows s) \<Longrightarrow> \<exists>f. fmlookup (flows s) b = Some f"
  by (auto simp: sched_inv_def lists_ok_def fmlookup_dom'_iff)

lemma queued_put: "fmlookup (flows s) b = Some f \<Longrightarrow> bucket f' = b \<Longrightarrow>
    queued (put_flow s f') + length (fq f) = length (fq f') + queued s"
  using fmsum_replace [of "flows s" b f "\<lambda>f. length (fq f)" f'] by (simp add: queued_def put_flow_def)

lemma total_put: "fmlookup (flows s) b = Some f \<Longrightarrow> bucket f' = b \<Longrightarrow>
    fmsum fbytes (flows (put_flow s f')) = fbytes f' - fbytes f + fmsum fbytes (flows s)"
  using fmsum_replace [of "flows s" b f fbytes f'] by (simp add: put_flow_def)

lemma queue_of_put: "queue_of (put_flow s f) = (queue_of s)(bucket f := fq f)"
  by (auto simp: queue_of_def put_flow_def)

lemma queued_0_iff: "queued s = 0 \<longleftrightarrow> (\<forall>b. queue_of s b = [])"
proof
  assume "queued s = 0"
  then show "\<forall>b. queue_of s b = []"
    using fmsum_zero_imp [of "\<lambda>f. length (fq f)" "flows s"] by (auto simp: queued_def queue_of_def split: option.split)
next
  assume "\<forall>b. queue_of s b = []"
  then have "fmlookup (flows s) b = Some f \<Longrightarrow> fq f = []" for b f
    by (auto simp: queue_of_def dest!: spec [of _ b])
  then show "queued s = 0" unfolding queued_def by (intro fmsum_eq_0) auto
qed

text \<open>Moving a flow to the end of the old list, with a new deficit and CoDel state.\<close>

lemma moveToOld_inv:
  assumes i: "sched_inv s" and l: "fmlookup (flows s) b = Some f" and d: "d \<le> quantum (cfg s)"
  shows "sched_inv (moveToOld s (f\<lparr>deficit := d, codel := c\<rparr>))"
proof -
  note D = sched_invD [OF i l]
  have n: "distinct (newFlows s @ oldFlows s)" using i by (simp add: sched_inv_def lists_ok_def)
  let ?s = "moveToOld s (f\<lparr>deficit := d, codel := c\<rparr>)"
  have ls: "lists_ok ?s"
    using i D fmdom'I [OF l] n
    by (auto simp: sched_inv_def lists_ok_def moveToOld_def unlink_def put_flow_def Let_def)
  have fl: "flows_ok ?s"
    using i D n d by (auto simp: sched_inv_def flows_ok_def flow_ok_def moveToOld_def unlink_def put_flow_def Let_def)
  have q: "queued ?s = queued s"
    using queued_put [OF l, of "f\<lparr>deficit := d, codel := c, linked := True, inNew := False\<rparr>"] D(1)
    by (simp add: moveToOld_def unlink_def put_flow_def Let_def queued_def)
  have t: "fmsum fbytes (flows ?s) = fmsum fbytes (flows s)"
    using total_put [OF l, of "f\<lparr>deficit := d, codel := c, linked := True, inNew := False\<rparr>"] D(1)
    by (simp add: moveToOld_def unlink_def put_flow_def Let_def)
  have "accounts_ok ?s" using i q t
    by (simp add: sched_inv_def accounts_ok_def) (simp add: moveToOld_def unlink_def put_flow_def Let_def)
  then show ?thesis using i ls fl by (simp add: sched_inv_def) (simp add: moveToOld_def unlink_def put_flow_def Let_def)
qed

lemma deactivate_inv:
  assumes i: "sched_inv s" and l: "fmlookup (flows s) b = Some f" and e: "fq f = []"
  shows "sched_inv (deactivate s (f\<lparr>codel := c\<rparr>))"
proof -
  note D = sched_invD [OF i l]
  have n: "distinct (newFlows s @ oldFlows s)" using i by (simp add: sched_inv_def lists_ok_def)
  let ?s = "deactivate s (f\<lparr>codel := c\<rparr>)"
  have fs: "flows ?s = fmdrop b (flows s)" using D(1) by (simp add: deactivate_def unlink_def Let_def)
  have ls: "lists_ok ?s"
    using i D n by (auto simp: sched_inv_def lists_ok_def deactivate_def unlink_def Let_def)
  have fl: "flows_ok ?s"
    using i D n by (auto simp: sched_inv_def flows_ok_def flow_ok_def deactivate_def unlink_def Let_def split: if_splits)
  have q: "queued ?s = queued s"
    using fmsum_remove [OF l, of "\<lambda>f. length (fq f)"] e by (simp add: queued_def fs)
  have t: "fmsum fbytes (flows ?s) = fmsum fbytes (flows s)"
    using fmsum_remove [OF l, of fbytes] e D(2) by (simp add: fs)
  have "accounts_ok ?s" using i q t
    by (simp add: sched_inv_def accounts_ok_def) (simp add: deactivate_def unlink_def Let_def)
  then show ?thesis using i ls fl by (simp add: sched_inv_def) (simp add: deactivate_def unlink_def Let_def)
qed

text \<open>Writing a flow back after packets were taken from it.\<close>

lemma took_put_inv:
  assumes i: "sched_inv s" and l: "fmlookup (flows s) b = Some f" and t: "took s f s1 f1 (Some p)"
    and n: "0 \<le> n"
  shows "sched_inv ((put_flow s1 (f1\<lparr>deficit := deficit f1 - n\<rparr>))
           \<lparr>sstats := (sstats s1)\<lparr>dequeued := dequeued (sstats s1) + 1\<rparr>\<rparr>)" (is "sched_inv ?s")
proof -
  note D = sched_invD [OF i l]
  from t obtain k c where k: "k \<le> length (fq f)" "k \<noteq> 0"
    "f1 = f\<lparr>fq := drop k (fq f), fbytes := fbytes f - qbytes (take k (fq f)), codel := c\<rparr>"
    "s1 = s\<lparr>total := total s - qbytes (take k (fq f)),
            sstats := (sstats s)\<lparr>codel_drops := codel_drops (sstats s) + of_nat (k - 1)\<rparr>\<rparr>"
    by (auto simp: took_def split: if_splits)
  let ?f = "f1\<lparr>deficit := deficit f1 - n\<rparr>"
  have f1: "bucket ?f = b" "fq ?f = drop k (fq f)" using k D(1) by simp_all
  have fl: "flows ?s = flows (put_flow s ?f)" using k(4) by (simp add: put_flow_def)
  have b1: "fbytes f1 = qbytes (fq f1)" by (rule took_bytes [OF t D(2)])
  have ls: "lists_ok ?s" using i l f1 k(4) fmdom'I [OF l] by (auto simp: sched_inv_def lists_ok_def put_flow_def)
  have fo: "flows_ok ?s" using i D n b1 k(3,4) by (auto simp: sched_inv_def flows_ok_def flow_ok_def put_flow_def)
  have q: "queued ?s + k = queued s"
    using queued_put [OF l f1(1)] f1(2) k(1) fl by (simp add: queued_def)
  have w: "(of_nat (queued s) :: u64) = of_nat (queued ?s) + of_nat k"
    by (simp only: q [symmetric] of_nat_add)
  have k1: "(of_nat k :: u64) = of_nat (k - 1) + 1" using k(2) by (metis Suc_pred' add.commute not_gr0 of_nat_Suc)
  have tot: "fmsum fbytes (flows ?s) = fmsum fbytes (flows s) - qbytes (take k (fq f))"
    using total_put [OF l f1(1)] fl k(3) by simp
  have a: "total s = fmsum fbytes (flows s)"
    "enqueued (sstats s) = dequeued (sstats s) + codel_drops (sstats s) + overflow_drops (sstats s) + of_nat (queued s)"
    using i by (simp_all add: sched_inv_def accounts_ok_def)
  have st: "sstats ?s = (sstats s)\<lparr>codel_drops := codel_drops (sstats s) + of_nat (k - 1),
      dequeued := dequeued (sstats s) + 1\<rparr>" "total ?s = total s - qbytes (take k (fq f))" "cfg ?s = cfg s"
    using k(4) by (simp_all add: put_flow_def)
  have "accounts_ok ?s" unfolding accounts_ok_def st tot using a w k1 by (simp add: algebra_simps)
  then show ?thesis using i ls fo st(3) by (simp add: sched_inv_def)
qed

section \<open>The dequeue loop returns\<close>

definition debt :: "scheduler \<Rightarrow> nat" where
  "debt s = fmsum (\<lambda>f. nat (1 - deficit f)) (flows s)"

definition passes :: "scheduler \<Rightarrow> nat" where
  "passes s = 2 * length (newFlows s) + length (oldFlows s)"

definition turn_order :: "(scheduler \<times> scheduler) set" where
  "turn_order = inv_image (less_than <*lex*> less_than) (\<lambda>s. (debt s, passes s))"

lemma wf_turn_order: "wf turn_order"
  unfolding turn_order_def by (intro wf_inv_image wf_lex_prod wf_less_than)

text \<open>What a turn without a packet keeps: everything but the lists and the deficits.\<close>

definition same_queues :: "scheduler \<Rightarrow> scheduler \<Rightarrow> bool" where
  "same_queues s s' \<longleftrightarrow> queue_of s' = queue_of s \<and> total s' = total s \<and> sstats s' = sstats s \<and>
     cfg s' = cfg s \<and> closed s' = closed s"

lemma same_queues_refl [simp]: "same_queues s s"
  by (simp add: same_queues_def)

lemma same_queues_trans: "same_queues s t \<Longrightarrow> same_queues t u \<Longrightarrow> same_queues s u"
  by (simp add: same_queues_def)

lemma moveToOld_queues:
  assumes "fmlookup (flows s) b = Some f" "bucket f = b"
  shows "same_queues s (moveToOld s (f\<lparr>deficit := d, codel := c\<rparr>))"
  using assms by (auto simp: same_queues_def moveToOld_def unlink_def put_flow_def queue_of_def Let_def fun_eq_iff)

lemma moveToOld_debt:
  assumes "fmlookup (flows s) b = Some f" "bucket f = b"
  shows "debt (moveToOld s (f\<lparr>deficit := d, codel := c\<rparr>)) + nat (1 - deficit f) = nat (1 - d) + debt s"
  using assms fmsum_replace [OF assms(1), of "\<lambda>f. nat (1 - deficit f)" "f\<lparr>deficit := d, codel := c, linked := True, inNew := False\<rparr>"]
  by (simp add: debt_def moveToOld_def unlink_def put_flow_def Let_def)

lemma deactivate_queues:
  assumes "fmlookup (flows s) b = Some f" "bucket f = b" "fq f = []"
  shows "same_queues s (deactivate s (f\<lparr>codel := c\<rparr>))"
  using assms by (auto simp: same_queues_def deactivate_def unlink_def queue_of_def Let_def fun_eq_iff)

lemma deactivate_debt:
  assumes "fmlookup (flows s) b = Some f" "bucket f = b"
  shows "debt (deactivate s (f\<lparr>codel := c\<rparr>)) \<le> debt s"
  using fmsum_remove [OF assms(1), of "\<lambda>f. nat (1 - deficit f)"] assms(2)
  by (simp add: debt_def deactivate_def unlink_def Let_def)

lemma remove1_shorter: "b \<in> set xs \<Longrightarrow> length (remove1 b xs) < length xs"
  by (metis length_pos_if_in_set length_remove1 diff_less zero_less_one)

lemma head_listed: "newFlows s @ oldFlows s = b # bs \<Longrightarrow> b \<in> set (newFlows s) \<or> (newFlows s = [] \<and> b \<in> set (oldFlows s))"
  by (cases "newFlows s") auto

text \<open>The packet a dequeue returns, as the effect on the queues: some of the front of one queue goes.\<close>

definition delivers :: "scheduler \<Rightarrow> scheduler \<Rightarrow> u32 \<Rightarrow> bytes \<Rightarrow> bool" where
  "delivers s s' b d \<longleftrightarrow>
     (\<exists>k < length (queue_of s b). d = p_data (queue_of s b ! k) \<and>
        queue_of s' = (queue_of s)(b := drop (Suc k) (queue_of s b)) \<and>
        total s' = total s - qbytes (take (Suc k) (queue_of s b)) \<and>
        sstats s' = (sstats s)\<lparr>dequeued := dequeued (sstats s) + 1,
                               codel_drops := codel_drops (sstats s) + of_nat k\<rparr>) \<and>
     cfg s' = cfg s \<and> closed s' = closed s"

lemma delivers_same: "same_queues s t \<Longrightarrow> delivers t u b d \<Longrightarrow> delivers s u b d"
  by (simp add: same_queues_def delivers_def)

lemma turn_cases:
  assumes i: "sched_inv s"
  obtains (idle) "newFlows s @ oldFlows s = []" "dequeue_turn s now = Some (Inr (s, None))"
  | (next_turn) s' where "dequeue_turn s now = Some (Inl s')" "sched_inv s'" "same_queues s s'" "(s', s) \<in> turn_order"
      "\<And>b bs. newFlows s = b # bs \<Longrightarrow> \<exists>f. fmlookup (flows s) b = Some f \<and> (deficit f \<le> 0 \<or> fq f = [])"
  | (packet) s' b bs d where "dequeue_turn s now = Some (Inr (s', Some d))" "sched_inv s'"
      "newFlows s @ oldFlows s = b # bs" "delivers s s' b d"
proof (cases "newFlows s @ oldFlows s")
  case Nil
  then show thesis using idle by (simp add: dequeue_turn_def)
next
  case (Cons b bs)
  then obtain f where l: "fmlookup (flows s) b = Some f" using sched_inv_listed [OF i, of b] by auto
  note D = sched_invD [OF i l]
  have here: "b' = b" if "newFlows s = b' # bs'" for b' bs' using Cons that by simp
  have n: "distinct (newFlows s @ oldFlows s)" using i by (simp add: sched_inv_def lists_ok_def)
  show thesis
  proof (cases "deficit f \<le> 0")
    case True
    let ?s = "moveToOld s (f\<lparr>deficit := deficit f + quantum (cfg s)\<rparr>)"
    have e: "f\<lparr>deficit := deficit f + quantum (cfg s)\<rparr> = f\<lparr>deficit := deficit f + quantum (cfg s), codel := codel f\<rparr>"
      by simp
    have "nat (1 - (deficit f + quantum (cfg s))) < nat (1 - deficit f)"
      using True i by (simp add: sched_inv_def)
    then have "debt ?s < debt s"
      using moveToOld_debt [OF l D(1), where d = "deficit f + quantum (cfg s)" and c = "codel f"]
      unfolding e [symmetric] by linarith
    moreover have "sched_inv ?s" using moveToOld_inv [OF i l, of "deficit f + quantum (cfg s)" "codel f"] True by simp
    moreover have "same_queues s ?s"
      using moveToOld_queues [OF l D(1), where d = "deficit f + quantum (cfg s)" and c = "codel f"] by simp
    moreover have "dequeue_turn s now = Some (Inl ?s)" using True by (simp add: dequeue_turn_def Cons l)
    ultimately show thesis
      using l True here by (intro next_turn [of ?s]) (auto simp: turn_order_def)
  next
    case pos: False
    show thesis
    proof (cases "fq f = []")
      case True
      obtain c where c: "codelDequeue s f now = (s, f\<lparr>codel := c\<rparr>, None)"
        using codelDequeue_empty [OF True] by blast
      show thesis
      proof (cases "inNew f \<and> oldFlows s \<noteq> []")
        case move: True
        let ?s = "moveToOld s (f\<lparr>codel := c\<rparr>)"
        have "debt ?s = debt s" using moveToOld_debt [OF l D(1), where d = "deficit f" and c = c] by simp
        moreover have "passes ?s < passes s"
          using remove1_shorter [of b "newFlows s"] move D(1,4)
          by (simp add: passes_def moveToOld_def unlink_def put_flow_def Let_def)
        moreover have "sched_inv ?s" using moveToOld_inv [OF i l D(5), of c] by simp
        moreover have "same_queues s ?s" using moveToOld_queues [OF l D(1), where d = "deficit f" and c = c] by simp
        moreover have "dequeue_turn s now = Some (Inl ?s)"
          using move by (auto simp: dequeue_turn_def Cons l pos c)
        ultimately show thesis
          using l True here by (intro next_turn [of ?s]) (auto simp: turn_order_def)
      next
        case stop: False
        let ?s = "deactivate s (f\<lparr>codel := c\<rparr>)"
        have "debt ?s \<le> debt s" by (rule deactivate_debt [OF l D(1)])
        moreover have "passes ?s < passes s"
          using remove1_shorter [of b "newFlows s"] remove1_shorter [of b "oldFlows s"] D(1,4,7)
          by (auto simp: passes_def deactivate_def unlink_def Let_def)
        moreover have "sched_inv ?s" by (rule deactivate_inv [OF i l True])
        moreover have "same_queues s ?s" by (rule deactivate_queues [OF l D(1) True])
        moreover have "dequeue_turn s now = Some (Inl ?s)"
          using stop by (auto simp: dequeue_turn_def Cons l pos c)
        ultimately show thesis
          using l True here by (intro next_turn [of ?s]) (auto simp: turn_order_def)
      qed
    next
      case False
      obtain s1 f1 p where c: "codelDequeue s f now = (s1, f1, Some (p_data p))" "took s f s1 f1 (Some p)"
        using codelDequeue_took [OF D(2) False] by blast
      let ?s = "(put_flow s1 (f1\<lparr>deficit := deficit f1 - int (length (p_data p))\<rparr>))
         \<lparr>sstats := (sstats s1)\<lparr>dequeued := dequeued (sstats s1) + 1\<rparr>\<rparr>"
      obtain k cc where k: "k \<le> length (fq f)" "k \<noteq> 0"
        "f1 = f\<lparr>fq := drop k (fq f), fbytes := fbytes f - qbytes (take k (fq f)), codel := cc\<rparr>"
        "s1 = s\<lparr>total := total s - qbytes (take k (fq f)),
            sstats := (sstats s)\<lparr>codel_drops := codel_drops (sstats s) + of_nat (k - 1)\<rparr>\<rparr>"
        "p = fq f ! (k - 1)" using c(2) by (auto simp: took_def split: if_splits)
      obtain j where j: "k = Suc j" using k(2) by (cases k) auto
      have q: "queue_of s b = fq f" using l by (simp add: queue_of_def)
      have "queue_of ?s = (queue_of s)(b := drop (Suc j) (fq f))"
        using k(3,4) D(1) j by (simp add: queue_of_def put_flow_def fun_eq_iff)
      moreover have "total ?s = total s - qbytes (take (Suc j) (fq f))" using k(4) j by (simp add: put_flow_def)
      moreover have "sstats ?s = (sstats s)\<lparr>dequeued := dequeued (sstats s) + 1,
          codel_drops := codel_drops (sstats s) + of_nat j\<rparr>" using k(4) j by (simp add: put_flow_def)
      moreover have "cfg ?s = cfg s \<and> closed ?s = closed s" using k(4) by (simp add: put_flow_def)
      ultimately have "delivers s ?s b (p_data p)"
        unfolding delivers_def q using k(1,5) j by (intro conjI exI [of _ j]) simp_all
      moreover have "sched_inv ?s" by (rule took_put_inv [OF i l c(2)]) simp
      moreover have "dequeue_turn s now = Some (Inr (?s, Some (p_data p)))"
        by (simp add: dequeue_turn_def Cons l pos c(1))
      ultimately show thesis using Cons by (intro packet [of ?s "p_data p" b bs])
    qed
  qed
qed

lemma queued_sum: "queued s = (\<Sum>b\<in>UNIV. length (queue_of s b))"
proof -
  have "(\<Sum>b\<in>UNIV. length (queue_of s b)) = (\<Sum>b\<in>fmdom' (flows s). length (queue_of s b))"
    by (rule sum.mono_neutral_right) (auto simp: queue_of_def fmdom'_notD)
  also have "\<dots> = queued s"
    unfolding queued_def fmsum_def by (rule sum.cong) (auto simp: queue_of_def fmlookup_dom'_iff)
  finally show ?thesis by simp
qed

lemma queued_upd: "queue_of s' = (queue_of s)(b := q) \<Longrightarrow> queued s' + length (queue_of s b) = length q + queued s"
  unfolding queued_sum
  by (simp add: sum.remove [OF _ UNIV_I [of b], of "\<lambda>c. length (queue_of s c)"]
      sum.remove [OF _ UNIV_I [of b], of "\<lambda>c. length (if c = b then q else queue_of s c)"] fun_upd_def)

lemma delivers_queued: "delivers s s' b d \<Longrightarrow> queued s' < queued s"
  by (auto simp: delivers_def dest!: queued_upd)

text \<open>The result of a call: nothing when nothing is queued, else a packet of one of the queues.\<close>

definition dequeue_result :: "scheduler \<Rightarrow> scheduler \<times> bytes option \<Rightarrow> bool" where
  "dequeue_result s r \<longleftrightarrow> sched_inv (fst r) \<and>
     (case snd r of
        None \<Rightarrow> queued s = 0 \<and> same_queues s (fst r)
      | Some d \<Rightarrow> queued s \<noteq> 0 \<and> (\<exists>b. delivers s (fst r) b d))"

lemma same_queues_result: "same_queues s t \<Longrightarrow> dequeue_result t r \<Longrightarrow> dequeue_result s r"
  by (auto simp: dequeue_result_def queued_0_iff dest: delivers_same same_queues_trans split: option.splits)
    (auto simp: same_queues_def)

lemma dequeueLocked_result: "sched_inv s \<Longrightarrow> \<exists>r. dequeueLocked clock s = Some r \<and> dequeue_result s r"
proof (induction s arbitrary: clock rule: wf_induct_rule [OF wf_turn_order])
  case (1 s)
  from 1(2) show ?case
  proof (cases rule: turn_cases [where now = "clock 0"])
    case idle
    then have "flows s = fmempty" using 1(2)
      by (auto simp: sched_inv_def lists_ok_def fmdom'_alt_def intro!: fmap_ext)
        (metis bot_fset.rep_eq fmdom_notD fset_inject fempty_iff)
    then have "queued s = 0" by (simp add: queued_def)
    then show ?thesis using idle 1(2) by (subst dequeueLocked.simps) (simp add: dequeue_result_def)
  next
    case (next_turn s')
    obtain r where r: "dequeueLocked (\<lambda>i. clock (Suc i)) s' = Some r" "dequeue_result s' r"
      using 1(1) [OF next_turn(4,2)] by blast
    show ?thesis using next_turn(1) r same_queues_result [OF next_turn(3)] by (subst dequeueLocked.simps) simp
  next
    case (packet s' b bs d)
    then have "queue_of s b \<noteq> []" by (auto simp: delivers_def)
    then have "queued s \<noteq> 0" by (auto simp: queued_0_iff)
    then show ?thesis using packet by (subst dequeueLocked.simps) (auto simp: dequeue_result_def)
  qed
qed

section \<open>Overflow\<close>

lemma nonempty_in_queue:
  assumes "sched_inv s" "nonempty_in (flows s) f"
  shows "fmlookup (flows s) (bucket f) = Some f" "queue_of s (bucket f) = fq f" "fq f \<noteq> []"
  using assms sched_invD(1) [OF assms(1)] by (auto simp: nonempty_in_def queue_of_def)

lemma queue_in_flow:
  assumes "sched_inv s" "queue_of s b \<noteq> []"
  obtains f where "fmlookup (flows s) b = Some f" "queue_of s b = fq f" "fq f \<noteq> []" "fbytes f = qbytes (queue_of s b)"
  using assms sched_invD(2) [OF assms(1)] by (auto simp: queue_of_def split: option.splits)

text \<open>One overflow drop: the oldest packet of a queue with the most bytes.\<close>

definition overflow_step :: "scheduler \<Rightarrow> scheduler \<Rightarrow> u32 \<Rightarrow> bool" where
  "overflow_step s s' b \<longleftrightarrow> queue_of s b \<noteq> [] \<and> queue_of s' = (queue_of s)(b := tl (queue_of s b)) \<and>
     total s' = total s - plen (hd (queue_of s b)) \<and> cfg s' = cfg s \<and> closed s' = closed s \<and>
     sstats s' = (sstats s)\<lparr>overflow_drops := overflow_drops (sstats s) + 1\<rparr>"

lemma drop_one:
  assumes i: "sched_inv s" and f: "fattest (ord (flows s)) (flows s) = Some f"
  shows "\<exists>s'. dropFromFattest ord s = (s', True) \<and> sched_inv s' \<and> queued s = Suc (queued s') \<and>
    overflow_step s s' (bucket f)"
proof -
  note ne = nonempty_in_queue [OF i fattest_Some(1) [OF f]]
  note D = sched_invD [OF i ne(1)]
  obtain p q where q: "fq f = p # q" using ne(3) by (cases "fq f") auto
  let ?f = "f\<lparr>fq := q, fbytes := fbytes f - plen p\<rparr>"
  let ?s = "count_overflow (put_flow (s\<lparr>total := total s - plen p\<rparr>) ?f)"
  have d: "dropFromFattest ord s = (?s, True)"
    using f by (simp add: dropFromFattest_def popHead_def q Let_def)
  have fl: "flows ?s = flows (put_flow s ?f)" by (simp add: count_overflow_def put_flow_def)
  have fm: "flows ?s = fmupd (bucket f) ?f (flows s)" by (simp add: count_overflow_def put_flow_def)
  have q1: "queued s = Suc (queued ?s)"
    using queued_put [OF ne(1), of ?f] fl by (simp add: queued_def q)
  have t1: "fmsum fbytes (flows ?s) = fmsum fbytes (flows s) - plen p"
    using total_put [OF ne(1), of ?f] fl by simp
  have a: "total s = fmsum fbytes (flows s)"
    "enqueued (sstats s) = dequeued (sstats s) + codel_drops (sstats s) + overflow_drops (sstats s) + of_nat (queued s)"
    using i by (simp_all add: sched_inv_def accounts_ok_def)
  have st: "sstats ?s = (sstats s)\<lparr>overflow_drops := overflow_drops (sstats s) + 1\<rparr>"
    "total ?s = total s - plen p" "cfg ?s = cfg s" "newFlows ?s = newFlows s" "oldFlows ?s = oldFlows s"
    "closed ?s = closed s"
    by (simp_all add: count_overflow_def put_flow_def)
  have "accounts_ok ?s" unfolding accounts_ok_def st t1 using a q1 by (simp add: algebra_simps)
  moreover have "lists_ok ?s"
    using i fmdom'I [OF ne(1)] unfolding lists_ok_def st fm sched_inv_def by auto
  moreover have "flows_ok ?s"
    using i D q unfolding flows_ok_def flow_ok_def st fm sched_inv_def by auto
  ultimately have "sched_inv ?s" using i by (simp add: sched_inv_def st)
  moreover have "queue_of ?s = (queue_of s)(bucket f := q)"
    using queue_of_put [of s ?f] fl by (simp add: queue_of_def fun_eq_iff)
  ultimately show ?thesis using d q1 st ne(2) q by (auto simp: overflow_step_def)
qed

lemma drop_none: "fattest (ord (flows s)) (flows s) = None \<Longrightarrow> dropFromFattest ord s = (s, False)"
  by (simp add: dropFromFattest_def)

text \<open>The overflow loop returns; what it leaves of each queue is its tail.\<close>

definition trimmed :: "scheduler \<Rightarrow> scheduler \<Rightarrow> bool" where
  "trimmed s s' \<longleftrightarrow> (\<forall>b. \<exists>n. queue_of s' b = drop n (queue_of s b)) \<and> total s' \<le> total s \<and> cfg s' = cfg s \<and>
     closed s' = closed s \<and>
     sstats s' = (sstats s)\<lparr>overflow_drops := overflow_drops (sstats s) + of_nat (queued s - queued s')\<rparr> \<and>
     queued s' \<le> queued s"

lemma trimmed_refl [simp]: "trimmed s s"
  unfolding trimmed_def by (auto intro: exI [of _ "0::nat"])

lemma trim_result:
  assumes "sched_inv s"
  shows "\<exists>s'. trim ord s = Some s' \<and> sched_inv s' \<and> trimmed s s' \<and> \<not> drop_ready ord s'"
  using assms
proof (induction "queued s" arbitrary: s rule: less_induct)
  case less
  show ?case
  proof (cases "drop_ready ord s")
    case True
    then obtain f where f: "fattest (ord (flows s)) (flows s) = Some f"
      using drop_none [of ord s] by (cases "fattest (ord (flows s)) (flows s)") (auto simp: drop_ready_def)
    obtain s1 where s1: "dropFromFattest ord s = (s1, True)" "sched_inv s1" "queued s = Suc (queued s1)"
      "overflow_step s s1 (bucket f)" using drop_one [where ord = ord, OF less.prems f] by blast
    obtain s2 where s2: "trim ord s1 = Some s2" "sched_inv s2" "trimmed s1 s2" "\<not> drop_ready ord s2"
      using less.hyps [OF _ s1(2)] s1(3) by auto
    have "\<exists>n. queue_of s2 b = drop n (queue_of s b)" for b
    proof -
      obtain n where "queue_of s2 b = drop n (queue_of s1 b)" using s2(3) by (auto simp: trimmed_def)
      then show ?thesis using s1(4)
        by (cases "b = bucket f") (auto simp: overflow_step_def intro: exI [of _ "Suc n"] simp flip: drop_Suc)
    qed
    moreover have "(of_nat (queued s - queued s2) :: u64) = 1 + of_nat (queued s1 - queued s2)" "queued s2 \<le> queued s1"
      using s1(3) s2(3) by (auto simp: trimmed_def Suc_diff_le)
    moreover have "total s2 \<le> total s"
      using s1(4) s2(3) plen_nonneg [of "hd (queue_of s (bucket f))"]
      unfolding overflow_step_def trimmed_def by linarith
    ultimately have "trimmed s s2" using s1(3,4) s2(3)
      by (auto simp: trimmed_def overflow_step_def)
    then show ?thesis using True s1(1) s2 by (subst trim.simps) simp
  next
    case False
    then show ?thesis using less.prems by (subst trim.simps) simp
  qed
qed

lemma trim_limit:
  assumes "sched_inv s" "range_order ord" "\<not> drop_ready ord s"
  shows "total s \<le> limit_bytes (cfg s)"
proof (cases "fattest (ord (flows s)) (flows s)")
  case None
  have "fmlookup (flows s) b = Some f \<Longrightarrow> fbytes f = 0" for b f
    using fattest_None [OF None, of b f] range_order_set [OF assms(2), of b "flows s"] sched_invD(2) [OF assms(1)]
    by simp
  then have "fmsum fbytes (flows s) = 0" by (intro fmsum_eq_0)
  then show ?thesis using assms(1) by (simp add: sched_inv_def accounts_ok_def)
next
  case (Some f)
  obtain s' where "dropFromFattest ord s = (s', True)" using drop_one [where ord = ord, OF assms(1) Some] by blast
  then show ?thesis using assms(3) by (auto simp: drop_ready_def)
qed

section \<open>Enqueue\<close>

text \<open>The state between the insertion of the packet and the overflow loop.\<close>

definition pushed :: "(bytes \<Rightarrow> u64) \<Rightarrow> scheduler \<Rightarrow> flowkey \<Rightarrow> bytes \<Rightarrow> time \<Rightarrow> scheduler" where
  "pushed hash s key d now =
     (let b = bucketOf hash key;
          f = (case fmlookup (flows s) b of Some f \<Rightarrow> f | None \<Rightarrow> new_flow b);
          f1 = f\<lparr>fq := fq f @ [\<lparr>p_data = d, p_enq = now\<rparr>], fbytes := fbytes f + int (length d)\<rparr>;
          s1 = s\<lparr>total := total s + int (length d),
                 sstats := (sstats s)\<lparr>enqueued := enqueued (sstats s) + 1\<rparr>\<rparr>
      in if \<not> linked f1
         then put_flow (s1\<lparr>newFlows := newFlows s1 @ [b]\<rparr>)
                (f1\<lparr>deficit := quantum (cfg s1), linked := True, inNew := True\<rparr>)
         else put_flow s1 f1)"

lemma Enqueue_pushed:
  "Enqueue hash ord s key d now = (if closed s then Some s else trim ord (pushed hash s key d now))"
  by (simp add: Enqueue_def pushed_def Let_def)

lemma bucketOf_less: "bucketOf hash k < 1024"
proof -
  have "hash (key_bytes k) mod 1024 < 1024" by (rule word_mod_less_divisor) simp
  then have "unat (hash (key_bytes k) mod 1024) < 1024" by (simp add: word_less_nat_alt)
  then have "unat (ucast (hash (key_bytes k) mod 1024) :: u32) < 1024"
    unfolding unsigned_ucast_eq by (rule order_le_less_trans [OF take_bit_nat_less_eq_self])
  then show ?thesis by (simp add: bucketOf_def flowBuckets_def word_less_nat_alt)
qed

lemma pushed_inv:
  assumes i: "sched_inv s"
  shows "sched_inv (pushed hash s key d now)"
    "queue_of (pushed hash s key d now) =
       (queue_of s)(bucketOf hash key := queue_of s (bucketOf hash key) @ [\<lparr>p_data = d, p_enq = now\<rparr>])"
    "total (pushed hash s key d now) = total s + int (length d)"
    "queued (pushed hash s key d now) = Suc (queued s)"
proof -
  let ?s = "pushed hash s key d now"
  define b where "b = bucketOf hash key"
  define p where "p = \<lparr>p_data = d, p_enq = now\<rparr>"
  have a: "total s = fmsum fbytes (flows s)"
    "enqueued (sstats s) = dequeued (sstats s) + codel_drops (sstats s) + overflow_drops (sstats s) + of_nat (queued s)"
    using i by (simp_all add: sched_inv_def accounts_ok_def)
  have p: "plen p = int (length d)" by (simp add: p_def plen_def)
  have t: "total ?s = total s + int (length d)" "cfg ?s = cfg s" "closed ?s = closed s"
    "sstats ?s = (sstats s)\<lparr>enqueued := enqueued (sstats s) + 1\<rparr>"
    by (simp_all add: pushed_def put_flow_def Let_def)
  have b1024: "b < 1024" by (simp add: b_def bucketOf_less)
  consider (new) "fmlookup (flows s) b = None" | (old) f where "fmlookup (flows s) b = Some f"
    by (cases "fmlookup (flows s) b") auto
  then have "sched_inv ?s \<and> queue_of ?s = (queue_of s)(b := queue_of s b @ [p]) \<and> queued ?s = Suc (queued s)"
  proof cases
    case new
    let ?f = "\<lparr>bucket = b, fq = [p], fbytes = int (length d), deficit = quantum (cfg s), linked = True, inNew = True, codel = zero_codel\<rparr>"
    have fl: "flows ?s = fmupd b ?f (flows s)" "newFlows ?s = newFlows s @ [b]" "oldFlows ?s = oldFlows s"
      using new by (simp_all add: pushed_def put_flow_def Let_def b_def [symmetric] new_flow_def p_def)
    have nb: "b \<notin> set (newFlows s @ oldFlows s)"
      using new i by (auto simp: sched_inv_def lists_ok_def fmlookup_dom'_iff)
    have q: "queued ?s = Suc (queued s)" unfolding queued_def fl(1) by (simp add: fmsum_fmupd_new [OF new])
    have fb: "fmsum fbytes (flows ?s) = int (length d) + fmsum fbytes (flows s)"
      unfolding fl(1) by (simp add: fmsum_fmupd_new [OF new])
    have "accounts_ok ?s" unfolding accounts_ok_def fb t q using a by simp
    moreover have "lists_ok ?s" using i nb unfolding lists_ok_def sched_inv_def fl by auto
    moreover have "flows_ok ?s"
      using i nb p b1024 unfolding flows_ok_def flow_ok_def sched_inv_def fl t by auto
    ultimately show ?thesis using i q new by (auto simp: sched_inv_def t queue_of_def fl fun_eq_iff)
  next
    case old
    note D = sched_invD [OF i old]
    let ?f = "f\<lparr>fq := fq f @ [p], fbytes := fbytes f + int (length d)\<rparr>"
    have fl: "flows ?s = fmupd b ?f (flows s)" "newFlows ?s = newFlows s" "oldFlows ?s = oldFlows s"
      using old D(1,3) by (simp_all add: pushed_def put_flow_def Let_def b_def [symmetric] p_def)
    have q: "queued ?s = Suc (queued s)"
      using fmsum_replace [OF old, of "\<lambda>f. length (fq f)" ?f] unfolding queued_def fl(1) by simp
    have fb: "fmsum fbytes (flows ?s) = int (length d) + fmsum fbytes (flows s)"
      using fmsum_replace [OF old, of fbytes ?f] unfolding fl(1) by simp
    have "accounts_ok ?s" unfolding accounts_ok_def fb t q using a by simp
    moreover have "lists_ok ?s" using i fmdom'I [OF old] unfolding lists_ok_def sched_inv_def fl by auto
    moreover have "flows_ok ?s" using i D p unfolding flows_ok_def flow_ok_def sched_inv_def fl t by auto
    ultimately show ?thesis using i q old by (auto simp: sched_inv_def t queue_of_def fl fun_eq_iff)
  qed
  then show "sched_inv ?s" "queue_of ?s = (queue_of s)(bucketOf hash key := queue_of s (bucketOf hash key) @ [\<lparr>p_data = d, p_enq = now\<rparr>])"
    "total ?s = total s + int (length d)" "queued ?s = Suc (queued s)" using t by (simp_all add: b_def p_def)
qed

lemma Enqueue_result:
  assumes "sched_inv s"
  shows "\<exists>s'. Enqueue hash ord s key d now = Some s' \<and> sched_inv s' \<and>
     (if closed s then s' = s else trimmed (pushed hash s key d now) s' \<and> \<not> drop_ready ord s')"
  using trim_result [OF pushed_inv(1) [OF assms], of ord hash key d now] assms
  by (auto simp: Enqueue_pushed)

section \<open>The batch\<close>

lemma fill_batch_result:
  "sched_inv s \<Longrightarrow> \<exists>s' more. fill_batch clocks maxBytes sz s batch = Some (s', batch @ more) \<and> sched_inv s' \<and>
     cfg s' = cfg s \<and> total s' \<le> total s \<and> closed s' = closed s \<and> queued s' + length more \<le> queued s \<and>
     (more \<noteq> [] \<longrightarrow> sz + sum_list (map (int \<circ> length) (butlast more)) < maxBytes) \<and>
     (queued s' = 0 \<or> maxBytes \<le> sz + sum_list (map (int \<circ> length) more))"
proof (induction "queued s" arbitrary: s clocks sz batch rule: less_induct)
  case less
  show ?case
  proof (cases "sz < maxBytes")
    case True
    obtain s1 r where r: "dequeueLocked (clocks 0) s = Some (s1, r)" "dequeue_result s (s1, r)"
      using dequeueLocked_result [OF less.prems, of "clocks 0"] by auto
    show ?thesis
    proof (cases r)
      case None
      then have "queued s1 = 0" "sched_inv s1" "total s1 = total s" "cfg s1 = cfg s" "closed s1 = closed s"
        using r(2) queued_0_iff [of s] queued_0_iff [of s1] by (auto simp: dequeue_result_def same_queues_def)
      then show ?thesis using None r(1) True
        by (intro exI [of _ s1] exI [of _ "[]"]) (simp add: fill_batch.simps [of clocks])
    next
      case (Some d)
      with r(2) obtain b where b: "sched_inv s1" "delivers s s1 b d" by (auto simp: dequeue_result_def)
      have lt: "Suc (queued s1) \<le> queued s" 
        using delivers_queued [OF b(2)] by simp
      obtain s2 more where m: "fill_batch (\<lambda>i. clocks (Suc i)) maxBytes (sz + int (length d)) s1 (batch @ [d])
           = Some (s2, (batch @ [d]) @ more)" "sched_inv s2" "cfg s2 = cfg s1" "total s2 \<le> total s1"
        "closed s2 = closed s1" "queued s2 + length more \<le> queued s1"
        "more \<noteq> [] \<longrightarrow> sz + int (length d) + sum_list (map (int \<circ> length) (butlast more)) < maxBytes"
        "queued s2 = 0 \<or> maxBytes \<le> sz + int (length d) + sum_list (map (int \<circ> length) more)"
        using less.hyps [OF _ b(1)] lt by (metis Suc_le_lessD)
      have "total s1 \<le> total s" "cfg s1 = cfg s" "closed s1 = closed s"
        using b(2) qbytes_nonneg by (auto simp: delivers_def)
      then show ?thesis using m True r(1) Some lt
        by (intro exI [of _ s2] exI [of _ "d # more"]) (auto simp: fill_batch.simps [of clocks] add.assoc)
    qed
  next
    case False
    then show ?thesis using less.prems
      by (intro exI [of _ s] exI [of _ "[]"]) (simp add: fill_batch.simps [of clocks])
  qed
qed

lemma Dequeue_result:
  assumes "sched_inv s" "\<not> closed s"
  shows "(\<exists>s'. Dequeue clock s = Some (Wait s') \<and> queued s = 0 \<and> sched_inv s' \<and> same_queues s s') \<or>
         (\<exists>s' b d. Dequeue clock s = Some (Got s' d) \<and> sched_inv s' \<and> delivers s s' b d)"
  using dequeueLocked_result [OF assms(1), of clock] assms(2)
  by (force simp: Dequeue_def dequeue_result_def split: option.splits)

section \<open>The scheduler as a state machine\<close>

datatype sched_op =
    EnqueueOp flowkey bytes time
  | DequeueOp "nat \<Rightarrow> time"
  | BatchOp "nat \<Rightarrow> nat \<Rightarrow> time" int
  | CloseOp

definition after :: "scheduler \<Rightarrow> 'a outcome option \<Rightarrow> scheduler" where
  "after s r = (case r of Some (Wait s') \<Rightarrow> s' | Some (Got s' d) \<Rightarrow> s' | _ \<Rightarrow> s)"

definition sched_step ::
  "(bytes \<Rightarrow> u64) \<Rightarrow> ((u32, flow) fmap \<Rightarrow> u32 list) \<Rightarrow> scheduler \<Rightarrow> sched_op \<Rightarrow> scheduler" where
  "sched_step hash ord s oper =
     (case oper of
        EnqueueOp key d now \<Rightarrow> (case Enqueue hash ord s key d now of Some s' \<Rightarrow> s' | None \<Rightarrow> s)
      | DequeueOp clock \<Rightarrow> after s (Dequeue clock s)
      | BatchOp clocks maxBytes \<Rightarrow> after s (DequeueBatch clocks s maxBytes)
      | CloseOp \<Rightarrow> Close s)"

lemma Close_inv: "sched_inv s \<Longrightarrow> sched_inv (Close s)"
  by (simp add: Close_def sched_inv_def lists_ok_def accounts_ok_def flows_ok_def flow_ok_def queued_def)

lemma DequeueBatch_result:
  assumes "sched_inv s" "\<not> closed s"
  shows "(\<exists>s'. DequeueBatch clocks s maxBytes = Some (Wait s') \<and> queued s = 0 \<and> sched_inv s' \<and> same_queues s s') \<or>
    (\<exists>s' d more. DequeueBatch clocks s maxBytes = Some (Got s' (d # more)) \<and> sched_inv s' \<and>
       (more \<noteq> [] \<longrightarrow> sum_list (map (int \<circ> length) (d # butlast more)) < maxBytes) \<and>
       (queued s' = 0 \<or> maxBytes \<le> sum_list (map (int \<circ> length) (d # more))))"
proof (cases "\<exists>s'. Dequeue (clocks 0) s = Some (Wait s') \<and> queued s = 0 \<and> sched_inv s' \<and> same_queues s s'")
  case True
  then show ?thesis by (auto simp: DequeueBatch_def)
next
  case False
  then obtain s1 d where d: "Dequeue (clocks 0) s = Some (Got s1 d)" "sched_inv s1"
    using Dequeue_result [OF assms, of "clocks 0"] by auto
  from fill_batch_result [OF d(2), of "\<lambda>i. clocks (Suc i)" maxBytes "int (length d)" "[d]"] d(1)
  show ?thesis by (auto simp: DequeueBatch_def)
qed

lemma sched_step_inv: "sched_inv s \<Longrightarrow> sched_inv (sched_step hash ord s oper)"
proof (cases "closed s")
  case True
  then show "sched_inv s \<Longrightarrow> sched_inv (sched_step hash ord s oper)"
    by (auto simp: sched_step_def Enqueue_pushed Dequeue_def DequeueBatch_def after_def Close_inv split: sched_op.split)
next
  case False
  assume i: "sched_inv s"
  show "sched_inv (sched_step hash ord s oper)"
  proof (cases oper)
    case (EnqueueOp key d now)
    then show ?thesis using Enqueue_result [OF i, of hash ord key d now] by (auto simp: sched_step_def)
  next
    case (DequeueOp clock)
    then show ?thesis using Dequeue_result [OF i False, of clock] by (auto simp: sched_step_def after_def)
  next
    case (BatchOp clocks m)
    then show ?thesis using DequeueBatch_result [OF i False, of clocks m] by (auto simp: sched_step_def after_def)
  next
    case CloseOp
    then show ?thesis using i by (simp add: sched_step_def Close_inv)
  qed
qed

interpretation sched: guarded_system "sched_step hash ord" sched_inv "New c" for hash ord c
  by unfold_locales (simp_all add: sched_inv_New sched_step_inv)

lemma few_buckets:
  assumes "sched_inv s" shows "gosize (flows s) \<le> 1024"
proof -
  have "fmdom' (flows s) \<subseteq> of_nat ` {..<1024}"
  proof
    fix b assume "b \<in> fmdom' (flows s)"
    then obtain f where "fmlookup (flows s) b = Some f" by (auto simp: fmlookup_dom'_iff)
    then have "unat b < 1024" using sched_invD(6) [OF assms] by (simp add: word_less_nat_alt)
    then show "b \<in> of_nat ` {..<1024}" by (intro image_eqI [of _ _ "unat b"]) auto
  qed
  then have "card (fmdom' (flows s)) \<le> card ((of_nat :: nat \<Rightarrow> u32) ` {..<1024})"
    by (intro card_mono) auto
  also have "\<dots> \<le> 1024" using card_image_le [of "{..<1024::nat}" "of_nat :: nat \<Rightarrow> u32"] by simp
  finally show ?thesis by (simp add: fcard.rep_eq fmdom'_alt_def)
qed

text \<open>C3. After any sequence of operations on a new scheduler: every packet that was enqueued has
  been dequeued, dropped and counted, or is still queued (counters modulo \<open>2\<^sup>6\<^sup>4\<close>); the byte
  count is that of the queued packets; the two lists hold each flow of the map exactly once; and
  there are at most 1024 flows.\<close>

theorem scheduler_conserves_packets:
  "let s = foldl (sched_step hash ord) (New c) ops in
     enqueued (sstats s) = dequeued (sstats s) + codel_drops (sstats s) + overflow_drops (sstats s) + of_nat (queued s) \<and>
     total s = fmsum (\<lambda>f. qbytes (fq f)) (flows s) \<and>
     distinct (newFlows s @ oldFlows s) \<and> set (newFlows s @ oldFlows s) = fmdom' (flows s) \<and>
     active_flows (Stats s) \<le> 1024"
proof -
  define s where "s = foldl (sched_step hash ord) (New c) ops"
  have i: "sched_inv s" unfolding s_def by (rule sched.run_inv)
  have "fmsum fbytes (flows s) = fmsum (\<lambda>f. qbytes (fq f)) (flows s)"
    by (rule fmsum_cong) (simp add: sched_invD(2) [OF i])
  then show ?thesis using i few_buckets [OF i] unfolding s_def [symmetric]
    by (simp add: sched_inv_def accounts_ok_def lists_ok_def Stats_def Let_def)
qed

text \<open>C2. The dequeue loop always returns, and it is work conserving: it comes back empty only when
  nothing is queued. Otherwise it returns a packet of one queue, in order, and the packets ahead of
  it in that queue are the ones CoDel dropped and counted; the other queues are untouched.\<close>

theorem dequeue_work_conserving:
  assumes "sched_inv s"
  shows "\<exists>s' r. dequeueLocked clock s = Some (s', r) \<and> sched_inv s' \<and>
     (case r of
        None \<Rightarrow> queued s = 0 \<and> queue_of s' = queue_of s
      | Some d \<Rightarrow> \<exists>b k. k < length (queue_of s b) \<and> d = p_data (queue_of s b ! k) \<and>
          queue_of s' = (queue_of s)(b := drop (Suc k) (queue_of s b)) \<and>
          codel_drops (sstats s') = codel_drops (sstats s) + of_nat k)"
  using dequeueLocked_result [OF assms, of clock]
  by (fastforce simp: dequeue_result_def delivers_def same_queues_def split: option.splits)

theorem dequeue_work_conserving_witness:
  "\<exists>s' d. dequeueLocked (\<lambda>i. 5) (pushed (\<lambda>k. 7) (New \<lparr>quantum = 0, limit_bytes = 0, target = 0, interval = 0\<rparr>)
      zero_key [1, 2, 3] 4) = Some (s', Some d) \<and> sched_inv s'"
proof -
  let ?s = "New \<lparr>quantum = 0, limit_bytes = 0, target = 0, interval = 0\<rparr>"
  note p = pushed_inv [OF sched_inv_New, of "\<lambda>k. 7" "\<lparr>quantum = 0, limit_bytes = 0, target = 0, interval = 0\<rparr>" zero_key "[1, 2, 3]" 4]
  show ?thesis using dequeue_work_conserving [OF p(1), of "\<lambda>i. 5"] p(4) by (fastforce split: option.splits)
qed

text \<open>C22. \<^verbatim>\<open>Enqueue\<close> always returns, with the byte limit respected whatever the iteration order of the
  flow map; of every queue (the new packet at the end of its own) a tail is left, and what was cut
  off is counted as overflow drops. A closed scheduler ignores the packet.\<close>

theorem enqueue_bounded:
  assumes "sched_inv s" "range_order ord"
  shows "\<exists>s'. Enqueue hash ord s key d now = Some s' \<and>
     (if closed s then s' = s
      else sched_inv s' \<and> total s' \<le> limit_bytes (cfg s) \<and>
        (\<forall>b. \<exists>n. queue_of s' b =
           drop n (queue_of s b @ (if b = bucketOf hash key then [\<lparr>p_data = d, p_enq = now\<rparr>] else []))) \<and>
        overflow_drops (sstats s') = overflow_drops (sstats s) + of_nat (Suc (queued s) - queued s'))"
proof (cases "closed s")
  case True
  then show ?thesis by (simp add: Enqueue_pushed)
next
  case False
  let ?p = "pushed hash s key d now"
  obtain s' where s': "Enqueue hash ord s key d now = Some s'" "sched_inv s'" "trimmed ?p s'" "\<not> drop_ready ord s'"
    using Enqueue_result [OF assms(1), of hash ord key d now] False by auto
  have c: "cfg ?p = cfg s" "overflow_drops (sstats ?p) = overflow_drops (sstats s)"
    by (simp_all add: pushed_def put_flow_def Let_def)
  have q: "queue_of ?p b = queue_of s b @ (if b = bucketOf hash key then [\<lparr>p_data = d, p_enq = now\<rparr>] else [])" for b
    by (simp add: pushed_inv(2) [OF assms(1)])
  have "total s' \<le> limit_bytes (cfg s)"
    using trim_limit [OF s'(2) assms(2) s'(4)] s'(3) c by (simp add: trimmed_def)
  then show ?thesis using s' False c(2) unfolding trimmed_def pushed_inv(4) [OF assms(1)] q by auto
qed

theorem enqueue_bounded_witness:
  "\<exists>s'. Enqueue (\<lambda>k. 7) sorted_order (New \<lparr>quantum = 0, limit_bytes = 2, target = 0, interval = 0\<rparr>) zero_key [1, 2, 3] 4 = Some s' \<and>
     total s' \<le> 2"
  using enqueue_bounded [OF sched_inv_New sorted_order_range, of "\<lambda>k. 7"
      "\<lparr>quantum = 0, limit_bytes = 2, target = 0, interval = 0\<rparr>" zero_key "[1, 2, 3]" 4]
  by (auto simp: New_def Let_def)

text \<open>Overflow hits the flow that caused it: the packet dropped is the oldest of a queue that holds
  at least as many bytes as every other queue.\<close>

theorem overflow_drops_fattest:
  assumes "sched_inv s" "range_order ord" "dropFromFattest ord s = (s', True)"
  shows "\<exists>b. queue_of s b \<noteq> [] \<and> queue_of s' = (queue_of s)(b := tl (queue_of s b)) \<and>
     (\<forall>c. qbytes (queue_of s c) \<le> qbytes (queue_of s b))"
proof -
  obtain f where f: "fattest (ord (flows s)) (flows s) = Some f"
    using assms(3) drop_none [of ord s] by (cases "fattest (ord (flows s)) (flows s)") auto
  note q = nonempty_in_queue [OF assms(1) fattest_Some(1) [OF f]]
  have step: "overflow_step s s' (bucket f)" using drop_one [where ord = ord, OF assms(1) f] assms(3) by auto
  have "qbytes (queue_of s c) \<le> qbytes (queue_of s (bucket f))" for c
  proof (cases "queue_of s c = []")
    case False
    then obtain g where g: "fmlookup (flows s) c = Some g" "queue_of s c = fq g" "fq g \<noteq> []" "fbytes g = qbytes (queue_of s c)"
      using queue_in_flow [OF assms(1)] by metis
    have "c \<in> set (ord (flows s))" using g(1) range_order_set [OF assms(2)] by auto
    then have "fbytes g \<le> fbytes f" using fattest_Some(2) [OF f _ g(1,3)] by simp
    then show ?thesis using g(4) q(2) sched_invD(2) [OF assms(1) q(1)] by simp
  qed simp
  then show ?thesis using step by (auto simp: overflow_step_def)
qed

theorem overflow_drops_fattest_witness:
  "\<exists>s' b. dropFromFattest sorted_order (pushed (\<lambda>k. 7) (New \<lparr>quantum = 0, limit_bytes = 2, target = 0, interval = 0\<rparr>)
      zero_key [1, 2, 3] 4) = (s', True) \<and> queue_of s' b = []"
proof -
  let ?s = "pushed (\<lambda>k. 7) (New \<lparr>quantum = 0, limit_bytes = 2, target = 0, interval = 0\<rparr>) zero_key [1, 2, 3] 4"
  have p: "sched_inv ?s" by (rule pushed_inv(1) [OF sched_inv_New])
  have d: "snd (dropFromFattest sorted_order ?s)" by code_simp
  then have "dropFromFattest sorted_order ?s = (fst (dropFromFattest sorted_order ?s), True)" by (simp add: prod_eq_iff)
  note t = overflow_drops_fattest [OF p sorted_order_range this]
  have "queue_of (New c) b = []" for c b by (simp add: queue_of_def New_def Let_def)
  then have "queue_of ?s b = (if b = bucketOf (\<lambda>k. 7) zero_key then [\<lparr>p_data = [1, 2, 3], p_enq = 4\<rparr>] else [])" for b
    using pushed_inv(2) [OF sched_inv_New, of "\<lambda>k. 7" "\<lparr>quantum = 0, limit_bytes = 2, target = 0, interval = 0\<rparr>" zero_key "[1, 2, 3]" 4]
    by simp
  with t have "\<exists>b. queue_of (fst (dropFromFattest sorted_order ?s)) b = []"
    by (metis list.sel(3) fun_upd_same)
  then show ?thesis using d by (metis prod.collapse)
qed

text \<open>A sparse flow does not wait: when no new flow is waiting, a packet of an idle flow that fits
  the limit is the very next packet out, however much the other flows have queued.\<close>

theorem sparse_flow_first:
  assumes "sched_inv s" "\<not> closed s" "newFlows s = []" "fmlookup (flows s) (bucketOf hash key) = None"
    "total s + int (length d) \<le> limit_bytes (cfg s)"
  shows "\<exists>s' s''. Enqueue hash ord s key d now = Some s' \<and> dequeueLocked clock s' = Some (s'', Some d)"
proof -
  define b where "b = bucketOf hash key"
  define s' where "s' = pushed hash s key d now"
  note p = pushed_inv [OF assms(1), of hash key d now, folded s'_def b_def]
  have c: "cfg s' = cfg s" by (simp add: s'_def pushed_def put_flow_def Let_def)
  have "\<not> drop_ready ord s'" using assms(5) p(3) c by (simp add: drop_ready_def)
  then have e: "Enqueue hash ord s key d now = Some s'"
    using assms(2) by (simp add: Enqueue_pushed s'_def [symmetric]) (subst trim.simps, simp)
  have nf: "newFlows s' = [b]" "\<exists>f. fmlookup (flows s') b = Some f \<and> 0 < deficit f \<and> fq f = [\<lparr>p_data = d, p_enq = now\<rparr>]"
    using assms(1,3,4) by (simp_all add: s'_def b_def pushed_def put_flow_def Let_def new_flow_def sched_inv_def)
  have "\<exists>s''. dequeueLocked clock s' = Some (s'', Some d)"
    using p(1)
  proof (cases rule: turn_cases [where now = "clock 0"])
    case idle
    then show ?thesis using nf(1) by simp
  next
    case (next_turn t)
    then show ?thesis using nf by fastforce
  next
    case (packet t b' bs d')
    have q: "queue_of s' b = [\<lparr>p_data = d, p_enq = now\<rparr>]" using nf(2) by (auto simp: queue_of_def)
    have "b' = b" using packet(3) nf(1) by simp
    then have "d' = d" using packet(4) q by (auto simp: delivers_def)
    then show ?thesis using packet(1) by (subst dequeueLocked.simps) simp
  qed
  then show ?thesis using e by blast
qed

theorem sparse_flow_first_witness:
  "\<exists>s' s''. Enqueue (\<lambda>k. 7) sorted_order (New \<lparr>quantum = 0, limit_bytes = 9, target = 0, interval = 0\<rparr>) zero_key [1, 2, 3] 4 = Some s' \<and>
     dequeueLocked (\<lambda>i. 5) s' = Some (s'', Some [1, 2, 3])"
  by (rule sparse_flow_first [OF sched_inv_New]) (simp_all add: New_def Let_def)

text \<open>A batch has at least one packet and stops in time: without its last packet it is below
  \<^verbatim>\<open>maxBytes\<close> (so it exceeds the bound by less than one packet), and it stops short of the bound
  only when nothing is left. When nothing is queued the call waits.\<close>

theorem batch_bounds:
  assumes "sched_inv s" "\<not> closed s"
  shows "(\<exists>s'. DequeueBatch clocks s maxBytes = Some (Wait s') \<and> queued s = 0 \<and> sched_inv s') \<or>
    (\<exists>s' d more. DequeueBatch clocks s maxBytes = Some (Got s' (d # more)) \<and> sched_inv s' \<and>
       (more \<noteq> [] \<longrightarrow> sum_list (map (int \<circ> length) (d # butlast more)) < maxBytes) \<and>
       (queued s' = 0 \<or> maxBytes \<le> sum_list (map (int \<circ> length) (d # more))))"
  using DequeueBatch_result [OF assms, of clocks maxBytes] by blast

theorem batch_bounds_witness:
  "\<exists>s' d more. DequeueBatch (\<lambda>j i. 5) (pushed (\<lambda>k. 7) (New \<lparr>quantum = 0, limit_bytes = 0, target = 0, interval = 0\<rparr>)
      zero_key [1, 2, 3] 4) 2 = Some (Got s' (d # more)) \<and> sched_inv s'"
proof -
  note p = pushed_inv [OF sched_inv_New, of "\<lambda>k. 7" "\<lparr>quantum = 0, limit_bytes = 0, target = 0, interval = 0\<rparr>" zero_key "[1, 2, 3]" 4]
  have "\<not> closed (pushed (\<lambda>k. 7) (New \<lparr>quantum = 0, limit_bytes = 0, target = 0, interval = 0\<rparr>) zero_key [1, 2, 3] 4)"
    by (simp add: pushed_def put_flow_def New_def Let_def)
  from batch_bounds [OF p(1) this, of "\<lambda>j i. 5" 2] p(4) show ?thesis by auto
qed

text \<open>CoDel only drops from a standing queue: when at most one packet's worth of bytes stays behind
  the head, or the head waited less than the target, the dequeue returns the head and drops nothing.\<close>

theorem codel_spares_short_queues:
  assumes "fq f = p # q" "fbytes f - plen p \<le> maxPacket \<or> time_sub now (p_enq p) < target (cfg s)"
  shows "\<exists>c. codelDequeue s f now =
    (s\<lparr>total := total s - plen p\<rparr>, f\<lparr>fq := q, fbytes := fbytes f - plen p, codel := c\<rparr>, Some (p_data p))"
proof -
  from doDequeue_cons [OF assms(1), of s now] obtain c ok where d: "doDequeue s f now =
      (s\<lparr>total := total s - plen p\<rparr>, f\<lparr>fq := q, fbytes := fbytes f - plen p, codel := c\<rparr>, Some p, ok)"
    "ok \<longrightarrow> maxPacket < fbytes f - plen p" "ok \<longrightarrow> target (cfg s) \<le> time_sub now (p_enq p)" by blast
  have "\<not> ok" using d(2,3) assms(2) by linarith
  have stop: "\<not> dropping (codel g) \<Longrightarrow> drop_loop s1 g (Some p) now = (s1, g, Some p)" for s1 g
    by (subst drop_loop.simps) simp
  show ?thesis using d(1) \<open>\<not> ok\<close> by (auto simp: codelDequeue_def set_dropping_def stop)
qed

theorem codel_spares_short_queues_witness:
  "let s = New \<lparr>quantum = 0, limit_bytes = 0, target = 0, interval = 0\<rparr>;
       p = \<lparr>p_data = [1, 2], p_enq = 1\<rparr>;
       f = (new_flow 3)\<lparr>fq := [p], fbytes := 2\<rparr>
   in \<exists>c. codelDequeue s f (10 * minute) =
     (s\<lparr>total := total s - plen p\<rparr>, f\<lparr>fq := [], fbytes := fbytes f - plen p, codel := c\<rparr>, Some (p_data p))"
proof -
  define p where "p = \<lparr>p_data = [1, 2], p_enq = 1\<rparr>"
  define f where "f = (new_flow 3)\<lparr>fq := [p], fbytes := 2\<rparr>"
  define s where "s = New \<lparr>quantum = 0, limit_bytes = 0, target = 0, interval = 0\<rparr>"
  have "fq f = p # []" "fbytes f - plen p \<le> maxPacket"
    by (simp_all add: f_def p_def plen_def maxPacket_def)
  from codel_spares_short_queues [OF this(1), of "10 * minute" s] this(2) show ?thesis
    unfolding Let_def p_def [symmetric] f_def [symmetric] s_def [symmetric] by blast
qed

end
