(* ===== verification/NetIP.thy ===== *)
theory NetIP
  imports Prelude
begin

unbundle bit_operations_syntax

text \<open>
  What the program uses of Go's package net: addresses (\<^verbatim>\<open>net.IP\<close>) as byte strings of 4 or 16
  bytes, the empty string for nil, with the classification methods and \<^verbatim>\<open>IPNet.Contains\<close> as
  the standard library defines them. An IPv4 address may come in its 4-byte or in its
  IPv4-mapped 16-byte form; every method treats the two alike (\<open>canon\<close>).
\<close>

type_synonym ip = bytes

definition v4_prefix :: bytes where
  "v4_prefix = replicate 10 0 @ [0xFF, 0xFF]"

definition To4 :: "ip \<Rightarrow> ip" where
  "To4 a =
     (if length a = 4 then a
      else if length a = 16 \<and> take 12 a = v4_prefix then drop 12 a
      else [])"

definition ip_equal :: "ip \<Rightarrow> ip \<Rightarrow> bool" where
  "ip_equal a b \<longleftrightarrow>
     (if length a = length b then a = b
      else if length a = 4 \<and> length b = 16 then take 12 b = v4_prefix \<and> drop 12 b = a
      else if length a = 16 \<and> length b = 4 then take 12 a = v4_prefix \<and> drop 12 a = b
      else False)"

definition IPv4 :: "byte \<Rightarrow> byte \<Rightarrow> byte \<Rightarrow> byte \<Rightarrow> ip" where
  "IPv4 a b c d = v4_prefix @ [a, b, c, d]"

definition IPv4zero :: ip where "IPv4zero = IPv4 0 0 0 0"
definition IPv4bcast :: ip where "IPv4bcast = IPv4 255 255 255 255"
definition IPv6unspecified :: ip where "IPv6unspecified = replicate 16 0"
definition IPv6loopback :: ip where "IPv6loopback = replicate 15 0 @ [1]"

definition IsUnspecified :: "ip \<Rightarrow> bool" where
  "IsUnspecified a \<longleftrightarrow> ip_equal a IPv4zero \<or> ip_equal a IPv6unspecified"

definition IsLoopback :: "ip \<Rightarrow> bool" where
  "IsLoopback a \<longleftrightarrow> (if To4 a \<noteq> [] then To4 a ! 0 = 127 else ip_equal a IPv6loopback)"

definition IsPrivate :: "ip \<Rightarrow> bool" where
  "IsPrivate a \<longleftrightarrow>
     (let b = To4 a in
      if b \<noteq> [] then b ! 0 = 10 \<or> (b ! 0 = 172 \<and> b ! 1 AND 0xF0 = 16) \<or> (b ! 0 = 192 \<and> b ! 1 = 168)
      else length a = 16 \<and> a ! 0 AND 0xFE = 0xFC)"

definition IsMulticast :: "ip \<Rightarrow> bool" where
  "IsMulticast a \<longleftrightarrow>
     (if To4 a \<noteq> [] then To4 a ! 0 AND 0xF0 = 0xE0 else length a = 16 \<and> a ! 0 = 0xFF)"

definition IsLinkLocalUnicast :: "ip \<Rightarrow> bool" where
  "IsLinkLocalUnicast a \<longleftrightarrow>
     (let b = To4 a in
      if b \<noteq> [] then b ! 0 = 169 \<and> b ! 1 = 254
      else length a = 16 \<and> a ! 0 = 0xFE \<and> a ! 1 AND 0xC0 = 0x80)"

definition IsLinkLocalMulticast :: "ip \<Rightarrow> bool" where
  "IsLinkLocalMulticast a \<longleftrightarrow>
     (let b = To4 a in
      if b \<noteq> [] then b ! 0 = 224 \<and> b ! 1 = 0 \<and> b ! 2 = 0
      else length a = 16 \<and> a ! 0 = 0xFF \<and> a ! 1 AND 0x0F = 0x02)"

text \<open>\<^verbatim>\<open>IPNet\<close>: base address and mask, both of 4 or both of 16 bytes.\<close>

record ipnet =
  net_ip :: ip
  net_mask :: bytes

definition net_contains :: "ipnet \<Rightarrow> ip \<Rightarrow> bool" where
  "net_contains n a \<longleftrightarrow>
     (let x = (if To4 a \<noteq> [] then To4 a else a)
      in length x = length (net_ip n) \<and>
         list_all2 (\<lambda>(b, m) c. b AND m = c AND m) (zip (net_ip n) (net_mask n)) x)"

text \<open>The mask of a prefix length, \<^verbatim>\<open>net.CIDRMask\<close>.\<close>

definition mask_byte :: "nat \<Rightarrow> byte" where
  "mask_byte k = (if 8 \<le> k then 0xFF else NOT (mask (8 - k)))"

fun cidr_mask :: "nat \<Rightarrow> nat \<Rightarrow> bytes" where
  "cidr_mask 0 k = []"
| "cidr_mask (Suc n) k = mask_byte k # cidr_mask n (k - 8)"

definition cidr :: "ip \<Rightarrow> nat \<Rightarrow> ipnet" where
  "cidr a k = \<lparr>net_ip = map2 (AND) a (cidr_mask (length a) k), net_mask = cidr_mask (length a) k\<rparr>"

text \<open>
  One representative per address. \<^verbatim>\<open>ip.String()\<close>, used as a map key by the program, prints
  exactly this: the dotted form for both forms of an IPv4 address, else the IPv6 form.
\<close>

definition canon :: "ip \<Rightarrow> ip" where
  "canon a = (if To4 a \<noteq> [] then To4 a else a)"

lemma To4_4 [simp]: "length a = 4 \<Longrightarrow> To4 a = a"
  by (simp add: To4_def)

lemma length_To4: "To4 a = [] \<or> length (To4 a) = 4"
  by (auto simp: To4_def)

lemma To4_canon [simp]: "To4 (canon a) = To4 a"
  using length_To4 [of a] by (auto simp: canon_def)

lemma canon_canon [simp]: "canon (canon a) = canon a"
  unfolding canon_def [of "canon a"] To4_canon by (simp add: canon_def)

lemma To4_nonempty_iff: "To4 a \<noteq> [] \<longleftrightarrow> length a = 4 \<or> (length a = 16 \<and> take 12 a = v4_prefix)"
  by (auto simp: To4_def)

lemma ip_equal_canon: "length a \<in> {4, 16} \<Longrightarrow> length b \<in> {4, 16} \<Longrightarrow> ip_equal a b \<longleftrightarrow> canon a = canon b"
proof -
  have "take 12 a = v4_prefix \<Longrightarrow> take 12 b = v4_prefix \<Longrightarrow> drop 12 a = drop 12 b \<Longrightarrow> a = b"
    by (metis append_take_drop_id)
  moreover have "length v4_prefix = 12" by (simp add: v4_prefix_def)
  ultimately show "length a \<in> {4, 16} \<Longrightarrow> length b \<in> {4, 16} \<Longrightarrow> ip_equal a b \<longleftrightarrow> canon a = canon b"
    by (auto simp: ip_equal_def canon_def To4_def)
qed

end
