(* ===== verification/Glue.thy ===== *)
theory Glue
  imports Contracts NetIP
begin

unbundle bit_operations_syntax

text \<open>
  internal/glue/glue.go: the envelopes of UDP packets inside frames, the path hello and accept,
  and the destination filter. A decoder that indexes a fixed-size buffer (\<open>DecodeHello\<close>,
  \<open>DecodeAccept\<close>) gives \<open>None\<close> where the code would panic on a shorter one.
\<close>

definition msgOutbound :: byte where "msgOutbound = 1"
definition msgInbound :: byte where "msgInbound = 2"
definition msgPing :: byte where "msgPing = 3"
definition msgPathPing :: byte where "msgPathPing = 4"

definition ProtocolVersion :: byte where "ProtocolVersion = 1"
definition SessionIDSize :: nat where "SessionIDSize = 8"
definition HelloSize :: nat where "HelloSize = 1 + SessionIDSize"
definition AcceptSize :: nat where "AcceptSize = 1 + 8"

definition StatusOK :: byte where "StatusOK = 0"
definition StatusBusy :: byte where "StatusBusy = 1"
definition StatusRefused :: byte where "StatusRefused = 2"
definition StatusUnsupported :: byte where "StatusUnsupported = 3"

datatype glue_error =
    ErrBusy | ErrRefused | ErrUnsupportedVersion | ErrUnknownStatus byte
  | ErrNotIPv4 ip | ErrBadOutbound nat | ErrBadInbound nat

text \<open>\<^verbatim>\<open>copy(buf[n:], xs)\<close> into a zeroed buffer: what fits, zeros after it.\<close>

definition copy_into :: "nat \<Rightarrow> bytes \<Rightarrow> bytes" where
  "copy_into n xs = take n xs @ replicate (n - length xs) 0"

definition EncodeHello :: "bytes \<Rightarrow> bytes" where
  "EncodeHello sid = ProtocolVersion # copy_into SessionIDSize sid"

definition DecodeHello :: "bytes \<Rightarrow> (byte \<times> bytes) option" where
  "DecodeHello b = (if length b < HelloSize then None else Some (b ! 0, slice 1 HelloSize b))"

definition EncodeAccept :: "byte \<Rightarrow> u64 \<Rightarrow> bytes" where
  "EncodeAccept status epoch = status # put64 epoch"

definition DecodeAccept :: "bytes \<Rightarrow> (glue_error + u64) option" where
  "DecodeAccept b =
     (if b = [] then None
      else if b ! 0 = StatusOK then
        (if length b < AcceptSize then None else Some (Inr (get64 (slice 1 AcceptSize b))))
      else if b ! 0 = StatusBusy then Some (Inl ErrBusy)
      else if b ! 0 = StatusRefused then Some (Inl ErrRefused)
      else if b ! 0 = StatusUnsupported then Some (Inl ErrUnsupportedVersion)
      else Some (Inl (ErrUnknownStatus (b ! 0))))"

definition EncodePathPing :: "u64 \<Rightarrow> bytes" where
  "EncodePathPing nonce = msgPathPing # put64 nonce"

definition DecodePathPing :: "bytes \<Rightarrow> u64 option" where
  "DecodePathPing b = (if length b < 9 \<or> b ! 0 \<noteq> msgPathPing then None else Some (get64 (slice 1 9 b)))"

definition IsPathPing :: "bytes \<Rightarrow> bool" where
  "IsPathPing b \<longleftrightarrow> 1 \<le> length b \<and> b ! 0 = msgPathPing"

definition EncodePing :: "u64 \<Rightarrow> bytes" where
  "EncodePing nonce = msgPing # put64 nonce"

definition DecodePing :: "bytes \<Rightarrow> u64 option" where
  "DecodePing b = (if length b < 9 \<or> b ! 0 \<noteq> msgPing then None else Some (get64 (slice 1 9 b)))"

definition IsPing :: "bytes \<Rightarrow> bool" where
  "IsPing b \<longleftrightarrow> 1 \<le> length b \<and> b ! 0 = msgPing"

definition EncodeOutbound :: "u16 \<Rightarrow> ip \<Rightarrow> u16 \<Rightarrow> bytes \<Rightarrow> glue_error + bytes" where
  "EncodeOutbound flowID dst dstPort payload =
     (let dst4 = To4 dst
      in if dst4 = [] then Inl (ErrNotIPv4 dst)
         else Inr (msgOutbound # put16 flowID @ dst4 @ put16 dstPort @ payload))"

definition DecodeOutbound :: "bytes \<Rightarrow> glue_error + (u16 \<times> ip \<times> u16 \<times> bytes)" where
  "DecodeOutbound b =
     (if length b < 9 \<or> b ! 0 \<noteq> msgOutbound then Inl (ErrBadOutbound (length b))
      else Inr (get16 (slice 1 3 b), slice 3 7 b, get16 (slice 7 9 b), drop 9 b))"

definition MaxInboundPayload :: nat where "MaxInboundPayload = 65535 - 3"

definition EncodeInbound :: "u16 \<Rightarrow> bytes \<Rightarrow> bytes" where
  "EncodeInbound flowID payload = msgInbound # put16 flowID @ payload"

definition DecodeInbound :: "bytes \<Rightarrow> glue_error + (u16 \<times> bytes)" where
  "DecodeInbound b =
     (if length b < 3 \<or> b ! 0 \<noteq> msgInbound then Inl (ErrBadInbound (length b))
      else Inr (get16 (slice 1 3 b), drop 3 b))"

definition blockedPorts :: "(u16 \<times> string) list" where
  "blockedPorts =
     [(17, ''QOTD''), (19, ''Chargen''), (53, ''DNS''), (111, ''RPC portmapper''), (123, ''NTP''),
      (137, ''NetBIOS''), (161, ''SNMP''), (389, ''LDAP''), (1900, ''SSDP''), (11211, ''memcached'')]"

definition DestinationAllowed :: "ip \<Rightarrow> u16 \<Rightarrow> bool \<times> string" where
  "DestinationAllowed dst port =
     (if IsLoopback dst then (False, ''loopback destination'')
      else if IsLinkLocalUnicast dst \<or> IsLinkLocalMulticast dst then (False, ''link-local destination'')
      else if IsMulticast dst then (False, ''multicast destination'')
      else case map_of blockedPorts port of
             Some name \<Rightarrow> (False, ''blocked port ('' @ name @ '')'')
           | None \<Rightarrow> (True, ''''))"

section \<open>Lemmas\<close>

lemma slice_Cons: "0 < i \<Longrightarrow> slice i j (x # xs) = slice (i - 1) (j - 1) xs"
  by (cases i; cases j) (auto simp: slice_def)

lemma slice_skip: "length xs \<le> i \<Longrightarrow> slice i j (xs @ ys) = slice (i - length xs) (j - length xs) ys"
  by (simp add: slice_def)

lemma slice_front: "length xs = j \<Longrightarrow> slice 0 j (xs @ ys) = xs"
  by (simp add: slice_def)

lemmas slice_simps = slice_Cons slice_skip slice_front slice_all

lemma ping_roundtrip [simp]: "DecodePing (EncodePing n) = Some n"
  by (simp add: DecodePing_def EncodePing_def slice_simps del: be_put.simps)

lemma path_ping_roundtrip [simp]: "DecodePathPing (EncodePathPing n) = Some n"
  by (simp add: DecodePathPing_def EncodePathPing_def slice_simps del: be_put.simps)

lemma hello_roundtrip:
  "length sid = SessionIDSize \<Longrightarrow> DecodeHello (EncodeHello sid) = Some (ProtocolVersion, sid)"
  by (simp add: DecodeHello_def EncodeHello_def HelloSize_def copy_into_def SessionIDSize_def slice_Cons slice_all)

lemma length_EncodeHello: "length (EncodeHello sid) = HelloSize"
  by (simp add: EncodeHello_def HelloSize_def copy_into_def)

lemma accept_roundtrip:
  "DecodeAccept (EncodeAccept status epoch) =
     Some (if status = StatusOK then Inr epoch
           else if status = StatusBusy then Inl ErrBusy
           else if status = StatusRefused then Inl ErrRefused
           else if status = StatusUnsupported then Inl ErrUnsupportedVersion
           else Inl (ErrUnknownStatus status))"
  by (simp add: DecodeAccept_def EncodeAccept_def AcceptSize_def slice_simps del: be_put.simps)

lemma length_EncodeAccept: "length (EncodeAccept status epoch) = AcceptSize"
  by (simp add: EncodeAccept_def AcceptSize_def del: be_put.simps)

lemma DecodeOutbound_Encode:
  assumes "EncodeOutbound flowID dst dstPort payload = Inr b"
  shows "DecodeOutbound b = Inr (flowID, To4 dst, dstPort, payload)"
proof -
  have ne: "To4 dst \<noteq> []" using assms by (auto simp: EncodeOutbound_def Let_def)
  then have l: "length (To4 dst) = 4" using length_To4 [of dst] by simp
  have b: "b = msgOutbound # put16 flowID @ To4 dst @ put16 dstPort @ payload"
    using assms ne by (simp add: EncodeOutbound_def Let_def)
  show ?thesis unfolding b by (simp add: DecodeOutbound_def l slice_simps del: be_put.simps)
qed

lemma DecodeInbound_Encode: "DecodeInbound (EncodeInbound flowID payload) = Inr (flowID, payload)"
  by (simp add: DecodeInbound_def EncodeInbound_def slice_simps del: be_put.simps)

lemma To4_decoded: "DecodeOutbound b = Inr (flowID, dst, dstPort, payload) \<Longrightarrow> length dst = 4"
  by (auto simp: DecodeOutbound_def split: if_splits)

text \<open>A decoded envelope encodes to the bytes it was read from.\<close>

lemma slice_join: "i \<le> j \<Longrightarrow> j \<le> length b \<Longrightarrow> slice i j b @ drop j b = drop i b"
proof -
  assume "i \<le> j" "j \<le> length b"
  then have "drop j b = drop (j - i) (drop i b)" by simp
  then show ?thesis unfolding slice_def by (simp only: append_take_drop_id)
qed

text \<open>The envelopes are unambiguous: what one side encodes the other decodes to the same flow,
  address (in its 4-byte form), port and payload; and an envelope of one kind is never taken for
  one of another kind, so the server cannot confuse a ping with a packet to forward.\<close>

theorem glue_envelopes:
  assumes "EncodeOutbound flowID dst dstPort payload = Inr b"
  shows "DecodeOutbound b = Inr (flowID, To4 dst, dstPort, payload) \<and> \<not> IsPing b \<and> \<not> IsPathPing b \<and>
    (\<exists>e. DecodeInbound b = Inl e) \<and>
    DecodeInbound (EncodeInbound flowID payload) = Inr (flowID, payload) \<and>
    (\<exists>e. DecodeOutbound (EncodeInbound flowID payload) = Inl e) \<and>
    DecodePing (EncodePing n) = Some n \<and> \<not> IsPathPing (EncodePing n) \<and>
    (\<exists>e. DecodeOutbound (EncodePing n) = Inl e) \<and>
    DecodePathPing (EncodePathPing n) = Some n \<and> \<not> IsPing (EncodePathPing n) \<and>
    (\<exists>e. DecodeOutbound (EncodePathPing n) = Inl e)"
proof -
  have b: "b ! 0 = msgOutbound" using assms by (auto simp: EncodeOutbound_def Let_def split: if_splits)
  show ?thesis
    using DecodeOutbound_Encode [OF assms] DecodeInbound_Encode [of flowID payload] b ping_roundtrip [of n] path_ping_roundtrip [of n]
    by (simp add: IsPing_def IsPathPing_def DecodeInbound_def DecodeOutbound_def EncodeInbound_def EncodePing_def
        EncodePathPing_def msgOutbound_def msgInbound_def msgPing_def msgPathPing_def del: be_put.simps)
qed

theorem glue_envelopes_witness:
  "DecodeOutbound [1, 0, 7, 10, 0, 0, 1, 0, 80, 42] = Inr (7, [10, 0, 0, 1], 80, [42])"
proof -
  have "EncodeOutbound 7 (IPv4 10 0 0 1) 80 [42] = Inr [1, 0, 7, 10, 0, 0, 1, 0, 80, 42]" by code_simp
  from glue_envelopes [OF this] show ?thesis by (simp add: To4_def IPv4_def v4_prefix_def)
qed

text \<open>A path answer decodes to the epoch exactly when the status is OK, and to the matching error for
  every other status byte; both messages have the size the readers wait for.\<close>

theorem path_setup_roundtrip:
  "length (EncodeHello sid) = HelloSize \<and> length (EncodeAccept status epoch) = AcceptSize \<and>
   DecodeHello (EncodeHello sid) = Some (ProtocolVersion, copy_into SessionIDSize sid) \<and>
   DecodeAccept (EncodeAccept status epoch) =
     Some (if status = StatusOK then Inr epoch
           else if status = StatusBusy then Inl ErrBusy
           else if status = StatusRefused then Inl ErrRefused
           else if status = StatusUnsupported then Inl ErrUnsupportedVersion
           else Inl (ErrUnknownStatus status))"
proof -
  have l: "length (copy_into SessionIDSize sid) = 8" by (simp add: copy_into_def SessionIDSize_def)
  have "DecodeHello (EncodeHello sid) = Some (ProtocolVersion, copy_into SessionIDSize sid)"
    unfolding DecodeHello_def EncodeHello_def HelloSize_def
    using l by (simp add: slice_Cons slice_all SessionIDSize_def)
  then show ?thesis by (simp add: length_EncodeHello length_EncodeAccept accept_roundtrip)
qed

lemma destination_allowed_cases:
  "fst (DestinationAllowed dst port) \<longleftrightarrow>
     \<not> IsLoopback dst \<and> \<not> IsLinkLocalUnicast dst \<and> \<not> IsLinkLocalMulticast dst \<and> \<not> IsMulticast dst \<and>
     port \<notin> fst ` set blockedPorts"
  by (auto simp: DestinationAllowed_def map_of_eq_None_iff split: option.splits)
    (metis map_of_eq_None_iff option.distinct(1))

end
