(* ===== verification/Pktfilter.thy ===== *)
theory Pktfilter
  imports NetIP
begin

unbundle bit_operations_syntax

text \<open>
  internal/pktfilter: parsing the packets of the TUN device, the discovery-noise filter
  (pktfilter.go) and the construction of the IPv4/UDP reply packets (build.go). A nil payload
  is \<open>None\<close>; an empty UDP payload is \<open>Some []\<close>. The package's atomic packet counter \<^verbatim>\<open>ipID\<close> is
  passed in and returned.
\<close>

record info =
  Version :: int
  Proto :: byte
  Src :: ip
  Dst :: ip
  SrcPort :: u16
  DstPort :: u16
  Payload :: "bytes option"
  Fragment :: bool
  Len :: nat
  Noise :: bool
  Reason :: string

definition zero_info :: info where
  "zero_info = \<lparr>Version = 0, Proto = 0, Src = [], Dst = [], SrcPort = 0, DstPort = 0, Payload = None,
     Fragment = False, Len = 0, Noise = False, Reason = ''''\<rparr>"

definition wellKnownNoisePorts :: "(u16 \<times> string) list" where
  "wellKnownNoisePorts =
     [(137, ''NetBIOS Name Service''), (138, ''NetBIOS Datagram''), (139, ''NetBIOS Session''),
      (1900, ''SSDP''), (5353, ''mDNS''), (5355, ''LLMNR''), (3702, ''WS-Discovery''),
      (67, ''DHCP server''), (68, ''DHCP client'')]"

definition classify :: "info \<Rightarrow> bool \<times> string" where
  "classify i =
     (if IsMulticast (Dst i) then (True, ''multicast destination'')
      else if Version i = 4 \<and> To4 (Dst i) \<noteq> [] \<and> To4 (Dst i) ! 3 = 255 \<and>
              (IsPrivate (Dst i) \<or> IsLinkLocalUnicast (Dst i))
      then (True, ''broadcast destination'')
      else if Proto i = 17 \<and> map_of wellKnownNoisePorts (DstPort i) \<noteq> None
      then (True, the (map_of wellKnownNoisePorts (DstPort i)))
      else (False, ''unicast, not a known discovery port''))"

definition with_class :: "info \<Rightarrow> info" where
  "with_class i = i\<lparr>Noise := fst (classify i), Reason := snd (classify i)\<rparr>"

text \<open>The two cases of \<^verbatim>\<open>Parse\<close>.\<close>

definition parse4 :: "info \<Rightarrow> bytes \<Rightarrow> info \<times> bool" where
  "parse4 i pkt =
     (if length pkt < 20 then (i, False)
      else
        let ihl = unat (pkt ! 0 AND 0x0F) * 4 in
        if ihl < 20 \<or> length pkt < ihl then (i, False)
        else
          let i1 = i\<lparr>Proto := pkt ! 9, Src := slice 12 16 pkt, Dst := slice 16 20 pkt,
                     Fragment := get16 (slice 6 8 pkt) AND 0x3FFF \<noteq> 0\<rparr>;
              tot = unat (get16 (slice 2 4 pkt));
              p = (if ihl \<le> tot \<and> tot < length pkt then take tot pkt else pkt);
              i2 = (if Proto i1 = 17 \<and> \<not> Fragment i1 \<and> ihl + 8 \<le> length p then
                      let udpLen = unat (get16 (slice (ihl + 4) (ihl + 6) p));
                          j = i1\<lparr>SrcPort := get16 (slice ihl (ihl + 2) p),
                                 DstPort := get16 (slice (ihl + 2) (ihl + 4) p)\<rparr>
                      in if 8 \<le> udpLen \<and> ihl + udpLen \<le> length p
                         then j\<lparr>Payload := Some (slice (ihl + 8) (ihl + udpLen) p)\<rparr> else j
                    else i1)
          in (with_class i2, True))"

definition parse6 :: "info \<Rightarrow> bytes \<Rightarrow> info \<times> bool" where
  "parse6 i pkt =
     (if length pkt < 40 then (i, False)
      else
        let i1 = i\<lparr>Proto := pkt ! 6, Src := slice 8 24 pkt, Dst := slice 24 40 pkt\<rparr>;
            i2 = (if Proto i1 = 17 \<and> 44 \<le> length pkt
                  then i1\<lparr>SrcPort := get16 (slice 40 42 pkt), DstPort := get16 (slice 42 44 pkt)\<rparr> else i1)
        in (with_class i2, True))"

definition Parse :: "bytes \<Rightarrow> info \<times> bool" where
  "Parse pkt =
     (if length pkt < 1 then (zero_info, False)
      else
        let version = drop_bit 4 (pkt ! 0);
            i = zero_info\<lparr>Len := length pkt, Version := uint version\<rparr>
        in if version = 4 then parse4 i pkt
           else if version = 6 then parse6 i pkt
           else (i, False))"

section \<open>Building reply packets\<close>

definition MaxUDPPayload :: nat where "MaxUDPPayload = 65535 - 20 - 8"

fun sum16 :: "bytes \<Rightarrow> u32" where
  "sum16 (a # b # r) = (push_bit 8 (ucast a) OR ucast b) + sum16 r"
| "sum16 _ = 0"

lemma fold_decreases: "drop_bit 16 (s :: u32) \<noteq> 0 \<Longrightarrow> unat ((s AND 0xFFFF) + drop_bit 16 s) < unat s"
proof -
  assume a: "drop_bit 16 s \<noteq> 0"
  have d: "unat (drop_bit 16 s) = unat s div 65536" by (simp add: drop_bit_eq_div unat_div_distrib)
  have "s AND 0xFFFF = take_bit 16 s" by (simp add: take_bit_eq_mask mask_numeral)
  then have m: "unat (s AND 0xFFFF) = unat s mod 65536" by (simp add: take_bit_eq_mod unat_mod_distrib)
  have pos: "0 < unat s div 65536" using a d by (metis neq0_conv unat_eq_zero)
  have lt: "unat s < 2 ^ 32" using unsigned_less [of s] by simp
  have "unat ((s AND 0xFFFF) + drop_bit 16 s) = unat s mod 65536 + unat s div 65536"
    using lt by (subst unat_add_lem [THEN iffD1]) (simp_all add: d m)
  also have "\<dots> < unat s" using pos mult_div_mod_eq [of 65536 "unat s"] by linarith
  finally show ?thesis .
qed

function fold16 :: "u32 \<Rightarrow> u32" where
  "fold16 s = (if drop_bit 16 s \<noteq> 0 then fold16 ((s AND 0xFFFF) + drop_bit 16 s) else s)"
  by pat_completeness auto
termination by (relation "measure unat") (simp_all add: fold_decreases)

declare fold16.simps [simp del]

definition ipv4HeaderChecksum :: "bytes \<Rightarrow> u16" where
  "ipv4HeaderChecksum header = NOT (ucast (fold16 (sum16 header)))"

text \<open>The header before its checksum field is written: fields in the order of the code.\<close>

definition build_header :: "u16 \<Rightarrow> u16 \<Rightarrow> bytes \<Rightarrow> bytes \<Rightarrow> bytes" where
  "build_header totalLen ident src dst =
     [0x45, 0] @ put16 totalLen @ put16 ident @ [0x40, 0, 64, 17] @ [0, 0] @ src @ dst"

definition BuildIPv4UDP ::
  "u32 \<Rightarrow> bytes \<Rightarrow> bytes \<Rightarrow> u16 \<Rightarrow> u16 \<Rightarrow> bytes \<Rightarrow> u32 \<times> bytes" where
  "BuildIPv4UDP ipID src dst srcPort dstPort payload =
     (if MaxUDPPayload < length payload then (ipID, [])
      else
        let totalLen = 20 + 8 + length payload;
            ident = ipID + 1;
            h = build_header (of_nat totalLen) (ucast ident) src dst;
            hdr = take 10 h @ put16 (ipv4HeaderChecksum h) @ drop 12 h
        in (ident, hdr @ put16 srcPort @ put16 dstPort @ put16 (of_nat (8 + length payload)) @ [0, 0] @ payload))"

section \<open>The checksum\<close>

lemma fold16_props:
  "unat (fold16 s) < 65536 \<and> unat (fold16 s) mod 65535 = unat s mod 65535 \<and> (s \<noteq> 0 \<longrightarrow> fold16 s \<noteq> 0)"
proof (induction s rule: fold16.induct)
  case (1 s)
  have d: "unat (drop_bit 16 s) = unat s div 65536" by (simp add: drop_bit_eq_div unat_div_distrib)
  have "s AND 0xFFFF = take_bit 16 s" by (simp add: take_bit_eq_mask mask_numeral)
  then have m: "unat (s AND 0xFFFF) = unat s mod 65536" by (simp add: take_bit_eq_mod unat_mod_distrib)
  show ?case
  proof (cases "drop_bit 16 s = 0")
    case True
    then have "unat s div 65536 = 0" using d by simp
    then have "unat s < 65536" by (simp add: div_eq_0_iff)
    then show ?thesis using True by (simp add: fold16.simps [of s])
  next
    case False
    have lt: "unat s < 2 ^ 32" using unsigned_less [of s] by simp
    have u: "unat ((s AND 0xFFFF) + drop_bit 16 s) = unat s mod 65536 + unat s div 65536"
      using lt by (subst unat_add_lem [THEN iffD1]) (simp_all add: d m)
    have "unat s = (unat s div 65536 + unat s mod 65536) + 65535 * (unat s div 65536)"
      using mult_div_mod_eq [of 65536 "unat s"] by linarith
    then have "unat s mod 65535 = (unat s div 65536 + unat s mod 65536) mod 65535" by (metis mod_mult_self2)
    moreover have "(s AND 0xFFFF) + drop_bit 16 s \<noteq> 0"
      using u False d by (metis add_is_0 unat_0 unat_eq_zero)
    ultimately show ?thesis using 1 False u by (simp add: fold16.simps [of s] add.commute)
  qed
qed

text \<open>A header is a list of 16-bit words; the sum does not overflow for headers of up to 60 bytes.\<close>

fun words16 :: "bytes \<Rightarrow> nat list" where
  "words16 (a # b # r) = (256 * unat a + unat b) # words16 r"
| "words16 _ = []"

lemma unat_pair: "unat (push_bit 8 (ucast (a :: byte)) OR ucast (b :: byte) :: u32) = 256 * unat a + unat b"
proof -
  have a: "unat a < 256" and b: "unat b < 256" using unsigned_less [of a] unsigned_less [of b] by simp_all
  have "push_bit 8 (ucast a) OR ucast b = (push_bit 8 (ucast a) + ucast b :: u32)"
    by (rule disjunctive_add_eq_or [symmetric]) (rule bit_word_eqI, auto simp: bit_simps dest: bit_imp_le_length)
  moreover have "unat (push_bit 8 (ucast a) :: u32) = 256 * unat a"
    using a by (simp add: push_bit_eq_mult unat_word_ariths unsigned_ucast_eq take_bit_nat_eq_self mult.commute)
  moreover have "unat (ucast b :: u32) = unat b" using b by (simp add: unsigned_ucast_eq take_bit_nat_eq_self)
  ultimately show ?thesis using a b by (simp add: unat_word_ariths)
qed

lemma words16_bound: "x \<in> set (words16 h) \<Longrightarrow> x < 65536"
proof (induction h rule: words16.induct)
  case (1 a b r)
  have "unat a < 256" "unat b < 256" using unsigned_less [of a] unsigned_less [of b] by simp_all
  then show ?case using 1 by auto
qed auto

lemma sum_words16: "sum_list (words16 h) \<le> 65535 * length (words16 h)"
proof (induction h rule: words16.induct)
  case (1 a b r)
  have "256 * unat a + unat b < 65536" using words16_bound [of _ "a # b # r"] by simp
  then show ?case using 1 by simp
qed auto

lemma length_words16: "length (words16 h) = length h div 2"
  by (induction h rule: words16.induct) auto

lemma unat_sum16: "length h < 131072 \<Longrightarrow> unat (sum16 h) = sum_list (words16 h)"
proof (induction h rule: words16.induct)
  case (1 a b r)
  have "256 * unat a + unat b < 65536" using words16_bound [of _ "a # b # r"] by simp
  moreover have "sum_list (words16 r) \<le> 65535 * (length r div 2)" using sum_words16 [of r] by (simp add: length_words16)
  moreover have "length r div 2 < 65536 - 1" using 1(2) by simp
  ultimately have "256 * unat a + unat b + sum_list (words16 r) < 2 ^ 32" by simp
  then show ?case using 1 by (simp add: unat_word_ariths unat_pair)
qed auto

lemma words16_append: "even (length h) \<Longrightarrow> words16 (h @ k) = words16 h @ words16 k"
  by (induction h rule: words16.induct) auto

lemma words16_put16: "words16 (put16 w) = [unat w]"
proof -
  have p: "put16 w = [ucast (drop_bit 8 w), ucast w]" by (simp add: numeral_2_eq_2)
  have "unat w < 65536" using unsigned_less [of w] by simp
  have "unat (ucast (drop_bit 8 w) :: byte) = unat w div 256"
    using \<open>unat w < 65536\<close>
    by (simp add: unsigned_ucast_eq drop_bit_eq_div unat_div_distrib take_bit_nat_eq_self)
  moreover have "unat (ucast w :: byte) = unat w mod 256"
    by (simp add: unsigned_ucast_eq take_bit_eq_mod)
  ultimately show ?thesis by (simp add: p)
qed

lemma length_build_header [simp]:
  "length src = 4 \<Longrightarrow> length dst = 4 \<Longrightarrow> length (build_header n k src dst) = 20"
  by (simp add: build_header_def del: be_put.simps)

lemma unat_not16: "unat (NOT w :: u16) = 65535 - unat w"
proof -
  have m: "unat (- 1 :: u16) = 65535" by (simp only: unsigned_minus_1_eq_mask) (simp add: mask_eq_exp_minus_1)
  have "unat w < 2 ^ 16" using unsigned_less [where 'a = nat, of w] by simp
  then have "unat w \<le> 65535" by simp
  then have "unat (- 1 - w) = unat (- 1 :: u16) - unat w" by (intro unat_sub) (simp add: word_le_nat_alt m)
  moreover have "NOT w = - 1 - w" by (simp add: not_eq_complement)
  ultimately show ?thesis by (simp only: m)
qed

text \<open>Writing the complement of the folded sum into the zero field makes the sum of all words
  \<open>0xFFFF\<close>, so the receiver computes the checksum 0.\<close>

lemma checksum_verifies:
  assumes l: "length h = 20" and z: "slice 10 12 h = [0, 0]" and ne: "sum16 h \<noteq> 0"
  shows "ipv4HeaderChecksum (take 10 h @ put16 (ipv4HeaderChecksum h) @ drop 12 h) = 0"
proof -
  let ?c = "ipv4HeaderChecksum h"
  let ?g = "take 10 h @ put16 ?c @ drop 12 h"
  have h: "h = take 10 h @ [0, 0] @ drop 12 h"
  proof -
    have "drop 10 h = take 2 (drop 10 h) @ drop 2 (drop 10 h)" by (simp only: append_take_drop_id)
    then have "drop 10 h = [0, 0] @ drop 12 h" using z by (simp add: slice_def)
    then show ?thesis by (metis append_take_drop_id)
  qed
  have e: "even (length (take 10 h))" using l by simp
  have w: "words16 ?g = words16 (take 10 h) @ unat ?c # words16 (drop 12 h)"
    using words16_append [OF e] words16_append [of "put16 ?c" "drop 12 h"] by (simp add: words16_put16 del: be_put.simps)
  have "words16 h = words16 (take 10 h @ [0, 0] @ drop 12 h)" using h by (rule arg_cong)
  then have "words16 h = words16 (take 10 h) @ 0 # words16 (drop 12 h)"
    using words16_append [OF e, of "[0, 0] @ drop 12 h"] by simp
  then have sums: "unat (sum16 ?g) = unat (sum16 h) + unat ?c"
    using l w unat_sum16 [of h] unat_sum16 [of ?g] by simp
  define f where "f = unat (fold16 (sum16 h))"
  have f: "f < 65536" "f mod 65535 = unat (sum16 h) mod 65535" using fold16_props [of "sum16 h"] by (simp_all add: f_def)
  have "unat ?c = 65535 - f"
  proof -
    have "unat (ucast (fold16 (sum16 h)) :: u16) = f"
      using f(1) by (simp add: unsigned_ucast_eq f_def take_bit_nat_eq_self)
    then show ?thesis by (simp add: ipv4HeaderChecksum_def unat_not16)
  qed
  then have "(unat (sum16 ?g)) mod 65535 = (f + (65535 - f)) mod 65535"
    using sums f(2) by (metis mod_add_left_eq)
  then have "unat (sum16 ?g) mod 65535 = 0" using f(1) by simp
  moreover have "sum16 ?g \<noteq> 0" using sums ne by (metis add_is_0 unat_eq_zero)
  ultimately have "unat (fold16 (sum16 ?g)) mod 65535 = 0" "unat (fold16 (sum16 ?g)) < 65536" "unat (fold16 (sum16 ?g)) \<noteq> 0"
    using fold16_props [of "sum16 ?g"] by (auto simp: unat_eq_zero)
  then have "65535 dvd unat (fold16 (sum16 ?g))" "unat (fold16 (sum16 ?g)) \<le> 65535" "0 < unat (fold16 (sum16 ?g))"
    by auto
  then have "unat (fold16 (sum16 ?g)) = 65535" using dvd_imp_le le_antisym by blast
  then have "fold16 (sum16 ?g) = 65535" by (simp add: word_unat_eq_iff)
  then show ?thesis by (simp add: ipv4HeaderChecksum_def)
qed

section \<open>Parsing\<close>

lemma nibbles: "drop_bit 4 (69 :: byte) = 4" "unat ((69 :: byte) AND 15) = 5"
  by code_simp+

definition built_info :: "bytes \<Rightarrow> bytes \<Rightarrow> u16 \<Rightarrow> u16 \<Rightarrow> bytes \<Rightarrow> info" where
  "built_info src dst srcPort dstPort payload =
     with_class \<lparr>Version = 4, Proto = 17, Src = src, Dst = dst, SrcPort = srcPort, DstPort = dstPort,
       Payload = Some payload, Fragment = False, Len = 28 + length payload, Noise = False, Reason = ''''\<rparr>"

lemma list4: "length xs = 4 \<Longrightarrow> \<exists>a b c d. xs = [a, b, c, d]"
  by (auto simp: length_Suc_conv numeral_eq_Suc)

lemma put16_pair: "\<exists>a b. put16 w = [a, b]"
  by (simp add: numeral_2_eq_2)

lemma Parse_built:
  assumes l: "length src = 4" "length dst = 4" "length payload \<le> MaxUDPPayload"
    and b: "BuildIPv4UDP ipID src dst srcPort dstPort payload = (ident, pkt)"
  shows "Parse pkt = (built_info src dst srcPort dstPort payload, True)"
    "ipv4HeaderChecksum (take 20 pkt) = 0" "length pkt = 28 + length payload"
proof -
  let ?n = "length payload"
  have n: "?n \<le> 65507" using l(3) by (simp add: MaxUDPPayload_def)
  define H where "H = build_header (of_nat (20 + 8 + ?n)) (ucast (ipID + 1)) src dst"
  obtain a b c d where src: "src = [a, b, c, d]" using list4 [OF l(1)] by blast
  obtain a' b' c' d' where dst: "dst = [a', b', c', d']" using list4 [OF l(2)] by blast
  obtain t1 t2 where t: "put16 (of_nat (20 + 8 + ?n)) = [t1, t2]" using put16_pair by blast
  obtain i1 i2 where i: "put16 (ucast (ipID + 1)) = [i1, i2]" using put16_pair by blast
  obtain s1 s2 where s: "put16 srcPort = [s1, s2]" using put16_pair by blast
  obtain p1 p2 where p: "put16 dstPort = [p1, p2]" using put16_pair by blast
  obtain u1 u2 where u: "put16 (of_nat (8 + ?n)) = [u1, u2]" using put16_pair by blast
  obtain c1 c2 where c: "put16 (ipv4HeaderChecksum H) = [c1, c2]" using put16_pair by blast
  have h: "H = [0x45, 0, t1, t2, i1, i2, 0x40, 0, 64, 17, 0, 0, a, b, c, d, a', b', c', d']"
    unfolding H_def build_header_def t i src dst by simp
  have pkt: "pkt = [0x45, 0, t1, t2, i1, i2, 0x40, 0, 64, 17, c1, c2, a, b, c, d, a', b', c', d', s1, s2, p1, p2, u1, u2, 0, 0] @ payload"
    using \<open>BuildIPv4UDP ipID src dst srcPort dstPort payload = (ident, pkt)\<close> n
    unfolding BuildIPv4UDP_def Let_def H_def [symmetric] c s p u by (simp add: MaxUDPPayload_def h)
  show len: "length pkt = 28 + ?n" using pkt by simp
  have "sum16 H \<noteq> 0"
  proof -
    have "0 < sum_list (words16 H)" unfolding h by simp
    moreover have "unat (sum16 H) = sum_list (words16 H)" by (rule unat_sum16) (simp add: h)
    ultimately show ?thesis by (metis less_irrefl unsigned_0)
  qed
  then have "ipv4HeaderChecksum (take 10 H @ put16 (ipv4HeaderChecksum H) @ drop 12 H) = 0"
    by (intro checksum_verifies) (simp_all add: h slice_def)
  moreover have "take 20 pkt = take 10 H @ put16 (ipv4HeaderChecksum H) @ drop 12 H"
    unfolding c unfolding pkt h by simp
  ultimately show "ipv4HeaderChecksum (take 20 pkt) = 0" by simp
  have g: "get16 [t1, t2] = of_nat (20 + 8 + ?n)" "get16 [s1, s2] = srcPort" "get16 [p1, p2] = dstPort" "get16 [u1, u2] = of_nat (8 + ?n)"
    by (simp_all only: t [symmetric] s [symmetric] p [symmetric] u [symmetric] get16_put16)
  have nn: "unat (of_nat (20 + 8 + ?n) :: u16) = 28 + ?n" "unat (of_nat (8 + ?n) :: u16) = 8 + ?n"
    using n by (simp_all only: unat_of_nat) simp_all
  have f: "get16 [0x40, 0] AND 0x3FFF = (0 :: u16)" by code_simp
  have sl: "slice 2 4 pkt = [t1, t2]" "slice 6 8 pkt = [0x40, 0]" "slice 12 16 pkt = src" "slice 16 20 pkt = dst"
    "slice 20 22 pkt = [s1, s2]" "slice 22 24 pkt = [p1, p2]" "slice 24 26 pkt = [u1, u2]"
    "slice 28 (28 + ?n) pkt = payload" "pkt ! 0 = 0x45" "pkt ! 9 = 17"
    unfolding pkt src dst by (simp_all add: slice_def)
  have "parse4 i pkt = (with_class (i\<lparr>Proto := 17, Src := src, Dst := dst, Fragment := False, SrcPort := srcPort,
      DstPort := dstPort, Payload := Some payload\<rparr>), True)" for i
    unfolding parse4_def Let_def sl nibbles using len nn by (simp add: sl g f)
  then show "Parse pkt = (built_info src dst srcPort dstPort payload, True)"
    unfolding Parse_def Let_def sl nibbles using len
    by (simp add: zero_info_def built_info_def)
qed

text \<open>Reply packets are well formed: for every payload that fits, the IPv4/UDP packet built for the
  TUN device parses back to exactly the addresses, ports and payload it was made from, and its
  header checksum verifies (the checksum of the finished header is 0).\<close>

theorem build_parse_roundtrip:
  assumes "length src = 4" "length dst = 4" "length payload \<le> MaxUDPPayload"
  shows "let pkt = snd (BuildIPv4UDP ipID src dst srcPort dstPort payload) in
     Parse pkt = (built_info src dst srcPort dstPort payload, True) \<and>
     ipv4HeaderChecksum (take 20 pkt) = 0 \<and> length pkt = 28 + length payload"
  using Parse_built [OF assms, where pkt = "snd (BuildIPv4UDP ipID src dst srcPort dstPort payload)"]
  by (simp add: Let_def prod_eq_iff)

theorem build_parse_roundtrip_witness:
  "Parse (snd (BuildIPv4UDP 6 [10, 0, 0, 2] [1, 2, 3, 4] 5 6 [7, 8]))
     = (built_info [10, 0, 0, 2] [1, 2, 3, 4] 5 6 [7, 8], True)"
  using build_parse_roundtrip [of "[10, 0, 0, 2]" "[1, 2, 3, 4]" "[7, 8]" 6 5 6]
  by (simp add: MaxUDPPayload_def Let_def)

lemma with_class_sel [simp]:
  "Payload (with_class i) = Payload i" "Fragment (with_class i) = Fragment i" "SrcPort (with_class i) = SrcPort i"
  "DstPort (with_class i) = DstPort i" "Len (with_class i) = Len i" "Proto (with_class i) = Proto i"
  "Src (with_class i) = Src i" "Dst (with_class i) = Dst i" "Version (with_class i) = Version i"
  by (simp_all add: with_class_def)

lemma slice_inside: "a \<le> b \<Longrightarrow> b \<le> length xs \<Longrightarrow> xs = take a xs @ slice a b xs @ drop b xs"
proof -
  assume "a \<le> b" "b \<le> length xs"
  then have "drop b xs = drop (b - a) (drop a xs)" by simp
  then have "slice a b xs @ drop b xs = drop a xs" unfolding slice_def by (simp only: append_take_drop_id)
  then show ?thesis by (simp only: append_take_drop_id)
qed

text \<open>Parsing stays inside the packet: the payload of a parsed packet is a contiguous part of it,
  behind an IP and a UDP header; a fragment has no ports and no payload; addresses of a parsed IPv4
  packet have 4 bytes and of an IPv6 packet 16.\<close>

theorem parse_inside_packet:
  assumes "Parse pkt = (i, True)"
  shows "Len i = length pkt \<and>
     (Version i = 4 \<and> length (Src i) = 4 \<and> length (Dst i) = 4 \<or>
      Version i = 6 \<and> length (Src i) = 16 \<and> length (Dst i) = 16 \<and> Payload i = None) \<and>
     (Fragment i \<longrightarrow> SrcPort i = 0 \<and> DstPort i = 0 \<and> Payload i = None) \<and>
     (\<forall>p. Payload i = Some p \<longrightarrow> Proto i = 17 \<and> (\<exists>pre post. pkt = pre @ p @ post \<and> 28 \<le> length pre))"
proof -
  let ?i = "zero_info\<lparr>Len := length pkt, Version := uint (drop_bit 4 (pkt ! 0))\<rparr>"
  consider (v4) "drop_bit 4 (pkt ! 0) = 4" "parse4 ?i pkt = (i, True)"
    | (v6) "drop_bit 4 (pkt ! 0) = 6" "parse6 ?i pkt = (i, True)"
    using assms by (auto simp: Parse_def Let_def split: if_splits)
  then show ?thesis
  proof cases
    case v4
    define ihl where "ihl = unat (pkt ! 0 AND 0x0F) * 4"
    define tot where "tot = unat (get16 (slice 2 4 pkt))"
    define p where "p = (if ihl \<le> tot \<and> tot < length pkt then take tot pkt else pkt)"
    define i1 where "i1 = ?i\<lparr>Proto := pkt ! 9, Src := slice 12 16 pkt, Dst := slice 16 20 pkt,
        Fragment := get16 (slice 6 8 pkt) AND 0x3FFF \<noteq> 0\<rparr>"
    define udpLen where "udpLen = unat (get16 (slice (ihl + 4) (ihl + 6) p))"
    define j where "j = i1\<lparr>SrcPort := get16 (slice ihl (ihl + 2) p), DstPort := get16 (slice (ihl + 2) (ihl + 4) p)\<rparr>"
    define u where "u \<longleftrightarrow> Proto i1 = 17 \<and> \<not> Fragment i1 \<and> ihl + 8 \<le> length p"
    define w where "w \<longleftrightarrow> 8 \<le> udpLen \<and> ihl + udpLen \<le> length p"
    have e: "parse4 ?i pkt = (if length pkt < 20 then (?i, False) else if ihl < 20 \<or> length pkt < ihl then (?i, False)
        else (with_class (if u then (if w then j\<lparr>Payload := Some (slice (ihl + 8) (ihl + udpLen) p)\<rparr> else j) else i1), True))"
      unfolding parse4_def Let_def ihl_def tot_def p_def i1_def udpLen_def j_def u_def w_def by (rule refl)
    have l: "20 \<le> length pkt" "20 \<le> ihl" "ihl \<le> length pkt"
      and i: "i = with_class (if u then (if w then j\<lparr>Payload := Some (slice (ihl + 8) (ihl + udpLen) p)\<rparr> else j) else i1)"
      using v4(2) unfolding e by (auto split: if_splits)
    have pp: "\<exists>r. pkt = p @ r" unfolding p_def by (auto intro: exI [of _ "drop tot pkt"])
    have "\<exists>pre post. pkt = pre @ slice (ihl + 8) (ihl + udpLen) p @ post \<and> 28 \<le> length pre" if w u
    proof -
      have "p = take (ihl + 8) p @ slice (ihl + 8) (ihl + udpLen) p @ drop (ihl + udpLen) p"
        using that by (intro slice_inside) (simp_all add: w_def)
      then obtain r where "pkt = take (ihl + 8) p @ slice (ihl + 8) (ihl + udpLen) p @ (drop (ihl + udpLen) p @ r)"
        using pp by (metis append_assoc)
      moreover have "28 \<le> length (take (ihl + 8) p)" using that l(2) by (simp add: u_def)
      ultimately show ?thesis by blast
    qed
    then show ?thesis using v4(1) l unfolding i by (auto simp: i1_def j_def u_def zero_info_def)
  next
    case v6
    then show ?thesis by (auto simp: parse6_def Let_def zero_info_def split: if_splits)
  qed
qed

theorem parse_inside_packet_witness:
  "\<exists>pre post. snd (BuildIPv4UDP 6 [10, 0, 0, 2] [1, 2, 3, 4] 5 6 [7, 8]) = pre @ [7, 8] @ post \<and> 28 \<le> length pre"
proof -
  have "Parse (snd (BuildIPv4UDP 6 [10, 0, 0, 2] [1, 2, 3, 4] 5 6 [7, 8]))
      = (built_info [10, 0, 0, 2] [1, 2, 3, 4] 5 6 [7, 8], True)"
    by (rule Parse_built(1) [of _ _ _ 6 5 6 "fst (BuildIPv4UDP 6 [10, 0, 0, 2] [1, 2, 3, 4] 5 6 [7, 8])"])
      (simp_all add: MaxUDPPayload_def)
  from parse_inside_packet [OF this] show ?thesis by (simp add: built_info_def)
qed

end
