(* ===== verification/Egress.thy ===== *)
theory Egress
  imports NetIP
begin

unbundle bit_operations_syntax

text \<open>
  internal/egress/egress.go: where the server may connect on behalf of a client. The two sets of
  own addresses are Go maps keyed by \<^verbatim>\<open>ip.String()\<close>; here they hold the addresses' canonical
  bytes (\<open>canon\<close>), which the text form stands for. \<^verbatim>\<open>net.InterfaceAddrs\<close> is the argument of
  \<open>Refresh\<close>: an error, or the list of addresses, \<open>None\<close> for one that is not an \<^verbatim>\<open>*net.IPNet\<close>.
\<close>

definition extraPrivate :: "ipnet list" where
  "extraPrivate = [cidr [100, 64, 0, 0] 10, cidr [198, 18, 0, 0] 15]"

definition PrivateCIDRs :: "string list" where
  "PrivateCIDRs = [''10.0.0.0/8'', ''172.16.0.0/12'', ''192.168.0.0/16'', ''100.64.0.0/10'', ''198.18.0.0/15'']"

record policy =
  AllowPrivate :: bool
  own :: "ip fset"
  extra :: "ip fset"

definition AddOwn :: "policy \<Rightarrow> ip list \<Rightarrow> policy" where
  "AddOwn p ips = p\<lparr>extra := extra p |\<union>| fset_of_list (map canon ips)\<rparr>"

datatype egress_error = ErrReadAddrs string | ErrNoAddrs

definition Refresh :: "policy \<Rightarrow> string + ip option list \<Rightarrow> policy \<times> egress_error option" where
  "Refresh p addrs =
     (case addrs of
        Inl err \<Rightarrow> (p, Some (ErrReadAddrs err))
      | Inr as \<Rightarrow>
          let os = fset_of_list (map canon (List.map_filter id as))
          in if os = {||} then (p, Some ErrNoAddrs) else (p\<lparr>own := os\<rparr>, None))"

definition New :: "bool \<Rightarrow> string + ip option list \<Rightarrow> egress_error + policy" where
  "New allowPrivate addrs =
     (case Refresh \<lparr>AllowPrivate = allowPrivate, own = {||}, extra = {||}\<rparr> addrs of
        (p, Some err) \<Rightarrow> Inl err
      | (p, None) \<Rightarrow> Inr p)"

definition nat64Prefix :: ipnet where
  "nat64Prefix = cidr ([0x00, 0x64, 0xFF, 0x9B] @ replicate 12 0) 96"

definition sixToFour :: ipnet where
  "sixToFour = cidr ([0x20, 0x02] @ replicate 14 0) 16"

definition embeddedIPv4 :: "ip \<Rightarrow> ip" where
  "embeddedIPv4 a =
     (if net_contains nat64Prefix a then slice 12 16 a
      else if net_contains sixToFour a then slice 2 6 a
      else [])"

definition isPrivate :: "ip \<Rightarrow> bool" where
  "isPrivate a \<longleftrightarrow> IsPrivate a \<or> list_ex (\<lambda>n. net_contains n a) extraPrivate"

lemma net_contains_16: "net_contains n a \<Longrightarrow> length (net_ip n) = 16 \<Longrightarrow> length a = 16 \<and> To4 a = []"
  using length_To4 [of a] by (auto simp: net_contains_def Let_def split: if_splits)

lemma embedded_shorter: "embeddedIPv4 a \<noteq> [] \<Longrightarrow> length a = 16 \<and> To4 a = [] \<and> length (embeddedIPv4 a) = 4"
proof -
  have l: "length (net_ip nat64Prefix) = 16" "length (net_ip sixToFour) = 16"
    by (simp_all add: nat64Prefix_def sixToFour_def cidr_def numeral_eq_Suc)
  show "embeddedIPv4 a \<noteq> [] \<Longrightarrow> length a = 16 \<and> To4 a = [] \<and> length (embeddedIPv4 a) = 4"
    using net_contains_16 [OF _ l(1), of a] net_contains_16 [OF _ l(2), of a]
    by (auto simp: embeddedIPv4_def split: if_splits)
qed

function Allowed :: "policy \<Rightarrow> ip \<Rightarrow> bool \<times> string" where
  "Allowed p a =
     (let v4 = embeddedIPv4 a;
          inner = (if v4 \<noteq> [] then Allowed p v4 else (True, ''''))
      in if \<not> fst inner then (False, snd inner @ '' (inside an IPv6 address)'')
         else if a = [] then (False, ''not an IP address'')
         else if IsUnspecified a then (False, ''unspecified address'')
         else if IsLoopback a then (False, ''loopback address'')
         else if IsLinkLocalUnicast a \<or> IsLinkLocalMulticast a
         then (False, ''link-local address (cloud metadata lives here)'')
         else if IsMulticast a \<or> ip_equal a IPv4bcast then (False, ''multicast/broadcast address'')
         else if canon a |\<in>| own p \<or> canon a |\<in>| extra p then (False, ''address of the server itself'')
         else if \<not> AllowPrivate p \<and> isPrivate a
         then (False, ''private network (set allow_private_destinations to allow)'')
         else (True, ''''))"
  by pat_completeness auto
termination by (relation "measure (\<lambda>(p, a). length a)") (auto dest: embedded_shorter)

declare Allowed.simps [simp del]

section \<open>What an allowed address can reach\<close>

text \<open>The addresses a connection to \<open>a\<close> may end up at: \<open>a\<close>, and the IPv4 address inside it.\<close>

definition reaches :: "ip \<Rightarrow> ip list" where
  "reaches a = a # (if embeddedIPv4 a \<noteq> [] then [embeddedIPv4 a] else [])"

definition forbidden :: "policy \<Rightarrow> ip \<Rightarrow> bool" where
  "forbidden p a \<longleftrightarrow> a = [] \<or> IsUnspecified a \<or> IsLoopback a \<or> IsLinkLocalUnicast a \<or> IsLinkLocalMulticast a \<or>
     IsMulticast a \<or> ip_equal a IPv4bcast \<or> canon a |\<in>| own p \<or> canon a |\<in>| extra p \<or>
     (\<not> AllowPrivate p \<and> isPrivate a)"

lemma Allowed_step: "fst (Allowed p a) \<longleftrightarrow> (embeddedIPv4 a \<noteq> [] \<longrightarrow> fst (Allowed p (embeddedIPv4 a))) \<and> \<not> forbidden p a"
  by (subst Allowed.simps) (auto simp: Let_def forbidden_def)

lemma embedded_of_4: "length a = 4 \<Longrightarrow> embeddedIPv4 a = []"
  using embedded_shorter [of a] by auto

lemma refresh_keeps_extra: "extra (fst (Refresh p r)) = extra p"
  by (auto simp: Refresh_def Let_def split: sum.splits)

lemma refreshes_keep_extra: "extra (foldl (\<lambda>q r. fst (Refresh q r)) p rs) = extra p"
  by (induction rs arbitrary: p) (auto simp: refresh_keeps_extra)

text \<open>A failed refresh changes nothing; a policy always knows some own address.\<close>

lemma refresh_error_keeps: "snd (Refresh p r) = Some e \<Longrightarrow> fst (Refresh p r) = p"
  by (auto simp: Refresh_def Let_def split: sum.splits if_splits)

lemma refresh_knows: "snd (Refresh p r) = None \<Longrightarrow> own (fst (Refresh p r)) \<noteq> {||}"
  by (auto simp: Refresh_def Let_def split: sum.splits if_splits)

lemma New_knows: "New ap r = Inr p \<Longrightarrow> own p \<noteq> {||}"
  using refresh_knows [of "\<lparr>AllowPrivate = ap, own = {||}, extra = {||}\<rparr>" r]
  by (auto simp: New_def split: prod.splits option.splits)

text \<open>Addresses declared as the server's own stay blocked for good, in every form: whatever interface
  lists (or failures to read them) later refreshes see, no client can reach such an address, written
  as 4 bytes, as a 16-byte mapped address, or inside NAT64 or 6to4.\<close>

theorem own_addresses_stay_blocked:
  assumes "a \<in> set ips" "canon b = canon a \<or> (embeddedIPv4 b \<noteq> [] \<and> embeddedIPv4 b = canon a)"
  shows "\<not> fst (Allowed (foldl (\<lambda>q r. fst (Refresh q r)) (AddOwn p ips) rs) b)"
proof -
  let ?p = "foldl (\<lambda>q r. fst (Refresh q r)) (AddOwn p ips) rs"
  have x: "canon a |\<in>| extra ?p"
    unfolding refreshes_keep_extra using assms(1) by (auto simp: AddOwn_def fset_of_list_elem)
  then have "forbidden ?p b \<or> (embeddedIPv4 b \<noteq> [] \<and> forbidden ?p (embeddedIPv4 b))"
    using assms(2) by (auto simp: forbidden_def)
  then show ?thesis using Allowed_step [of ?p b] Allowed_step [of ?p "embeddedIPv4 b"] by blast
qed

theorem own_addresses_stay_blocked_witness:
  "\<not> fst (Allowed (foldl (\<lambda>q r. fst (Refresh q r)) (AddOwn \<lparr>AllowPrivate = True, own = {||}, extra = {||}\<rparr> [[8, 8, 4, 4]]) [Inl ''down''])
      (IPv4 8 8 4 4))"
  by (rule own_addresses_stay_blocked [of "[8, 8, 4, 4]"]) (simp_all add: canon_def To4_def IPv4_def v4_prefix_def)

end
