(* ===== verification/Flows.thy ===== *)
theory Flows
  imports Contracts Pktfilter
begin

text \<open>
  cmd/client/flows.go and cmd/client/router.go: the glue flow IDs of local UDP flows, the choice
  of a channel per flow, and the decision of the vpn read loop. A [4]byte address is a byte
  string of length 4. Where the code would dereference a missing entry the operation gives
  \<open>None\<close>; the invariant excludes it.
\<close>

section \<open>Flow table\<close>

record flowInfo =
  origSrc :: bytes
  origDst :: bytes
  origSrcPort :: u16
  origDstPort :: u16

record flowKey =
  k_srcPort :: u16
  k_dst :: bytes
  k_dstPort :: u16

definition flowKeyOf :: "flowInfo \<Rightarrow> flowKey" where
  "flowKeyOf fi = \<lparr>k_srcPort = origSrcPort fi, k_dst = origDst fi, k_dstPort = origDstPort fi\<rparr>"

record flowEntry =
  e_info :: flowInfo
  e_lastSeen :: time

record flowTable =
  ids :: "(flowKey, u16) fmap"
  tflows :: "(u16, flowEntry) fmap"
  next_id :: u16
  dsts :: "(bytes, int) fmap"

definition newFlowTable :: flowTable where
  "newFlowTable = \<lparr>ids = fmempty, tflows = fmempty, next_id = 0, dsts = fmempty\<rparr>"

text \<open>The search for a free ID, at most \<open>n\<close> attempts; the counter keeps its last value.\<close>

fun find_id :: "nat \<Rightarrow> u16 \<Rightarrow> (u16, flowEntry) fmap \<Rightarrow> u16 \<times> bool" where
  "find_id 0 nxt m = (nxt, False)"
| "find_id (Suc n) nxt m =
     (if fmlookup m (nxt + 1) \<noteq> None then find_id n (nxt + 1) m else (nxt + 1, True))"

definition id_of :: "flowTable \<Rightarrow> flowInfo \<Rightarrow> time \<Rightarrow> (flowTable \<times> u16 option) option" where
  "id_of t fi now =
     (let key = flowKeyOf fi in
      case fmlookup (ids t) key of
        Some i \<Rightarrow>
          (case fmlookup (tflows t) i of
             None \<Rightarrow> None
           | Some e \<Rightarrow> Some (t\<lparr>tflows := fmupd i (e\<lparr>e_lastSeen := now\<rparr>) (tflows t)\<rparr>, Some i))
      | None \<Rightarrow>
          (case find_id (2 ^ 16) (next_id t) (tflows t) of
             (nxt, False) \<Rightarrow> Some (t\<lparr>next_id := nxt\<rparr>, None)
           | (nxt, True) \<Rightarrow>
               Some (t\<lparr>next_id := nxt, ids := fmupd key nxt (ids t),
                       tflows := fmupd nxt \<lparr>e_info = fi, e_lastSeen = now\<rparr> (tflows t),
                       dsts := fmupd (origDst fi) (goget (dsts t) (origDst fi) 0 + 1) (dsts t)\<rparr>, Some nxt)))"

definition lookup_flow :: "flowTable \<Rightarrow> u16 \<Rightarrow> time \<Rightarrow> flowTable \<times> flowInfo option" where
  "lookup_flow t i now =
     (case fmlookup (tflows t) i of
        None \<Rightarrow> (t, None)
      | Some e \<Rightarrow> (t\<lparr>tflows := fmupd i (e\<lparr>e_lastSeen := now\<rparr>) (tflows t)\<rparr>, Some (e_info e)))"

definition drop_flow :: "flowTable \<Rightarrow> u16 \<Rightarrow> flowEntry \<Rightarrow> flowTable" where
  "drop_flow t i e =
     (let d = origDst (e_info e);
          n = goget (dsts t) d 0 - 1
      in t\<lparr>tflows := fmdrop i (tflows t), ids := fmdrop (flowKeyOf (e_info e)) (ids t),
           dsts := (if n = 0 then fmdrop d (dsts t) else fmupd d n (dsts t))\<rparr>)"

definition sweep_one :: "time \<Rightarrow> duration \<Rightarrow> flowTable \<times> nat \<Rightarrow> u16 \<Rightarrow> flowTable \<times> nat" where
  "sweep_one now idle tn i =
     (case fmlookup (tflows (fst tn)) i of
        None \<Rightarrow> tn
      | Some e \<Rightarrow> if time_sub now (e_lastSeen e) > idle then (drop_flow (fst tn) i e, Suc (snd tn)) else tn)"

definition sweep_flows ::
  "((u16, flowEntry) fmap \<Rightarrow> u16 list) \<Rightarrow> flowTable \<Rightarrow> time \<Rightarrow> duration \<Rightarrow> flowTable \<times> nat" where
  "sweep_flows ord t now idle = foldl (sweep_one now idle) (t, 0) (ord (tflows t))"

definition hasDst :: "flowTable \<Rightarrow> bytes \<Rightarrow> bool" where
  "hasDst t d \<longleftrightarrow> 0 < goget (dsts t) d 0"

section \<open>The table's invariant\<close>

definition flows_to :: "bytes \<Rightarrow> flowTable \<Rightarrow> int" where
  "flows_to d t = fmsum (\<lambda>e. if origDst (e_info e) = d then 1 else 0) (tflows t)"

definition ft_inv :: "flowTable \<Rightarrow> bool" where
  "ft_inv t \<longleftrightarrow>
     (\<forall>k i. fmlookup (ids t) k = Some i \<longrightarrow> (\<exists>e. fmlookup (tflows t) i = Some e \<and> flowKeyOf (e_info e) = k)) \<and>
     (\<forall>i e. fmlookup (tflows t) i = Some e \<longrightarrow> fmlookup (ids t) (flowKeyOf (e_info e)) = Some i) \<and>
     (\<forall>d. goget (dsts t) d 0 = flows_to d t)"

lemma ft_inv_ids: "ft_inv t \<Longrightarrow> fmlookup (ids t) k = Some i \<Longrightarrow> \<exists>e. fmlookup (tflows t) i = Some e \<and> flowKeyOf (e_info e) = k"
  by (simp add: ft_inv_def)

lemma ft_inv_flows: "ft_inv t \<Longrightarrow> fmlookup (tflows t) i = Some e \<Longrightarrow> fmlookup (ids t) (flowKeyOf (e_info e)) = Some i"
  by (simp add: ft_inv_def)

lemma ft_inv_dsts: "ft_inv t \<Longrightarrow> goget (dsts t) d 0 = flows_to d t"
  by (simp add: ft_inv_def)

lemma ft_invI:
  "(\<And>k i. fmlookup (ids t) k = Some i \<Longrightarrow> \<exists>e. fmlookup (tflows t) i = Some e \<and> flowKeyOf (e_info e) = k) \<Longrightarrow>
   (\<And>i e. fmlookup (tflows t) i = Some e \<Longrightarrow> fmlookup (ids t) (flowKeyOf (e_info e)) = Some i) \<Longrightarrow>
   (\<And>d. goget (dsts t) d 0 = flows_to d t) \<Longrightarrow> ft_inv t"
  by (simp add: ft_inv_def)

lemma ft_inv_new: "ft_inv newFlowTable"
  by (simp add: ft_inv_def newFlowTable_def flows_to_def)

lemma touch_inv:
  assumes "ft_inv t" "fmlookup (tflows t) i = Some e"
  shows "ft_inv (t\<lparr>tflows := fmupd i (e\<lparr>e_lastSeen := now\<rparr>) (tflows t)\<rparr>)" (is "ft_inv ?t")
proof (rule ft_invI)
  fix d
  have "flows_to d ?t = flows_to d t"
    using fmsum_replace [OF assms(2), of "\<lambda>e. if origDst (e_info e) = d then 1 else 0 :: int" "e\<lparr>e_lastSeen := now\<rparr>"]
    by (simp add: flows_to_def)
  then show "goget (dsts ?t) d 0 = flows_to d ?t" using ft_inv_dsts [OF assms(1)] by simp
next
  fix k j assume "fmlookup (ids ?t) k = Some j"
  then show "\<exists>e. fmlookup (tflows ?t) j = Some e \<and> flowKeyOf (e_info e) = k"
    using ft_inv_ids [OF assms(1), of k j] assms(2) by auto
next
  fix j g assume "fmlookup (tflows ?t) j = Some g"
  then show "fmlookup (ids ?t) (flowKeyOf (e_info g)) = Some j"
    using ft_inv_flows [OF assms(1)] assms(2) by (auto split: if_splits)
qed

lemma find_id_found: "find_id n nxt m = (j, True) \<Longrightarrow> fmlookup m j = None"
  by (induction n nxt m rule: find_id.induct) (auto split: if_splits)

lemma find_id_none: "find_id n nxt m = (j, False) \<Longrightarrow> i < n \<Longrightarrow> fmlookup m (nxt + of_nat (Suc i)) \<noteq> None"
proof (induction n nxt m arbitrary: i rule: find_id.induct)
  case (2 n nxt m)
  then show ?case
    by (cases i) (auto split: if_splits simp: add.assoc)
qed simp

lemma find_id_full:
  assumes "find_id (2 ^ 16) nxt m = (j, False)"
  shows "fmlookup m i \<noteq> None"
proof -
  define k where "k = unat (i - nxt - 1)"
  have "k < 2 ^ 16" unfolding k_def using unsigned_less [where 'a = nat, of "i - nxt - 1"] by simp
  moreover have "nxt + of_nat (Suc k) = i" by (simp add: k_def)
  ultimately show ?thesis using find_id_none [OF assms, of k] by simp
qed

lemma add_inv:
  assumes "ft_inv t" "fmlookup (tflows t) i = None" "fmlookup (ids t) (flowKeyOf fi) = None"
  shows "ft_inv (t\<lparr>next_id := nx, ids := fmupd (flowKeyOf fi) i (ids t),
     tflows := fmupd i \<lparr>e_info = fi, e_lastSeen = now\<rparr> (tflows t),
     dsts := fmupd (origDst fi) (goget (dsts t) (origDst fi) 0 + 1) (dsts t)\<rparr>)" (is "ft_inv ?t")
proof (rule ft_invI)
  fix d show "goget (dsts ?t) d 0 = flows_to d ?t"
    using ft_inv_dsts [OF assms(1)] by (simp add: flows_to_def fmsum_fmupd_new [OF assms(2)])
next
  fix k j assume "fmlookup (ids ?t) k = Some j"
  then show "\<exists>e. fmlookup (tflows ?t) j = Some e \<and> flowKeyOf (e_info e) = k"
    using ft_inv_ids [OF assms(1), of k j] assms(2) by (auto split: if_splits)
next
  fix j g assume "fmlookup (tflows ?t) j = Some g"
  then show "fmlookup (ids ?t) (flowKeyOf (e_info g)) = Some j"
    using ft_inv_flows [OF assms(1), of j g] assms(3) by (auto split: if_splits)
qed

lemma drop_flow_inv:
  assumes "ft_inv t" "fmlookup (tflows t) i = Some e"
  shows "ft_inv (drop_flow t i e)"
proof (rule ft_invI)
  let ?t = "drop_flow t i e"
  have f: "tflows ?t = fmdrop i (tflows t)" "ids ?t = fmdrop (flowKeyOf (e_info e)) (ids t)"
    by (simp_all add: drop_flow_def Let_def)
  fix d
  let ?f = "\<lambda>d e. if origDst (e_info e) = d then 1 else 0 :: int"
  have "flows_to d t = ?f d e + flows_to d ?t"
    using fmsum_split [OF assms(2), of "?f d"] by (simp add: flows_to_def f)
  moreover have "goget (dsts ?t) d 0 = goget (dsts t) d 0 - ?f d e"
    by (cases "origDst (e_info e) = d") (simp_all add: drop_flow_def Let_def)
  ultimately show "goget (dsts ?t) d 0 = flows_to d ?t" unfolding ft_inv_dsts [OF assms(1), of d] by linarith
next
  let ?t = "drop_flow t i e"
  have f: "tflows ?t = fmdrop i (tflows t)" "ids ?t = fmdrop (flowKeyOf (e_info e)) (ids t)"
    by (simp_all add: drop_flow_def Let_def)
  fix k j assume k: "fmlookup (ids ?t) k = Some j"
  then have "fmlookup (ids t) k = Some j" "k \<noteq> flowKeyOf (e_info e)" by (auto simp: f split: if_splits)
  then show "\<exists>e. fmlookup (tflows ?t) j = Some e \<and> flowKeyOf (e_info e) = k"
    using ft_inv_ids [OF assms(1), of k j] assms(2) by (auto simp: f)
next
  let ?t = "drop_flow t i e"
  have f: "tflows ?t = fmdrop i (tflows t)" "ids ?t = fmdrop (flowKeyOf (e_info e)) (ids t)"
    by (simp_all add: drop_flow_def Let_def)
  fix j g assume "fmlookup (tflows ?t) j = Some g"
  then have g: "fmlookup (tflows t) j = Some g" "j \<noteq> i" by (auto simp: f split: if_splits)
  then show "fmlookup (ids ?t) (flowKeyOf (e_info g)) = Some j"
    using ft_inv_flows [OF assms(1) g(1)] ft_inv_flows [OF assms] by (auto simp: f)
qed

lemma id_of_cases:
  assumes "ft_inv t"
  obtains (known) i e where "fmlookup (ids t) (flowKeyOf fi) = Some i" "fmlookup (tflows t) i = Some e"
      "id_of t fi now = Some (t\<lparr>tflows := fmupd i (e\<lparr>e_lastSeen := now\<rparr>) (tflows t)\<rparr>, Some i)"
  | (fresh) t' i where "fmlookup (ids t) (flowKeyOf fi) = None" "fmlookup (tflows t) i = None"
      "id_of t fi now = Some (t', Some i)" "ft_inv t'"
      "tflows t' = fmupd i \<lparr>e_info = fi, e_lastSeen = now\<rparr> (tflows t)" "ids t' = fmupd (flowKeyOf fi) i (ids t)"
  | (full) n where "id_of t fi now = Some (t\<lparr>next_id := n\<rparr>, None)" "\<And>i. fmlookup (tflows t) i \<noteq> None"
      "fmlookup (ids t) (flowKeyOf fi) = None"
proof (cases "fmlookup (ids t) (flowKeyOf fi)")
  case None
  obtain n ok where f: "find_id (2 ^ 16) (next_id t) (tflows t) = (n, ok)" by force
  show thesis
  proof (cases ok)
    case True
    then show thesis
      using fresh [of n] f None find_id_found [of "2 ^ 16" "next_id t" "tflows t" n] add_inv [OF assms, of n fi now n]
      by (simp add: id_of_def Let_def)
  next
    case False
    then show thesis using full [of n] f None find_id_full by (simp add: id_of_def Let_def)
  qed
next
  case (Some i)
  then obtain e where "fmlookup (tflows t) i = Some e" using ft_inv_ids [OF assms] by blast
  then show thesis using known [of i e] Some by (simp add: id_of_def Let_def)
qed

lemma next_id_inv: "ft_inv (t\<lparr>next_id := n\<rparr>) = ft_inv t"
  by (simp add: ft_inv_def flows_to_def)

lemma id_of_inv: "ft_inv t \<Longrightarrow> \<exists>t' r. id_of t fi now = Some (t', r) \<and> ft_inv t'"
  by (cases rule: id_of_cases [where t = t and fi = fi and now = now]) (auto simp: touch_inv next_id_inv)

lemma lookup_flow_inv: "ft_inv t \<Longrightarrow> ft_inv (fst (lookup_flow t i now))"
  by (auto simp: lookup_flow_def touch_inv split: option.split)

lemma sweep_fold:
  "ft_inv (fst tn) \<Longrightarrow> distinct is \<Longrightarrow>
     ft_inv (fst (foldl (sweep_one now idle) tn is)) \<and>
     tflows (fst (foldl (sweep_one now idle) tn is)) =
       range_delete (\<lambda>_ e. time_sub now (e_lastSeen e) > idle) is (tflows (fst tn)) \<and>
     gosize (tflows (fst (foldl (sweep_one now idle) tn is))) + snd (foldl (sweep_one now idle) tn is) =
       gosize (tflows (fst tn)) + snd tn"
proof (induction "is" arbitrary: tn)
  case (Cons i "is")
  show ?case
  proof (cases "fmlookup (tflows (fst tn)) i")
    case None
    then have "sweep_one now idle tn i = tn" by (simp add: sweep_one_def)
    then show ?thesis using Cons.IH [of tn] Cons.prems None by auto
  next
    case (Some e)
    have t: "tflows (drop_flow (fst tn) i e) = fmdrop i (tflows (fst tn))" by (simp add: drop_flow_def Let_def)
    have "0 < gosize (tflows (fst tn))" by (rule gosize_pos [OF Some])
    then have "Suc (gosize (fmdrop i (tflows (fst tn)))) = gosize (tflows (fst tn))"
      unfolding gosize_fmdrop using Some by simp
    then have step: "ft_inv (fst (sweep_one now idle tn i))"
      "tflows (fst (sweep_one now idle tn i)) =
         (if time_sub now (e_lastSeen e) > idle then fmdrop i (tflows (fst tn)) else tflows (fst tn))"
      "gosize (tflows (fst (sweep_one now idle tn i))) + snd (sweep_one now idle tn i) = gosize (tflows (fst tn)) + snd tn"
      using drop_flow_inv [OF Cons.prems(1) Some] Cons.prems(1) Some t by (simp_all add: sweep_one_def)
    then show ?thesis using Cons.IH [OF step(1)] Cons.prems(2) Some by auto
  qed
qed simp

lemma sweep_flows_inv: "ft_inv t \<Longrightarrow> range_order ord \<Longrightarrow> ft_inv (fst (sweep_flows ord t now idle))"
  using sweep_fold [of "(t, 0)" "ord (tflows t)" now idle] by (simp add: sweep_flows_def range_order_distinct)

lemma sweep_flows_lookup:
  "ft_inv t \<Longrightarrow> range_order ord \<Longrightarrow> fmlookup (tflows (fst (sweep_flows ord t now idle))) i =
     (case fmlookup (tflows t) i of None \<Rightarrow> None
      | Some e \<Rightarrow> if time_sub now (e_lastSeen e) > idle then None else Some e)"
  using sweep_fold [of "(t, 0)" "ord (tflows t)" now idle]
  by (simp add: sweep_flows_def range_order_distinct fmlookup_range_delete)

lemma hasDst_iff: "ft_inv t \<Longrightarrow> hasDst t d \<longleftrightarrow> (\<exists>i e. fmlookup (tflows t) i = Some e \<and> origDst (e_info e) = d)"
proof -
  assume i: "ft_inv t"
  have nn: "0 \<le> fmsum (\<lambda>e. if origDst (e_info e) = d then 1 else 0 :: int) m" for m :: "(u16, flowEntry) fmap"
    unfolding fmsum_def by (rule sum_nonneg) simp
  have "0 < flows_to d t \<longleftrightarrow> (\<exists>i e. fmlookup (tflows t) i = Some e \<and> origDst (e_info e) = d)"
  proof
    assume "0 < flows_to d t"
    then have "flows_to d t \<noteq> 0" by simp
    then show "\<exists>i e. fmlookup (tflows t) i = Some e \<and> origDst (e_info e) = d"
      unfolding flows_to_def using fmsum_eq_0 [of "tflows t" "\<lambda>e. if origDst (e_info e) = d then 1 else 0 :: int"] by force
  next
    assume "\<exists>i e. fmlookup (tflows t) i = Some e \<and> origDst (e_info e) = d"
    then obtain i e where e: "fmlookup (tflows t) i = Some e" "origDst (e_info e) = d" by blast
    show "0 < flows_to d t"
      using fmsum_split [OF e(1), of "\<lambda>e. if origDst (e_info e) = d then 1 else 0 :: int"] e(2) nn [of "fmdrop i (tflows t)"]
      by (simp add: flows_to_def)
  qed
  then show ?thesis using i by (simp add: hasDst_def ft_inv_def)
qed

lemma sweep_flows_entry:
  "range_order ord \<Longrightarrow> fmlookup (tflows (fst (sweep_flows ord t now idle))) i =
     (case fmlookup (tflows t) i of None \<Rightarrow> None
      | Some e \<Rightarrow> if time_sub now (e_lastSeen e) > idle then None else Some e)"
proof -
  have "tflows (fst (foldl (sweep_one now idle) tn is)) =
      range_delete (\<lambda>_ e. time_sub now (e_lastSeen e) > idle) is (tflows (fst tn))" for tn "is"
  proof (induction "is" arbitrary: tn)
    case (Cons i "is")
    have "tflows (fst (sweep_one now idle tn i)) = (case fmlookup (tflows (fst tn)) i of None \<Rightarrow> tflows (fst tn)
       | Some e \<Rightarrow> if time_sub now (e_lastSeen e) > idle then fmdrop i (tflows (fst tn)) else tflows (fst tn))"
      by (simp add: sweep_one_def drop_flow_def Let_def split: option.split)
    then show ?case using Cons by simp
  qed simp
  then show "range_order ord \<Longrightarrow> ?thesis"
    by (simp add: sweep_flows_def fmlookup_range_delete)
qed

interpretation flow_expiry: expiring_table "\<lambda>t. fmlookup (tflows t)" e_lastSeen
    "\<lambda>ord t now idle. fst (sweep_flows ord t now idle)"
  by unfold_locales (rule sweep_flows_entry)

text \<open>The table under its four operations; the order of a sweep is checked, as Go guarantees it.\<close>

datatype flow_op =
    IdOp flowInfo time
  | LookupOp u16 time
  | SweepOp "u16 list" time duration

definition ordered :: "'k list \<Rightarrow> (('k, 'v) fmap \<Rightarrow> 'k list)" where
  "ordered ks m = ks"

definition flow_step :: "flowTable \<Rightarrow> flow_op \<Rightarrow> flowTable" where
  "flow_step t oper =
     (case oper of
        IdOp fi now \<Rightarrow> (case id_of t fi now of Some (t', r) \<Rightarrow> t' | None \<Rightarrow> t)
      | LookupOp i now \<Rightarrow> fst (lookup_flow t i now)
      | SweepOp ks now idle \<Rightarrow> if distinct ks then fst (sweep_flows (ordered ks) t now idle) else t)"

lemma flow_step_inv: "ft_inv t \<Longrightarrow> ft_inv (flow_step t oper)"
proof (cases oper)
  case (IdOp fi now)
  then show "ft_inv t \<Longrightarrow> ft_inv (flow_step t oper)"
    using id_of_inv [of t fi now] by (auto simp: flow_step_def)
next
  case (SweepOp ks now idle)
  then show "ft_inv t \<Longrightarrow> ft_inv (flow_step t oper)"
    using sweep_fold [of "(t, 0)" ks now idle] by (simp add: flow_step_def sweep_flows_def ordered_def)
qed (simp add: flow_step_def lookup_flow_inv)

interpretation flow_table: guarded_system flow_step ft_inv newFlowTable
  by unfold_locales (simp_all add: ft_inv_new flow_step_inv)


section \<open>The router\<close>

record route =
  decided :: bool
  glue :: bool
  first :: time
  r_lastSeen :: time

record udpRouter =
  unknownWait :: duration
  routes :: "(flowKey, route) fmap"

definition newUDPRouter :: udpRouter where
  "newUDPRouter = \<lparr>unknownWait = sec, routes = fmempty\<rparr>"

text \<open>
  The result is \<open>(glue, send)\<close> and whether a refresh of the port table was requested. \<open>owner\<close>
  is the port table at the time of the call, \<open>isGame\<close> the configured process names.
\<close>

definition classify_udp ::
  "udpRouter \<Rightarrow> (u16 \<Rightarrow> string option) \<Rightarrow> (string \<Rightarrow> bool) \<Rightarrow> flowKey \<Rightarrow> time \<Rightarrow> udpRouter \<times> (bool \<times> bool) \<times> bool" where
  "classify_udp r owner isGame key now =
     (let rt0 = (case fmlookup (routes r) key of
                   Some rt \<Rightarrow> rt
                 | None \<Rightarrow> \<lparr>decided = False, glue = False, first = now, r_lastSeen = 0\<rparr>);
          rt = rt0\<lparr>r_lastSeen := now\<rparr>;
          store = (\<lambda>x. r\<lparr>routes := fmupd key x (routes r)\<rparr>)
      in if decided rt then (store rt, (glue rt, True), False)
         else case owner (k_srcPort key) of
                Some name \<Rightarrow>
                  let g = isGame name in (store (rt\<lparr>decided := True, glue := g\<rparr>), (g, True), False)
              | None \<Rightarrow>
                  if time_sub now (first rt) \<ge> unknownWait r
                  then (store (rt\<lparr>decided := True\<rparr>), (glue rt, True), False)
                  else (store rt, (False, False), True))"

definition sweep_routes ::
  "((flowKey, route) fmap \<Rightarrow> flowKey list) \<Rightarrow> udpRouter \<Rightarrow> time \<Rightarrow> duration \<Rightarrow> udpRouter" where
  "sweep_routes ord r now idle =
     r\<lparr>routes := range_delete (\<lambda>_ rt. time_sub now (r_lastSeen rt) > idle) (ord (routes r)) (routes r)\<rparr>"

interpretation route_expiry: expiring_table "\<lambda>r. fmlookup (routes r)" r_lastSeen sweep_routes
  by unfold_locales (simp add: sweep_routes_def fmlookup_range_delete)

datatype router_op =
    ClassifyOp "u16 \<Rightarrow> string option" "string \<Rightarrow> bool" flowKey time
  | ExpireOp "(flowKey, route) fmap \<Rightarrow> flowKey list" time duration

definition router_step :: "udpRouter \<Rightarrow> router_op \<Rightarrow> udpRouter" where
  "router_step r oper =
     (case oper of
        ClassifyOp owner isGame key now \<Rightarrow> fst (classify_udp r owner isGame key now)
      | ExpireOp ord now idle \<Rightarrow> sweep_routes ord r now idle)"

text \<open>\<open>key\<close> is forgotten at some point of the history: a sweep found it idle.\<close>

primrec forgotten :: "flowKey \<Rightarrow> udpRouter \<Rightarrow> router_op list \<Rightarrow> bool" where
  "forgotten key r [] = False"
| "forgotten key r (a # as) =
     ((fmlookup (routes r) key \<noteq> None \<and> fmlookup (routes (router_step r a)) key = None) \<or>
      forgotten key (router_step r a) as)"

lemma classify_decided:
  "fmlookup (routes r) key = Some rt \<Longrightarrow> decided rt \<Longrightarrow>
     snd (classify_udp r owner isGame key now) = ((glue rt, True), False)"
  by (simp add: classify_udp_def Let_def)

lemma classify_keeps_decided:
  "fmlookup (routes r) key = Some rt \<Longrightarrow> decided rt \<Longrightarrow>
     \<exists>rt'. fmlookup (routes (fst (classify_udp r owner isGame key' now))) key = Some rt' \<and> decided rt' \<and> glue rt' = glue rt"
  by (cases "key' = key") (auto simp: classify_udp_def Let_def split: option.split)

lemma router_keeps_decided:
  "fmlookup (routes r) key = Some rt \<Longrightarrow> decided rt \<Longrightarrow> \<not> forgotten key r as \<Longrightarrow>
     \<exists>rt'. fmlookup (routes (foldl router_step r as)) key = Some rt' \<and> decided rt' \<and> glue rt' = glue rt"
proof (induction as arbitrary: r rt)
  case (Cons a as)
  have "\<exists>rt'. fmlookup (routes (router_step r a)) key = Some rt' \<and> decided rt' \<and> glue rt' = glue rt"
  proof (cases a)
    case (ClassifyOp owner isGame key' now)
    then show ?thesis using classify_keeps_decided [OF Cons.prems(1,2)] by (simp add: router_step_def)
  next
    case (ExpireOp ord now idle)
    then show ?thesis using Cons.prems
      by (auto simp: router_step_def sweep_routes_def fmlookup_range_delete_list split: if_splits)
  qed
  then obtain rt' where "fmlookup (routes (router_step r a)) key = Some rt'" "decided rt'" "glue rt' = glue rt" by blast
  then show ?case using Cons.IH [of "router_step r a" rt'] Cons.prems(3) by simp
qed simp

lemma classify_send_decided:
  assumes "classify_udp r owner isGame key now = (r', (g, True), q)"
  shows "\<exists>rt. fmlookup (routes r') key = Some rt \<and> decided rt \<and> glue rt = g"
  using assms by (auto simp: classify_udp_def Let_def split: option.splits if_splits)

text \<open>A UDP flow never changes channel: once a packet of a flow was sent over glue or vpn, every later
  packet of the flow goes the same way, whatever the port table says by then and whatever other
  flows do, until a sweep has found the flow idle and forgotten it.\<close>

theorem route_is_sticky:
  assumes "classify_udp r owner isGame key now = (r', (g, True), q)" "\<not> forgotten key r' as"
  shows "snd (classify_udp (foldl router_step r' as) owner' isGame' key now') = ((g, True), False)"
proof -
  obtain rt where "fmlookup (routes r') key = Some rt" "decided rt" "glue rt = g"
    using classify_send_decided [OF assms(1)] by blast
  then obtain rt' where "fmlookup (routes (foldl router_step r' as)) key = Some rt'" "decided rt'" "glue rt' = g"
    using router_keeps_decided [OF _ _ assms(2)] by blast
  then show ?thesis using classify_decided by simp
qed

theorem route_is_sticky_witness:
  "snd (classify_udp (foldl router_step
        (fst (classify_udp newUDPRouter (\<lambda>p. Some ''game'') (\<lambda>n. True) \<lparr>k_srcPort = 1, k_dst = [1, 2, 3, 4], k_dstPort = 2\<rparr> 5))
        [ClassifyOp (\<lambda>p. None) (\<lambda>n. False) \<lparr>k_srcPort = 7, k_dst = [1, 2, 3, 4], k_dstPort = 2\<rparr> 6])
      (\<lambda>p. Some ''other'') (\<lambda>n. False) \<lparr>k_srcPort = 1, k_dst = [1, 2, 3, 4], k_dstPort = 2\<rparr> 9) = ((True, True), False)"
  by (rule route_is_sticky [where r = newUDPRouter and owner = "\<lambda>p. Some ''game''" and isGame = "\<lambda>n. True" and now = 5 and q = False])
    (simp_all add: classify_udp_def newUDPRouter_def Let_def router_step_def)

text \<open>An undecided flow is decided within the waiting time.\<close>

lemma classify_waits:
  "fmlookup (routes r) key = Some rt \<Longrightarrow> unknownWait r \<le> time_sub now (first rt) \<Longrightarrow>
     snd (fst (snd (classify_udp r owner isGame key now)))"
  by (auto simp: classify_udp_def Let_def split: option.split)

section \<open>The refresher\<close>

text \<open>
  The goroutine of \<^verbatim>\<open>startRefresher\<close> and the one-slot channel: \<open>pending\<close> is a kick in the
  channel; the goroutine waits for a kick, runs the function or sleeps for the gap. \<open>runs\<close>
  counts the starts of the function.
\<close>

datatype phase = Idle | Running | Sleeping

record refresher =
  pending :: bool
  phase :: phase
  runs :: nat

datatype refresh_event = Kick | Take | Finish | GapOver

inductive refresh_step :: "refresher \<Rightarrow> refresh_event \<Rightarrow> refresher \<Rightarrow> bool" where
  kick_free: "\<not> pending r \<Longrightarrow> refresh_step r Kick (r\<lparr>pending := True\<rparr>)"
| kick_full: "pending r \<Longrightarrow> refresh_step r Kick r"
| take: "pending r \<Longrightarrow> phase r = Idle \<Longrightarrow> refresh_step r Take (r\<lparr>pending := False, phase := Running, runs := Suc (runs r)\<rparr>)"
| finish: "phase r = Running \<Longrightarrow> refresh_step r Finish (r\<lparr>phase := Sleeping\<rparr>)"
| gap_over: "phase r = Sleeping \<Longrightarrow> refresh_step r GapOver (r\<lparr>phase := Idle\<rparr>)"

inductive_cases kickE: "refresh_step r Kick r'"
inductive_simps take_iff: "refresh_step r Take r'"
inductive_simps finish_iff: "refresh_step r Finish r'"
inductive_simps gap_over_iff: "refresh_step r GapOver r'"

inductive refresh_steps :: "refresher \<Rightarrow> refresh_event list \<Rightarrow> refresher \<Rightarrow> bool" where
  none: "refresh_steps r [] r"
| more: "refresh_step r e r' \<Longrightarrow> refresh_steps r' es r'' \<Longrightarrow> refresh_steps r (e # es) r''"

lemma refresh_mono: "refresh_steps r es r' \<Longrightarrow> runs r \<le> runs r'"
proof (induction rule: refresh_steps.induct)
  case (more r e r' es r'')
  then have "runs r \<le> runs r'" by (cases rule: refresh_step.cases) auto
  then show ?case using more by simp
qed simp

lemma pending_until_run:
  "refresh_steps r es r' \<Longrightarrow> pending r \<Longrightarrow> pending r' \<or> runs r < runs r'"
proof (induction rule: refresh_steps.induct)
  case (more r e r' es r'')
  from more.hyps(1) more.prems have "pending r' \<or> runs r < runs r'" "runs r \<le> runs r'"
    by (cases rule: refresh_step.cases; auto)+
  then show ?case using more.IH refresh_mono [OF more.hyps(2)] by auto
qed simp

lemma runs_bounded: "refresh_steps r es r' \<Longrightarrow> runs r' + (if pending r' then 1 else 0) \<le> runs r + (if pending r then 1 else 0) + count_list es Kick"
proof (induction rule: refresh_steps.induct)
  case (more r e r' es r'')
  from more.hyps(1) show ?case using more.IH by (cases rule: refresh_step.cases) (auto split: if_splits)
qed simp

text \<open>Kicks are merged but never lost: after a kick, either a run of the function has started since then,
  or a kick is still waiting and a run can start as soon as the current run and its gap are over;
  and there are never more runs than kicks.\<close>

theorem kick_leads_to_run:
  assumes "refresh_step r Kick r1" "refresh_steps r1 es r2"
  shows "(runs r < runs r2 \<or>
       (pending r2 \<and> (\<exists>es' r3. length es' \<le> 3 \<and> refresh_steps r2 es' r3 \<and> runs r3 = Suc (runs r2)))) \<and>
     runs r2 \<le> runs r + (if pending r then 1 else 0) + 1 + count_list es Kick"
proof -
  have 1: "pending r1" "runs r1 = runs r" using assms(1) by (auto elim: kickE)
  have b: "runs r2 \<le> runs r + (if pending r then 1 else 0) + 1 + count_list es Kick"
    using runs_bounded [OF assms(2)] 1 by simp
  have run: "\<exists>es' r3. length es' \<le> 3 \<and> refresh_steps r2 es' r3 \<and> runs r3 = Suc (runs r2)" if p: "pending r2"
  proof -
    let ?idle = "r2\<lparr>phase := Idle\<rparr>"
    let ?ran = "r2\<lparr>pending := False, phase := Running, runs := Suc (runs r2)\<rparr>"
    have t: "refresh_steps ?idle [Take] ?ran"
      by (rule refresh_steps.more [OF _ refresh_steps.none]) (simp add: take_iff p)
    show ?thesis
    proof (cases "phase r2")
      case Idle
      then have "?idle = r2" by simp
      then show ?thesis using t by (intro exI [of _ "[Take]"] exI [of _ ?ran]) simp
    next
      case Sleeping
      then have "refresh_steps r2 [GapOver, Take] ?ran"
        using t by (intro refresh_steps.more [of r2 GapOver ?idle]) (simp_all add: gap_over_iff)
      then show ?thesis by (intro exI [of _ "[GapOver, Take]"] exI [of _ ?ran]) simp
    next
      case Running
      then have "refresh_steps r2 [Finish, GapOver, Take] ?ran"
        using t by (intro refresh_steps.more [of r2 Finish "r2\<lparr>phase := Sleeping\<rparr>"]
            refresh_steps.more [of "r2\<lparr>phase := Sleeping\<rparr>" GapOver ?idle]) (simp_all add: gap_over_iff finish_iff)
      then show ?thesis by (intro exI [of _ "[Finish, GapOver, Take]"] exI [of _ ?ran]) simp
    qed
  qed
  show ?thesis using pending_until_run [OF assms(2) 1(1)] 1(2) run b by auto
qed

theorem kick_leads_to_run_witness:
  "runs \<lparr>pending = False, phase = Running, runs = 1\<rparr> \<le> 0 + 0 + 1 + count_list [Take] Kick"
proof -
  have "refresh_step \<lparr>pending = False, phase = Idle, runs = 0\<rparr> Kick \<lparr>pending = True, phase = Idle, runs = 0\<rparr>"
    using kick_free [of "\<lparr>pending = False, phase = Idle, runs = 0\<rparr>"] by simp
  moreover have "refresh_steps \<lparr>pending = True, phase = Idle, runs = 0\<rparr> [Take] \<lparr>pending = False, phase = Running, runs = 1\<rparr>"
    by (rule refresh_steps.more [OF _ refresh_steps.none]) (simp add: take_iff)
  ultimately show ?thesis using kick_leads_to_run by fastforce
qed

section \<open>The decision of the read loop\<close>

datatype packetAction = toVPN | toGlue | dropUnknown | dropFragment

record gameSplit =
  router :: udpRouter
  gflows :: flowTable

text \<open>\<^verbatim>\<open>copy(dst[:], ip.To4())\<close> into a zero [4]byte.\<close>

definition addr4 :: "ip \<Rightarrow> bytes" where
  "addr4 a = take 4 (To4 a) @ replicate (4 - length (To4 a)) 0"

definition flow_info_of :: "info \<Rightarrow> flowInfo" where
  "flow_info_of i =
     \<lparr>origSrc = addr4 (Src i), origDst = addr4 (Dst i), origSrcPort = SrcPort i, origDstPort = DstPort i\<rparr>"

definition decide ::
  "gameSplit \<Rightarrow> (u16 \<Rightarrow> string option) \<Rightarrow> (string \<Rightarrow> bool) \<Rightarrow> info \<Rightarrow> time \<Rightarrow> (gameSplit \<times> packetAction \<times> u16) option" where
  "decide s owner isGame i now =
     (if Proto i \<noteq> 17 then Some (s, toVPN, 0)
      else if Fragment i then
        (if hasDst (gflows s) (addr4 (Dst i)) then Some (s, dropFragment, 0) else Some (s, toVPN, 0))
      else if Payload i = None then Some (s, toVPN, 0)
      else
        let fi = flow_info_of i in
        case classify_udp (router s) owner isGame (flowKeyOf fi) now of
          (r', (g, send), q) \<Rightarrow>
            if \<not> send then Some (s\<lparr>router := r'\<rparr>, dropUnknown, 0)
            else if \<not> g then Some (s\<lparr>router := r'\<rparr>, toVPN, 0)
            else case id_of (gflows s) fi now of
                   None \<Rightarrow> None
                 | Some (t', None) \<Rightarrow> Some (s\<lparr>router := r', gflows := t'\<rparr>, dropUnknown, 0)
                 | Some (t', Some i) \<Rightarrow> Some (s\<lparr>router := r', gflows := t'\<rparr>, toGlue, i))"

lemma decide_ok:
  assumes "ft_inv (gflows s)"
  shows "\<exists>s' act i. decide s owner isGame p now = Some (s', act, i) \<and> ft_inv (gflows s') \<and>
    (act = toGlue \<longrightarrow> Proto p = 17 \<and> \<not> Fragment p \<and> Payload p \<noteq> None \<and>
       (\<exists>rt. fmlookup (routes (router s')) (flowKeyOf (flow_info_of p)) = Some rt \<and> decided rt \<and> glue rt) \<and>
       (\<exists>g. snd (lookup_flow (gflows s') i now) = Some g \<and> flowKeyOf g = flowKeyOf (flow_info_of p))) \<and>
    (act = dropFragment \<longrightarrow> Proto p = 17 \<and> Fragment p \<and>
       (\<exists>i e. fmlookup (tflows (gflows s)) i = Some e \<and> origDst (e_info e) = addr4 (Dst p))) \<and>
    (act = dropUnknown \<longrightarrow> Proto p = 17 \<and> \<not> Fragment p \<and> Payload p \<noteq> None)"
proof (cases "Proto p \<noteq> 17 \<or> Fragment p \<or> Payload p = None")
  case True
  then show ?thesis using hasDst_iff [OF assms] assms by (auto simp: decide_def)
next
  case False
  define fi where "fi = flow_info_of p"
  obtain r' g send q where c: "classify_udp (router s) owner isGame (flowKeyOf fi) now = (r', (g, send), q)"
    by (metis prod.exhaust)
  have d: "decide s owner isGame p now =
     (if \<not> send then Some (s\<lparr>router := r'\<rparr>, dropUnknown, 0)
      else if \<not> g then Some (s\<lparr>router := r'\<rparr>, toVPN, 0)
      else case id_of (gflows s) fi now of
             None \<Rightarrow> None
           | Some (t', None) \<Rightarrow> Some (s\<lparr>router := r', gflows := t'\<rparr>, dropUnknown, 0)
           | Some (t', Some i) \<Rightarrow> Some (s\<lparr>router := r', gflows := t'\<rparr>, toGlue, i))"
    using False c by (cases "Payload p") (simp_all add: decide_def fi_def Let_def)
  show ?thesis
  proof (cases "send \<and> g")
    case False
    then show ?thesis using \<open>\<not> (Proto p \<noteq> 17 \<or> Fragment p \<or> Payload p = None)\<close> d assms by auto
  next
    case True
    have rt: "\<exists>rt. fmlookup (routes r') (flowKeyOf fi) = Some rt \<and> decided rt \<and> glue rt"
      using classify_send_decided [of "router s" owner isGame "flowKeyOf fi" now r' g q] c True by simp
    from assms show ?thesis
    proof (cases rule: id_of_cases [where fi = fi and now = now])
      case (known i e)
      moreover have "flowKeyOf (e_info e) = flowKeyOf fi" using ft_inv_ids [OF assms known(1)] known(2) by simp
      ultimately show ?thesis
        using d True False rt touch_inv [OF assms known(2), of now] by (simp add: lookup_flow_def fi_def)
    next
      case (fresh t' i)
      then show ?thesis using d True False rt by (simp add: lookup_flow_def fi_def)
    next
      case (full n)
      then show ?thesis using d True False assms by (simp add: next_id_inv)
    qed
  qed
qed

text \<open>The channel of a packet: only a whole UDP datagram with a payload can go to glue, only when its flow
  was decided to be a game's, and then the flow ID leads back to the packet's own ports and
  destination. Anything else goes to vpn, except UDP whose owner is unknown (or whose flow finds no
  ID) and fragments to a destination that has glue flows, which are dropped.\<close>

theorem decide_correct:
  assumes "ft_inv (gflows s)"
  shows "\<exists>s' act i. decide s owner isGame p now = Some (s', act, i) \<and> ft_inv (gflows s') \<and>
    (act = toGlue \<longrightarrow> Proto p = 17 \<and> \<not> Fragment p \<and> Payload p \<noteq> None \<and>
       (\<exists>rt. fmlookup (routes (router s')) (flowKeyOf (flow_info_of p)) = Some rt \<and> decided rt \<and> glue rt) \<and>
       (\<exists>g. snd (lookup_flow (gflows s') i now) = Some g \<and> flowKeyOf g = flowKeyOf (flow_info_of p))) \<and>
    (act = dropFragment \<longrightarrow> Proto p = 17 \<and> Fragment p \<and>
       (\<exists>i e. fmlookup (tflows (gflows s)) i = Some e \<and> origDst (e_info e) = addr4 (Dst p))) \<and>
    (act = dropUnknown \<longrightarrow> Proto p = 17 \<and> \<not> Fragment p \<and> Payload p \<noteq> None)"
  using assms by (rule decide_ok)

theorem decide_correct_witness:
  "\<exists>s' act i. decide \<lparr>router = newUDPRouter, gflows = newFlowTable\<rparr> (\<lambda>p. None) (\<lambda>n. True)
      (built_info [10, 0, 0, 2] [1, 2, 3, 4] 5 6 [7, 8]) 9 = Some (s', act, i) \<and> ft_inv (gflows s')"
  using decide_correct [of "\<lparr>router = newUDPRouter, gflows = newFlowTable\<rparr>" "\<lambda>p. None" "\<lambda>n. True"
      "built_info [10, 0, 0, 2] [1, 2, 3, 4] 5 6 [7, 8]" 9] ft_inv_new by fastforce

end
