(* ===== verification/Conn.thy ===== *)
theory Conn
  imports Contracts
begin

text \<open>
  A network connection as a value: what it still delivers, what was written to it, and the
  outcomes of the coming writes (a write past the end of that list succeeds). A failed write
  sends nothing.
\<close>

record conn =
  rx :: instream
  tx :: bytes
  wfail :: "string option list"

definition conn_read_full :: "nat \<Rightarrow> conn \<Rightarrow> io_error + (bytes \<times> conn)" where
  "conn_read_full n c =
     (case read_full n (rx c) of
        Inl e \<Rightarrow> Inl e
      | Inr (b, r) \<Rightarrow> Inr (b, c\<lparr>rx := r\<rparr>))"

definition conn_write :: "bytes \<Rightarrow> conn \<Rightarrow> conn \<times> string option" where
  "conn_write b c =
     (case wfail c of
        [] \<Rightarrow> (c\<lparr>tx := tx c @ b\<rparr>, None)
      | None # fs \<Rightarrow> (c\<lparr>tx := tx c @ b, wfail := fs\<rparr>, None)
      | Some e # fs \<Rightarrow> (c\<lparr>wfail := fs\<rparr>, Some e))"

text \<open>A connection on which every write succeeds.\<close>

definition good_conn :: "instream \<Rightarrow> bytes \<Rightarrow> conn" where
  "good_conn i t = \<lparr>rx = i, tx = t, wfail = []\<rparr>"

lemma good_conn_simps [simp]:
  "rx (good_conn i t) = i" "tx (good_conn i t) = t"
  "conn_write b (good_conn i t) = (good_conn i (t @ b), None)"
  by (simp_all add: good_conn_def conn_write_def)

lemma good_conn_read [simp]:
  "length xs = n \<Longrightarrow> conn_read_full n (good_conn (xs @ ys, e) t) = Inr (xs, good_conn (ys, e) t)"
  by (simp add: conn_read_full_def good_conn_def)

lemma good_conn_read_exact [simp]:
  "length xs = n \<Longrightarrow> conn_read_full n (good_conn (xs, e) t) = Inr (xs, good_conn ([], e) t)"
  by (simp add: conn_read_full_def good_conn_def)

lemma conn_read_InrD:
  "conn_read_full n c = Inr (b, c') \<Longrightarrow>
     fst (rx c) = b @ fst (rx c') \<and> length b = n \<and> tx c' = tx c \<and> wfail c' = wfail c"
  by (auto simp: conn_read_full_def split: sum.splits prod.splits dest: read_full_InrD)

lemma conn_write_cases:
  obtains (ok) fs where "conn_write b c = (c\<lparr>tx := tx c @ b, wfail := fs\<rparr>, None)"
  | (failed) e fs where "conn_write b c = (c\<lparr>wfail := fs\<rparr>, Some e)"
proof (cases "wfail c")
  case Nil
  then have "conn_write b c = (c\<lparr>tx := tx c @ b, wfail := []\<rparr>, None)"
    by (cases c) (simp add: conn_write_def)
  then show thesis by (rule ok)
next
  case (Cons x fs)
  then show thesis by (cases x) (auto simp: conn_write_def intro: ok failed)
qed

lemma conn_write_tx:
  "conn_write b c = (c', r) \<Longrightarrow> rx c' = rx c \<and> tx c' = (if r = None then tx c @ b else tx c)"
  by (cases rule: conn_write_cases [of b c]) auto

lemma good_conn_read_one [simp]:
  "conn_read_full (Suc 0) (good_conn (x # ys, e) t) = Inr ([x], good_conn (ys, e) t)"
  using good_conn_read [of "[x]" 1 ys e t] by simp

text \<open>The bytes of a string constant.\<close>

definition str_bytes :: "string \<Rightarrow> bytes" where
  "str_bytes s = map (\<lambda>c. of_nat (of_char c)) s"

lemma length_str_bytes [simp]: "length (str_bytes s) = length s"
  by (simp add: str_bytes_def)

end
