(* ===== verification/NetText.thy ===== *)
theory NetText
  imports NetIP "HOL-Library.Sublist"
begin

unbundle bit_operations_syntax

text \<open>
  What the program uses of the text side of packages net, strings and strconv: splitting,
  decimal numbers, \<^verbatim>\<open>ParseIP\<close>, \<^verbatim>\<open>IP.String\<close>, \<^verbatim>\<open>ParseCIDR\<close>, \<^verbatim>\<open>IPNet.String\<close>, \<^verbatim>\<open>SplitHostPort\<close> and
  \<^verbatim>\<open>JoinHostPort\<close>, as the standard library defines them.
\<close>

section \<open>Strings\<close>

text \<open>\<^verbatim>\<open>strings.Split(s, sep)\<close> for a separator of one byte: never the empty list.\<close>

fun split_on :: "char \<Rightarrow> string \<Rightarrow> string list" where
  "split_on d [] = [[]]"
| "split_on d (c # cs) =
     (if c = d then [] # split_on d cs
      else case split_on d cs of [] \<Rightarrow> [[c]] | w # ws \<Rightarrow> (c # w) # ws)"

fun join_with :: "string \<Rightarrow> string list \<Rightarrow> string" where
  "join_with sep [] = []"
| "join_with sep [w] = w"
| "join_with sep (w # ws) = w @ sep @ join_with sep ws"

text \<open>\<^verbatim>\<open>strings.TrimSpace\<close> and \<^verbatim>\<open>strings.Fields\<close>, on ASCII text.\<close>

definition is_space :: "char \<Rightarrow> bool" where
  "is_space c \<longleftrightarrow> c \<in> {CHR 0x09, CHR 0x0A, CHR 0x0B, CHR 0x0C, CHR 0x0D, CHR 0x20}"

definition trim_space :: "string \<Rightarrow> string" where
  "trim_space s = rev (dropWhile is_space (rev (dropWhile is_space s)))"

definition text_fields :: "string \<Rightarrow> string list" where
  "text_fields s = filter (\<lambda>w. w \<noteq> []) (split_on CHR 0x20 (map (\<lambda>c. if is_space c then CHR 0x20 else c) s))"

definition has_prefix :: "string \<Rightarrow> string \<Rightarrow> bool" where
  "has_prefix s p \<longleftrightarrow> take (length p) s = p"

lemma split_on_nonempty [simp]: "split_on d s \<noteq> []"
  by (induction s) (auto split: list.split)

lemma split_on_plain: "d \<notin> set s \<Longrightarrow> split_on d s = [s]"
  by (induction s) auto

lemma split_on_append: "d \<notin> set s \<Longrightarrow> split_on d (s @ d # t) = s # split_on d t"
  by (induction s) auto

lemma split_on_join:
  "ws \<noteq> [] \<Longrightarrow> (\<And>w. w \<in> set ws \<Longrightarrow> d \<notin> set w) \<Longrightarrow> split_on d (join_with [d] ws) = ws"
proof (induction ws)
  case (Cons w ws)
  then show ?case by (cases ws) (auto simp: split_on_plain split_on_append)
qed simp

lemma join_split_on: "join_with [d] (split_on d s) = s"
proof (induction s)
  case (Cons c s)
  obtain w ws where "split_on d s = w # ws" by (cases "split_on d s") auto
  then show ?case using Cons by (cases ws) auto
qed simp

lemma split_on_chars: "w \<in> set (split_on d s) \<Longrightarrow> c \<in> set w \<Longrightarrow> c \<in> set s \<and> c \<noteq> d"
  by (induction s arbitrary: w) (fastforce split: list.splits if_splits)+

section \<open>Numbers\<close>

definition is_digit :: "char \<Rightarrow> bool" where
  "is_digit c \<longleftrightarrow> 48 \<le> (of_char c :: nat) \<and> (of_char c :: nat) \<le> 57"

definition digit :: "nat \<Rightarrow> char" where "digit n = char_of (48 + n)"
definition digit_val :: "char \<Rightarrow> nat" where "digit_val c = of_char c - 48"

text \<open>\<^verbatim>\<open>strconv.Itoa\<close> of a number that is not negative.\<close>

fun itoa :: "nat \<Rightarrow> string" where
  "itoa n = (if n < 10 then [digit n] else itoa (n div 10) @ [digit (n mod 10)])"

declare itoa.simps [simp del]

definition dec_value :: "string \<Rightarrow> nat" where
  "dec_value s = foldl (\<lambda>acc c. acc * 10 + digit_val c) 0 s"

lemma digit_simps [simp]: "n < 10 \<Longrightarrow> is_digit (digit n)" "n < 10 \<Longrightarrow> digit_val (digit n) = n"
  by (simp_all add: is_digit_def digit_def digit_val_def)

lemma digit_eq_0 [simp]: "n < 10 \<Longrightarrow> digit n = CHR ''0'' \<longleftrightarrow> n = 0"
  using of_char_eq_iff [where 'a = nat, of "digit n" "CHR ''0''"] by (simp add: digit_def)

lemma dec_value_snoc: "dec_value (s @ [c]) = dec_value s * 10 + digit_val c"
  by (simp add: dec_value_def)

lemma dec_value_itoa [simp]: "dec_value (itoa n) = n"
proof (induction n rule: itoa.induct)
  case (1 n)
  then show ?case by (subst itoa.simps) (simp add: dec_value_snoc, simp add: dec_value_def)
qed

lemma itoa_digits: "c \<in> set (itoa n) \<Longrightarrow> is_digit c"
proof (induction n rule: itoa.induct)
  case (1 n)
  then show ?case by (subst (asm) (2) itoa.simps) (auto split: if_splits)
qed

lemma itoa_nonempty [simp]: "itoa n \<noteq> []"
  by (subst itoa.simps) simp

lemma itoa_inj: "itoa m = itoa n \<Longrightarrow> m = n"
  by (metis dec_value_itoa)

lemma hd_itoa: "0 < n \<Longrightarrow> hd (itoa n) \<noteq> CHR ''0''"
proof (induction n rule: itoa.induct)
  case (1 n)
  then show ?case by (subst itoa.simps) simp
qed

lemma length_itoa: "length (itoa n) \<le> 1 \<longleftrightarrow> n < 10"
  by (subst itoa.simps) (auto simp: Suc_le_eq)

section \<open>Parsing addresses\<close>

text \<open>\<^verbatim>\<open>net.ParseIP\<close>: dotted decimal without leading zeros, in 16-byte form, or IPv6 without a zone.\<close>

definition v4_field :: "string \<Rightarrow> byte option" where
  "v4_field w =
     (if w = [] \<or> \<not> list_all is_digit w \<or> (1 < length w \<and> hd w = CHR ''0'') \<or> 255 < dec_value w then None
      else Some (of_nat (dec_value w)))"

definition parse_v4 :: "string \<Rightarrow> bytes option" where
  "parse_v4 s =
     (case map v4_field (split_on CHR ''.'' s) of
        [Some a, Some b, Some c, Some d] \<Rightarrow> Some [a, b, c, d]
      | _ \<Rightarrow> None)"

definition hex_val :: "char \<Rightarrow> nat option" where
  "hex_val c =
     (let k = of_char c :: nat in
      if 48 \<le> k \<and> k \<le> 57 then Some (k - 48) else if 97 \<le> k \<and> k \<le> 102 then Some (k - 87)
      else if 65 \<le> k \<and> k \<le> 70 then Some (k - 55) else None)"

definition is_hex :: "char \<Rightarrow> bool" where "is_hex c \<longleftrightarrow> hex_val c \<noteq> None"

definition hex_value :: "string \<Rightarrow> nat" where
  "hex_value s = foldl (\<lambda>acc c. acc * 16 + the (hex_val c)) 0 s"

text \<open>
  The groups of an IPv6 address: \<open>acc\<close> holds the bytes so far, \<open>ell\<close> the place of the double
  colon; the result leaves out the zeros it stands for. A group takes at least one round, so eight
  rounds are enough.
\<close>

fun v6_groups :: "nat \<Rightarrow> bytes \<Rightarrow> nat option \<Rightarrow> string \<Rightarrow> (bytes \<times> nat option) option" where
  "v6_groups 0 acc ell s = (if s = [] then Some (acc, ell) else None)"
| "v6_groups (Suc k) acc ell s =
     (let h = takeWhile is_hex s; rest = dropWhile is_hex s in
      if h = [] \<or> 4 < length h then None
      else if rest \<noteq> [] \<and> hd rest = CHR ''.'' then
        (if (ell = None \<and> length acc \<noteq> 12) \<or> 12 < length acc then None
         else case parse_v4 s of None \<Rightarrow> None | Some b \<Rightarrow> Some (acc @ b, ell))
      else
        let acc' = acc @ [of_nat (hex_value h div 256), of_nat (hex_value h mod 256)] in
        if rest = [] then Some (acc', ell)
        else if hd rest \<noteq> CHR '':'' \<or> tl rest = [] then None
        else if hd (tl rest) = CHR '':'' then
          (if ell \<noteq> None then None
           else if tl (tl rest) = [] then Some (acc', Some (length acc'))
           else v6_groups k acc' (Some (length acc')) (tl (tl rest)))
        else v6_groups k acc' ell (tl rest))"

definition expand_v6 :: "bytes \<times> nat option \<Rightarrow> bytes option" where
  "expand_v6 r =
     (case r of
        (b, None) \<Rightarrow> if length b < 16 then None else Some b
      | (b, Some i) \<Rightarrow> if length b < 16 then Some (take i b @ replicate (16 - length b) 0 @ drop i b) else None)"

definition parse_v6 :: "string \<Rightarrow> bytes option" where
  "parse_v6 s =
     (let start = has_prefix s ''::''; s' = (if start then drop 2 s else s) in
      if start \<and> s' = [] then Some (replicate 16 0)
      else Option.bind (v6_groups 8 [] (if start then Some 0 else None) s') expand_v6)"

text \<open>The first of the characters \<^verbatim>\<open>.\<close>, \<^verbatim>\<open>:\<close> and \<^verbatim>\<open>%\<close> decides; \<^verbatim>\<open>ParseIP\<close> refuses zones. \<open>[]\<close> is nil.\<close>

definition ParseIP :: "string \<Rightarrow> ip" where
  "ParseIP s =
     (case filter (\<lambda>c. c = CHR ''.'' \<or> c = CHR '':'' \<or> c = CHR 0x25) s of
        [] \<Rightarrow> []
      | c # _ \<Rightarrow>
          if c = CHR ''.'' then (case parse_v4 s of None \<Rightarrow> [] | Some b \<Rightarrow> v4_prefix @ b)
          else if c = CHR '':'' \<and> CHR 0x25 \<notin> set s then (case parse_v6 s of None \<Rightarrow> [] | Some b \<Rightarrow> b)
          else [])"

text \<open>\<^verbatim>\<open>net.ParseCIDR\<close>: the address, and its network with the prefix length.\<close>

definition ParseCIDR :: "string \<Rightarrow> (ip \<times> ipnet \<times> nat) option" where
  "ParseCIDR s =
     (let addr = takeWhile (\<lambda>c. c \<noteq> CHR ''/'') s; len = tl (dropWhile (\<lambda>c. c \<noteq> CHR ''/'') s);
          a = ParseIP addr; bits = (if (\<exists>c \<in> set addr. c = CHR '':'') then 128 else 32 :: nat)
      in if CHR ''/'' \<notin> set s \<or> a = [] \<or> len = [] \<or> \<not> list_all is_digit len \<or> bits < dec_value len then None
         else Some (a, cidr (if bits = 32 then To4 a else a) (dec_value len), dec_value len))"

section \<open>Printing addresses\<close>

definition v4_string :: "bytes \<Rightarrow> string" where
  "v4_string b = join_with ''.'' (map (\<lambda>x. itoa (unat x)) b)"

definition hex_char :: "nat \<Rightarrow> char" where
  "hex_char n = (if n < 10 then char_of (48 + n) else char_of (87 + n))"

fun hex_text :: "nat \<Rightarrow> string" where
  "hex_text n = (if n < 16 then [hex_char n] else hex_text (n div 16) @ [hex_char (n mod 16)])"

declare hex_text.simps [simp del]

text \<open>The longest run of at least two zero groups, the first of several: start and end.\<close>

definition zero_run :: "nat list \<Rightarrow> nat \<Rightarrow> nat" where
  "zero_run gs i = length (takeWhile (\<lambda>g. g = 0) (drop i gs))"

definition best_run :: "nat list \<Rightarrow> nat \<times> nat" where
  "best_run gs =
     foldl (\<lambda>(a, b) i. let l = zero_run gs i in if 2 \<le> l \<and> b - a < l then (i, i + l) else (a, b)) (255, 255) [0..<8]"

definition v6_groups_of :: "bytes \<Rightarrow> nat list" where
  "v6_groups_of b = map (\<lambda>i. unat (b ! (2 * i)) * 256 + unat (b ! (2 * i + 1))) [0..<8]"

definition v6_string :: "bytes \<Rightarrow> string" where
  "v6_string b =
     (let gs = v6_groups_of b in
      case best_run gs of
        (s, e) \<Rightarrow>
          if s = 255 then join_with '':'' (map hex_text gs)
          else join_with '':'' (map hex_text (take s gs)) @ ''::'' @ join_with '':'' (map hex_text (drop e gs)))"

text \<open>\<^verbatim>\<open>IP.String\<close>, which prints an IPv4-mapped address as dotted decimal.\<close>

definition ip_string :: "ip \<Rightarrow> string" where
  "ip_string a =
     (if a = [] then ''<nil>''
      else if To4 a \<noteq> [] then v4_string (To4 a)
      else if length a = 16 then v6_string a
      else CHR ''?'' # concat (map (\<lambda>x. [hex_char (unat x div 16), hex_char (unat x mod 16)]) a))"

section \<open>Hosts and ports\<close>

text \<open>\<^verbatim>\<open>net.JoinHostPort\<close> and \<^verbatim>\<open>net.SplitHostPort\<close>.\<close>

definition JoinHostPort :: "string \<Rightarrow> string \<Rightarrow> string" where
  "JoinHostPort host port =
     (if CHR '':'' \<in> set host then ''['' @ host @ '']:'' @ port else host @ '':'' @ port)"

text \<open>The last occurrence of a character splits a string.\<close>

definition split_last :: "char \<Rightarrow> string \<Rightarrow> (string \<times> string) option" where
  "split_last d s =
     (if d \<in> set s then Some (rev (tl (dropWhile (\<lambda>c. c \<noteq> d) (rev s))), rev (takeWhile (\<lambda>c. c \<noteq> d) (rev s)))
      else None)"

definition brackets :: "string \<Rightarrow> bool" where
  "brackets s \<longleftrightarrow> CHR 0x5B \<in> set s \<or> CHR 0x5D \<in> set s"

definition SplitHostPort :: "string \<Rightarrow> (string \<times> string) option" where
  "SplitHostPort hp =
     (case split_last CHR '':'' hp of
        None \<Rightarrow> None
      | Some (before, port) \<Rightarrow>
          if hp \<noteq> [] \<and> hd hp = CHR 0x5B then
            (if CHR 0x5D \<notin> set hp then None
             else
               let inner = takeWhile (\<lambda>c. c \<noteq> CHR 0x5D) (tl hp);
                   after = tl (dropWhile (\<lambda>c. c \<noteq> CHR 0x5D) (tl hp))
               in if after \<noteq> CHR '':'' # port \<or> brackets inner \<or> brackets port then None
                  else Some (inner, port))
          else if CHR '':'' \<in> set before \<or> brackets before \<or> brackets port then None
          else Some (before, port))"

lemma split_last_append: "d \<notin> set t \<Longrightarrow> split_last d (h @ d # t) = Some (h, t)"
proof -
  assume p: "d \<notin> set t"
  then have "takeWhile (\<lambda>c. c \<noteq> d) (rev t @ d # rev h) = rev t" "dropWhile (\<lambda>c. c \<noteq> d) (rev t @ d # rev h) = d # rev h"
    by (subst takeWhile_append2 dropWhile_append2; auto)+
  then show ?thesis by (simp add: split_last_def)
qed

lemma split_last_Some: "split_last d s = Some (h, t) \<Longrightarrow> s = h @ d # t \<and> d \<notin> set t"
proof -
  assume a: "split_last d s = Some (h, t)"
  then have "d \<in> set s" by (simp add: split_last_def split: if_splits)
  then obtain h' t' where s: "s = h' @ d # t'" "d \<notin> set t'" by (metis split_list_last)
  with split_last_append [of d t' h'] a show ?thesis by simp
qed

lemma split_join_host:
  assumes "\<not> brackets host" "\<not> brackets port" "CHR '':'' \<notin> set port"
  shows "SplitHostPort (JoinHostPort host port) = Some (host, port)"
proof (cases "CHR '':'' \<in> set host")
  case True
  have t: "takeWhile (\<lambda>c. c \<noteq> CHR 0x5D) (host @ CHR 0x5D # x) = host" "dropWhile (\<lambda>c. c \<noteq> CHR 0x5D) (host @ CHR 0x5D # x) = CHR 0x5D # x" for x
    using assms(1) by (subst takeWhile_append2 dropWhile_append2; auto simp: brackets_def)+
  have "split_last CHR '':'' ((''['' @ host @ '']'') @ CHR '':'' # port) = Some (''['' @ host @ '']'', port)"
    by (rule split_last_append [OF assms(3)])
  then show ?thesis using assms True t by (simp add: JoinHostPort_def SplitHostPort_def Let_def)
next
  case False
  have "split_last CHR '':'' (host @ CHR '':'' # port) = Some (host, port)" by (rule split_last_append [OF assms(3)])
  moreover have "\<not> (host @ CHR '':'' # port \<noteq> [] \<and> hd (host @ CHR '':'' # port) = CHR 0x5B)"
    using assms(1) by (cases host) (auto simp: brackets_def)
  ultimately show ?thesis using assms False by (simp add: JoinHostPort_def SplitHostPort_def)
qed

section \<open>Dotted decimal reads back\<close>

lemma itoa_no_dot: "CHR ''.'' \<notin> set (itoa n)" "CHR '':'' \<notin> set (itoa n)" "CHR 0x25 \<notin> set (itoa n)"
  using itoa_digits [of "CHR ''.''" n] itoa_digits [of "CHR '':''" n] itoa_digits [of "CHR 0x25" n]
  by (auto simp: is_digit_def)

lemma v4_string_chars: "c \<in> set (v4_string b) \<Longrightarrow> is_digit c \<or> c = CHR ''.''"
proof -
  have j: "c \<in> set (join_with ''.'' ws) \<Longrightarrow> (\<And>w. w \<in> set ws \<Longrightarrow> c \<in> set w \<Longrightarrow> is_digit c) \<Longrightarrow> is_digit c \<or> c = CHR ''.''" for ws
    by (induction "''.''" ws rule: join_with.induct) auto
  show "c \<in> set (v4_string b) \<Longrightarrow> is_digit c \<or> c = CHR ''.''"
    unfolding v4_string_def by (rule j) (auto dest: itoa_digits)
qed

lemma v4_string_nonempty: "b \<noteq> [] \<Longrightarrow> v4_string b \<noteq> []"
  by (cases b rule: remdups_adj.cases) (auto simp: v4_string_def)

lemma ip_string_v4: "To4 a \<noteq> [] \<Longrightarrow> ip_string a = v4_string (To4 a)"
  by (cases "a = []") (simp_all add: ip_string_def To4_def)

lemma v4_field_itoa: "v4_field (itoa (unat (x :: byte))) = Some x"
proof -
  have "unat x \<le> 255" using unsigned_less [where 'a = nat, of x] by simp
  moreover have "hd (itoa (unat x)) \<noteq> CHR ''0'' \<or> length (itoa (unat x)) \<le> 1"
    using hd_itoa [of "unat x"] length_itoa [of "unat x"] by (cases "unat x") auto
  ultimately show ?thesis by (auto simp: v4_field_def list_all_iff itoa_digits)
qed

lemma parse_v4_string: "parse_v4 (v4_string [a, b, c, d]) = Some [a, b, c, d]"
proof -
  have "split_on CHR ''.'' (v4_string [a, b, c, d]) = map (\<lambda>x. itoa (unat x)) [a, b, c, d]"
    unfolding v4_string_def by (rule split_on_join) (auto simp: itoa_no_dot)
  then show ?thesis by (simp add: parse_v4_def v4_field_itoa)
qed

lemma ParseIP_v4_string: "ParseIP (v4_string [a, b, c, d]) = v4_prefix @ [a, b, c, d]"
proof -
  have f: "filter (\<lambda>c. c = CHR ''.'' \<or> c = CHR '':'' \<or> c = CHR 0x25) (itoa n) = []" for n
    using itoa_no_dot [of n] by (auto simp: filter_empty_conv)
  have "filter (\<lambda>c. c = CHR ''.'' \<or> c = CHR '':'' \<or> c = CHR 0x25) (v4_string [a, b, c, d]) = ''...''"
    by (simp add: v4_string_def f)
  then show ?thesis by (simp add: ParseIP_def parse_v4_string)
qed

section \<open>Hexadecimal\<close>

text \<open>\<^verbatim>\<open>hex.EncodeToString\<close> and \<^verbatim>\<open>hex.DecodeString\<close>.\<close>

definition hex_digit :: "nat \<Rightarrow> char" where
  "hex_digit n = ''0123456789abcdef'' ! n"

definition hex_string :: "bytes \<Rightarrow> string" where
  "hex_string bs = concat (map (\<lambda>b. [hex_digit (unat b div 16), hex_digit (unat b mod 16)]) bs)"

fun hex_decode :: "string \<Rightarrow> bytes option" where
  "hex_decode [] = Some []"
| "hex_decode [c] = None"
| "hex_decode (c # d # r) =
     (case (hex_val c, hex_val d, hex_decode r) of
        (Some h, Some l, Some bs) \<Rightarrow> Some (of_nat (16 * h + l) # bs)
      | _ \<Rightarrow> None)"

lemma hex_val_digit: "n < 16 \<Longrightarrow> hex_val (hex_digit n) = Some n"
proof -
  have "list_all (\<lambda>n. hex_val (hex_digit n) = Some n) [0..<16]" by code_simp
  then show "n < 16 \<Longrightarrow> ?thesis" by (simp add: list_all_iff del: upt_conv_Cons)
qed

lemma hex_roundtrip [simp]: "hex_decode (hex_string bs) = Some bs"
proof (induction bs)
  case (Cons b bs)
  have "unat b div 16 < 16" using unsigned_less [where 'a = nat, of b] by simp
  then show ?case using Cons by (simp add: hex_string_def hex_val_digit)
qed (simp add: hex_string_def)

lemma hex_digit_chars: "n < 16 \<Longrightarrow> \<not> is_space (hex_digit n)"
proof -
  have "list_all (\<lambda>n. \<not> is_space (hex_digit n)) [0..<16]" by code_simp
  then show "n < 16 \<Longrightarrow> ?thesis" by (simp add: list_all_iff del: upt_conv_Cons)
qed

lemma hex_string_chars: "c \<in> set (hex_string bs) \<Longrightarrow> \<not> is_space c"
proof (induction bs)
  case (Cons b bs)
  have "unat b div 16 < 16" using unsigned_less [where 'a = nat, of b] by simp
  then show ?case using Cons by (auto simp: hex_string_def hex_digit_chars)
qed (simp add: hex_string_def)

lemma dropWhile_none: "(\<And>c. c \<in> set s \<Longrightarrow> \<not> P c) \<Longrightarrow> dropWhile P s = s"
  by (cases s) auto

lemma trim_space_plain:
  assumes "\<And>c. c \<in> set s \<Longrightarrow> \<not> is_space c"
  shows "trim_space s = s"
proof -
  have "dropWhile is_space (rev s) = rev s" "dropWhile is_space s = s" using assms by (auto intro!: dropWhile_none)
  then show ?thesis by (simp add: trim_space_def)
qed

lemma trim_space_newline: "(\<And>c. c \<in> set s \<Longrightarrow> \<not> is_space c) \<Longrightarrow> s \<noteq> [] \<Longrightarrow> trim_space (s @ [CHR 0x0A]) = s"
proof -
  assume ns: "\<And>c. c \<in> set s \<Longrightarrow> \<not> is_space c" and ne: "s \<noteq> []"
  then have "dropWhile is_space (s @ [CHR 0x0A]) = s @ [CHR 0x0A]" by (cases s) auto
  moreover have "is_space CHR 0x0A" by (simp add: is_space_def)
  moreover have "dropWhile is_space (rev s) = rev s" using ns by (auto intro!: dropWhile_none)
  ultimately show ?thesis by (simp add: trim_space_def)
qed

section \<open>Searching\<close>

text \<open>\<^verbatim>\<open>strings.Contains\<close>, \<^verbatim>\<open>strings.Cut\<close> and \<^verbatim>\<open>strings.IndexByte\<close>.\<close>

fun contains :: "string \<Rightarrow> string \<Rightarrow> bool" where
  "contains [] p \<longleftrightarrow> p = []"
| "contains (c # cs) p \<longleftrightarrow> has_prefix (c # cs) p \<or> contains cs p"

fun cut :: "string \<Rightarrow> string \<Rightarrow> (string \<times> string) option" where
  "cut [] p = (if p = [] then Some ([], []) else None)"
| "cut (c # cs) p =
     (if has_prefix (c # cs) p then Some ([], drop (length p) (c # cs))
      else map_option (\<lambda>(before, after). (c # before, after)) (cut cs p))"

lemma has_prefix_append [simp]: "has_prefix (p @ s) p"
  by (simp add: has_prefix_def)

lemma contains_iff: "contains s p \<longleftrightarrow> cut s p \<noteq> None"
  by (induction s) auto

lemma contains_prefix: "contains (p @ s) p"
proof (cases "p @ s")
  case (Cons c cs)
  then show ?thesis using has_prefix_append [of p s] by (metis contains.simps(2))
qed simp

lemma contains_app: "contains s p \<Longrightarrow> contains (pre @ s) p"
  by (induction pre) auto

text \<open>The first occurrence, when its first character does not occur before.\<close>

lemma cut_at: "p \<noteq> [] \<Longrightarrow> hd p \<notin> set pre \<Longrightarrow> cut (pre @ p @ s) p = Some (pre, s)"
proof (induction pre)
  case Nil
  then obtain c cs where p: "p @ s = c # cs" by (cases p) auto
  then have "cut (c # cs) p = Some ([], drop (length p) (c # cs))" using has_prefix_append [of p s] by simp
  then show ?case using p by (metis append_Nil append_eq_conv_conj)
next
  case (Cons a pre)
  then have "\<not> has_prefix (a # pre @ p @ s) p" by (cases p) (auto simp: has_prefix_def)
  then show ?case using Cons by simp
qed

lemma itoa_length: "n < 10 ^ Suc k \<Longrightarrow> length (itoa n) \<le> Suc k"
proof (induction k arbitrary: n)
  case (Suc k)
  then have "length (itoa (n div 10)) \<le> Suc k" by (intro Suc.IH) (simp add: less_mult_imp_div_less mult.commute)
  then show ?case by (simp add: itoa.simps [of n])
qed (simp add: itoa.simps)

end
