(* ===== verification/Auth.thy ===== *)
theory Auth
  imports Conn NetText
begin

unbundle bit_operations_syntax

text \<open>
  internal/auth/auth.go: keys as base64 text, the list of authorized keys, and the two sides
  of the challenge-response handshake. Ed25519 is a parameter (\<open>crypto\<close>: public key of a seed,
  signing, verification), and so is what TLS contributes (\<open>tls\<close>: whether the connection is a TLS
  connection, the outcome of its handshake, and its exporter). The results of \<^verbatim>\<open>os.ReadFile\<close>,
  \<^verbatim>\<open>json.Unmarshal\<close> and \<^verbatim>\<open>rand.Read\<close> are arguments.
\<close>

section \<open>Base64 and keys\<close>

definition b64_char :: "nat \<Rightarrow> char" where
  "b64_char n =
     (if n < 26 then char_of (65 + n) else if n < 52 then char_of (71 + n)
      else if n < 62 then char_of (n - 4) else if n = 62 then CHR ''+'' else CHR ''/'')"

definition b64_val :: "char \<Rightarrow> nat option" where
  "b64_val c =
     (let k = of_char c :: nat in
      if 65 \<le> k \<and> k \<le> 90 then Some (k - 65) else if 97 \<le> k \<and> k \<le> 122 then Some (k - 71)
      else if 48 \<le> k \<and> k \<le> 57 then Some (k + 4) else if k = 43 then Some 62 else if k = 47 then Some 63
      else None)"

text \<open>\<^verbatim>\<open>base64.StdEncoding\<close>, with padding.\<close>

fun b64_encode :: "bytes \<Rightarrow> string" where
  "b64_encode [] = []"
| "b64_encode [a] =
     [b64_char (unat a div 4), b64_char (unat a mod 4 * 16), CHR ''='', CHR ''='']"
| "b64_encode [a, b] =
     [b64_char (unat a div 4), b64_char (unat a mod 4 * 16 + unat b div 16),
      b64_char (unat b mod 16 * 4), CHR ''='']"
| "b64_encode (a # b # c # rest) =
     b64_char (unat a div 4) # b64_char (unat a mod 4 * 16 + unat b div 16) #
     b64_char (unat b mod 16 * 4 + unat c div 64) # b64_char (unat c mod 64) # b64_encode rest"

text \<open>One group of four characters, padded or not.\<close>

definition b64_group :: "char \<Rightarrow> char \<Rightarrow> char \<Rightarrow> char \<Rightarrow> bytes option" where
  "b64_group a b c d =
     (case (b64_val a, b64_val b) of
        (Some va, Some vb) \<Rightarrow>
          if c = CHR ''='' \<and> d = CHR ''='' then Some [of_nat (va * 4 + vb div 16)]
          else (case b64_val c of
                  None \<Rightarrow> None
                | Some vc \<Rightarrow>
                    if d = CHR ''='' then Some [of_nat (va * 4 + vb div 16), of_nat (vb mod 16 * 16 + vc div 4)]
                    else (case b64_val d of
                            None \<Rightarrow> None
                          | Some vd \<Rightarrow> Some [of_nat (va * 4 + vb div 16), of_nat (vb mod 16 * 16 + vc div 4),
                                             of_nat (vc mod 4 * 64 + vd)]))
      | _ \<Rightarrow> None)"

fun b64_groups :: "string \<Rightarrow> bytes option" where
  "b64_groups [] = Some []"
| "b64_groups (a # b # c # d # rest) =
     (if d = CHR ''='' \<and> rest \<noteq> [] then None
      else case (b64_group a b c d, b64_groups rest) of
             (Some xs, Some ys) \<Rightarrow> Some (xs @ ys)
           | _ \<Rightarrow> None)"
| "b64_groups _ = None"

text \<open>The decoder skips line breaks anywhere.\<close>

definition b64_decode :: "string \<Rightarrow> bytes option" where
  "b64_decode s = b64_groups (filter (\<lambda>c. c \<noteq> CHR 0x0A \<and> c \<noteq> CHR 0x0D) s)"

definition EncodeKey :: "bytes \<Rightarrow> string" where "EncodeKey b = b64_encode b"
definition DecodeKey :: "string \<Rightarrow> bytes option" where "DecodeKey s = b64_decode (trim_space s)"

lemma b64_val_char: "n < 64 \<Longrightarrow> b64_val (b64_char n) = Some n"
  by (auto simp: b64_val_def b64_char_def Let_def)

lemma b64_char_plain:
  assumes "n < 64"
  shows "b64_char n \<noteq> CHR ''=''" "\<not> is_space (b64_char n)"
proof -
  have "\<not> is_space c \<and> c \<noteq> CHR ''=''" if "b64_val c = Some n" for c
    using that by (auto simp: b64_val_def is_space_def Let_def)
  then show "b64_char n \<noteq> CHR ''=''" "\<not> is_space (b64_char n)" using b64_val_char [OF assms] by auto
qed

lemma byte_digits:
  "unat (a :: byte) div 4 < 64" "unat a mod 4 * 16 + unat (b :: byte) div 16 < 64"
  "unat b mod 16 * 4 + unat (c :: byte) div 64 < 64" "unat a mod 4 * 16 < 64" "unat b mod 16 * 4 < 64"
  using unsigned_less [where 'a = nat, of a] unsigned_less [where 'a = nat, of b] unsigned_less [where 'a = nat, of c]
  by auto

lemma pack_digits:
  assumes "d < (b::nat)"
  shows "(q * b + d) div b = q" "(q * b + d) mod b = d"
  using assms by simp_all

lemma regroup:
  fixes a b c :: byte
  shows "unat a div 4 * 4 + (unat a mod 4 * 16 + unat b div 16) div 16 = unat a"
    "(unat a mod 4 * 16 + unat b div 16) mod 16 * 16 + (unat b mod 16 * 4 + unat c div 64) div 4 = unat b"
    "(unat b mod 16 * 4 + unat c div 64) mod 4 * 64 + unat c mod 64 = unat c"
    "unat a div 4 * 4 + unat a mod 4 * 16 div 16 = unat a"
    "(unat a mod 4 * 16 + unat b div 16) mod 16 * 16 + unat b mod 16 * 4 div 4 = unat b"
proof -
  have l: "unat b div 16 < 16" "unat c div 64 < 4"
    using unsigned_less [where 'a = nat, of b] unsigned_less [where 'a = nat, of c] by auto
  show "unat a div 4 * 4 + (unat a mod 4 * 16 + unat b div 16) div 16 = unat a"
    "(unat a mod 4 * 16 + unat b div 16) mod 16 * 16 + (unat b mod 16 * 4 + unat c div 64) div 4 = unat b"
    "(unat b mod 16 * 4 + unat c div 64) mod 4 * 64 + unat c mod 64 = unat c"
    "unat a div 4 * 4 + unat a mod 4 * 16 div 16 = unat a"
    "(unat a mod 4 * 16 + unat b div 16) mod 16 * 16 + unat b mod 16 * 4 div 4 = unat b"
    by (simp_all only: pack_digits [OF l(1)] pack_digits [OF l(2)] div_mult_mod_eq nonzero_mult_div_cancel_right)
qed

lemma byte_back: "of_nat (unat w) = (w :: byte)"
  by simp

lemma b64_groups_encode: "b64_groups (b64_encode bs) = Some bs"
proof (induction bs rule: b64_encode.induct)
  case (2 a)
  have "of_nat (unat a div 4 * 4 + unat a mod 4 * 16 div 16) = a" by (simp only: regroup byte_back)
  then show ?case by (simp only: b64_encode.simps b64_groups.simps b64_group_def b64_val_char byte_digits) simp
next
  case (3 a b)
  have "of_nat (unat a div 4 * 4 + (unat a mod 4 * 16 + unat b div 16) div 16) = a"
    "of_nat ((unat a mod 4 * 16 + unat b div 16) mod 16 * 16 + unat b mod 16 * 4 div 4) = b"
    by (simp_all only: regroup byte_back)
  then show ?case
    by (simp only: b64_encode.simps b64_groups.simps b64_group_def b64_val_char byte_digits b64_char_plain) simp
next
  case (4 a b c rest)
  have "of_nat (unat a div 4 * 4 + (unat a mod 4 * 16 + unat b div 16) div 16) = a"
    "of_nat ((unat a mod 4 * 16 + unat b div 16) mod 16 * 16 + (unat b mod 16 * 4 + unat c div 64) div 4) = b"
    "of_nat ((unat b mod 16 * 4 + unat c div 64) mod 4 * 64 + unat c mod 64) = c"
    by (simp_all only: regroup byte_back)
  then show ?case
    by (simp only: b64_encode.simps b64_groups.simps b64_group_def b64_val_char byte_digits b64_char_plain 4) simp
qed simp

lemma b64_encode_plain: "c \<in> set (b64_encode bs) \<Longrightarrow> \<not> is_space c"
proof (induction bs rule: b64_encode.induct)
  case (4 a b c rest)
  then show ?case by (auto simp: byte_digits b64_char_plain)
qed (auto simp: byte_digits b64_char_plain is_space_def [of "CHR ''=''"])

lemma trim_plain:
  assumes "\<And>c. c \<in> set s \<Longrightarrow> \<not> is_space c"
  shows "trim_space s = s"
proof -
  have "dropWhile is_space xs = xs" if "\<And>c. c \<in> set xs \<Longrightarrow> \<not> is_space c" for xs
    using that by (cases xs) auto
  from this [of s] this [of "rev s"] show ?thesis using assms by (simp add: trim_space_def)
qed

lemma DecodeKey_EncodeKey [simp]: "DecodeKey (EncodeKey b) = Some b"
proof -
  have "filter (\<lambda>c. c \<noteq> CHR 0x0A \<and> c \<noteq> CHR 0x0D) (b64_encode b) = b64_encode b"
    using b64_encode_plain [of _ b] by (auto simp: filter_id_conv is_space_def)
  then show ?thesis
    using trim_plain [of "b64_encode b"] b64_encode_plain b64_groups_encode
    by (simp add: DecodeKey_def EncodeKey_def b64_decode_def)
qed

section \<open>Key files\<close>

datatype auth_error =
    ErrReadFile string | ErrParse string | ErrBadBase64 string | ErrKeySize string nat
  | ErrNotTLS | ErrTLSHandshake string | ErrExporter string | ErrChallenge string | ErrSend string
  | ErrRead io_error | ErrUnknownKey | ErrBadSignature string | ErrRejected | ErrAuthResult byte

definition PublicKeySize :: nat where "PublicKeySize = 32"
definition SignatureSize :: nat where "SignatureSize = 64"
definition SeedSize :: nat where "SeedSize = 32"

definition challengeSize :: nat where "challengeSize = 32"
definition authContext :: bytes where "authContext = str_bytes ''splicertc-auth-v1''"
definition exporterLabel :: string where "exporterLabel = ''splicertc-auth-binding''"
definition exporterLen :: nat where "exporterLen = 32"
definition authOK :: byte where "authOK = 1"

text \<open>\<^verbatim>\<open>LoadClientKey\<close>, on the outcome of reading the file.\<close>

definition LoadClientKey :: "string + string \<Rightarrow> auth_error + bytes" where
  "LoadClientKey file =
     (case file of
        Inl e \<Rightarrow> Inl (ErrReadFile e)
      | Inr raw \<Rightarrow>
          (case DecodeKey raw of
             None \<Rightarrow> Inl (ErrBadBase64 raw)
           | Some seed \<Rightarrow> if length seed \<noteq> SeedSize then Inl (ErrKeySize '''' (length seed)) else Inr seed))"

record AuthorizedEntry =
  ae_Name :: string
  ae_PublicKey :: string

text \<open>The loop of \<^verbatim>\<open>LoadAuthorizedKeys\<close>, and the function on the outcome of reading and parsing the file.\<close>

fun add_entries :: "AuthorizedEntry list \<Rightarrow> (bytes, string) fmap \<Rightarrow> auth_error + (bytes, string) fmap" where
  "add_entries [] m = Inr m"
| "add_entries (e # es) m =
     (case DecodeKey (ae_PublicKey e) of
        None \<Rightarrow> Inl (ErrBadBase64 (ae_Name e))
      | Some pub \<Rightarrow>
          if length pub \<noteq> PublicKeySize then Inl (ErrKeySize (ae_Name e) (length pub))
          else add_entries es (fmupd pub (ae_Name e) m))"

definition LoadAuthorizedKeys :: "string + (string + AuthorizedEntry list) \<Rightarrow> auth_error + (bytes, string) fmap" where
  "LoadAuthorizedKeys file =
     (case file of
        Inl e \<Rightarrow> Inl (ErrReadFile e)
      | Inr (Inl e) \<Rightarrow> Inl (ErrParse e)
      | Inr (Inr entries) \<Rightarrow> add_entries entries fmempty)"

section \<open>The handshake\<close>

record crypto =
  cr_public :: "bytes \<Rightarrow> bytes"
  cr_sign :: "bytes \<Rightarrow> bytes \<Rightarrow> bytes"
  cr_verify :: "bytes \<Rightarrow> bytes \<Rightarrow> bytes \<Rightarrow> bool"

record tls =
  is_tls :: bool
  tls_error :: "string option"
  tls_export :: "string \<Rightarrow> nat \<Rightarrow> string + bytes"

record peer =
  KeyID :: string
  PeerName :: string

definition ensureTLS :: "tls \<Rightarrow> auth_error option" where
  "ensureTLS t =
     (if \<not> is_tls t then Some ErrNotTLS
      else case tls_error t of Some e \<Rightarrow> Some (ErrTLSHandshake e) | None \<Rightarrow> None)"

definition bindingMessage :: "tls \<Rightarrow> bytes \<Rightarrow> auth_error + bytes" where
  "bindingMessage t challenge =
     (case tls_export t exporterLabel exporterLen of
        Inl e \<Rightarrow> Inl (ErrExporter e)
      | Inr ex \<Rightarrow> Inr (authContext @ challenge @ ex))"

text \<open>After the challenge was drawn and sent: check the response.\<close>

definition check_response ::
  "crypto \<Rightarrow> tls \<Rightarrow> (bytes, string) fmap \<Rightarrow> bytes \<Rightarrow> bytes \<Rightarrow> auth_error + peer" where
  "check_response cr t keys challenge resp =
     (let pub = take PublicKeySize resp; sig = drop PublicKeySize resp in
      case fmlookup keys pub of
        None \<Rightarrow> Inl ErrUnknownKey
      | Some name \<Rightarrow>
          (case bindingMessage t challenge of
             Inl e \<Rightarrow> Inl e
           | Inr msg \<Rightarrow>
               if \<not> cr_verify cr pub msg sig then Inl (ErrBadSignature name)
               else Inr \<lparr>KeyID = EncodeKey pub, PeerName = name\<rparr>))"

definition ServerHandshake ::
  "crypto \<Rightarrow> tls \<Rightarrow> (bytes, string) fmap \<Rightarrow> string + bytes \<Rightarrow> conn \<Rightarrow> conn \<times> (auth_error + peer)" where
  "ServerHandshake cr t keys rnd c =
     (case ensureTLS t of
        Some e \<Rightarrow> (c, Inl e)
      | None \<Rightarrow>
          (case rnd of
             Inl e \<Rightarrow> (c, Inl (ErrChallenge e))
           | Inr challenge \<Rightarrow>
               (case conn_write challenge c of
                  (c1, Some e) \<Rightarrow> (c1, Inl (ErrSend e))
                | (c1, None) \<Rightarrow>
                    (case conn_read_full (PublicKeySize + SignatureSize) c1 of
                       Inl e \<Rightarrow> (c1, Inl (ErrRead e))
                     | Inr (resp, c2) \<Rightarrow>
                         (case check_response cr t keys challenge resp of
                            Inl e \<Rightarrow> (c2, Inl e)
                          | Inr p \<Rightarrow>
                              (case conn_write [authOK] c2 of
                                 (c3, Some e) \<Rightarrow> (c3, Inl (ErrSend e))
                               | (c3, None) \<Rightarrow> (c3, Inr p)))))))"

text \<open>
  The client in its two halves, the response and the wait for the verdict, since it waits for
  the server twice; \<open>ClientHandshake\<close> is their composition.
\<close>

definition client_respond :: "crypto \<Rightarrow> tls \<Rightarrow> bytes \<Rightarrow> conn \<Rightarrow> conn \<times> auth_error option" where
  "client_respond cr t seed c =
     (if length seed \<noteq> SeedSize then (c, Some (ErrKeySize '''' (length seed)))
      else case ensureTLS t of
        Some e \<Rightarrow> (c, Some e)
      | None \<Rightarrow>
          (case conn_read_full challengeSize c of
             Inl e \<Rightarrow> (c, Some (ErrRead e))
           | Inr (challenge, c1) \<Rightarrow>
               (case bindingMessage t challenge of
                  Inl e \<Rightarrow> (c1, Some e)
                | Inr msg \<Rightarrow>
                    (case conn_write (cr_public cr seed @ cr_sign cr seed msg) c1 of
                       (c2, Some e) \<Rightarrow> (c2, Some (ErrSend e))
                     | (c2, None) \<Rightarrow> (c2, None)))))"

definition client_verdict :: "conn \<Rightarrow> conn \<times> auth_error option" where
  "client_verdict c =
     (case conn_read_full 1 c of
        Inl e \<Rightarrow> (c, Some (if e = EOF then ErrRejected else ErrRead e))
      | Inr (ok, c1) \<Rightarrow> (c1, if ok ! 0 \<noteq> authOK then Some (ErrAuthResult (ok ! 0)) else None))"

definition ClientHandshake :: "crypto \<Rightarrow> tls \<Rightarrow> bytes \<Rightarrow> conn \<Rightarrow> conn \<times> auth_error option" where
  "ClientHandshake cr t seed c =
     (case client_respond cr t seed c of
        (c1, Some e) \<Rightarrow> (c1, Some e)
      | (c1, None) \<Rightarrow> client_verdict c1)"

definition PublicKeyFromSeed :: "crypto \<Rightarrow> bytes \<Rightarrow> auth_error + bytes" where
  "PublicKeyFromSeed cr seed =
     (if length seed \<noteq> SeedSize then Inl (ErrKeySize '''' (length seed)) else Inr (cr_public cr seed))"

text \<open>\<^verbatim>\<open>errors.Is(err, ErrUnauthorized)\<close>.\<close>

definition is_unauthorized :: "auth_error \<Rightarrow> bool" where
  "is_unauthorized e = (case e of ErrUnknownKey \<Rightarrow> True | ErrBadSignature _ \<Rightarrow> True | _ \<Rightarrow> False)"

section \<open>Who is let in\<close>

lemma add_entries_sound:
  "add_entries es m = Inr m' \<Longrightarrow> fmlookup m' pub = Some n \<Longrightarrow>
     fmlookup m pub = Some n \<or>
     length pub = PublicKeySize \<and> (\<exists>e \<in> set es. DecodeKey (ae_PublicKey e) = Some pub \<and> ae_Name e = n)"
  by (induction es arbitrary: m) (force split: option.splits if_splits)+

lemma check_response_Inr:
  "check_response cr t keys ch resp = Inr p \<longleftrightarrow>
     (\<exists>name ex. fmlookup keys (take PublicKeySize resp) = Some name \<and>
        tls_export t exporterLabel exporterLen = Inr ex \<and>
        cr_verify cr (take PublicKeySize resp) (authContext @ ch @ ex) (drop PublicKeySize resp) \<and>
        p = \<lparr>KeyID = EncodeKey (take PublicKeySize resp), PeerName = name\<rparr>)"
  by (auto simp: check_response_def bindingMessage_def Let_def split: option.splits sum.splits)

lemma server_steps:
  assumes "ServerHandshake cr t keys (Inr ch) c = (c', Inr p)"
  obtains c1 c2 resp where "conn_write ch c = (c1, None)" "conn_read_full (PublicKeySize + SignatureSize) c1 = Inr (resp, c2)"
    "check_response cr t keys ch resp = Inr p" "conn_write [authOK] c2 = (c', None)"
  using assms by (auto simp: ServerHandshake_def split: option.splits sum.splits prod.splits)

lemma server_accepts:
  assumes "ServerHandshake cr t keys (Inr ch) c = (c', Inr p)"
  obtains resp where "fst (rx c) = resp @ fst (rx c')" "length resp = PublicKeySize + SignatureSize"
    "check_response cr t keys ch resp = Inr p" "tx c' = tx c @ ch @ [authOK]"
proof -
  from server_steps [OF assms] obtain c1 c2 resp where
    s: "conn_write ch c = (c1, None)" "conn_read_full (PublicKeySize + SignatureSize) c1 = Inr (resp, c2)"
      "check_response cr t keys ch resp = Inr p" "conn_write [authOK] c2 = (c', None)" by metis
  show thesis
    by (rule that [OF _ _ s(3)]) (use conn_write_tx [OF s(1)] conn_read_InrD [OF s(2)] conn_write_tx [OF s(4)] in simp_all)
qed

lemma server_rejects:
  assumes "ServerHandshake cr t keys (Inr ch) c = (c', Inl e)"
  shows "tx c' = tx c \<or> tx c' = tx c @ ch"
proof -
  obtain c1 r1 where w: "conn_write ch c = (c1, r1)" by force
  have t1: "tx c1 = tx c \<or> tx c1 = tx c @ ch" using conn_write_tx [OF w] by auto
  have c2: "conn_read_full n c1 = Inr (resp, c2) \<Longrightarrow> tx c2 = tx c1" for n resp c2 using conn_read_InrD by blast
  show ?thesis
  proof (cases r1)
    case (Some x)
    then show ?thesis using assms w t1 by (auto simp: ServerHandshake_def split: option.splits)
  next
    case None
    show ?thesis
    proof (cases "conn_read_full (PublicKeySize + SignatureSize) c1")
      case (Inl x)
      then show ?thesis using assms w None t1 by (auto simp: ServerHandshake_def split: option.splits)
    next
      case (Inr x)
      obtain resp c2 where x: "x = (resp, c2)" by force
      obtain c3 r3 where w3: "conn_write [authOK] c2 = (c3, r3)" by force
      have "c' = c \<or> c' = c2 \<or> c' = c3 \<and> r3 \<noteq> None"
        using assms w None Inr x w3 by (auto simp: ServerHandshake_def split: option.splits sum.splits)
      moreover have "tx c2 = tx c1" using c2 Inr x by blast
      ultimately show ?thesis using t1 conn_write_tx [OF w3] by auto
    qed
  qed
qed

text \<open>C10. The server accepts a connection only when it carried a listed public key with a signature of this
  very challenge and this very TLS session: the key signed the context, the challenge and the
  exporter value, which determine each other, so a signature for another challenge or another
  session is a signature of a different message. When it refuses, the verdict byte is not sent.\<close>

theorem server_accepts_only_signed:
  assumes "ServerHandshake cr t keys (Inr ch) c = (c', r)"
  shows "case r of
     Inr p \<Rightarrow> (\<exists>pub sig ex name. fst (rx c) = pub @ sig @ fst (rx c') \<and> length pub = PublicKeySize \<and>
        fmlookup keys pub = Some name \<and> p = \<lparr>KeyID = EncodeKey pub, PeerName = name\<rparr> \<and>
        tls_export t exporterLabel exporterLen = Inr ex \<and> cr_verify cr pub (authContext @ ch @ ex) sig \<and>
        (\<nexists>ch' ex'. length ch' = length ch \<and> (ch', ex') \<noteq> (ch, ex) \<and> authContext @ ch' @ ex' = authContext @ ch @ ex) \<and>
        tx c' = tx c @ ch @ [authOK])
   | Inl e \<Rightarrow> tx c' = tx c \<or> tx c' = tx c @ ch"
proof (cases r)
  case (Inl e)
  then show ?thesis using server_rejects assms by simp
next
  case (Inr p)
  with assms have "ServerHandshake cr t keys (Inr ch) c = (c', Inr p)" by simp
  then obtain resp where r: "fst (rx c) = resp @ fst (rx c')" "length resp = PublicKeySize + SignatureSize"
    "check_response cr t keys ch resp = Inr p" "tx c' = tx c @ ch @ [authOK]" by (rule server_accepts)
  define pub sig where "pub = take PublicKeySize resp" and "sig = drop PublicKeySize resp"
  have split: "resp = pub @ sig" "length pub = PublicKeySize" using r(2) by (simp_all add: pub_def sig_def)
  from r(3) obtain name ex where n: "fmlookup keys pub = Some name" "tls_export t exporterLabel exporterLen = Inr ex"
    "cr_verify cr pub (authContext @ ch @ ex) sig" "p = \<lparr>KeyID = EncodeKey pub, PeerName = name\<rparr>"
    unfolding check_response_Inr pub_def sig_def by blast
  have "(ch', ex') = (ch, ex)" if "length ch' = length ch" "authContext @ ch' @ ex' = authContext @ ch @ ex" for ch' ex'
    using that by simp
  then show ?thesis using Inr n split r(1,4) by (simp, intro exI [of _ pub] exI [of _ sig]) auto
qed

text \<open>Every client the server lets in has a 32-byte key from the key file, which its KeyID spells out, and
  the name the file gives to that key.\<close>

theorem peer_from_key_file:
  assumes "LoadAuthorizedKeys file = Inr keys" "ServerHandshake cr t keys (Inr ch) c = (c', Inr p)"
  shows "\<exists>pub entries e. DecodeKey (KeyID p) = Some pub \<and> length pub = PublicKeySize \<and> file = Inr (Inr entries) \<and>
     e \<in> set entries \<and> DecodeKey (ae_PublicKey e) = Some pub \<and> ae_Name e = PeerName p"
proof -
  from assms(1) obtain entries where f: "file = Inr (Inr entries)" "add_entries entries fmempty = Inr keys"
    by (auto simp: LoadAuthorizedKeys_def split: sum.splits)
  obtain pub where "fmlookup keys pub = Some (PeerName p)" "KeyID p = EncodeKey pub"
    using assms(2) by (rule server_accepts) (auto simp: check_response_Inr)
  then show ?thesis using add_entries_sound [OF f(2), of pub] f(1) by auto
qed

text \<open>A client whose key is listed gets in: client and server, each reading what the other wrote, finish
  without error, the server knows the client by its key, and what either side sends next is the first
  byte the other reads after the handshake.\<close>

theorem handshake_in_sync:
  assumes verify: "\<And>m. cr_verify cr (cr_public cr seed) m (cr_sign cr seed m)"
    and sizes: "length seed = SeedSize" "length (cr_public cr seed) = PublicKeySize" "\<And>m. length (cr_sign cr seed m) = SignatureSize"
    and tls: "is_tls ts" "tls_error ts = None" "is_tls tc" "tls_error tc = None"
      "tls_export ts exporterLabel exporterLen = Inr ex" "tls_export tc exporterLabel exporterLen = Inr ex"
    and key: "fmlookup keys (cr_public cr seed) = Some name" and ch: "length ch = challengeSize"
  shows "\<exists>resp. ServerHandshake cr ts keys (Inr ch) (good_conn (resp @ from_client, e1) []) =
       (good_conn (from_client, e1) (ch @ [authOK]), Inr \<lparr>KeyID = EncodeKey (cr_public cr seed), PeerName = name\<rparr>) \<and>
     ClientHandshake cr tc seed (good_conn (ch @ [authOK] @ from_server, e2) []) = (good_conn (from_server, e2) resp, None)"
proof -
  define resp where "resp = cr_public cr seed @ cr_sign cr seed (authContext @ ch @ ex)"
  have l: "length resp = PublicKeySize + SignatureSize" by (simp add: resp_def sizes)
  have "check_response cr ts keys ch resp = Inr \<lparr>KeyID = EncodeKey (cr_public cr seed), PeerName = name\<rparr>"
    unfolding check_response_Inr using sizes verify tls key by (simp add: resp_def)
  then have "ServerHandshake cr ts keys (Inr ch) (good_conn (resp @ from_client, e1) []) =
       (good_conn (from_client, e1) (ch @ [authOK]), Inr \<lparr>KeyID = EncodeKey (cr_public cr seed), PeerName = name\<rparr>)"
    using tls l by (simp add: ServerHandshake_def ensureTLS_def)
  moreover have "ClientHandshake cr tc seed (good_conn (ch @ [authOK] @ from_server, e2) []) = (good_conn (from_server, e2) resp, None)"
    using tls sizes ch by (simp add: ClientHandshake_def client_respond_def client_verdict_def ensureTLS_def bindingMessage_def
      resp_def)
  ultimately show ?thesis by blast
qed

definition toy_crypto :: crypto where
  "toy_crypto = \<lparr>cr_public = (\<lambda>s. s), cr_sign = (\<lambda>s m. s @ s), cr_verify = (\<lambda>p m s. s = p @ p)\<rparr>"

definition toy_tls :: tls where
  "toy_tls = \<lparr>is_tls = True, tls_error = None, tls_export = (\<lambda>_ _. Inr [1, 2, 3])\<rparr>"

definition toy_keys :: "(bytes, string) fmap" where
  "toy_keys = fmupd (replicate 32 7) ''friend'' fmempty"

theorem handshake_in_sync_witness:
  "\<exists>resp. ServerHandshake toy_crypto toy_tls toy_keys (Inr (replicate 32 9)) (good_conn (resp @ [5], EOF) []) =
       (good_conn ([5], EOF) (replicate 32 9 @ [authOK]), Inr \<lparr>KeyID = EncodeKey (replicate 32 7), PeerName = ''friend''\<rparr>) \<and>
     ClientHandshake toy_crypto toy_tls (replicate 32 7) (good_conn (replicate 32 9 @ [authOK] @ [6], EOF) []) =
       (good_conn ([6], EOF) resp, None)"
  using handshake_in_sync [of toy_crypto "replicate 32 7" toy_tls toy_tls "[1, 2, 3]" toy_keys "''friend''" "replicate 32 9" "[5]" EOF "[6]" EOF]
  by (simp add: toy_crypto_def toy_tls_def toy_keys_def SeedSize_def PublicKeySize_def SignatureSize_def challengeSize_def)

lemma toy_accepts:
  "ServerHandshake toy_crypto toy_tls toy_keys (Inr (replicate 32 9)) (good_conn (replicate 96 7, EOF) []) =
     (good_conn ([], EOF) (replicate 32 9 @ [authOK]), Inr \<lparr>KeyID = EncodeKey (replicate 32 7), PeerName = ''friend''\<rparr>)"
proof -
  have "replicate 64 7 = replicate 32 7 @ replicate 32 (7::byte)" by (simp flip: replicate_add)
  then have "check_response toy_crypto toy_tls toy_keys (replicate 32 9) (replicate 96 7) =
      Inr \<lparr>KeyID = EncodeKey (replicate 32 7), PeerName = ''friend''\<rparr>"
    unfolding check_response_Inr by (simp add: toy_crypto_def toy_tls_def toy_keys_def PublicKeySize_def)
  then show ?thesis
    by (simp add: ServerHandshake_def ensureTLS_def toy_tls_def PublicKeySize_def SignatureSize_def)
qed

theorem server_accepts_only_signed_witness:
  "\<exists>pub sig name. replicate 96 7 = pub @ sig \<and> fmlookup toy_keys pub = Some name \<and>
     cr_verify toy_crypto pub (authContext @ replicate 32 9 @ [1, 2, 3]) sig"
  using server_accepts_only_signed [OF toy_accepts] by (auto simp: toy_tls_def)

theorem peer_from_key_file_witness:
  "\<exists>pub. DecodeKey (KeyID \<lparr>KeyID = EncodeKey (replicate 32 7), PeerName = ''friend''\<rparr>) = Some pub \<and> length pub = PublicKeySize"
proof -
  have "LoadAuthorizedKeys (Inr (Inr [\<lparr>ae_Name = ''friend'', ae_PublicKey = EncodeKey (replicate 32 7)\<rparr>])) = Inr toy_keys"
    by (simp add: LoadAuthorizedKeys_def toy_keys_def PublicKeySize_def)
  from peer_from_key_file [OF this toy_accepts] show ?thesis by blast
qed

end
