(* ===== verification/GlueServer.thy ===== *)
theory GlueServer
  imports Auth Frame Glue Egress "HOL-Library.List_Lexorder" "HOL-Library.Char_ord"
begin

text \<open>
  cmd/server/glue.go: the server's glue sessions. A session is shared by all paths
  (connections) with its ID; its flows are UDP sockets to game servers.

  Connections, path writers and sockets are numbers. \<open>openSocks\<close> is the operating system's
  set of open UDP sockets: \<^verbatim>\<open>net.DialUDP\<close> opens the socket \<open>nextSock\<close> (or fails, an argument),
  \<^verbatim>\<open>Close\<close> removes it. A \<^verbatim>\<open>*udpFlow\<close> is identified by its socket. \<open>readers\<close> are the running
  goroutines \<^verbatim>\<open>readFlow\<close>: for each socket, the session it was started for (its ID and \<open>ref\<close>, the
  identity of the object, since a new session may get the ID of a deleted one) and the flow ID.
\<close>

record udpFlow =
  u_conn :: nat
  u_dst :: "ip \<times> u16"        \<comment> \<open>the text \<^verbatim>\<open>ip:port\<close>, which is one-to-one on canonical addresses\<close>
  u_lastSeen :: time

record glueSession =
  owner :: peer
  epoch :: u64
  ref :: nat
  g_recv :: receiver
  udpFlows :: "(u16, udpFlow) fmap"
  gpaths :: "(nat, nat option) fmap"    \<comment> \<open>connection to writer, \<open>None\<close> until the accept is written\<close>
  replySeq :: u32
  emptySince :: time
  flowLimitLogged :: bool

record server =
  sessions :: "(string, glueSession) fmap"
  totalFlows :: int
  openSocks :: "nat fset"
  readers :: "(nat, string \<times> nat \<times> u16) fmap"
  nextSock :: nat

definition maxFlowsPerSession :: nat where "maxFlowsPerSession = 512"
definition maxGlueSessions :: nat where "maxGlueSessions = 256"
definition maxSessionsPerClient :: nat where "maxSessionsPerClient = 4"
definition maxPathsPerSession :: nat where "maxPathsPerSession = 8"
definition maxTotalFlows :: int where "maxTotalFlows = 4096"
definition glueFlowIdle :: duration where "glueFlowIdle = 2 * minute"
definition glueSessionIdle :: duration where "glueSessionIdle = 2 * minute"

definition empty_server :: server where
  "empty_server = \<lparr>sessions = fmempty, totalFlows = 0, openSocks = {||}, readers = fmempty, nextSock = 0\<rparr>"

definition put_session :: "string \<Rightarrow> glueSession \<Rightarrow> server \<Rightarrow> server" where
  "put_session sid s g = g\<lparr>sessions := fmupd sid s (sessions g)\<rparr>"

section \<open>Flow sockets\<close>

definition reserveFlow :: "server \<Rightarrow> server \<times> bool" where
  "reserveFlow g =
     (let g1 = g\<lparr>totalFlows := totalFlows g + 1\<rparr>
      in if maxTotalFlows < totalFlows g1 then (g1\<lparr>totalFlows := totalFlows g1 - 1\<rparr>, False) else (g1, True))"

text \<open>\<^verbatim>\<open>closeFlowLocked\<close>: \<open>c\<close> is the socket of the flow the caller holds, which may no longer be the
  current one.\<close>

definition closeFlow :: "server \<Rightarrow> glueSession \<Rightarrow> u16 \<Rightarrow> nat \<Rightarrow> server \<times> glueSession" where
  "closeFlow g s flowID c =
     (let g1 = g\<lparr>openSocks := openSocks g |-| {|c|}\<rparr>
      in case fmlookup (udpFlows s) flowID of
           None \<Rightarrow> (g1, s)
         | Some cur \<Rightarrow>
             if u_conn cur \<noteq> c then (g1, s)
             else (g1\<lparr>totalFlows := totalFlows g1 - 1\<rparr>, s\<lparr>udpFlows := fmdrop flowID (udpFlows s)\<rparr>))"

text \<open>The closing loops: over all flows, or over the idle ones.\<close>

definition close_if :: "(udpFlow \<Rightarrow> bool) \<Rightarrow> server \<times> glueSession \<Rightarrow> u16 \<Rightarrow> server \<times> glueSession" where
  "close_if p gs flowID =
     (case fmlookup (udpFlows (snd gs)) flowID of
        None \<Rightarrow> gs
      | Some f \<Rightarrow> if p f then closeFlow (fst gs) (snd gs) flowID (u_conn f) else gs)"

definition closeAllFlows :: "((u16, udpFlow) fmap \<Rightarrow> u16 list) \<Rightarrow> server \<Rightarrow> glueSession \<Rightarrow> server \<times> glueSession" where
  "closeAllFlows ord g s = foldl (close_if (\<lambda>_. True)) (g, s) (ord (udpFlows s))"

definition closeIdleFlows ::
  "((u16, udpFlow) fmap \<Rightarrow> u16 list) \<Rightarrow> time \<Rightarrow> server \<Rightarrow> glueSession \<Rightarrow> server \<times> glueSession" where
  "closeIdleFlows ord now g s =
     foldl (close_if (\<lambda>f. time_sub now (u_lastSeen f) > glueFlowIdle)) (g, s) (ord (udpFlows s))"

section \<open>Sessions and paths\<close>

text \<open>\<^verbatim>\<open>newEpoch\<close>, on the random numbers it draws; \<open>None\<close> would be drawing zeros forever.\<close>

partial_function (option) newEpoch :: "(nat \<Rightarrow> u64) \<Rightarrow> u64 option" where
  "newEpoch rnd = (if rnd 0 \<noteq> 0 then Some (rnd 0) else newEpoch (\<lambda>i. rnd (Suc i)))"

text \<open>The scan of \<^verbatim>\<open>makeRoomForSession\<close>: number of the client's sessions, and its longest empty one.\<close>

definition scan_client ::
  "string \<Rightarrow> (string, glueSession) fmap \<Rightarrow> nat \<times> (string \<times> time) option \<Rightarrow> string \<Rightarrow> nat \<times> (string \<times> time) option" where
  "scan_client keyID m acc sid =
     (case fmlookup m sid of
        None \<Rightarrow> acc
      | Some s \<Rightarrow>
          if KeyID (owner s) \<noteq> keyID then acc
          else (Suc (fst acc),
                if gosize (gpaths s) = 0 \<and>
                   (case snd acc of None \<Rightarrow> True | Some (_, since) \<Rightarrow> emptySince s < since)
                then Some (sid, emptySince s) else snd acc))"

record orders =
  ord_sessions :: "(string, glueSession) fmap \<Rightarrow> string list"
  ord_flows :: "(u16, udpFlow) fmap \<Rightarrow> u16 list"

definition makeRoomForSession :: "orders \<Rightarrow> server \<Rightarrow> string \<Rightarrow> server \<times> bool" where
  "makeRoomForSession os g keyID =
     (case foldl (scan_client keyID (sessions g)) (0, None) (ord_sessions os (sessions g)) of
        (cnt, oldest) \<Rightarrow>
          if cnt < maxSessionsPerClient then (g, True)
          else case oldest of
                 None \<Rightarrow> (g, False)
               | Some (sid, since) \<Rightarrow>
                   (case fmlookup (sessions g) sid of
                      None \<Rightarrow> (g, False)
                    | Some s \<Rightarrow>
                        (let g1 = fst (closeAllFlows (ord_flows os) g s)
                         in (g1\<lparr>sessions := fmdrop sid (sessions g1)\<rparr>, True))))"

definition new_session :: "server \<Rightarrow> peer \<Rightarrow> u64 \<Rightarrow> glueSession" where
  "new_session g p e =
     \<lparr>owner = p, epoch = e, ref = nextSock g, g_recv = NewReceiver (150 * ms), udpFlows = fmempty,
      gpaths = fmempty, replySeq = 0, emptySince = 0, flowLimitLogged = False\<rparr>"

text \<open>The second half of \<^verbatim>\<open>attachGluePath\<close>: joining an existing session.\<close>

definition join_session :: "server \<Rightarrow> string \<Rightarrow> glueSession \<Rightarrow> peer \<Rightarrow> nat \<Rightarrow> server \<times> nat \<times> byte" where
  "join_session g sid s p conn =
     (if KeyID (owner s) \<noteq> KeyID p then (g, 0, StatusRefused)
      else if maxPathsPerSession \<le> gosize (gpaths s) then (g, 0, StatusBusy)
      else
        let s1 = s\<lparr>gpaths := fmupd conn None (gpaths s), emptySince := 0\<rparr>
        in (put_session sid s1 g, gosize (gpaths s1), StatusOK))"

definition attachGluePath ::
  "orders \<Rightarrow> (nat \<Rightarrow> u64) \<Rightarrow> server \<Rightarrow> string \<Rightarrow> peer \<Rightarrow> nat \<Rightarrow> (server \<times> nat \<times> byte) option" where
  "attachGluePath os rnd g sid p conn =
     (case fmlookup (sessions g) sid of
        Some s \<Rightarrow> Some (join_session g sid s p conn)
      | None \<Rightarrow>
          (case makeRoomForSession os g (KeyID p) of
             (g1, False) \<Rightarrow> Some (g1, 0, StatusBusy)
           | (g1, True) \<Rightarrow>
               if maxGlueSessions \<le> gosize (sessions g1) then Some (g1, 0, StatusBusy)
               else case newEpoch rnd of
                      None \<Rightarrow> None
                    | Some e \<Rightarrow>
                        let s = new_session g1 p e;
                            g2 = (put_session sid s g1)\<lparr>nextSock := Suc (nextSock g1)\<rparr>
                        in Some (join_session g2 sid s p conn)))"

definition setWriter :: "server \<Rightarrow> string \<Rightarrow> nat \<Rightarrow> nat \<Rightarrow> server" where
  "setWriter g sid conn w =
     (case fmlookup (sessions g) sid of
        None \<Rightarrow> g
      | Some s \<Rightarrow>
          if fmlookup (gpaths s) conn = None then g
          else put_session sid (s\<lparr>gpaths := fmupd conn (Some w) (gpaths s)\<rparr>) g)"

definition detachPath :: "server \<Rightarrow> string \<Rightarrow> nat \<Rightarrow> time \<Rightarrow> server" where
  "detachPath g sid conn now =
     (case fmlookup (sessions g) sid of
        None \<Rightarrow> g
      | Some s \<Rightarrow>
          let ps = fmdrop conn (gpaths s);
              s1 = s\<lparr>gpaths := ps\<rparr>
          in put_session sid (if gosize ps = 0 then s1\<lparr>emptySince := now\<rparr> else s1) g)"

datatype flow_error = TooManyFlows | DialError string

text \<open>\<open>dial_err\<close> is the outcome of \<^verbatim>\<open>net.DialUDP\<close>: an error, or the next socket.\<close>

definition open_flow ::
  "server \<Rightarrow> string \<Rightarrow> glueSession \<Rightarrow> u16 \<Rightarrow> ip \<times> u16 \<Rightarrow> time \<Rightarrow> string option \<Rightarrow> server \<times> (flow_error + nat)" where
  "open_flow g sid s flowID key now dial_err =
     (if maxFlowsPerSession \<le> gosize (udpFlows s) then
        (put_session sid (s\<lparr>flowLimitLogged := True\<rparr>) g, Inl TooManyFlows)
      else case reserveFlow g of
        (g1, False) \<Rightarrow> (put_session sid (s\<lparr>flowLimitLogged := True\<rparr>) g1, Inl TooManyFlows)
      | (g1, True) \<Rightarrow>
          (case dial_err of
             Some err \<Rightarrow> (put_session sid s (g1\<lparr>totalFlows := totalFlows g1 - 1\<rparr>), Inl (DialError err))
           | None \<Rightarrow>
               let c = nextSock g1;
                   f = \<lparr>u_conn = c, u_dst = key, u_lastSeen = now\<rparr>
               in (put_session sid (s\<lparr>udpFlows := fmupd flowID f (udpFlows s)\<rparr>)
                     (g1\<lparr>openSocks := finsert c (openSocks g1), readers := fmupd c (sid, ref s, flowID) (readers g1),
                         nextSock := Suc c\<rparr>), Inr c)))"

definition flow_socket ::
  "server \<Rightarrow> string \<Rightarrow> u16 \<Rightarrow> ip \<Rightarrow> u16 \<Rightarrow> time \<Rightarrow> string option \<Rightarrow> (server \<times> (flow_error + nat)) option" where
  "flow_socket g sid flowID dst dstPort now dial_err =
     (case fmlookup (sessions g) sid of
        None \<Rightarrow> None
      | Some s \<Rightarrow>
          let key = (canon dst, dstPort) in
          (case fmlookup (udpFlows s) flowID of
             None \<Rightarrow> Some (open_flow g sid s flowID key now dial_err)
           | Some f \<Rightarrow>
               if u_dst f = key then
                 Some (put_session sid (s\<lparr>udpFlows := fmupd flowID (f\<lparr>u_lastSeen := now\<rparr>) (udpFlows s)\<rparr>) g,
                       Inr (u_conn f))
               else (case closeFlow g s flowID (u_conn f) of
                       (g1, s1) \<Rightarrow> Some (open_flow g1 sid s1 flowID key now dial_err))))"

section \<open>Replies\<close>

text \<open>The writers a broadcast goes to, and the sequence number it uses.\<close>

definition writers :: "glueSession \<Rightarrow> nat fset" where
  "writers s = the |`| ffilter (\<lambda>w. w \<noteq> None) (fmran (gpaths s))"

definition broadcast ::
  "server \<Rightarrow> string \<Rightarrow> (u32 \<Rightarrow> bytes) \<Rightarrow> server \<times> (nat fset \<times> bytes) option" where
  "broadcast g sid build =
     (case fmlookup (sessions g) sid of
        None \<Rightarrow> (g, None)
      | Some s \<Rightarrow> (put_session sid (s\<lparr>replySeq := replySeq s + 1\<rparr>) g, Some (writers s, build (replySeq s))))"

definition broadcastPing :: "server \<Rightarrow> string \<Rightarrow> u64 \<Rightarrow> time \<Rightarrow> server \<times> (nat fset \<times> bytes) option" where
  "broadcastPing g sid nonce now = broadcast g sid (\<lambda>seq. marshal (frame_new seq now (EncodePing nonce)))"

definition broadcastReply :: "server \<Rightarrow> string \<Rightarrow> u16 \<Rightarrow> bytes \<Rightarrow> time \<Rightarrow> server \<times> (nat fset \<times> bytes) option" where
  "broadcastReply g sid flowID payload now =
     (if MaxInboundPayload < length payload then (g, None)
      else broadcast g sid (\<lambda>seq. marshal (frame_new seq now (EncodeInbound flowID payload))))"

text \<open>What the reader goroutine of the socket \<open>c\<close> does with the result of one \<^verbatim>\<open>Read\<close>.\<close>

datatype read_result = ReadData bytes | ReadRefused | ReadFailed

definition touch_flow :: "glueSession \<Rightarrow> u16 \<Rightarrow> nat \<Rightarrow> time \<Rightarrow> glueSession" where
  "touch_flow s flowID c now =
     (case fmlookup (udpFlows s) flowID of
        None \<Rightarrow> s
      | Some f \<Rightarrow> if u_conn f = c then s\<lparr>udpFlows := fmupd flowID (f\<lparr>u_lastSeen := now\<rparr>) (udpFlows s)\<rparr> else s)"

definition readFlow ::
  "server \<Rightarrow> nat \<Rightarrow> read_result \<Rightarrow> time \<Rightarrow> server \<times> (nat fset \<times> bytes) option" where
  "readFlow g c res now =
     (case fmlookup (readers g) c of
        None \<Rightarrow> (g, None)
      | Some (sid, sref, flowID) \<Rightarrow>
          (let live = (case fmlookup (sessions g) sid of Some s \<Rightarrow> if ref s = sref then Some s else None | None \<Rightarrow> None)
           in case res of
                ReadRefused \<Rightarrow> (g, None)
              | ReadFailed \<Rightarrow>
                  let g0 = g\<lparr>readers := fmdrop c (readers g)\<rparr> in
                  (case live of
                     Some s \<Rightarrow> (case closeFlow g0 s flowID c of (g1, s1) \<Rightarrow> (put_session sid s1 g1, None))
                   | None \<Rightarrow> (g0\<lparr>openSocks := openSocks g0 |-| {|c|}\<rparr>, None))
              | ReadData payload \<Rightarrow>
                  (case live of
                     Some s \<Rightarrow> broadcastReply (put_session sid (touch_flow s flowID c now) g) sid flowID payload now
                   | None \<Rightarrow> (g, None))))"

section \<open>The janitor\<close>

definition clean_session :: "orders \<Rightarrow> time \<Rightarrow> server \<Rightarrow> string \<Rightarrow> server" where
  "clean_session os now g sid =
     (case fmlookup (sessions g) sid of
        None \<Rightarrow> g
      | Some s \<Rightarrow>
          (case closeIdleFlows (ord_flows os) now g s of
             (g1, s1) \<Rightarrow>
               if gosize (gpaths s1) = 0 \<and> emptySince s1 \<noteq> 0 \<and> time_sub now (emptySince s1) > glueSessionIdle
               then (case closeAllFlows (ord_flows os) g1 s1 of
                       (g2, s2) \<Rightarrow> g2\<lparr>sessions := fmdrop sid (sessions g2)\<rparr>)
               else put_session sid s1 g1))"

definition cleanupGlue :: "orders \<Rightarrow> server \<Rightarrow> time \<Rightarrow> server" where
  "cleanupGlue os g now = foldl (clean_session os now) g (ord_sessions os (sessions g))"

section \<open>The invariant\<close>

definition owned :: "string \<Rightarrow> server \<Rightarrow> nat" where
  "owned k g = fmsum (\<lambda>s. if KeyID (owner s) = k then 1 else 0) (sessions g)"

definition flow_count :: "server \<Rightarrow> int" where
  "flow_count g = fmsum (\<lambda>s. int (gosize (udpFlows s))) (sessions g)"

definition sess_ok :: "server \<Rightarrow> string \<Rightarrow> glueSession \<Rightarrow> bool" where
  "sess_ok g sid s \<longleftrightarrow> gosize (gpaths s) \<le> maxPathsPerSession \<and> gosize (udpFlows s) \<le> maxFlowsPerSession \<and>
     epoch s \<noteq> 0 \<and> ref s < nextSock g \<and>
     (\<forall>i f. fmlookup (udpFlows s) i = Some f \<longrightarrow>
        u_conn f |\<in>| openSocks g \<and> fmlookup (readers g) (u_conn f) = Some (sid, ref s, i))"

definition held :: "server \<Rightarrow> nat \<Rightarrow> bool" where
  "held g c \<longleftrightarrow> (\<exists>sid s i f. fmlookup (sessions g) sid = Some s \<and> fmlookup (udpFlows s) i = Some f \<and> u_conn f = c)"

definition srv_inv :: "server \<Rightarrow> bool" where
  "srv_inv g \<longleftrightarrow> totalFlows g = flow_count g \<and> totalFlows g \<le> maxTotalFlows \<and>
     gosize (sessions g) \<le> maxGlueSessions \<and> (\<forall>k. owned k g \<le> maxSessionsPerClient) \<and>
     (\<forall>sid s. fmlookup (sessions g) sid = Some s \<longrightarrow> sess_ok g sid s) \<and>
     (\<forall>c. c |\<in>| openSocks g \<longrightarrow> held g c) \<and> (\<forall>c r. fmlookup (readers g) c = Some r \<longrightarrow> c < nextSock g)"

lemma srv_invI:
  "totalFlows g = flow_count g \<Longrightarrow> totalFlows g \<le> maxTotalFlows \<Longrightarrow> gosize (sessions g) \<le> maxGlueSessions \<Longrightarrow>
   (\<And>k. owned k g \<le> maxSessionsPerClient) \<Longrightarrow>
   (\<And>sid s. fmlookup (sessions g) sid = Some s \<Longrightarrow> sess_ok g sid s) \<Longrightarrow>
   (\<And>c. c |\<in>| openSocks g \<Longrightarrow> held g c) \<Longrightarrow> (\<And>c r. fmlookup (readers g) c = Some r \<Longrightarrow> c < nextSock g) \<Longrightarrow> srv_inv g"
  by (simp add: srv_inv_def)

lemma srv_invD:
  assumes "srv_inv g"
  shows "totalFlows g = flow_count g" "totalFlows g \<le> maxTotalFlows" "gosize (sessions g) \<le> maxGlueSessions"
    "owned k g \<le> maxSessionsPerClient" "fmlookup (sessions g) sid = Some s \<Longrightarrow> sess_ok g sid s"
    "c |\<in>| openSocks g \<Longrightarrow> held g c" "fmlookup (readers g) c = Some r \<Longrightarrow> c < nextSock g"
  using assms unfolding srv_inv_def by blast+

lemma empty_server_inv: "srv_inv empty_server"
  by (rule srv_invI) (simp_all add: empty_server_def flow_count_def owned_def maxTotalFlows_def fcard_fempty)

lemma put_session_sel [simp]:
  "sessions (put_session sid s g) = fmupd sid s (sessions g)" "totalFlows (put_session sid s g) = totalFlows g"
  "openSocks (put_session sid s g) = openSocks g" "readers (put_session sid s g) = readers g"
  "nextSock (put_session sid s g) = nextSock g"
  by (simp_all add: put_session_def)

lemma owned_put: "fmlookup (sessions g) sid = Some s \<Longrightarrow> owner s' = owner s \<Longrightarrow> owned k (put_session sid s' g) = owned k g"
  using fmsum_replace [of "sessions g" sid s "\<lambda>s. if KeyID (owner s) = k then 1 else (0::nat)" s'] by (simp add: owned_def)

lemma gosize_put: "fmlookup (sessions g) sid = Some s \<Longrightarrow> gosize (fmupd sid s' (sessions g)) = gosize (sessions g)"
  unfolding gosize_fmupd by simp

lemma flow_count_put:
  "fmlookup (sessions g) sid = Some s \<Longrightarrow>
     flow_count (put_session sid s' g) = flow_count g - int (gosize (udpFlows s)) + int (gosize (udpFlows s'))"
  using fmsum_replace [of "sessions g" sid s "\<lambda>s. int (gosize (udpFlows s))" s'] by (simp add: flow_count_def)

text \<open>A change of a session that keeps its owner, identity and sockets.\<close>

definition same_socks :: "glueSession \<Rightarrow> glueSession \<Rightarrow> bool" where
  "same_socks s s' \<longleftrightarrow> owner s' = owner s \<and> ref s' = ref s \<and> epoch s' = epoch s \<and>
     gosize (udpFlows s') = gosize (udpFlows s) \<and>
     (\<forall>i. map_option u_conn (fmlookup (udpFlows s') i) = map_option u_conn (fmlookup (udpFlows s) i))"

lemma same_socks_conn:
  "same_socks s s' \<Longrightarrow> fmlookup (udpFlows s') i = Some f' \<Longrightarrow> \<exists>f. fmlookup (udpFlows s) i = Some f \<and> u_conn f = u_conn f'"
  unfolding same_socks_def by (metis (no_types, lifting) map_option_eq_Some)

lemma same_socks_sym: "same_socks s s' \<Longrightarrow> same_socks s' s"
  by (simp add: same_socks_def)

lemma update_inv:
  assumes i: "srv_inv g" and l: "fmlookup (sessions g) sid = Some s" and ss: "same_socks s s'"
    and p: "gosize (gpaths s') \<le> maxPathsPerSession"
  shows "srv_inv (put_session sid s' g)"
proof (rule srv_invI)
  note D = srv_invD [OF i]
  have o: "owner s' = owner s" "ref s' = ref s" "epoch s' = epoch s" "gosize (udpFlows s') = gosize (udpFlows s)"
    using ss by (simp_all add: same_socks_def)
  show "totalFlows (put_session sid s' g) = flow_count (put_session sid s' g)" using D(1) o by (simp add: flow_count_put [OF l])
  show "totalFlows (put_session sid s' g) \<le> maxTotalFlows" using D(2) by simp
  show "gosize (sessions (put_session sid s' g)) \<le> maxGlueSessions" using D(3) gosize_put [OF l] by simp
  show "owned k (put_session sid s' g) \<le> maxSessionsPerClient" for k using D(4) owned_put [OF l o(1)] by simp
  show "fmlookup (readers (put_session sid s' g)) c = Some r \<Longrightarrow> c < nextSock (put_session sid s' g)" for c r
    using D(7) by simp
next
  fix sid2 s2 assume l2: "fmlookup (sessions (put_session sid s' g)) sid2 = Some s2"
  show "sess_ok (put_session sid s' g) sid2 s2"
  proof (cases "sid2 = sid")
    case True
    with l2 have s2: "s2 = s'" by simp
    have "sess_ok g sid s" by (rule srv_invD(5) [OF i l])
    then show ?thesis
      using ss p True same_socks_conn [OF ss] unfolding s2 sess_ok_def same_socks_def by (fastforce simp: put_session_sel)
  next
    case False
    then show ?thesis using l2 srv_invD(5) [OF i, of sid2 s2] by (simp add: sess_ok_def)
  qed
next
  fix c assume "c |\<in>| openSocks (put_session sid s' g)"
  then obtain sid2 s2 i f where h: "fmlookup (sessions g) sid2 = Some s2" "fmlookup (udpFlows s2) i = Some f" "u_conn f = c"
    using srv_invD(6) [OF i, of c] unfolding held_def by auto
  show "held (put_session sid s' g) c"
  proof (cases "sid2 = sid")
    case True
    then have "s2 = s" using h(1) l by simp
    with h obtain f' where "fmlookup (udpFlows s') i = Some f'" "u_conn f' = c"
      using same_socks_conn [OF same_socks_sym [OF ss]] by blast
    then show ?thesis unfolding held_def by (intro exI [of _ sid] exI [of _ s'] exI [of _ i] exI [of _ f']) simp
  next
    case False
    then show ?thesis using h unfolding held_def by (intro exI [of _ sid2] exI [of _ s2] exI [of _ i] exI [of _ f]) simp
  qed
qed

text \<open>A socket tells where it is kept.\<close>

lemma sock_place:
  assumes i: "srv_inv g"
    and a: "fmlookup (sessions g) sid = Some s" "fmlookup (udpFlows s) j = Some f"
    and b: "fmlookup (sessions g) sid' = Some s'" "fmlookup (udpFlows s') j' = Some f'"
    and c: "u_conn f = u_conn f'"
  shows "sid = sid' \<and> j = j'"
  using srv_invD(5) [OF i a(1)] srv_invD(5) [OF i b(1)] a(2) b(2) c by (fastforce simp: sess_ok_def)

lemma close_inv:
  assumes i: "srv_inv g" and l: "fmlookup (sessions g) sid = Some s" and f: "fmlookup (udpFlows s) j = Some f"
  shows "srv_inv (put_session sid (s\<lparr>udpFlows := fmdrop j (udpFlows s)\<rparr>)
           (g\<lparr>openSocks := openSocks g |-| {|u_conn f|}, totalFlows := totalFlows g - 1\<rparr>))" (is "srv_inv ?g")
proof (rule srv_invI)
  let ?s = "s\<lparr>udpFlows := fmdrop j (udpFlows s)\<rparr>"
  have sz: "gosize (udpFlows s) = Suc (gosize (fmdrop j (udpFlows s)))"
    using gosize_pos [OF f] unfolding gosize_fmdrop by (simp add: f)
  have fc: "flow_count ?g = flow_count g - 1"
    using flow_count_put [OF l, of ?s] sz by (simp add: flow_count_def)
  show "totalFlows ?g = flow_count ?g" "totalFlows ?g \<le> maxTotalFlows" using srv_invD(1,2) [OF i] fc by simp_all
  show "gosize (sessions ?g) \<le> maxGlueSessions" using srv_invD(3) [OF i] gosize_put [OF l] by simp
  show "owned k ?g \<le> maxSessionsPerClient" for k
    using srv_invD(4) [OF i, of k] owned_put [OF l, of ?s k] by (simp add: owned_def)
  show "fmlookup (readers ?g) c = Some r \<Longrightarrow> c < nextSock ?g" for c r using srv_invD(7) [OF i] by simp
next
  let ?s = "s\<lparr>udpFlows := fmdrop j (udpFlows s)\<rparr>"
  fix sid2 s2 assume l2: "fmlookup (sessions ?g) sid2 = Some s2"
  have other: "u_conn f2 \<noteq> u_conn f" if "fmlookup (udpFlows s2) i2 = Some f2" for i2 f2
  proof
    assume e: "u_conn f2 = u_conn f"
    show False
    proof (cases "sid2 = sid")
      case True
      then have "s2 = ?s" using l2 by simp
      then have "i2 \<noteq> j" "fmlookup (udpFlows s) i2 = Some f2" using that by (auto split: if_splits)
      then show False using sock_place [OF i l _ l f e] by blast
    next
      case False
      then show False using l2 sock_place [OF i _ that l f e] by simp
    qed
  qed
  show "sess_ok ?g sid2 s2"
  proof (cases "sid2 = sid")
    case True
    then have s2: "s2 = ?s" using l2 by simp
    have sz: "gosize (fmdrop j (udpFlows s)) \<le> gosize (udpFlows s)" unfolding gosize_fmdrop by simp
    then show ?thesis using srv_invD(5) [OF i l] other True unfolding s2 by (auto simp: sess_ok_def split: if_splits)
  next
    case False
    then have "fmlookup (sessions g) sid2 = Some s2" using l2 by simp
    from srv_invD(5) [OF i this] other show ?thesis by (auto simp: sess_ok_def)
  qed
next
  let ?s = "s\<lparr>udpFlows := fmdrop j (udpFlows s)\<rparr>"
  fix c assume c: "c |\<in>| openSocks ?g"
  then obtain sid2 s2 i2 f2 where h: "fmlookup (sessions g) sid2 = Some s2" "fmlookup (udpFlows s2) i2 = Some f2" "u_conn f2 = c"
    using srv_invD(6) [OF i, of c] unfolding held_def by auto
  show "held ?g c"
  proof (cases "sid2 = sid")
    case True
    then have "s2 = s" using h(1) l by simp
    moreover have "i2 \<noteq> j" using c h f \<open>s2 = s\<close> by auto
    ultimately show ?thesis using h True unfolding held_def
      by (intro exI [of _ sid] exI [of _ ?s] exI [of _ i2] exI [of _ f2]) simp
  next
    case False
    then show ?thesis using h unfolding held_def by (intro exI [of _ sid2] exI [of _ s2] exI [of _ i2] exI [of _ f2]) simp
  qed
qed

lemma put_put [simp]: "put_session sid s' (put_session sid s g) = put_session sid s' g"
  by (simp add: put_session_def fmupd_fmupd)

section \<open>Closing flows\<close>

text \<open>Everything of a session but its flows.\<close>

definition meta :: "glueSession \<Rightarrow> glueSession" where
  "meta s = s\<lparr>udpFlows := fmempty\<rparr>"

lemma metaD:
  assumes "meta s = meta t"
  shows "owner s = owner t" "epoch s = epoch t" "ref s = ref t" "gpaths s = gpaths t" "emptySince s = emptySince t"
    "g_recv s = g_recv t" "replySeq s = replySeq t"
proof -
  have "owner (meta s) = owner (meta t) \<and> epoch (meta s) = epoch (meta t) \<and> ref (meta s) = ref (meta t) \<and>
    gpaths (meta s) = gpaths (meta t) \<and> emptySince (meta s) = emptySince (meta t) \<and> g_recv (meta s) = g_recv (meta t) \<and>
    replySeq (meta s) = replySeq (meta t)" by (simp add: assms)
  then show "owner s = owner t" "epoch s = epoch t" "ref s = ref t" "gpaths s = gpaths t" "emptySince s = emptySince t"
    "g_recv s = g_recv t" "replySeq s = replySeq t" by (simp_all add: meta_def)
qed

text \<open>A closing loop works on a session and on the server beside it: \<open>put_session sid s g\<close> is the
  state the others see.\<close>

definition closing :: "string \<Rightarrow> server \<times> glueSession \<Rightarrow> server \<times> glueSession \<Rightarrow> bool" where
  "closing sid gs gs' \<longleftrightarrow>
     (srv_inv (put_session sid (snd gs) (fst gs)) \<longrightarrow> srv_inv (put_session sid (snd gs') (fst gs'))) \<and>
     meta (snd gs') = meta (snd gs) \<and>
     sessions (fst gs') = sessions (fst gs) \<and> readers (fst gs') = readers (fst gs) \<and> nextSock (fst gs') = nextSock (fst gs)"

lemma closing_refl: "closing sid gs gs"
  by (simp add: closing_def)

lemma closing_trans: "closing sid gs gs' \<Longrightarrow> closing sid gs' gs'' \<Longrightarrow> closing sid gs gs''"
  by (auto simp: closing_def)

lemma closeFlow_own:
  "fmlookup (udpFlows s) j = Some f \<Longrightarrow>
   closeFlow g s j (u_conn f) =
     (g\<lparr>openSocks := openSocks g |-| {|u_conn f|}, totalFlows := totalFlows g - 1\<rparr>,
      s\<lparr>udpFlows := fmdrop j (udpFlows s)\<rparr>)"
  by (simp add: closeFlow_def Let_def)

lemma closeFlow_closing:
  assumes "fmlookup (udpFlows s) j = Some f"
  shows "closing sid (g, s) (closeFlow g s j (u_conn f))"
proof -
  let ?s = "s\<lparr>udpFlows := fmdrop j (udpFlows s)\<rparr>"
  let ?G = "put_session sid s g"
  have e: "put_session sid ?s (g\<lparr>openSocks := openSocks g |-| {|u_conn f|}, totalFlows := totalFlows g - 1\<rparr>)
    = put_session sid ?s (?G\<lparr>openSocks := openSocks ?G |-| {|u_conn f|}, totalFlows := totalFlows ?G - 1\<rparr>)"
    by (simp add: put_session_def)
  have "srv_inv (put_session sid ?s (g\<lparr>openSocks := openSocks g |-| {|u_conn f|}, totalFlows := totalFlows g - 1\<rparr>))"
    if "srv_inv ?G" unfolding e by (rule close_inv [OF that]) (simp_all add: assms)
  then show ?thesis using assms by (simp add: closing_def closeFlow_own meta_def)
qed

lemma close_if_closing: "closing sid gs (close_if p gs j)"
proof (cases "fmlookup (udpFlows (snd gs)) j")
  case None
  then show ?thesis by (simp add: close_if_def closing_refl)
next
  case (Some f)
  then show ?thesis using closeFlow_closing [OF Some, of sid "fst gs"] by (simp add: close_if_def closing_refl)
qed

lemma close_if_flows:
  "udpFlows (snd (close_if p gs j)) =
     (case fmlookup (udpFlows (snd gs)) j of None \<Rightarrow> udpFlows (snd gs)
      | Some f \<Rightarrow> if p f then fmdrop j (udpFlows (snd gs)) else udpFlows (snd gs))"
  by (auto simp: close_if_def closeFlow_own split: option.split)

lemma close_loop:
  "closing sid gs (foldl (close_if p) gs js) \<and>
   udpFlows (snd (foldl (close_if p) gs js)) = range_delete (\<lambda>_. p) js (udpFlows (snd gs))"
proof (induction js arbitrary: gs)
  case (Cons j js)
  then show ?case using closing_trans [OF close_if_closing [of sid gs p j]] by (simp add: close_if_flows)
qed (simp add: closing_refl)

lemma closeAll_closing: "closing sid (g, s) (closeAllFlows ord g s)"
  unfolding closeAllFlows_def using close_loop [of sid "(g, s)"] by blast

lemma closeIdle_closing: "closing sid (g, s) (closeIdleFlows ord now g s)"
  unfolding closeIdleFlows_def using close_loop [of sid "(g, s)"] by blast

lemma closeAll_empty: "range_order ord \<Longrightarrow> udpFlows (snd (closeAllFlows ord g s)) = fmempty"
proof -
  assume "range_order ord"
  then have "fmlookup (range_delete (\<lambda>_ _. True) (ord (udpFlows s)) (udpFlows s)) i = None" for i
    by (simp add: fmlookup_range_delete split: option.split)
  then have "range_delete (\<lambda>_ _. True) (ord (udpFlows s)) (udpFlows s) = fmempty" by (intro fmap_ext) simp
  then show ?thesis using close_loop [of undefined "(g, s)" "\<lambda>_. True" "ord (udpFlows s)"] by (simp add: closeAllFlows_def)
qed

lemma put_session_same: "fmlookup (sessions g) sid = Some s \<Longrightarrow> put_session sid s g = g"
proof -
  assume "fmlookup (sessions g) sid = Some s"
  then have "fmupd sid s (sessions g) = sessions g" by (intro fmap_ext) auto
  then show ?thesis by (simp add: put_session_def)
qed

section \<open>Removing and adding sessions\<close>

lemma remove_session_inv:
  assumes i: "srv_inv g" and l: "fmlookup (sessions g) sid = Some s" and e: "udpFlows s = fmempty"
  shows "srv_inv (g\<lparr>sessions := fmdrop sid (sessions g)\<rparr>)" (is "srv_inv ?g")
proof (rule srv_invI)
  have "flow_count ?g = flow_count g"
    using fmsum_remove [OF l, of "\<lambda>s. int (gosize (udpFlows s))"] e by (simp add: flow_count_def)
  then show "totalFlows ?g = flow_count ?g" "totalFlows ?g \<le> maxTotalFlows" using srv_invD(1,2) [OF i] by simp_all
  have "gosize (fmdrop sid (sessions g)) \<le> gosize (sessions g)" unfolding gosize_fmdrop by simp
  then show "gosize (sessions ?g) \<le> maxGlueSessions" using srv_invD(3) [OF i] by simp
  have "owned k ?g \<le> owned k g" for k
    using fmsum_remove [OF l, of "\<lambda>s. if KeyID (owner s) = k then 1 else (0::nat)"] by (simp add: owned_def)
  then show "owned k ?g \<le> maxSessionsPerClient" for k using srv_invD(4) [OF i, of k] le_trans by blast
  show "fmlookup (readers ?g) c = Some r \<Longrightarrow> c < nextSock ?g" for c r using srv_invD(7) [OF i] by simp
  show "fmlookup (sessions ?g) sid2 = Some s2 \<Longrightarrow> sess_ok ?g sid2 s2" for sid2 s2
    using srv_invD(5) [OF i, of sid2 s2] by (auto simp: sess_ok_def split: if_splits)
next
  fix c assume "c |\<in>| openSocks ?g"
  then obtain sid2 s2 i2 f2 where h: "fmlookup (sessions g) sid2 = Some s2" "fmlookup (udpFlows s2) i2 = Some f2" "u_conn f2 = c"
    using srv_invD(6) [OF i, of c] unfolding held_def by auto
  moreover have "sid2 \<noteq> sid" using h l e by auto
  ultimately show "held ?g c" unfolding held_def
    by (intro exI [of _ sid2] exI [of _ s2] exI [of _ i2] exI [of _ f2]) simp
qed

lemma gone_session_inv:
  assumes "srv_inv g" "fmlookup (sessions g) sid = Some s" "range_order ord"
  shows "srv_inv ((fst (closeAllFlows ord g s))\<lparr>sessions := fmdrop sid (sessions (fst (closeAllFlows ord g s)))\<rparr>)"
proof -
  obtain g1 s1 where c: "closeAllFlows ord g s = (g1, s1)" by force
  then have k: "closing sid (g, s) (g1, s1)" using closeAll_closing [of sid g s ord] by simp
  then have "srv_inv (put_session sid s1 g1)" using assms(1) put_session_same [OF assms(2)] by (simp add: closing_def)
  moreover have "udpFlows s1 = fmempty" using closeAll_empty [OF assms(3), of g s] c by simp
  ultimately have "srv_inv ((put_session sid s1 g1)\<lparr>sessions := fmdrop sid (sessions (put_session sid s1 g1))\<rparr>)"
    by (intro remove_session_inv [of _ sid s1]) simp_all
  moreover have "fmdrop sid (fmupd sid s1 (sessions g1)) = fmdrop sid (sessions g1)" by (simp add: fmdrop_fmupd_same)
  ultimately show ?thesis using c by (simp add: put_session_def)
qed

lemma add_session_inv:
  assumes i: "srv_inv g" and n: "fmlookup (sessions g) sid = None" and b: "gosize (sessions g) < maxGlueSessions"
    and k: "owned (KeyID p) g < maxSessionsPerClient" and e: "e \<noteq> 0"
  shows "srv_inv ((put_session sid (new_session g p e) g)\<lparr>nextSock := Suc (nextSock g)\<rparr>)" (is "srv_inv ?g")
proof (rule srv_invI)
  let ?s = "new_session g p e"
  have "flow_count ?g = flow_count g" using n by (simp add: flow_count_def fmsum_fmupd_new new_session_def)
  then show "totalFlows ?g = flow_count ?g" "totalFlows ?g \<le> maxTotalFlows" using srv_invD(1,2) [OF i] by simp_all
  have "gosize (fmupd sid ?s (sessions g)) = Suc (gosize (sessions g))" unfolding gosize_fmupd using n by simp
  then show "gosize (sessions ?g) \<le> maxGlueSessions" using b by simp
  show "owned k ?g \<le> maxSessionsPerClient" for k
  proof -
    have "owned k ?g = (if KeyID p = k then 1 else 0) + owned k g"
      using n by (simp add: owned_def fmsum_fmupd_new new_session_def)
    then show ?thesis using k srv_invD(4) [OF i, of k] by auto
  qed
  show "c < nextSock ?g" if "fmlookup (readers ?g) c = Some r" for c r using srv_invD(7) [OF i, of c r] that by simp
  show "sess_ok ?g sid2 s2" if "fmlookup (sessions ?g) sid2 = Some s2" for sid2 s2
  proof (cases "sid2 = sid")
    case True
    then have "s2 = ?s" using that by simp
    then show ?thesis using e by (simp add: sess_ok_def new_session_def fcard_fempty)
  next
    case False
    then show ?thesis using that srv_invD(5) [OF i, of sid2 s2] by (auto simp: sess_ok_def)
  qed
  show "held ?g c" if c: "c |\<in>| openSocks ?g" for c
  proof -
    obtain sid2 s2 i2 f2 where h: "fmlookup (sessions g) sid2 = Some s2" "fmlookup (udpFlows s2) i2 = Some f2" "u_conn f2 = c"
      using srv_invD(6) [OF i, of c] c unfolding held_def by auto
    moreover have "sid2 \<noteq> sid" using h n by auto
    ultimately show ?thesis unfolding held_def
      by (intro exI [of _ sid2] exI [of _ s2] exI [of _ i2] exI [of _ f2]) simp
  qed
qed

section \<open>Room for a session\<close>

definition orders_ok :: "orders \<Rightarrow> bool" where
  "orders_ok os \<longleftrightarrow> range_order (ord_sessions os) \<and> range_order (ord_flows os)"

definition owns :: "string \<Rightarrow> (string, glueSession) fmap \<Rightarrow> string \<Rightarrow> nat" where
  "owns k m sid = (case fmlookup m sid of None \<Rightarrow> 0 | Some s \<Rightarrow> if KeyID (owner s) = k then 1 else 0)"

lemma scan_count: "fst (foldl (scan_client k m) acc ids) = fst acc + sum_list (map (owns k m) ids)"
  by (induction ids arbitrary: acc) (auto simp: scan_client_def owns_def split: option.split)

text \<open>The candidate is a session of this client without paths, and none is empty for longer.\<close>

definition candidate :: "string \<Rightarrow> (string, glueSession) fmap \<Rightarrow> string list \<Rightarrow> (string \<times> time) option \<Rightarrow> bool" where
  "candidate k m ids r \<longleftrightarrow>
     (case r of
        None \<Rightarrow> (\<forall>sid\<in>set ids. \<forall>s. fmlookup m sid = Some s \<and> KeyID (owner s) = k \<longrightarrow> gosize (gpaths s) \<noteq> 0)
      | Some (sid, since) \<Rightarrow>
          (\<exists>s. fmlookup m sid = Some s \<and> KeyID (owner s) = k \<and> gosize (gpaths s) = 0 \<and> emptySince s = since) \<and>
          (\<forall>sid'\<in>set ids. \<forall>s. fmlookup m sid' = Some s \<and> KeyID (owner s) = k \<and> gosize (gpaths s) = 0 \<longrightarrow> since \<le> emptySince s))"

lemma candidate_set: "set a = set b \<Longrightarrow> candidate k m a r = candidate k m b r"
  by (cases r) (auto simp: candidate_def)

lemma scan_candidate:
  "candidate k m done (snd acc) \<Longrightarrow> candidate k m (ids @ done) (snd (foldl (scan_client k m) acc ids))"
proof (induction ids arbitrary: acc "done")
  case (Cons sid ids)
  have "candidate k m (sid # done) (snd (scan_client k m acc sid))"
    using Cons.prems
    by (cases "fmlookup m sid"; cases "snd acc") (auto simp: candidate_def scan_client_def split: if_splits)
  from Cons.IH [OF this] show ?case
    using candidate_set [of "ids @ sid # done" "(sid # ids) @ done"] by simp
qed simp

lemma owned_sum:
  assumes "range_order ord"
  shows "sum_list (map (owns k (sessions g)) (ord (sessions g))) = owned k g"
proof -
  have "sum_list (map (owns k (sessions g)) (ord (sessions g))) = (\<Sum>sid\<in>fmdom' (sessions g). owns k (sessions g) sid)"
    using assms by (simp add: sum_list_distinct_conv_sum_set range_order_def)
  also have "\<dots> = owned k g"
    unfolding owned_def fmsum_def by (rule sum.cong) (auto simp: owns_def fmlookup_dom'_iff)
  finally show ?thesis .
qed

text \<open>What \<^verbatim>\<open>makeRoomForSession\<close> may do: nothing, or remove one session of the client without paths.\<close>

lemma makeRoom_result:
  assumes i: "srv_inv g" and os: "orders_ok os"
  shows "(case makeRoomForSession os g k of (g', ok) \<Rightarrow> srv_inv g' \<and> (ok \<longrightarrow> owned k g' < maxSessionsPerClient) \<and>
     (g' = g \<or> (\<exists>sid s. fmlookup (sessions g) sid = Some s \<and> KeyID (owner s) = k \<and> gosize (gpaths s) = 0 \<and>
        (\<forall>sid' s'. fmlookup (sessions g) sid' = Some s' \<and> KeyID (owner s') = k \<and> gosize (gpaths s') = 0
            \<longrightarrow> emptySince s \<le> emptySince s') \<and>
        sessions g' = fmdrop sid (sessions g))) \<and>
     (\<not> ok \<longrightarrow> g' = g \<and> owned k g = maxSessionsPerClient \<and>
        (\<forall>sid s. fmlookup (sessions g) sid = Some s \<and> KeyID (owner s) = k \<longrightarrow> gosize (gpaths s) \<noteq> 0)))"
proof -
  let ?ids = "ord_sessions os (sessions g)"
  have ro: "range_order (ord_sessions os)" "range_order (ord_flows os)" using os by (simp_all add: orders_ok_def)
  obtain cnt oldest where f: "foldl (scan_client k (sessions g)) (0, None) ?ids = (cnt, oldest)" by force
  have cnt: "cnt = owned k g" using scan_count [of k "sessions g" "(0, None)" ?ids] f owned_sum [OF ro(1)] by simp
  have "candidate k (sessions g) (?ids @ []) (snd (foldl (scan_client k (sessions g)) (0, None) ?ids))"
    by (rule scan_candidate) (simp add: candidate_def)
  then have c: "candidate k (sessions g) ?ids oldest" using f by simp
  show ?thesis
  proof (cases "cnt < maxSessionsPerClient")
    case True
    then show ?thesis using f i cnt by (simp add: makeRoomForSession_def)
  next
    case False
    then have full: "owned k g = maxSessionsPerClient" using srv_invD(4) [OF i, of k] cnt by simp
    show ?thesis
    proof (cases oldest)
      case None
      then show ?thesis using False f i full c range_order_set [OF ro(1)]
        by (auto simp: makeRoomForSession_def candidate_def)
    next
      case (Some r)
      obtain sid since where r: "r = (sid, since)" by force
      from c Some r obtain s where s: "fmlookup (sessions g) sid = Some s" "KeyID (owner s) = k" "gosize (gpaths s) = 0"
        "emptySince s = since" by (auto simp: candidate_def)
      let ?g1 = "fst (closeAllFlows (ord_flows os) g s)"
      let ?g = "?g1\<lparr>sessions := fmdrop sid (sessions ?g1)\<rparr>"
      have m: "makeRoomForSession os g k = (?g, True)" using False f Some r s(1) by (simp add: makeRoomForSession_def Let_def)
      have "sessions ?g1 = sessions g" using closeAll_closing [of sid g s "ord_flows os"] by (simp add: closing_def)
      then have d: "sessions ?g = fmdrop sid (sessions g)" by simp
      have "owned k g = Suc (owned k ?g)"
        using fmsum_remove [OF s(1), of "\<lambda>s. if KeyID (owner s) = k then 1 else (0::nat)"] s(2) d by (simp add: owned_def)
      then have "owned k ?g < maxSessionsPerClient" using full by simp
      moreover have "srv_inv ?g" by (rule gone_session_inv [OF i s(1) ro(2)])
      moreover have "\<forall>sid' s'. fmlookup (sessions g) sid' = Some s' \<and> KeyID (owner s') = k \<and> gosize (gpaths s') = 0
            \<longrightarrow> emptySince s \<le> emptySince s'"
        using c Some r s(4) range_order_set [OF ro(1)] by (auto simp: candidate_def)
      ultimately show ?thesis using m d s by auto
    qed
  qed
qed

section \<open>The operations keep the invariant\<close>

lemma newEpoch_nonzero: "newEpoch rnd = Some e \<Longrightarrow> e \<noteq> 0"
proof (induction rule: newEpoch.raw_induct [rotated 1, consumes 1])
  case (1 newEpoch rnd e)
  then show ?case by (auto split: if_splits)
qed

lemma newEpoch_first: "rnd 0 \<noteq> 0 \<Longrightarrow> newEpoch rnd = Some (rnd 0)"
  by (simp add: newEpoch.simps)

lemma same_socks_refl [simp]: "same_socks s (s\<lparr>gpaths := ps\<rparr>)" "same_socks s (s\<lparr>replySeq := n\<rparr>)"
  "same_socks s (s\<lparr>g_recv := r\<rparr>)" "same_socks s (s\<lparr>flowLimitLogged := b\<rparr>)" "same_socks s s"
  "same_socks s (s\<lparr>gpaths := ps, emptySince := t\<rparr>)"
  by (simp_all add: same_socks_def)

lemma same_socks_touch:
  "fmlookup (udpFlows s) i = Some f \<Longrightarrow> same_socks s (s\<lparr>udpFlows := fmupd i (f\<lparr>u_lastSeen := now\<rparr>) (udpFlows s)\<rparr>)"
  using gosize_fmupd [of i "f\<lparr>u_lastSeen := now\<rparr>" "udpFlows s"] by (auto simp: same_socks_def)

lemma same_socks_touch_flow: "same_socks s (touch_flow s i c now)"
  by (auto simp: touch_flow_def same_socks_touch split: option.split)

lemma touch_flow_paths [simp]: "gpaths (touch_flow s i c now) = gpaths s"
  by (simp add: touch_flow_def split: option.split)

lemma paths_bound: "srv_inv g \<Longrightarrow> fmlookup (sessions g) sid = Some s \<Longrightarrow> gosize (gpaths s) \<le> maxPathsPerSession"
  using srv_invD(5) by (simp add: sess_ok_def)

lemma join_inv:
  assumes "srv_inv g" "fmlookup (sessions g) sid = Some s"
  shows "srv_inv (fst (join_session g sid s p conn))"
proof -
  have "gosize (fmupd conn None (gpaths s)) \<le> Suc (gosize (gpaths s))" unfolding gosize_fmupd by simp
  then have "srv_inv (put_session sid (s\<lparr>gpaths := fmupd conn None (gpaths s), emptySince := 0\<rparr>) g)"
    if "gosize (gpaths s) < maxPathsPerSession"
    using that by (intro update_inv [OF assms]) simp_all
  then show ?thesis using assms(1) by (simp add: join_session_def Let_def not_le)
qed

lemma attach_result:
  assumes i: "srv_inv g" and os: "orders_ok os" and a: "attachGluePath os rnd g sid p conn = Some (g', n, st)"
  shows "srv_inv g'"
proof (cases "fmlookup (sessions g) sid")
  case (Some s)
  then show ?thesis using join_inv [OF i Some, of p conn] a by (simp add: attachGluePath_def)
next
  case None
  obtain g1 ok where m: "makeRoomForSession os g (KeyID p) = (g1, ok)" by force
  note r = makeRoom_result [OF i os, of "KeyID p", unfolded m prod.case]
  have n1: "fmlookup (sessions g1) sid = None" using r None by (auto split: if_splits)
  show ?thesis
  proof (cases "ok \<and> gosize (sessions g1) < maxGlueSessions")
    case False
    then show ?thesis using a None m r by (auto simp: attachGluePath_def split: if_splits)
  next
    case True
    then obtain e where e: "newEpoch rnd = Some e"
      using a None m by (cases "newEpoch rnd") (auto simp: attachGluePath_def)
    let ?g2 = "(put_session sid (new_session g1 p e) g1)\<lparr>nextSock := Suc (nextSock g1)\<rparr>"
    have "srv_inv ?g2" using r True by (intro add_session_inv n1 newEpoch_nonzero [OF e]) auto
    then have "srv_inv (fst (join_session ?g2 sid (new_session g1 p e) p conn))" by (rule join_inv) simp
    then show ?thesis using a None m True e by (simp add: attachGluePath_def Let_def)
  qed
qed

lemma setWriter_inv: "srv_inv g \<Longrightarrow> srv_inv (setWriter g sid conn w)"
proof -
  assume i: "srv_inv g"
  have "srv_inv (put_session sid (s\<lparr>gpaths := fmupd conn (Some w) (gpaths s)\<rparr>) g)"
    if "fmlookup (sessions g) sid = Some s" "fmlookup (gpaths s) conn \<noteq> None" for s
  proof -
    have "gosize (fmupd conn (Some w) (gpaths s)) = gosize (gpaths s)" unfolding gosize_fmupd using that(2) by simp
    then show ?thesis using paths_bound [OF i that(1)] by (intro update_inv [OF i that(1)]) simp_all
  qed
  then show ?thesis using i by (auto simp: setWriter_def split: option.split)
qed

lemma detachPath_inv: "srv_inv g \<Longrightarrow> srv_inv (detachPath g sid conn now)"
proof -
  assume i: "srv_inv g"
  have "srv_inv (put_session sid (s\<lparr>gpaths := fmdrop conn (gpaths s), emptySince := t\<rparr>) g)"
    "srv_inv (put_session sid (s\<lparr>gpaths := fmdrop conn (gpaths s)\<rparr>) g)"
    if "fmlookup (sessions g) sid = Some s" for s t
  proof -
    have "gosize (fmdrop conn (gpaths s)) \<le> gosize (gpaths s)" unfolding gosize_fmdrop by simp
    then have b: "gosize (fmdrop conn (gpaths s)) \<le> maxPathsPerSession" using paths_bound [OF i that] by simp
    show "srv_inv (put_session sid (s\<lparr>gpaths := fmdrop conn (gpaths s), emptySince := t\<rparr>) g)"
      "srv_inv (put_session sid (s\<lparr>gpaths := fmdrop conn (gpaths s)\<rparr>) g)"
      by (intro update_inv [OF i that] same_socks_refl; use b in simp)+
  qed
  then show ?thesis using i by (auto simp: detachPath_def Let_def split: option.split)
qed

text \<open>A new socket: the state before may be the one just after the old flow was closed.\<close>

lemma open_socket_inv:
  assumes i: "srv_inv g" and l: "fmlookup (sessions g) sid = Some s" and n: "fmlookup (udpFlows s) j = None"
    and b: "gosize (udpFlows s) < maxFlowsPerSession" and t: "totalFlows g < maxTotalFlows"
  shows "srv_inv (put_session sid (s\<lparr>udpFlows := fmupd j \<lparr>u_conn = nextSock g, u_dst = key, u_lastSeen = now\<rparr> (udpFlows s)\<rparr>)
     (g\<lparr>totalFlows := totalFlows g + 1, openSocks := finsert (nextSock g) (openSocks g),
        readers := fmupd (nextSock g) (sid, ref s, j) (readers g), nextSock := Suc (nextSock g)\<rparr>))" (is "srv_inv ?g")
proof (rule srv_invI)
  let ?f = "\<lparr>u_conn = nextSock g, u_dst = key, u_lastSeen = now\<rparr>"
  let ?s = "s\<lparr>udpFlows := fmupd j ?f (udpFlows s)\<rparr>"
  have sz: "gosize (fmupd j ?f (udpFlows s)) = Suc (gosize (udpFlows s))" unfolding gosize_fmupd using n by simp
  have "flow_count ?g = flow_count g + 1"
    using flow_count_put [OF l, of ?s] sz by (simp add: flow_count_def)
  then show "totalFlows ?g = flow_count ?g" "totalFlows ?g \<le> maxTotalFlows" using srv_invD(1) [OF i] t by simp_all
  show "gosize (sessions ?g) \<le> maxGlueSessions" using srv_invD(3) [OF i] gosize_put [OF l] by simp
  show "owned k ?g \<le> maxSessionsPerClient" for k
    using srv_invD(4) [OF i, of k] owned_put [OF l, of ?s k] by (simp add: owned_def)
  show "c < nextSock ?g" if "fmlookup (readers ?g) c = Some r" for c r
    using srv_invD(7) [OF i, of c r] that by (auto split: if_splits)
  have old: "c \<noteq> nextSock g" if "fmlookup (readers g) c = Some r" for c r using srv_invD(7) [OF i that] by simp
  show "sess_ok ?g sid2 s2" if l2: "fmlookup (sessions ?g) sid2 = Some s2" for sid2 s2
  proof (cases "sid2 = sid")
    case True
    then have s2: "s2 = ?s" using l2 by simp
    have "\<forall>i f. fmlookup (udpFlows s) i = Some f \<longrightarrow> u_conn f \<noteq> nextSock g"
      using srv_invD(5) [OF i l] old unfolding sess_ok_def by blast
    then show ?thesis using srv_invD(5) [OF i l] sz b True unfolding s2 sess_ok_def by (auto simp: less_Suc_eq) blast+
  next
    case False
    then have "fmlookup (sessions g) sid2 = Some s2" using l2 by simp
    then have k: "sess_ok g sid2 s2" by (rule srv_invD(5) [OF i])
    have "\<forall>i f. fmlookup (udpFlows s2) i = Some f \<longrightarrow> u_conn f \<noteq> nextSock g"
      using k old unfolding sess_ok_def by blast
    then show ?thesis using k unfolding sess_ok_def by (auto simp: less_Suc_eq) blast+
  qed
  show "held ?g c" if c: "c |\<in>| openSocks ?g" for c
  proof (cases "c = nextSock g")
    case True
    then show ?thesis unfolding held_def by (intro exI [of _ sid] exI [of _ ?s] exI [of _ j] exI [of _ ?f]) simp
  next
    case False
    then obtain sid2 s2 i2 f2 where h: "fmlookup (sessions g) sid2 = Some s2" "fmlookup (udpFlows s2) i2 = Some f2" "u_conn f2 = c"
      using srv_invD(6) [OF i, of c] c unfolding held_def by auto
    show ?thesis
    proof (cases "sid2 = sid")
      case True
      then have "s2 = s" using h(1) l by simp
      then have "i2 \<noteq> j" using h(2) n by auto
      then show ?thesis using h True \<open>s2 = s\<close> unfolding held_def
        by (intro exI [of _ sid] exI [of _ ?s] exI [of _ i2] exI [of _ f2]) simp
    next
      case False
      then show ?thesis using h unfolding held_def by (intro exI [of _ sid2] exI [of _ s2] exI [of _ i2] exI [of _ f2]) simp
    qed
  qed
qed

lemma reserve_cases: "reserveFlow g = (if maxTotalFlows \<le> totalFlows g then (g, False) else (g\<lparr>totalFlows := totalFlows g + 1\<rparr>, True))"
  by (simp add: reserveFlow_def Let_def)

lemma open_flow_inv:
  assumes i: "srv_inv (put_session sid s g)" and n: "fmlookup (udpFlows s) j = None"
  shows "srv_inv (fst (open_flow g sid s j key now err))"
proof -
  let ?G = "put_session sid s g"
  have l: "fmlookup (sessions ?G) sid = Some s" by simp
  have lim: "srv_inv (put_session sid (s\<lparr>flowLimitLogged := True\<rparr>) g)"
  proof -
    have "srv_inv (put_session sid (s\<lparr>flowLimitLogged := True\<rparr>) ?G)"
      using paths_bound [OF i l] by (intro update_inv [OF i l]) simp_all
    then show ?thesis by simp
  qed
  show ?thesis
  proof (cases "maxFlowsPerSession \<le> gosize (udpFlows s) \<or> maxTotalFlows \<le> totalFlows g")
    case True
    then show ?thesis using lim by (auto simp: open_flow_def reserve_cases)
  next
    case False
    show ?thesis
    proof (cases err)
      case (Some e)
      have "put_session sid s (g\<lparr>totalFlows := totalFlows g\<rparr>) = ?G" by simp
      then show ?thesis using False Some i by (simp add: open_flow_def reserve_cases)
    next
      case None
      have "srv_inv (put_session sid (s\<lparr>udpFlows := fmupd j \<lparr>u_conn = nextSock ?G, u_dst = key, u_lastSeen = now\<rparr> (udpFlows s)\<rparr>)
          (?G\<lparr>totalFlows := totalFlows ?G + 1, openSocks := finsert (nextSock ?G) (openSocks ?G),
             readers := fmupd (nextSock ?G) (sid, ref s, j) (readers ?G), nextSock := Suc (nextSock ?G)\<rparr>))"
        using False by (intro open_socket_inv [OF i l n]) simp_all
      then show ?thesis using False None by (simp add: open_flow_def reserve_cases Let_def put_session_def)
    qed
  qed
qed

lemma flow_socket_inv:
  assumes i: "srv_inv g" and r: "flow_socket g sid j dst port now err = Some (g', res)"
  shows "srv_inv g'"
proof -
  from r obtain s where l: "fmlookup (sessions g) sid = Some s" by (auto simp: flow_socket_def split: option.splits)
  have ps: "put_session sid s g = g" by (rule put_session_same [OF l])
  show ?thesis
  proof (cases "fmlookup (udpFlows s) j")
    case None
    then show ?thesis using open_flow_inv [of sid s g j "(canon dst, port)" now err] i r l
      by (simp add: flow_socket_def ps Let_def)
  next
    case (Some f)
    show ?thesis
    proof (cases "u_dst f = (canon dst, port)")
      case True
      have "srv_inv (put_session sid (s\<lparr>udpFlows := fmupd j (f\<lparr>u_lastSeen := now\<rparr>) (udpFlows s)\<rparr>) g)"
        using paths_bound [OF i l] by (intro update_inv [OF i l] same_socks_touch [OF Some]) simp
      then show ?thesis using r l Some True by (simp add: flow_socket_def Let_def)
    next
      case False
      obtain g1 s1 where c: "closeFlow g s j (u_conn f) = (g1, s1)" by force
      have "srv_inv (put_session sid s1 g1)"
        using closeFlow_closing [OF Some, of sid g] i c by (simp add: closing_def ps)
      moreover have "fmlookup (udpFlows s1) j = None" using c closeFlow_own [OF Some, of g] by auto
      ultimately have "srv_inv (fst (open_flow g1 sid s1 j (canon dst, port) now err))" by (rule open_flow_inv)
      then show ?thesis using r l Some False c by (simp add: flow_socket_def Let_def)
    qed
  qed
qed

lemma broadcast_inv: "srv_inv g \<Longrightarrow> srv_inv (fst (broadcast g sid build))"
  by (auto simp: broadcast_def paths_bound intro!: update_inv split: option.split)

lemma readers_drop_inv:
  assumes i: "srv_inv g" and n: "\<not> held g c"
  shows "srv_inv (g\<lparr>readers := fmdrop c (readers g), openSocks := openSocks g |-| {|c|}\<rparr>)" (is "srv_inv ?g")
proof (rule srv_invI)
  show "totalFlows ?g = flow_count ?g" "totalFlows ?g \<le> maxTotalFlows" "gosize (sessions ?g) \<le> maxGlueSessions"
    using srv_invD(1-3) [OF i] by (simp_all add: flow_count_def)
  show "owned k ?g \<le> maxSessionsPerClient" for k using srv_invD(4) [OF i, of k] by (simp add: owned_def)
  show "fmlookup (readers ?g) c' = Some r \<Longrightarrow> c' < nextSock ?g" for c' r
    using srv_invD(7) [OF i, of c' r] by (auto split: if_splits)
  show "held ?g c'" if "c' |\<in>| openSocks ?g" for c'
    using srv_invD(6) [OF i, of c'] that unfolding held_def by auto
  show "sess_ok ?g sid s" if l: "fmlookup (sessions ?g) sid = Some s" for sid s
  proof -
    have "\<forall>j f. fmlookup (udpFlows s) j = Some f \<longrightarrow> u_conn f \<noteq> c"
      using n l unfolding held_def by auto
    then show ?thesis using srv_invD(5) [OF i, of sid s] l unfolding sess_ok_def by auto
  qed
qed

text \<open>The reader of the current flow: closing it and ending the goroutine.\<close>

lemma reader_close_inv:
  assumes i: "srv_inv g" and l: "fmlookup (sessions g) sid = Some s" and r: "fmlookup (readers g) c = Some (sid, ref s, j)"
    and e: "closeFlow (g\<lparr>readers := fmdrop c (readers g)\<rparr>) s j c = (g1, s1)"
  shows "srv_inv (put_session sid s1 g1)"
proof (cases "\<exists>f. fmlookup (udpFlows s) j = Some f \<and> u_conn f = c")
  case True
  then obtain f where f: "fmlookup (udpFlows s) j = Some f" "u_conn f = c" by blast
  let ?s = "s\<lparr>udpFlows := fmdrop j (udpFlows s)\<rparr>"
  let ?g = "put_session sid ?s (g\<lparr>openSocks := openSocks g |-| {|u_conn f|}, totalFlows := totalFlows g - 1\<rparr>)"
  have c: "srv_inv ?g" by (rule close_inv [OF i l f(1)])
  have "\<not> held ?g c"
  proof
    assume "held ?g c"
    then obtain sid2 s2 i2 f2 where h: "fmlookup (sessions ?g) sid2 = Some s2" "fmlookup (udpFlows s2) i2 = Some f2" "u_conn f2 = c"
      unfolding held_def by blast
    then have "c |\<in>| openSocks ?g" using srv_invD(5) [OF c h(1)] by (auto simp: sess_ok_def)
    then show False using f(2) by simp
  qed
  note d = readers_drop_inv [OF c this]
  have "g1 = g\<lparr>readers := fmdrop c (readers g), openSocks := openSocks g |-| {|c|}, totalFlows := totalFlows g - 1\<rparr>"
    "s1 = ?s" using e f closeFlow_own [OF f(1), of "g\<lparr>readers := fmdrop c (readers g)\<rparr>"] by auto
  then have "put_session sid s1 g1 = ?g\<lparr>readers := fmdrop c (readers ?g), openSocks := openSocks ?g |-| {|c|}\<rparr>"
    using f(2) by (simp add: put_session_def)
  then show ?thesis using d by simp
next
  case False
  have "\<not> held g c"
  proof
    assume "held g c"
    then obtain sid2 s2 i2 f2 where h: "fmlookup (sessions g) sid2 = Some s2" "fmlookup (udpFlows s2) i2 = Some f2" "u_conn f2 = c"
      unfolding held_def by blast
    then have "fmlookup (readers g) c = Some (sid2, ref s2, i2)" using srv_invD(5) [OF i h(1)] by (auto simp: sess_ok_def)
    then have "sid2 = sid" "i2 = j" using r by simp_all
    then show False using h l False by auto
  qed
  note d = readers_drop_inv [OF i this]
  have "g1 = g\<lparr>readers := fmdrop c (readers g), openSocks := openSocks g |-| {|c|}\<rparr>" "s1 = s"
    using e False by (auto simp: closeFlow_def Let_def split: option.splits if_splits)
  then have "put_session sid s1 g1 = g\<lparr>readers := fmdrop c (readers g), openSocks := openSocks g |-| {|c|}\<rparr>"
    using put_session_same [of g1 sid s1] l by simp
  then show ?thesis using d by simp
qed

lemma readFlow_inv:
  assumes i: "srv_inv g"
  shows "srv_inv (fst (readFlow g c res now))"
proof (cases "fmlookup (readers g) c")
  case None
  then show ?thesis using i by (simp add: readFlow_def)
next
  case (Some r)
  obtain sid sref j where r: "r = (sid, sref, j)" by (cases r)
  show ?thesis
  proof (cases "\<exists>s. fmlookup (sessions g) sid = Some s \<and> ref s = sref")
    case True
    then obtain s where s: "fmlookup (sessions g) sid = Some s" "ref s = sref" by blast
    show ?thesis
    proof (cases res)
      case (ReadData payload)
      have "srv_inv (put_session sid (touch_flow s j c now) g)"
        using paths_bound [OF i s(1)] by (intro update_inv [OF i s(1) same_socks_touch_flow]) simp
      then have "srv_inv (fst (broadcastReply (put_session sid (touch_flow s j c now) g) sid j payload now))"
        unfolding broadcastReply_def using broadcast_inv by (simp split: if_split)
      then show ?thesis using Some r s ReadData by (simp add: readFlow_def Let_def)
    next
      case ReadRefused
      then show ?thesis using Some r i by (simp add: readFlow_def Let_def)
    next
      case ReadFailed
      obtain g1 s1 where e: "closeFlow (g\<lparr>readers := fmdrop c (readers g)\<rparr>) s j c = (g1, s1)" by force
      from reader_close_inv [OF i s(1) _ e] show ?thesis using Some r s e ReadFailed by (simp add: readFlow_def Let_def)
    qed
  next
    case False
    have "\<not> held g c"
    proof
      assume "held g c"
      then obtain sid2 s2 i2 f2 where h: "fmlookup (sessions g) sid2 = Some s2" "fmlookup (udpFlows s2) i2 = Some f2" "u_conn f2 = c"
        unfolding held_def by blast
      then have "fmlookup (readers g) c = Some (sid2, ref s2, i2)" using srv_invD(5) [OF i h(1)] by (auto simp: sess_ok_def)
      then show False using Some r h(1) False by auto
    qed
    note d = readers_drop_inv [OF i this]
    have "(case fmlookup (sessions g) sid of Some s \<Rightarrow> if ref s = sref then Some s else None | None \<Rightarrow> None) = None"
      using False by (auto split: option.split)
    then show ?thesis using Some r d i by (cases res) (simp_all add: readFlow_def Let_def)
  qed
qed

section \<open>The janitor removes only what is idle\<close>

definition session_gone :: "glueSession \<Rightarrow> time \<Rightarrow> bool" where
  "session_gone s now \<longleftrightarrow> gosize (gpaths s) = 0 \<and> emptySince s \<noteq> 0 \<and> time_sub now (emptySince s) > glueSessionIdle"

definition live_flow :: "time \<Rightarrow> udpFlow option \<Rightarrow> udpFlow option" where
  "live_flow now r = (case r of None \<Rightarrow> None | Some f \<Rightarrow> if time_sub now (u_lastSeen f) > glueFlowIdle then None else Some f)"

lemma closeIdle_flows:
  "range_order ord \<Longrightarrow> fmlookup (udpFlows (snd (closeIdleFlows ord now g s))) j = live_flow now (fmlookup (udpFlows s) j)"
  using close_loop [of undefined "(g, s)" "\<lambda>f. time_sub now (u_lastSeen f) > glueFlowIdle" "ord (udpFlows s)"]
  by (auto simp: closeIdleFlows_def live_flow_def fmlookup_range_delete split: option.split)

lemma clean_session_other: "sid' \<noteq> sid \<Longrightarrow> fmlookup (sessions (clean_session os now g sid)) sid' = fmlookup (sessions g) sid'"
proof (cases "fmlookup (sessions g) sid")
  case None
  then show ?thesis by (simp add: clean_session_def)
next
  case (Some s)
  obtain g1 s1 where c: "closeIdleFlows (ord_flows os) now g s = (g1, s1)" by force
  obtain g2 s2 where d: "closeAllFlows (ord_flows os) g1 s1 = (g2, s2)" by force
  have "sessions g1 = sessions g" "sessions g2 = sessions g1"
    using closeIdle_closing [of sid g s "ord_flows os" now] closeAll_closing [of sid g1 s1 "ord_flows os"] c d
    by (simp_all add: closing_def)
  then show "sid' \<noteq> sid \<Longrightarrow> ?thesis" using Some c d by (simp add: clean_session_def)
qed

lemma clean_session_step:
  assumes i: "srv_inv g" and os: "orders_ok os" and l: "fmlookup (sessions g) sid = Some s"
  shows "srv_inv (clean_session os now g sid)"
    and "if session_gone s now then fmlookup (sessions (clean_session os now g sid)) sid = None
         else \<exists>s'. fmlookup (sessions (clean_session os now g sid)) sid = Some s' \<and> meta s' = meta s \<and>
                (\<forall>j. fmlookup (udpFlows s') j = live_flow now (fmlookup (udpFlows s) j))"
proof -
  have ro: "range_order (ord_flows os)" using os by (simp add: orders_ok_def)
  obtain g1 s1 where c: "closeIdleFlows (ord_flows os) now g s = (g1, s1)" by force
  have k: "closing sid (g, s) (g1, s1)" using closeIdle_closing [of sid g s "ord_flows os" now] c by simp
  have i1: "srv_inv (put_session sid s1 g1)" using k i put_session_same [OF l] by (simp add: closing_def)
  have m: "meta s1 = meta s" using k by (simp add: closing_def)
  have gone: "session_gone s1 now = session_gone s now" using metaD [OF m] by (simp add: session_gone_def)
  have fl: "fmlookup (udpFlows s1) j = live_flow now (fmlookup (udpFlows s) j)" for j
    using closeIdle_flows [OF ro, of now g s j] c by simp
  obtain g2 s2 where d: "closeAllFlows (ord_flows os) g1 s1 = (g2, s2)" by force
  have e: "clean_session os now g sid =
      (if session_gone s1 now then g2\<lparr>sessions := fmdrop sid (sessions g2)\<rparr> else put_session sid s1 g1)"
    using l c d by (simp add: clean_session_def session_gone_def)
  have k2: "closing sid (g1, s1) (g2, s2)" using closeAll_closing [of sid g1 s1 "ord_flows os"] d by simp
  have "srv_inv (g2\<lparr>sessions := fmdrop sid (sessions g2)\<rparr>)"
  proof -
    have "srv_inv (put_session sid s2 g2)" using k2 i1 by (simp add: closing_def)
    moreover have "udpFlows s2 = fmempty" using closeAll_empty [OF ro, of g1 s1] d by simp
    ultimately have "srv_inv ((put_session sid s2 g2)\<lparr>sessions := fmdrop sid (sessions (put_session sid s2 g2))\<rparr>)"
      by (intro remove_session_inv [of _ sid s2]) simp_all
    then show ?thesis by (simp add: put_session_def fmdrop_fmupd_same)
  qed
  then show "srv_inv (clean_session os now g sid)" using e i1 by simp
  show "if session_gone s now then fmlookup (sessions (clean_session os now g sid)) sid = None
         else \<exists>s'. fmlookup (sessions (clean_session os now g sid)) sid = Some s' \<and> meta s' = meta s \<and>
                (\<forall>j. fmlookup (udpFlows s') j = live_flow now (fmlookup (udpFlows s) j))"
    using e gone m fl by simp
qed

lemma clean_session_inv: "srv_inv g \<Longrightarrow> orders_ok os \<Longrightarrow> srv_inv (clean_session os now g sid)"
  using clean_session_step(1) by (cases "fmlookup (sessions g) sid") (simp_all add: clean_session_def)

text \<open>What the janitor makes of an entry of the session table.\<close>

definition cleaned :: "time \<Rightarrow> glueSession option \<Rightarrow> glueSession option \<Rightarrow> bool" where
  "cleaned now a r \<longleftrightarrow>
     (case a of
        None \<Rightarrow> r = None
      | Some s \<Rightarrow>
          if session_gone s now then r = None
          else \<exists>s'. r = Some s' \<and> meta s' = meta s \<and>
                 (\<forall>j. fmlookup (udpFlows s') j = live_flow now (fmlookup (udpFlows s) j)))"

lemma clean_session_cleaned:
  "srv_inv g \<Longrightarrow> orders_ok os \<Longrightarrow> cleaned now (fmlookup (sessions g) sid) (fmlookup (sessions (clean_session os now g sid)) sid)"
  using clean_session_step(2) [of g os sid _ now]
  by (cases "fmlookup (sessions g) sid") (auto simp: cleaned_def clean_session_def)

lemma clean_fold:
  "srv_inv g \<Longrightarrow> orders_ok os \<Longrightarrow> distinct sids \<Longrightarrow> srv_inv (foldl (clean_session os now) g sids) \<and>
   (\<forall>sid. if sid \<in> set sids then cleaned now (fmlookup (sessions g) sid) (fmlookup (sessions (foldl (clean_session os now) g sids)) sid)
     else fmlookup (sessions (foldl (clean_session os now) g sids)) sid = fmlookup (sessions g) sid)"
proof (induction sids arbitrary: g)
  case (Cons a sids)
  let ?g = "clean_session os now g a"
  let ?r = "foldl (clean_session os now) ?g sids"
  have IH: "srv_inv ?r" "\<And>sid. if sid \<in> set sids then cleaned now (fmlookup (sessions ?g) sid) (fmlookup (sessions ?r) sid)
     else fmlookup (sessions ?r) sid = fmlookup (sessions ?g) sid"
    using Cons.IH [of ?g] Cons.prems clean_session_inv by auto
  have "if sid \<in> set (a # sids) then cleaned now (fmlookup (sessions g) sid) (fmlookup (sessions ?r) sid)
     else fmlookup (sessions ?r) sid = fmlookup (sessions g) sid" for sid
  proof (cases "sid = a")
    case True
    then show ?thesis using IH(2) [of a] Cons.prems clean_session_cleaned [of g os now a] by simp
  next
    case False
    then show ?thesis using IH(2) [of sid] clean_session_other [OF False, of os now g] by (simp split: if_splits)
  qed
  then show ?case using IH(1) by simp
qed simp

lemma cleanup_inv: "srv_inv g \<Longrightarrow> orders_ok os \<Longrightarrow> srv_inv (cleanupGlue os g now)"
  using clean_fold [of g os "ord_sessions os (sessions g)" now]
  by (simp add: cleanupGlue_def orders_ok_def range_order_distinct)

text \<open>The janitor, in any iteration order, removes exactly the sessions that have had no path for more
  than two minutes (closing their sockets), and of the others only the flows without traffic for
  more than two minutes; owner, epoch, paths and reply numbers of a session that stays are untouched.\<close>

theorem janitor_exact:
  assumes "srv_inv g" "orders_ok os" "fmlookup (sessions g) sid = Some s"
  shows "if session_gone s now then fmlookup (sessions (cleanupGlue os g now)) sid = None
     else \<exists>s'. fmlookup (sessions (cleanupGlue os g now)) sid = Some s' \<and> meta s' = meta s \<and>
            (\<forall>j. fmlookup (udpFlows s') j = live_flow now (fmlookup (udpFlows s) j))"
proof -
  have ro: "range_order (ord_sessions os)" using assms(2) by (simp add: orders_ok_def)
  have "sid \<in> set (ord_sessions os (sessions g))" using assms(3) range_order_set [OF ro] by auto
  then show ?thesis
    using clean_fold [OF assms(1,2) range_order_distinct [OF ro, of "sessions g"], of now] assms(3)
    by (auto simp: cleanupGlue_def cleaned_def dest!: spec [of _ sid])
qed

section \<open>The connection handler\<close>

definition glue_setup ::
  "orders \<Rightarrow> (nat \<Rightarrow> u64) \<Rightarrow> server \<Rightarrow> peer \<Rightarrow> nat \<Rightarrow> bytes \<Rightarrow> (server \<times> bytes \<times> string option) option" where
  "glue_setup os rnd g p conn hello =
     (case DecodeHello hello of
        None \<Rightarrow> None
      | Some (version, sidBuf) \<Rightarrow>
          if version \<noteq> ProtocolVersion then Some (g, EncodeAccept StatusUnsupported 0, None)
          else
            let sid = hex_string sidBuf in
            (case attachGluePath os rnd g sid p conn of
               None \<Rightarrow> None
             | Some (g1, n, st) \<Rightarrow>
                 if st \<noteq> StatusOK then Some (g1, EncodeAccept st 0, None)
                 else (case fmlookup (sessions g1) sid of
                         None \<Rightarrow> None
                       | Some s \<Rightarrow> Some (g1, EncodeAccept StatusOK (epoch s), Some sid))))"

datatype glue_out =
    SendPaths "nat fset" bytes      \<comment> \<open>to these path writers\<close>
  | UdpWrite nat bytes              \<comment> \<open>to this socket\<close>

definition with_recv :: "server \<Rightarrow> string \<Rightarrow> glueSession \<Rightarrow> receiver \<Rightarrow> server" where
  "with_recv g sid s r = put_session sid (s\<lparr>g_recv := r\<rparr>) g"

text \<open>One turn of the read loop: frame \<open>f\<close> arrived on the path with writer \<open>w\<close>.\<close>

definition handle_glue_frame ::
  "policy \<Rightarrow> server \<Rightarrow> string \<Rightarrow> nat \<Rightarrow> frame \<Rightarrow> time \<Rightarrow> string option \<Rightarrow> server \<times> glue_out list" where
  "handle_glue_frame pol g sid w f now dial_err =
     (case fmlookup (sessions g) sid of
        None \<Rightarrow> (g, [])
      | Some s \<Rightarrow>
          if IsPathPing (f_payload f) then (g, [SendPaths {|w|} (marshal f)])
          else if IsPing (f_payload f) then
            (case accept_seq (g_recv s) f of
               (r, ok, reason) \<Rightarrow>
                 let g1 = with_recv g sid s r in
                 if \<not> ok then (g1, [])
                 else (case broadcastPing g1 sid (case DecodePing (f_payload f) of Some n \<Rightarrow> n | None \<Rightarrow> 0) now of
                         (g2, None) \<Rightarrow> (g2, [])
                       | (g2, Some (ws, wire)) \<Rightarrow> (g2, [SendPaths ws wire])))
          else
            (case accept (g_recv s) now f of
               (r, ok, reason) \<Rightarrow>
                 let g1 = with_recv g sid s r in
                 if \<not> ok then (g1, [])
                 else (case DecodeOutbound (f_payload f) of
                         Inl err \<Rightarrow> (g1, [])
                       | Inr (flowID, dst, dstPort, payload) \<Rightarrow>
                           if \<not> fst (Allowed pol dst) then (g1, [])
                           else if \<not> fst (DestinationAllowed dst dstPort) then (g1, [])
                           else (case flow_socket g1 sid flowID dst dstPort now dial_err of
                                   None \<Rightarrow> (g1, [])
                                 | Some (g2, Inl err) \<Rightarrow> (g2, [])
                                 | Some (g2, Inr c) \<Rightarrow> (g2, [UdpWrite c payload])))))"

lemma with_recv_inv:
  assumes "srv_inv g" "fmlookup (sessions g) sid = Some s"
  shows "srv_inv (with_recv g sid s r)"
  unfolding with_recv_def using paths_bound [OF assms] by (intro update_inv [OF assms]) simp_all

text \<open>The frame handler by cases: ignored, echoed, pinged back, or relayed.\<close>

lemma handle_frame_cases:
  assumes "handle_glue_frame pol g sid w f now err = (g', outs)"
  obtains (absent) "fmlookup (sessions g) sid = None" "g' = g" "outs = []"
  | (echo) s where "fmlookup (sessions g) sid = Some s" "IsPathPing (f_payload f)" "g' = g" "outs = [SendPaths {|w|} (marshal f)]"
  | (ignored) s r where "fmlookup (sessions g) sid = Some s" "g' = with_recv g sid s r" "outs = []"
  | (pong) s r n ws wire where "fmlookup (sessions g) sid = Some s" "fst (snd (accept_seq (g_recv s) f))" "r = fst (accept_seq (g_recv s) f)"
      "broadcastPing (with_recv g sid s r) sid n now = (g', Some (ws, wire))" "outs = [SendPaths ws wire]"
  | (pong_none) s r n where "fmlookup (sessions g) sid = Some s" "broadcastPing (with_recv g sid s r) sid n now = (g', None)" "outs = []"
  | (no_flow) s r j dst port e where "fmlookup (sessions g) sid = Some s"
      "flow_socket (with_recv g sid s r) sid j dst port now err = Some (g', Inl e)" "outs = []"
  | (relayed) s r j dst port payload c where "fmlookup (sessions g) sid = Some s" "r = fst (accept (g_recv s) now f)"
      "fst (snd (accept (g_recv s) now f))"
      "DecodeOutbound (f_payload f) = Inr (j, dst, port, payload)" "fst (Allowed pol dst)" "fst (DestinationAllowed dst port)"
      "flow_socket (with_recv g sid s r) sid j dst port now err = Some (g', Inr c)" "outs = [UdpWrite c payload]"
proof (cases "fmlookup (sessions g) sid")
  case None
  then show thesis using absent assms by (simp add: handle_glue_frame_def)
next
  case (Some s)
  note s = Some
  show thesis
  proof (cases "IsPathPing (f_payload f)")
    case True
    then show thesis using echo [OF Some True] assms Some by (simp add: handle_glue_frame_def)
  next
    case no_pp: False
    show thesis
    proof (cases "IsPing (f_payload f)")
      case True
      obtain r ok reason where a: "accept_seq (g_recv s) f = (r, ok, reason)" by (metis prod_cases3)
      define n where "n = (case DecodePing (f_payload f) of Some n \<Rightarrow> n | None \<Rightarrow> 0)"
      obtain g2 res where b: "broadcastPing (with_recv g sid s r) sid n now = (g2, res)" by force
      have e: "handle_glue_frame pol g sid w f now err =
          (if \<not> ok then (with_recv g sid s r, [])
           else (case res of None \<Rightarrow> (g2, []) | Some (ws, wire) \<Rightarrow> (g2, [SendPaths ws wire])))"
        using Some no_pp True a b by (simp add: handle_glue_frame_def Let_def n_def)
      show thesis
      proof (cases "ok")
        case False
        have o: "g' = with_recv g sid s r" "outs = []" using e assms False by simp_all
        show thesis by (rule ignored [OF s, of r]) (use o in simp_all)
      next
        case ok: True
        show thesis
        proof (cases res)
          case None
          have o: "g2 = g'" "outs = []" using e assms None ok by simp_all
          show thesis by (rule pong_none [OF s, of r n]) (use o b None in simp_all)
        next
          case (Some x)
          obtain ws wire where x: "x = (ws, wire)" by force
          have o: "g2 = g'" "outs = [SendPaths ws wire]" using e assms ok Some x by simp_all
          have "broadcastPing (with_recv g sid s r) sid n now = (g2, Some (ws, wire))" using b Some x by simp
          then show thesis by (intro pong [OF s, of r n ws wire]) (use a ok o in simp_all)
        qed
      qed
    next
      case no_p: False
      obtain r ok reason where a: "accept (g_recv s) now f = (r, ok, reason)" by (metis prod_cases3)
      have e: "handle_glue_frame pol g sid w f now err =
          (if \<not> ok then (with_recv g sid s r, [])
           else (case DecodeOutbound (f_payload f) of
                   Inl err \<Rightarrow> (with_recv g sid s r, [])
                 | Inr (flowID, dst, dstPort, payload) \<Rightarrow>
                     if \<not> fst (Allowed pol dst) then (with_recv g sid s r, [])
                     else if \<not> fst (DestinationAllowed dst dstPort) then (with_recv g sid s r, [])
                     else (case flow_socket (with_recv g sid s r) sid flowID dst dstPort now err of
                             None \<Rightarrow> (with_recv g sid s r, [])
                           | Some (g2, Inl err) \<Rightarrow> (g2, [])
                           | Some (g2, Inr c) \<Rightarrow> (g2, [UdpWrite c payload]))))"
        using Some no_pp no_p a by (simp add: handle_glue_frame_def Let_def)
      show thesis
      proof (cases "DecodeOutbound (f_payload f)")
        case (Inl x)
        have o: "g' = with_recv g sid s r" "outs = []" using e assms Inl by (simp_all split: if_splits)
        show thesis by (rule ignored [OF s, of r]) (use o in simp_all)
      next
        case (Inr x)
        note Inr' = Inr
        obtain j dst port payload where x: "x = (j, dst, port, payload)" by (metis prod_cases4)
        show thesis
        proof (cases "ok \<and> fst (Allowed pol dst) \<and> fst (DestinationAllowed dst port)")
          case False
          have o: "g' = with_recv g sid s r" "outs = []" using e assms Inr' x False by (simp_all split: if_splits)
          show thesis by (rule ignored [OF s, of r]) (use o in simp_all)
        next
          case True
          show thesis
          proof (cases "flow_socket (with_recv g sid s r) sid j dst port now err")
            case None
            have o: "g' = with_recv g sid s r" "outs = []" using e assms Inr' x True None by simp_all
            show thesis by (rule ignored [OF s, of r]) (use o in simp_all)
          next
            case (Some y)
            obtain g2 z where y: "y = (g2, z)" by force
            show thesis
            proof (cases z)
              case (Inl er)
              have o: "g2 = g'" "outs = []" using e assms Inr' x True Some y Inl by simp_all
              show thesis by (rule no_flow [OF s, of r j dst port er]) (use Some y Inl o in simp_all)
            next
              case (Inr c)
              have o: "g2 = g'" "outs = [UdpWrite c payload]" using e assms Inr' x True Some y Inr by simp_all
              show thesis by (rule relayed [OF s, of r j dst port payload c]) (use Inr' x True Some y Inr a o in simp_all)
            qed
          qed
        qed
      qed
    qed
  qed
qed

lemma handle_frame_inv: "srv_inv g \<Longrightarrow> srv_inv (fst (handle_glue_frame pol g sid w f now err))"
proof -
  assume i: "srv_inv g"
  obtain g' outs where h: "handle_glue_frame pol g sid w f now err = (g', outs)" by force
  have bc: "broadcastPing (with_recv g sid s r) sid n now = (g2, x) \<Longrightarrow> fmlookup (sessions g) sid = Some s \<Longrightarrow> srv_inv g2" for s r n g2 x
    using broadcast_inv [OF with_recv_inv [OF i, of sid s r]] unfolding broadcastPing_def by (metis fst_conv)
  from h have "srv_inv g'"
    by (cases rule: handle_frame_cases) (auto simp: i with_recv_inv intro: bc flow_socket_inv [OF with_recv_inv [OF i]])
  then show ?thesis using h by simp
qed

section \<open>The server as a state machine\<close>

datatype srv_op =
    AttachOp "nat \<Rightarrow> u64" peer nat bytes
  | WriterOp string nat nat
  | DetachOp string nat time
  | FrameOp policy string nat frame time "string option"
  | ReadOp nat read_result time
  | CleanOp time

definition srv_step :: "orders \<Rightarrow> server \<Rightarrow> srv_op \<Rightarrow> server" where
  "srv_step os g oper =
     (case oper of
        AttachOp rnd p conn hello \<Rightarrow> (case glue_setup os rnd g p conn hello of None \<Rightarrow> g | Some (g', b, r) \<Rightarrow> g')
      | WriterOp sid conn w \<Rightarrow> setWriter g sid conn w
      | DetachOp sid conn now \<Rightarrow> detachPath g sid conn now
      | FrameOp pol sid w f now err \<Rightarrow> fst (handle_glue_frame pol g sid w f now err)
      | ReadOp c res now \<Rightarrow> fst (readFlow g c res now)
      | CleanOp now \<Rightarrow> cleanupGlue os g now)"

lemma glue_setup_inv: "srv_inv g \<Longrightarrow> orders_ok os \<Longrightarrow> glue_setup os rnd g p conn hello = Some (g', b, r) \<Longrightarrow> srv_inv g'"
  by (auto simp: glue_setup_def Let_def split: option.splits prod.splits if_splits dest: attach_result)

lemma srv_step_inv: "srv_inv g \<Longrightarrow> orders_ok os \<Longrightarrow> srv_inv (srv_step os g oper)"
  by (cases oper)
    (auto simp: srv_step_def setWriter_inv detachPath_inv handle_frame_inv readFlow_inv cleanup_inv
      dest: glue_setup_inv split: option.split)

interpretation glue_server: guarded_system "srv_step os" "\<lambda>g. orders_ok os \<longrightarrow> srv_inv g" empty_server for os
  by unfold_locales (auto simp: empty_server_inv srv_step_inv)


section \<open>Joining a session\<close>

lemma attach_others:
  assumes i: "srv_inv g" and os: "orders_ok os" and a: "attachGluePath os rnd g sid p conn = Some (g', n, st)"
    and o: "sid' \<noteq> sid" "fmlookup (sessions g) sid' = Some s'" "KeyID (owner s') \<noteq> KeyID p \<or> gosize (gpaths s') \<noteq> 0"
  shows "fmlookup (sessions g') sid' = Some s'"
proof (cases "fmlookup (sessions g) sid")
  case (Some s)
  then show ?thesis using a o by (auto simp: attachGluePath_def join_session_def Let_def split: if_splits)
next
  case None
  obtain g1 ok where m: "makeRoomForSession os g (KeyID p) = (g1, ok)" by force
  note r = makeRoom_result [OF i os, of "KeyID p", unfolded m prod.case]
  have k: "fmlookup (sessions g1) sid' = Some s'" using r o by (auto split: if_splits)
  have f: "fmlookup (sessions (fst (join_session (put_session sid x g1\<lparr>nextSock := y\<rparr>) sid x p conn))) sid' = Some s'" for x y
    using o(1) k by (simp add: join_session_def Let_def)
  show ?thesis
  proof (cases "ok \<and> gosize (sessions g1) < maxGlueSessions")
    case False
    then show ?thesis using a None m k by (cases ok) (auto simp: attachGluePath_def)
  next
    case True
    then obtain e where e: "newEpoch rnd = Some e"
      using a None m by (cases "newEpoch rnd") (auto simp: attachGluePath_def)
    show ?thesis using a None m True e f [where x = "new_session g1 p e" and y = "Suc (nextSock g1)"]
      by (simp add: attachGluePath_def Let_def)
  qed
qed

lemma join_status:
  assumes "join_session g sid s p conn = (g', n, st)"
  shows "st = StatusRefused \<and> KeyID (owner s) \<noteq> KeyID p \<and> g' = g \<or>
     st = StatusBusy \<and> KeyID (owner s) = KeyID p \<and> maxPathsPerSession \<le> gosize (gpaths s) \<and> g' = g \<or>
     st = StatusOK \<and> KeyID (owner s) = KeyID p \<and> gosize (gpaths s) < maxPathsPerSession \<and>
       n = gosize (fmupd conn None (gpaths s)) \<and>
       fmlookup (sessions g') sid = Some (s\<lparr>gpaths := fmupd conn None (gpaths s), emptySince := 0\<rparr>)"
  using assms by (auto simp: join_session_def Let_def split: if_splits)

definition joined :: "server \<Rightarrow> string \<Rightarrow> peer \<Rightarrow> nat \<Rightarrow> nat \<Rightarrow> bool" where
  "joined g sid p conn n \<longleftrightarrow>
     (\<exists>s. fmlookup (sessions g) sid = Some s \<and> KeyID (owner s) = KeyID p \<and> fmlookup (gpaths s) conn = Some None \<and>
        n = gosize (gpaths s) \<and> n \<le> maxPathsPerSession \<and> emptySince s = 0 \<and> epoch s \<noteq> 0)"

definition busy :: "server \<Rightarrow> server \<Rightarrow> string \<Rightarrow> peer \<Rightarrow> bool" where
  "busy g g' sid p \<longleftrightarrow>
     (case fmlookup (sessions g) sid of
        Some s \<Rightarrow> KeyID (owner s) = KeyID p \<and> gosize (gpaths s) = maxPathsPerSession \<and> g' = g
      | None \<Rightarrow> gosize (sessions g') = maxGlueSessions \<or>
          owned (KeyID p) g = maxSessionsPerClient \<and> g' = g \<and>
          (\<nexists>sid' s'. fmlookup (sessions g) sid' = Some s' \<and> KeyID (owner s') = KeyID p \<and> gosize (gpaths s') = 0))"

lemma joinedI:
  assumes "srv_inv g'" "fmlookup (sessions g') sid = Some (s\<lparr>gpaths := fmupd conn None (gpaths s), emptySince := 0\<rparr>)"
    "KeyID (owner s) = KeyID p" "n = gosize (fmupd conn None (gpaths s))"
  shows "joined g' sid p conn n"
  using srv_invD(5) [OF assms(1,2)] assms unfolding joined_def sess_ok_def by simp

lemma attach_status:
  assumes i: "srv_inv g" and os: "orders_ok os" and a: "attachGluePath os rnd g sid p conn = Some (g', n, st)"
  shows "st = StatusOK \<and> joined g' sid p conn n \<or> st = StatusBusy \<and> busy g g' sid p \<or>
     st = StatusRefused \<and> g' = g \<and> (\<exists>s. fmlookup (sessions g) sid = Some s \<and> KeyID (owner s) \<noteq> KeyID p)"
proof (cases "fmlookup (sessions g) sid")
  case (Some s)
  have j: "join_session g sid s p conn = (g', n, st)" using a Some by (simp add: attachGluePath_def)
  show ?thesis
    using join_status [OF j] joinedI [where sid = sid and s = s and conn = conn and p = p and n = n, OF attach_result [OF assms]] Some paths_bound [OF i Some]
    by (auto simp: busy_def)
next
  case None
  obtain g1 ok where m: "makeRoomForSession os g (KeyID p) = (g1, ok)" by force
  note r = makeRoom_result [OF i os, of "KeyID p", unfolded m prod.case]
  show ?thesis
  proof (cases "ok \<and> gosize (sessions g1) < maxGlueSessions")
    case False
    have "gosize (sessions g1) \<le> maxGlueSessions" using r srv_invD(3) by blast
    then show ?thesis using False a None m r by (auto simp: attachGluePath_def busy_def split: if_splits)
  next
    case True
    then obtain e where e: "newEpoch rnd = Some e"
      using a None m by (cases "newEpoch rnd") (auto simp: attachGluePath_def)
    define s where "s = new_session g1 p e"
    have j: "join_session ((put_session sid s g1)\<lparr>nextSock := Suc (nextSock g1)\<rparr>) sid s p conn = (g', n, st)"
      using a None m True e by (simp add: attachGluePath_def Let_def s_def)
    have "KeyID (owner s) = KeyID p" "gosize (gpaths s) < maxPathsPerSession"
      by (simp_all add: s_def new_session_def maxPathsPerSession_def)
    then show ?thesis using join_status [OF j] joinedI [where sid = sid and s = s and conn = conn and p = p and n = n, OF attach_result [OF assms]] by auto
  qed
qed


section \<open>What is relayed\<close>

lemma flow_socket_bound:
  assumes "flow_socket g sid j dst port now err = Some (g', Inr c)"
  shows "\<exists>s f. fmlookup (sessions g') sid = Some s \<and> fmlookup (udpFlows s) j = Some f \<and> u_conn f = c \<and>
     u_dst f = (canon dst, port) \<and> u_lastSeen f = now"
  using assms
  by (auto simp: flow_socket_def open_flow_def reserve_cases closeFlow_def Let_def split: option.splits if_splits prod.splits)

text \<open>C11. A datagram leaves the server only for a frame that passed the duplicate and age filter and whose
  destination both filters allow, through an open socket that belongs to this flow of this session
  and is connected to exactly that destination, with the payload unchanged.\<close>

theorem relay_respects_policy:
  assumes "srv_inv g" "handle_glue_frame pol g sid w f now err = (g', outs)" "UdpWrite c payload \<in> set outs"
  shows "\<exists>s j dst port s' fl. fmlookup (sessions g) sid = Some s \<and> fst (snd (accept (g_recv s) now f)) \<and>
     DecodeOutbound (f_payload f) = Inr (j, dst, port, payload) \<and>
     fst (Allowed pol dst) \<and> fst (DestinationAllowed dst port) \<and>
     fmlookup (sessions g') sid = Some s' \<and> fmlookup (udpFlows s') j = Some fl \<and> u_conn fl = c \<and>
     u_dst fl = (canon dst, port) \<and> c |\<in>| openSocks g'"
  using assms(2)
proof (cases rule: handle_frame_cases)
  case (relayed s r j dst port payload' c')
  then have [simp]: "c' = c" "payload' = payload" using assms(3) by auto
  from flow_socket_bound [OF relayed(7)] obtain s' fl where
    b: "fmlookup (sessions g') sid = Some s'" "fmlookup (udpFlows s') j = Some fl" "u_conn fl = c" "u_dst fl = (canon dst, port)"
    by auto
  have "srv_inv g'" using handle_frame_inv [OF assms(1), of pol sid w f now err] assms(2) by simp
  then have "c |\<in>| openSocks g'" using srv_invD(5) [OF _ b(1)] b(2,3) by (auto simp: sess_ok_def)
  then show ?thesis using relayed b by auto
qed (use assms(3) in auto)

section \<open>A concrete run\<close>

definition sorted_orders :: orders where
  "sorted_orders = \<lparr>ord_sessions = sorted_order, ord_flows = sorted_order\<rparr>"

lemma sorted_orders_ok [simp]: "orders_ok sorted_orders"
  by (simp add: orders_ok_def sorted_orders_def)

definition alice :: peer where "alice = \<lparr>KeyID = ''a1'', PeerName = ''alice''\<rparr>"

text \<open>One client joins over one path, and sends one datagram to 9.9.9.9 port 27015.\<close>

definition sid0 :: string where "sid0 = hex_string (replicate SessionIDSize 0)"

definition joined_server :: server where
  "joined_server = foldl (srv_step sorted_orders) empty_server
     [AttachOp (\<lambda>_. 1) alice 7 (EncodeHello (replicate SessionIDSize 0))]"

text \<open>The frame carries flow 3 to 9.9.9.9, port 27015.\<close>

definition first_frame :: frame where
  "first_frame = \<lparr>f_seq = 0, f_ts = 0, f_payload = [1, 0, 3, 9, 9, 9, 9, 0x69, 0x87, 1, 2, 3]\<rparr>"

lemma joined_server_inv: "srv_inv joined_server"
  unfolding joined_server_def
  using glue_server.run_inv [of sorted_orders] sorted_orders_ok by blast

lemma room_in_empty: "makeRoomForSession sorted_orders empty_server k = (empty_server, True)"
  by (simp add: makeRoomForSession_def empty_server_def sorted_orders_def maxSessionsPerClient_def)

lemma newEpoch_one: "newEpoch (\<lambda>_. 1) = Some 1"
  by (rule newEpoch_first) simp

lemma attach_empty:
  "attachGluePath sorted_orders (\<lambda>_. 1) empty_server sid alice 7 =
     Some ((put_session sid ((new_session empty_server alice 1)\<lparr>gpaths := fmupd 7 None fmempty, emptySince := 0\<rparr>)
       empty_server)\<lparr>nextSock := 1\<rparr>, 1, StatusOK)"
proof -
  have "fmlookup (sessions empty_server) sid = None" "gosize (sessions empty_server) = 0" "nextSock empty_server = 0"
    by (simp_all add: empty_server_def)
  moreover have "gosize (gpaths (new_session empty_server alice 1)) = 0" "KeyID (owner (new_session empty_server alice 1)) = KeyID alice"
    "gpaths (new_session empty_server alice 1) = fmempty"
    by (simp_all add: new_session_def)
  moreover have "gosize (fmupd 7 None fmempty :: (nat, nat option) fmap) = 1" unfolding gosize_fmupd by simp
  ultimately show ?thesis
    by (simp add: attachGluePath_def room_in_empty newEpoch_one join_session_def Let_def maxGlueSessions_def maxPathsPerSession_def
       put_session_def)
qed

lemma sid0_bytes: "hex_string (replicate SessionIDSize 0) = sid0"
  by (simp add: sid0_def)

lemma joined_server_eq:
  "joined_server = (put_session sid0 ((new_session empty_server alice 1)\<lparr>gpaths := fmupd 7 None fmempty, emptySince := 0\<rparr>)
      empty_server)\<lparr>nextSock := 1\<rparr>"
proof -
  have "DecodeHello (EncodeHello (replicate SessionIDSize 0)) = Some (ProtocolVersion, replicate SessionIDSize 0)"
    by (rule hello_roundtrip) simp
  then show ?thesis
    unfolding joined_server_def srv_step_def glue_setup_def by (simp add: sid0_bytes attach_empty Let_def)
qed



theorem janitor_exact_witness:
  "fmlookup (sessions (cleanupGlue sorted_orders (detachPath joined_server sid0 7 5) (10 * minute))) sid0 = None"
proof -
  have i: "srv_inv (detachPath joined_server sid0 7 5)" by (rule detachPath_inv [OF joined_server_inv])
  obtain s where s: "fmlookup (sessions (detachPath joined_server sid0 7 5)) sid0 = Some s" "session_gone s (10 * minute)"
    by (simp add: joined_server_eq detachPath_def session_gone_def Let_def fmdrop_fmupd_same new_session_def
        glueSessionIdle_def minute_def time_sub_def)
  show ?thesis using janitor_exact [OF i sorted_orders_ok s(1), of "10 * minute"] s(2) by simp
qed

definition open_pol :: policy where "open_pol = \<lparr>AllowPrivate = True, own = {||}, extra = {||}\<rparr>"

lemma fresh_receiver_accepts: "0 \<le> age \<Longrightarrow> fst (snd (accept (NewReceiver age) now f))"
proof -
  assume a: "0 \<le> age"
  define raw where "raw = time_sub now (unix_milli (sint (f_ts f)))"
  define r where "r = track_offset (NewReceiver age) now raw"
  have "prevMinOffset r = raw" "curMinOffset r = raw" "maxAge r = age" "haveTop r = False" "maxAge (NewReceiver age) = age"
    by (simp_all add: r_def track_offset_def NewReceiver_def Let_def)
  then show ?thesis
    using a by (simp add: accept_def accept_seq_def Let_def raw_def [symmetric] r_def [symmetric] dur_wrap_def)
qed

lemma first_frame_decoded: "DecodeOutbound (f_payload first_frame) = Inr (3, [9, 9, 9, 9], 27015, [1, 2, 3])"
  by (simp add: DecodeOutbound_def first_frame_def msgOutbound_def slice_def be_get_def)

lemma nine_allowed: "fst (Allowed open_pol [9, 9, 9, 9])" "fst (DestinationAllowed [9, 9, 9, 9] 27015)"
proof -
  have v: "To4 [9, 9, 9, 9] = [9, 9, 9, 9]" by (simp add: To4_def)
  have "hd (replicate 4 (0::byte)) \<noteq> hd [9, 9, 9, 9]" by simp
  then have z: "replicate 4 (0::byte) \<noteq> [9, 9, 9, 9]" by metis
  have "\<not> ip_equal [9, 9, 9, 9] IPv4zero" "\<not> ip_equal [9, 9, 9, 9] IPv6unspecified" "\<not> ip_equal [9, 9, 9, 9] IPv4bcast"
    by (simp_all add: ip_equal_def IPv4zero_def IPv4_def v4_prefix_def IPv6unspecified_def IPv4bcast_def z)
  then show "fst (Allowed open_pol [9, 9, 9, 9])"
    by (subst Allowed_step) (simp add: embedded_of_4 forbidden_def open_pol_def v IsUnspecified_def IsLoopback_def IsLinkLocalUnicast_def
        IsLinkLocalMulticast_def IsMulticast_def Let_def)
  show "fst (DestinationAllowed [9, 9, 9, 9] 27015)"
    by (simp add: DestinationAllowed_def v IsLoopback_def IsLinkLocalUnicast_def IsLinkLocalMulticast_def IsMulticast_def
      Let_def blockedPorts_def)
qed

lemma new_flow_relayed:
  assumes d: "DecodeOutbound (f_payload f) = Inr (j, [9, 9, 9, 9], 27015, p)"
  shows "\<exists>g' c. handle_glue_frame open_pol joined_server sid0 0 f (1000 * sec) None = (g', [UdpWrite c p])"
proof -
  define s where "s = (new_session empty_server alice 1)\<lparr>gpaths := fmupd 7 None fmempty, emptySince := 0\<rparr>"
  have s: "fmlookup (sessions joined_server) sid0 = Some s" "g_recv s = NewReceiver (150 * ms)" "udpFlows s = fmempty"
    "totalFlows joined_server = 0"
    by (simp_all add: joined_server_eq s_def new_session_def empty_server_def)
  obtain r reason where a: "accept (NewReceiver (150 * ms)) (1000 * sec) f = (r, True, reason)"
    using fresh_receiver_accepts [of "150 * ms" "1000 * sec" f] by (cases "accept (NewReceiver (150 * ms)) (1000 * sec) f") (auto simp: ms_def)
  define g where "g = with_recv joined_server sid0 s r"
  have g: "fmlookup (sessions g) sid0 = Some (s\<lparr>g_recv := r\<rparr>)" "totalFlows g = 0"
    by (simp_all add: g_def with_recv_def s)
  obtain g' c where fl: "flow_socket g sid0 j [9, 9, 9, 9] 27015 (1000 * sec) None = Some (g', Inr c)"
    by (simp add: flow_socket_def g s open_flow_def reserve_cases maxTotalFlows_def maxFlowsPerSession_def Let_def)
  have "\<not> IsPathPing (f_payload f)" "\<not> IsPing (f_payload f)"
    using d by (auto simp: DecodeOutbound_def IsPathPing_def IsPing_def msgOutbound_def msgPathPing_def msgPing_def split: if_splits)
  then show ?thesis
    using fl nine_allowed unfolding handle_glue_frame_def g_def
    by (simp add: s a d Let_def)
qed

lemmas first_frame_relayed = new_flow_relayed [OF first_frame_decoded]

theorem relay_respects_policy_witness:
  "\<exists>g' c s' j fl. fst (handle_glue_frame open_pol joined_server sid0 0 first_frame (1000 * sec) None) = g' \<and>
     fmlookup (sessions g') sid0 = Some s' \<and> fmlookup (udpFlows s') j = Some fl \<and> u_conn fl = c \<and> c |\<in>| openSocks g'"
proof -
  obtain g' c where h: "handle_glue_frame open_pol joined_server sid0 0 first_frame (1000 * sec) None = (g', [UdpWrite c [1, 2, 3]])"
    using first_frame_relayed by blast
  have "UdpWrite c [1, 2, 3] \<in> set [UdpWrite c [1, 2, 3]]" by simp
  from relay_respects_policy [OF joined_server_inv h this] show ?thesis using h by auto
qed

end
