(* ===== verification/Bans.thy ===== *)
theory Bans
  imports Auth "HOL-Library.List_Lexorder" "HOL-Library.Char_ord"
begin

text \<open>
  cmd/server/auth.go: bans of addresses after failed logins. The five maps of \<^verbatim>\<open>authFailures\<close> are
  the fields of \<open>bans\<close>. The reference definition is one small state per address (\<open>ip_step\<close>): the
  maps are shown to implement it, for every address independently of all the others.
\<close>

definition maxAuthFailures :: nat where "maxAuthFailures = 3"
definition authBanDuration :: duration where "authBanDuration = 10 * minute"
definition authFailureMemory :: duration where "authFailureMemory = 30 * minute"
definition authTrustAfterSuccess :: duration where "authTrustAfterSuccess = 24 * 60 * minute"

record bans =
  failcount :: "(string, nat) fmap"
  lastFailure :: "(string, time) fmap"
  bannedUntil :: "(string, time) fmap"
  banLogged :: "(string, unit) fmap"        \<comment> \<open>a Go map to bool that only ever holds true\<close>
  lastSuccess :: "(string, time) fmap"

definition no_bans :: bans where
  "no_bans = \<lparr>failcount = fmempty, lastFailure = fmempty, bannedUntil = fmempty, banLogged = fmempty, lastSuccess = fmempty\<rparr>"

text \<open>\<^verbatim>\<open>authIP\<close>, on the text of the remote address.\<close>

definition authIP :: "string \<Rightarrow> string" where
  "authIP remote = (case SplitHostPort remote of None \<Rightarrow> remote | Some (host, port) \<Rightarrow> host)"

definition banKey :: "string \<Rightarrow> string" where
  "banKey ip =
     (let parsed = ParseIP ip in
      if parsed = [] \<or> To4 parsed \<noteq> [] then ip
      else ip_string (net_ip (cidr parsed 64)) @ ''/64'')"

definition clearBan :: "bans \<Rightarrow> string \<Rightarrow> bans" where
  "clearBan b ip = b\<lparr>bannedUntil := fmdrop ip (bannedUntil b), failcount := fmdrop ip (failcount b),
     lastFailure := fmdrop ip (lastFailure b), banLogged := fmdrop ip (banLogged b)\<rparr>"

text \<open>The result: the end of the ban, if there is one, and whether this is its first rejection.\<close>

definition checkAuthBan :: "bans \<Rightarrow> string \<Rightarrow> time \<Rightarrow> bans \<times> (time \<times> bool) option" where
  "checkAuthBan b ip now =
     (case fmlookup (bannedUntil b) ip of
        None \<Rightarrow> (b, None)
      | Some until \<Rightarrow>
          if until < now then (clearBan b ip, None)
          else (b\<lparr>banLogged := fmupd ip () (banLogged b)\<rparr>, Some (until, fmlookup (banLogged b) ip = None)))"

definition recordAuthFailure :: "bans \<Rightarrow> string \<Rightarrow> time \<Rightarrow> bans" where
  "recordAuthFailure b ip now =
     (let n = goget (failcount b) ip 0 + 1;
          b1 = b\<lparr>failcount := fmupd ip n (failcount b), lastFailure := fmupd ip now (lastFailure b)\<rparr>
      in if n < maxAuthFailures then b1
         else if (case fmlookup (lastSuccess b1) ip of
                    Some prev \<Rightarrow> time_sub now prev < authTrustAfterSuccess
                  | None \<Rightarrow> False) then b1
         else b1\<lparr>bannedUntil := fmupd ip (now + authBanDuration) (bannedUntil b1)\<rparr>)"

definition recordAuthSuccess :: "bans \<Rightarrow> string \<Rightarrow> time \<Rightarrow> bans" where
  "recordAuthSuccess b ip now = (clearBan b ip)\<lparr>lastSuccess := fmupd ip now (lastSuccess b)\<rparr>"

text \<open>The three loops of the cleanup, each over one map in any order.\<close>

definition expire_ban :: "time \<Rightarrow> bans \<Rightarrow> string \<Rightarrow> bans" where
  "expire_ban now b ip =
     (case fmlookup (bannedUntil b) ip of
        Some until \<Rightarrow> if until < now then clearBan b ip else b
      | None \<Rightarrow> b)"

definition forget_failures :: "time \<Rightarrow> bans \<Rightarrow> string \<Rightarrow> bans" where
  "forget_failures now b ip =
     (case fmlookup (lastFailure b) ip of
        Some prev \<Rightarrow>
          if fmlookup (bannedUntil b) ip = None \<and> authFailureMemory < time_sub now prev
          then b\<lparr>lastFailure := fmdrop ip (lastFailure b), failcount := fmdrop ip (failcount b)\<rparr>
          else b
      | None \<Rightarrow> b)"

definition cleanupAuthFailures :: "((string, time) fmap \<Rightarrow> string list) \<Rightarrow> bans \<Rightarrow> time \<Rightarrow> bans" where
  "cleanupAuthFailures ord b now =
     (let b1 = foldl (expire_ban now) b (ord (bannedUntil b));
          b2 = foldl (forget_failures now) b1 (ord (lastFailure b1))
      in b2\<lparr>lastSuccess := range_delete (\<lambda>ip prev. authTrustAfterSuccess < time_sub now prev)
              (ord (lastSuccess b2)) (lastSuccess b2)\<rparr>)"

section \<open>One address at a time\<close>

record ip_state =
  fails :: nat
  last_fail :: "time option"
  banned_until :: "time option"
  logged :: bool
  last_ok :: "time option"

definition fresh_ip :: ip_state where
  "fresh_ip = \<lparr>fails = 0, last_fail = None, banned_until = None, logged = False, last_ok = None\<rparr>"

definition forgiven :: "ip_state \<Rightarrow> ip_state" where
  "forgiven s = s\<lparr>fails := 0, last_fail := None, banned_until := None, logged := False\<rparr>"

datatype ban_event = Check string time | Fail string time | Success string time | Cleanup time

fun ev_time :: "ban_event \<Rightarrow> time" where
  "ev_time (Check _ t) = t" | "ev_time (Fail _ t) = t" | "ev_time (Success _ t) = t" | "ev_time (Cleanup t) = t"

definition trusted :: "ip_state \<Rightarrow> time \<Rightarrow> bool" where
  "trusted s now = (case last_ok s of Some prev \<Rightarrow> time_sub now prev < authTrustAfterSuccess | None \<Rightarrow> False)"

definition expired :: "ip_state \<Rightarrow> time \<Rightarrow> bool" where
  "expired s now = (case banned_until s of Some until \<Rightarrow> until < now | None \<Rightarrow> False)"

definition ip_forget :: "time \<Rightarrow> ip_state \<Rightarrow> ip_state" where
  "ip_forget now s =
     (case last_fail s of
        Some prev \<Rightarrow> if banned_until s = None \<and> authFailureMemory < time_sub now prev
                     then s\<lparr>fails := 0, last_fail := None\<rparr> else s
      | None \<Rightarrow> s)"

definition ip_cleanup :: "time \<Rightarrow> ip_state \<Rightarrow> ip_state" where
  "ip_cleanup now s =
     (let s2 = ip_forget now (if expired s now then forgiven s else s)
      in case last_ok s2 of
           Some prev \<Rightarrow> if authTrustAfterSuccess < time_sub now prev then s2\<lparr>last_ok := None\<rparr> else s2
         | None \<Rightarrow> s2)"

definition ip_step :: "string \<Rightarrow> ip_state \<Rightarrow> ban_event \<Rightarrow> ip_state" where
  "ip_step ip s e =
     (case e of
        Check a now \<Rightarrow>
          if a \<noteq> ip \<or> banned_until s = None then s
          else if expired s now then forgiven s else s\<lparr>logged := True\<rparr>
      | Fail a now \<Rightarrow>
          if a \<noteq> ip then s
          else
            let s1 = s\<lparr>fails := fails s + 1, last_fail := Some now\<rparr> in
            if fails s1 < maxAuthFailures \<or> trusted s1 now then s1
            else s1\<lparr>banned_until := Some (now + authBanDuration)\<rparr>
      | Success a now \<Rightarrow> if a \<noteq> ip then s else (forgiven s)\<lparr>last_ok := Some now\<rparr>
      | Cleanup now \<Rightarrow> ip_cleanup now s)"

definition ban_step :: "((string, time) fmap \<Rightarrow> string list) \<Rightarrow> bans \<Rightarrow> ban_event \<Rightarrow> bans" where
  "ban_step ord b e =
     (case e of
        Check a now \<Rightarrow> fst (checkAuthBan b a now)
      | Fail a now \<Rightarrow> recordAuthFailure b a now
      | Success a now \<Rightarrow> recordAuthSuccess b a now
      | Cleanup now \<Rightarrow> cleanupAuthFailures ord b now)"

definition ip_view :: "bans \<Rightarrow> string \<Rightarrow> ip_state" where
  "ip_view b ip = \<lparr>fails = goget (failcount b) ip 0, last_fail = fmlookup (lastFailure b) ip,
     banned_until = fmlookup (bannedUntil b) ip, logged = (fmlookup (banLogged b) ip \<noteq> None),
     last_ok = fmlookup (lastSuccess b) ip\<rparr>"

lemma ip_view_eq:
  "ip_view b ip = s \<longleftrightarrow> goget (failcount b) ip 0 = fails s \<and> fmlookup (lastFailure b) ip = last_fail s \<and>
     fmlookup (bannedUntil b) ip = banned_until s \<and> (fmlookup (banLogged b) ip \<noteq> None) = logged s \<and>
     fmlookup (lastSuccess b) ip = last_ok s"
  by (cases s) (auto simp: ip_view_def)

lemma ip_view_sel [simp]:
  "fails (ip_view b ip) = goget (failcount b) ip 0" "last_fail (ip_view b ip) = fmlookup (lastFailure b) ip"
  "banned_until (ip_view b ip) = fmlookup (bannedUntil b) ip" "logged (ip_view b ip) \<longleftrightarrow> fmlookup (banLogged b) ip \<noteq> None"
  "last_ok (ip_view b ip) = fmlookup (lastSuccess b) ip"
  by (simp_all add: ip_view_def)

lemma view_clear: "ip_view (clearBan b a) ip = (if a = ip then forgiven (ip_view b ip) else ip_view b ip)"
  by (simp add: ip_view_eq clearBan_def forgiven_def)

lemma view_check: "ip_view (fst (checkAuthBan b a now)) ip = ip_step ip (ip_view b ip) (Check a now)"
proof (cases "fmlookup (bannedUntil b) a")
  case None
  then show ?thesis by (auto simp: checkAuthBan_def ip_step_def)
next
  case (Some until)
  then show ?thesis
    by (cases "until < now") (auto simp: checkAuthBan_def ip_step_def view_clear expired_def ip_view_eq)
qed

lemma view_fail: "ip_view (recordAuthFailure b a now) ip = ip_step ip (ip_view b ip) (Fail a now)"
  by (auto simp: recordAuthFailure_def ip_step_def ip_view_eq Let_def trusted_def)

lemma view_success: "ip_view (recordAuthSuccess b a now) ip = ip_step ip (ip_view b ip) (Success a now)"
  by (auto simp: recordAuthSuccess_def ip_step_def ip_view_eq clearBan_def forgiven_def)

text \<open>A loop that changes only the address at hand, on distinct addresses.\<close>

lemma view_loop:
  assumes other: "\<And>b a. a \<noteq> ip \<Longrightarrow> ip_view (f b a) ip = ip_view b ip"
    and same: "\<And>b. ip_view (f b ip) ip = g (ip_view b ip)"
  shows "distinct as \<Longrightarrow> ip_view (foldl f b as) ip = (if ip \<in> set as then g (ip_view b ip) else ip_view b ip)"
proof (induction as arbitrary: b)
  case (Cons a as)
  then show ?case by (cases "a = ip") (simp_all add: same other)
qed simp

lemma expire_view:
  "ip_view (expire_ban now b a) ip =
     (if a = ip \<and> expired (ip_view b ip) now then forgiven (ip_view b ip) else ip_view b ip)"
  by (cases "fmlookup (bannedUntil b) a") (auto simp: expire_ban_def view_clear expired_def)

lemma forget_view:
  "ip_view (forget_failures now b a) ip = (if a = ip then ip_forget now (ip_view b ip) else ip_view b ip)"
  by (cases "fmlookup (lastFailure b) a") (auto simp: forget_failures_def ip_forget_def ip_view_eq)

lemma view_cleanup:
  assumes ord: "range_order ord"
  shows "ip_view (cleanupAuthFailures ord b now) ip = ip_cleanup now (ip_view b ip)"
proof -
  define b1 where "b1 = foldl (expire_ban now) b (ord (bannedUntil b))"
  define b2 where "b2 = foldl (forget_failures now) b1 (ord (lastFailure b1))"
  have v1: "ip_view b1 ip = (if expired (ip_view b ip) now then forgiven (ip_view b ip) else ip_view b ip)"
    unfolding b1_def
    using view_loop [of ip "expire_ban now" "\<lambda>s. if expired s now then forgiven s else s" "ord (bannedUntil b)" b]
      range_order_set [OF ord, of ip "bannedUntil b"] range_order_distinct [OF ord, of "bannedUntil b"]
    by (auto simp: expire_view expired_def split: option.splits)
  have v2: "ip_view b2 ip = ip_forget now (ip_view b1 ip)"
    unfolding b2_def
    using view_loop [of ip "forget_failures now" "ip_forget now" "ord (lastFailure b1)" b1]
      range_order_set [OF ord, of ip "lastFailure b1"] range_order_distinct [OF ord, of "lastFailure b1"]
    by (auto simp: forget_view ip_forget_def split: option.splits)
  define m where "m = range_delete (\<lambda>ip prev. authTrustAfterSuccess < time_sub now prev) (ord (lastSuccess b2)) (lastSuccess b2)"
  have c: "cleanupAuthFailures ord b now = b2\<lparr>lastSuccess := m\<rparr>"
    by (simp add: cleanupAuthFailures_def Let_def b1_def b2_def m_def)
  have m: "fmlookup m ip = (case fmlookup (lastSuccess b2) ip of None \<Rightarrow> None
      | Some prev \<Rightarrow> if authTrustAfterSuccess < time_sub now prev then None else Some prev)"
    unfolding m_def by (rule fmlookup_range_delete [OF ord])
  have "ip_view (cleanupAuthFailures ord b now) ip =
      (case last_ok (ip_view b2 ip) of
         Some prev \<Rightarrow> if authTrustAfterSuccess < time_sub now prev then (ip_view b2 ip)\<lparr>last_ok := None\<rparr> else ip_view b2 ip
       | None \<Rightarrow> ip_view b2 ip)"
    unfolding c by (auto simp: ip_view_def m split: option.split)
  then show ?thesis by (simp only: v2 v1 ip_cleanup_def Let_def)
qed

lemma view_empty: "ip_view no_bans ip = fresh_ip"
  by (simp add: ip_view_def no_bans_def fresh_ip_def)

lemma view_step: "range_order ord \<Longrightarrow> ip_view (ban_step ord b e) ip = ip_step ip (ip_view b ip) e"
  by (cases e) (simp_all add: ban_step_def view_check view_fail view_success view_cleanup, simp add: ip_step_def)

lemma view_run_from: "range_order ord \<Longrightarrow> ip_view (foldl (ban_step ord) b es) ip = foldl (ip_step ip) (ip_view b ip) es"
  by (induction es arbitrary: b) (simp_all add: view_step)

text \<open>C6. The five shared maps, cleaned up in any iteration order, keep for every address exactly the state its
  own events lead to: the failures, logins and rejections of one address never touch another.\<close>

theorem bans_per_address:
  assumes "range_order ord"
  shows "ip_view (foldl (ban_step ord) no_bans es) ip = foldl (ip_step ip) fresh_ip es"
  using view_run_from [OF assms] by (simp add: view_empty)

section \<open>A ban is earned\<close>

definition is_success :: "string \<Rightarrow> ban_event \<Rightarrow> bool" where
  "is_success ip e = (case e of Success a _ \<Rightarrow> a = ip | _ \<Rightarrow> False)"

definition is_fail :: "string \<Rightarrow> ban_event \<Rightarrow> bool" where
  "is_fail ip e = (case e of Fail a _ \<Rightarrow> a = ip | _ \<Rightarrow> False)"

text \<open>The failures of an address after its last login.\<close>

definition failures_since :: "string \<Rightarrow> ban_event list \<Rightarrow> nat" where
  "failures_since ip es = length (filter (is_fail ip) (takeWhile (\<lambda>e. \<not> is_success ip e) (rev es)))"

lemma failures_since_simps [simp]:
  "failures_since ip [] = 0"
  "failures_since ip (es @ [e]) =
     (if is_success ip e then 0 else if is_fail ip e then Suc (failures_since ip es) else failures_since ip es)"
  by (simp_all add: failures_since_def)

definition remembers :: "string \<Rightarrow> ip_state \<Rightarrow> ban_event list \<Rightarrow> bool" where
  "remembers ip st es \<longleftrightarrow>
     (\<forall>s. Success ip s \<in> set es \<longrightarrow>
        (\<exists>l. last_ok st = Some l \<and> s \<le> l) \<or> s + authTrustAfterSuccess < ev_time (List.last es))"

definition ban_sound :: "string \<Rightarrow> ip_state \<Rightarrow> ban_event list \<Rightarrow> bool" where
  "ban_sound ip st es \<longleftrightarrow>
     (\<forall>u. banned_until st = Some u \<longrightarrow> maxAuthFailures \<le> fails st \<and> Fail ip (u - authBanDuration) \<in> set es \<and>
        (\<forall>s. Success ip s \<in> set es \<longrightarrow> s + authTrustAfterSuccess \<le> u - authBanDuration))"

lemma forgiven_sel [simp]:
  "fails (forgiven s) = 0" "last_fail (forgiven s) = None" "banned_until (forgiven s) = None" "last_ok (forgiven s) = last_ok s"
  by (simp_all add: forgiven_def)

lemma trust_bounds: "0 \<le> authTrustAfterSuccess" "authTrustAfterSuccess < 2 ^ 63 - 1" "authTrustAfterSuccess \<le> 2 ^ 63 - 1"
  by (simp_all add: authTrustAfterSuccess_def minute_def)

text \<open>What a cleanup does to the state of one address.\<close>

lemma ip_forget_sel:
  "fails (ip_forget now s) \<le> fails s" "banned_until (ip_forget now s) = banned_until s" "last_ok (ip_forget now s) = last_ok s"
  "banned_until s \<noteq> None \<Longrightarrow> ip_forget now s = s"
  by (auto simp: ip_forget_def split: option.split)

lemma ip_cleanup_cases:
  obtains (kept) s2 where "s2 = ip_forget now (if expired s now then forgiven s else s)" "last_ok s2 = last_ok s"
    "ip_cleanup now s = s2" "\<And>l. last_ok s = Some l \<Longrightarrow> \<not> authTrustAfterSuccess < time_sub now l"
  | (distrusted) s2 l where "s2 = ip_forget now (if expired s now then forgiven s else s)" "last_ok s = Some l"
    "authTrustAfterSuccess < time_sub now l" "ip_cleanup now s = s2\<lparr>last_ok := None\<rparr>"
proof -
  define s2 where "s2 = ip_forget now (if expired s now then forgiven s else s)"
  have l: "last_ok s2 = last_ok s" by (simp add: s2_def ip_forget_sel)
  have c: "ip_cleanup now s = (case last_ok s of
      Some prev \<Rightarrow> if authTrustAfterSuccess < time_sub now prev then s2\<lparr>last_ok := None\<rparr> else s2 | None \<Rightarrow> s2)"
    unfolding ip_cleanup_def Let_def s2_def [symmetric] l ..
  show thesis
  proof (cases "\<exists>l. last_ok s = Some l \<and> authTrustAfterSuccess < time_sub now l")
    case True
    then obtain l where "last_ok s = Some l" "authTrustAfterSuccess < time_sub now l" by blast
    then show thesis using c by (intro distrusted [OF s2_def]) simp_all
  next
    case False
    then show thesis using c by (intro kept [OF s2_def l]) (auto split: option.splits)
  qed
qed

lemma ip_cleanup_sel:
  "fails (ip_cleanup now s) \<le> fails s"
  "banned_until (ip_cleanup now s) = (if expired s now then None else banned_until s)"
  "banned_until (ip_cleanup now s) \<noteq> None \<Longrightarrow> fails (ip_cleanup now s) = fails s"
  "last_ok (ip_cleanup now s) = (case last_ok s of None \<Rightarrow> None
     | Some l \<Rightarrow> if authTrustAfterSuccess < time_sub now l then None else Some l)"
  using ip_forget_sel [where now = now and s = "if expired s now then forgiven s else s"]
  by (cases rule: ip_cleanup_cases [where now = now and s = s]; cases "expired s now"; auto split: option.split)+

lemma fails_counted: "fails (foldl (ip_step ip) fresh_ip es) \<le> failures_since ip es"
proof (induction es rule: rev_induct)
  case Nil
  show ?case by (simp add: fresh_ip_def)
next
  case (snoc e es)
  define st where "st = foldl (ip_step ip) fresh_ip es"
  have "fails (ip_step ip st e) \<le> failures_since ip (es @ [e])" if "fails st \<le> failures_since ip es"
    using that ip_cleanup_sel(1) [where now = "ev_time e" and s = st]
    by (cases e) (auto simp: ip_step_def is_success_def is_fail_def Let_def)
  then show ?case using snoc by (simp add: st_def)
qed

lemma remembers_snoc:
  assumes r: "remembers ip st es" and t: "\<And>e'. e' \<in> set es \<Longrightarrow> ev_time e' \<le> ev_time e"
  shows "remembers ip (ip_step ip st e) (es @ [e])"
proof -
  have old: "(\<exists>l. last_ok st = Some l \<and> s \<le> l) \<or> s + authTrustAfterSuccess < ev_time e" if "Success ip s \<in> set es" for s
  proof -
    have "es \<noteq> []" using that by auto
    then have "ev_time (List.last es) \<le> ev_time e" using t by simp
    then show ?thesis using r that unfolding remembers_def by force
  qed
  have tm: "s \<le> ev_time e" if "Success ip s \<in> set es" for s using t [OF that] by simp
  show ?thesis
  proof (cases e)
    case (Check a now)
    then have "last_ok (ip_step ip st e) = last_ok st" by (simp add: ip_step_def)
    then show ?thesis using old Check by (simp add: remembers_def)
  next
    case (Fail a now)
    then have "last_ok (ip_step ip st e) = last_ok st" by (simp add: ip_step_def Let_def)
    then show ?thesis using old Fail by (simp add: remembers_def)
  next
    case (Success a now)
    then show ?thesis using old tm by (auto simp: remembers_def ip_step_def)
  next
    case (Cleanup now)
    then have l: "last_ok (ip_step ip st e) = (case last_ok st of None \<Rightarrow> None
       | Some l \<Rightarrow> if authTrustAfterSuccess < time_sub now l then None else Some l)"
      by (simp add: ip_step_def ip_cleanup_sel)
    show ?thesis
    proof (cases "last_ok st")
      case None
      then show ?thesis using old Cleanup by (simp add: remembers_def)
    next
      case (Some l')
      have "authTrustAfterSuccess < time_sub now l' \<Longrightarrow> l' + authTrustAfterSuccess < now"
        using time_sub_gt [OF trust_bounds(1,2), of now l'] by simp
      then show ?thesis using old Cleanup l Some by (fastforce simp: remembers_def)
    qed
  qed
qed

lemma ban_sound_mono:
  "ban_sound ip st es \<Longrightarrow> fails st \<le> fails st' \<Longrightarrow> banned_until st' = banned_until st \<Longrightarrow> \<not> is_success ip e \<Longrightarrow> ban_sound ip st' (es @ [e])"
  by (auto simp: ban_sound_def is_success_def)

lemma ban_sound_none: "banned_until st = None \<Longrightarrow> ban_sound ip st es"
  by (simp add: ban_sound_def)

lemma ban_sound_snoc:
  assumes b: "ban_sound ip st es" and r: "remembers ip st es" and t: "\<And>e'. e' \<in> set es \<Longrightarrow> ev_time e' \<le> ev_time e"
  shows "ban_sound ip (ip_step ip st e) (es @ [e])"
proof (cases e)
  case (Check a now)
  then show ?thesis using ban_sound_mono [OF b] ban_sound_none
    by (auto simp: ip_step_def is_success_def)
next
  case (Success a now)
  then show ?thesis using ban_sound_mono [OF b] ban_sound_none
    by (cases "a = ip") (auto simp: ip_step_def is_success_def)
next
  case (Cleanup now)
  show ?thesis
  proof (cases "banned_until (ip_cleanup now st)")
    case None
    then show ?thesis using ban_sound_none Cleanup by (simp add: ip_step_def)
  next
    case (Some u)
    then have "fails (ip_cleanup now st) = fails st" "banned_until (ip_cleanup now st) = banned_until st"
      using ip_cleanup_sel(2,3) [where now = now and s = st] by (auto split: if_splits)
    then show ?thesis using ban_sound_mono [OF b] Cleanup by (simp add: ip_step_def is_success_def)
  qed
next
  case (Fail a now)
  define s1 where "s1 = st\<lparr>fails := fails st + 1, last_fail := Some now\<rparr>"
  have s1: "fails s1 = fails st + 1" "last_ok s1 = last_ok st" "banned_until s1 = banned_until st" by (simp_all add: s1_def)
  have st: "ip_step ip st e = (if a \<noteq> ip then st else if fails s1 < maxAuthFailures \<or> trusted s1 now then s1
      else s1\<lparr>banned_until := Some (now + authBanDuration)\<rparr>)"
    using Fail by (simp add: ip_step_def Let_def s1_def)
  have s: "ban_sound ip s1 (es @ [e])" "ban_sound ip st (es @ [e])"
    using ban_sound_mono [OF b, of _ e] s1 Fail by (simp_all add: is_success_def)
  have "ban_sound ip (s1\<lparr>banned_until := Some (now + authBanDuration)\<rparr>) (es @ [e])"
    if n: "\<not> fails s1 < maxAuthFailures" "\<not> trusted s1 now" and a: "a = ip"
  proof -
    have "s + authTrustAfterSuccess \<le> now" if "Success ip s \<in> set es" for s
    proof -
      have "es \<noteq> []" using that by auto
      then have "ev_time (List.last es) \<le> now" using t [of "List.last es"] Fail by simp
      moreover have "l + authTrustAfterSuccess \<le> now" if "last_ok st = Some l" for l
        using n(2) that s1(2) time_sub_ge [OF trust_bounds(1,3), of now l] by (simp add: trusted_def not_less)
      ultimately show ?thesis using r that unfolding remembers_def by force
    qed
    then show ?thesis using n a Fail by (simp add: ban_sound_def)
  qed
  then show ?thesis using s st by auto
qed

lemma ban_history:
  "sorted (map ev_time es) \<Longrightarrow>
     remembers ip (foldl (ip_step ip) fresh_ip es) es \<and> ban_sound ip (foldl (ip_step ip) fresh_ip es) es"
proof (induction es rule: rev_induct)
  case Nil
  show ?case by (simp add: remembers_def ban_sound_def fresh_ip_def)
next
  case (snoc e es)
  have "sorted (map ev_time es)" "\<And>e'. e' \<in> set es \<Longrightarrow> ev_time e' \<le> ev_time e"
    using snoc.prems by (auto simp: sorted_append)
  with snoc.IH remembers_snoc [of ip _ es e] ban_sound_snoc [of ip _ es e] show ?case by simp
qed

text \<open>C13. Whatever happened before, an address is rejected as banned only until ten minutes after a failed
  login of its own, which was at least the third since its last successful one, and no successful
  login came later than 24 hours before that failure: one wrong key behind a shared address with a
  recent login does not lock the others out.\<close>

theorem ban_is_earned:
  assumes "range_order ord" "sorted (map ev_time es)"
    "snd (checkAuthBan (foldl (ban_step ord) no_bans es) ip now) = Some (until, isfirst)"
  shows "now \<le> until \<and> Fail ip (until - authBanDuration) \<in> set es \<and> maxAuthFailures \<le> failures_since ip es \<and>
     (\<nexists>s. Success ip s \<in> set es \<and> until - authBanDuration < s + authTrustAfterSuccess)"
proof -
  define st where "st = foldl (ip_step ip) fresh_ip es"
  have v: "ip_view (foldl (ban_step ord) no_bans es) ip = st"
    using view_run_from [OF assms(1), of no_bans es ip] by (simp add: view_empty st_def)
  have u: "banned_until st = Some until" "now \<le> until"
    using assms(3) unfolding v [symmetric] by (auto simp: checkAuthBan_def split: option.splits if_splits)
  show ?thesis
    using u ban_history [OF assms(2), of ip] fails_counted [of ip es] unfolding st_def [symmetric] ban_sound_def by force
qed

definition three_strikes :: "ban_event list" where
  "three_strikes = [Fail ''9.9.9.9'' (sec), Fail ''9.9.9.9'' (2 * sec), Fail ''9.9.9.9'' (3 * sec)]"

theorem bans_per_address_witness:
  "ip_view (foldl (ban_step sorted_order) no_bans three_strikes) ''1.2.3.4'' = fresh_ip"
  using bans_per_address [OF sorted_order_range, of three_strikes "''1.2.3.4''"]
  by (simp add: three_strikes_def ip_step_def)

theorem ban_is_earned_witness:
  "Fail ''9.9.9.9'' (3 * sec) \<in> set three_strikes \<and> maxAuthFailures \<le> failures_since ''9.9.9.9'' three_strikes"
proof -
  have "banned_until (ip_view (foldl (ban_step sorted_order) no_bans three_strikes) ''9.9.9.9'') = Some (3 * sec + authBanDuration)"
    using view_run_from [OF sorted_order_range, of no_bans three_strikes "''9.9.9.9''"]
    by (simp add: view_empty three_strikes_def ip_step_def fresh_ip_def Let_def maxAuthFailures_def trusted_def)
  then have c: "snd (checkAuthBan (foldl (ban_step sorted_order) no_bans three_strikes) ''9.9.9.9'' (4 * sec)) =
      Some (3 * sec + authBanDuration, snd (the (snd (checkAuthBan (foldl (ban_step sorted_order) no_bans three_strikes) ''9.9.9.9'' (4 * sec)))))"
    by (simp add: checkAuthBan_def authBanDuration_def minute_def sec_def)
  have "sorted (map ev_time three_strikes)" by (simp add: three_strikes_def sec_def)
  from ban_is_earned [OF sorted_order_range this c] show ?thesis by simp
qed

section \<open>Letting a connection in\<close>

text \<open>\<^verbatim>\<open>checkAuth\<close>: \<open>keys\<close> is \<open>None\<close> when auth is off; the two instants are those of the ban check and of
  the recording.\<close>

definition checkAuth ::
  "crypto \<Rightarrow> tls \<Rightarrow> (bytes, string) fmap option \<Rightarrow> string + bytes \<Rightarrow> string \<Rightarrow> time \<Rightarrow> time \<Rightarrow> bans \<Rightarrow> conn \<Rightarrow>
     bans \<times> conn \<times> peer option" where
  "checkAuth cr t keys rnd remote now now2 b c =
     (case keys of
        None \<Rightarrow> (b, c, Some \<lparr>KeyID = '''', PeerName = ''''\<rparr>)
      | Some ks \<Rightarrow>
          let ip = banKey (authIP remote) in
          (case checkAuthBan b ip now of
             (b1, Some _) \<Rightarrow> (b1, c, None)
           | (b1, None) \<Rightarrow>
               (case ServerHandshake cr t ks rnd c of
                  (c1, Inl err) \<Rightarrow> (if is_unauthorized err then recordAuthFailure b1 ip now2 else b1, c1, None)
                | (c1, Inr p) \<Rightarrow> (recordAuthSuccess b1 ip now2, c1, Some p))))"

text \<open>With a key list, a client is let in only from an address that is not banned and only after a
  completed handshake; only an unknown key or a bad signature counts as a failure of the address,
  a connection that breaks (or cannot be read) leaves its failures as they were.\<close>

theorem let_in_only_authenticated:
  assumes "checkAuth cr t (Some ks) rnd remote now now2 b c = (b', c', r)"
  defines "ip \<equiv> banKey (authIP remote)"
  shows "case r of
     Some p \<Rightarrow> snd (checkAuthBan b ip now) = None \<and> ServerHandshake cr t ks rnd c = (c', Inr p)
   | None \<Rightarrow> failcount b' = failcount (fst (checkAuthBan b ip now)) \<or>
        (\<exists>err. ServerHandshake cr t ks rnd c = (c', Inl err) \<and> is_unauthorized err)"
  using assms(1) unfolding checkAuth_def ip_def [symmetric]
  by (auto simp: Let_def split: prod.splits option.splits sum.splits if_splits)

theorem let_in_only_authenticated_witness:
  "\<exists>b'. checkAuth toy_crypto toy_tls (Some toy_keys) (Inr (replicate 32 9)) ''9.9.9.9:55'' 1 2 no_bans
      (good_conn (replicate 96 7, EOF) []) = (b', good_conn ([], EOF) (replicate 32 9 @ [authOK]),
        Some \<lparr>KeyID = EncodeKey (replicate 32 7), PeerName = ''friend''\<rparr>) \<and>
     snd (checkAuthBan no_bans (banKey (authIP ''9.9.9.9:55'')) 1) = None"
proof -
  have "checkAuthBan no_bans k 1 = (no_bans, None)" for k by (simp add: checkAuthBan_def no_bans_def)
  then obtain b' where c: "checkAuth toy_crypto toy_tls (Some toy_keys) (Inr (replicate 32 9)) ''9.9.9.9:55'' 1 2 no_bans
      (good_conn (replicate 96 7, EOF) []) = (b', good_conn ([], EOF) (replicate 32 9 @ [authOK]),
        Some \<lparr>KeyID = EncodeKey (replicate 32 7), PeerName = ''friend''\<rparr>)"
    by (simp add: checkAuth_def toy_accepts Let_def)
  from let_in_only_authenticated [OF c] c show ?thesis by auto
qed

end
