(* ===== verification/Quota.thy ===== *)
theory Quota
  imports Contracts "HOL-Library.Multiset"
begin

text \<open>
  The interface of a quota: what the counters of open things promise to the code that opens
  and closes them.
\<close>

section \<open>Quotas\<close>

text \<open>
  A counter of things in use, per key and in total, with a limit for each. The client keeps the
  multiset of what it holds: it takes a slot before it opens something and gives it back once.
\<close>

locale quota =
  fixes acquire :: "'s \<Rightarrow> 'k \<Rightarrow> 's option"
    and release :: "'s \<Rightarrow> 'k \<Rightarrow> 's"
    and used :: "'s \<Rightarrow> 'k \<Rightarrow> nat"
    and in_use :: "'s \<Rightarrow> nat"
    and key_limit total_limit :: nat
    and ok :: "'s \<Rightarrow> bool"
    and idle :: 's
  assumes idle_ok: "ok idle" "used idle k = 0" "in_use idle = 0"
    and acquire_None: "ok s \<Longrightarrow> acquire s k = None \<longleftrightarrow> key_limit \<le> used s k \<or> total_limit \<le> in_use s"
    and acquire_Some: "ok s \<Longrightarrow> acquire s k = Some s' \<Longrightarrow>
       ok s' \<and> used s' j = (if j = k then Suc (used s j) else used s j) \<and> in_use s' = Suc (in_use s)"
    and release_one: "ok s \<Longrightarrow> 0 < used s k \<Longrightarrow>
       ok (release s k) \<and> used (release s k) j = (if j = k then used s j - 1 else used s j) \<and>
       in_use (release s k) = in_use s - 1"
begin

definition hold_step :: "'s \<times> 'k multiset \<Rightarrow> bool \<times> 'k \<Rightarrow> 's \<times> 'k multiset" where
  "hold_step sh e =
     (if fst e then (case acquire (fst sh) (snd e) of None \<Rightarrow> sh | Some s' \<Rightarrow> (s', add_mset (snd e) (snd sh)))
      else if snd e \<in># snd sh then (release (fst sh) (snd e), snd sh - {#snd e#}) else sh)"

definition counted :: "'s \<times> 'k multiset \<Rightarrow> bool" where
  "counted sh \<longleftrightarrow> ok (fst sh) \<and> (\<forall>k. used (fst sh) k = count (snd sh) k) \<and> (\<forall>k. count (snd sh) k \<le> key_limit) \<and>
     in_use (fst sh) = size (snd sh) \<and> in_use (fst sh) \<le> total_limit"

lemma hold_step_counted: "counted sh \<Longrightarrow> counted (hold_step sh e)"
proof -
  assume c: "counted sh"
  obtain s h where sh: "sh = (s, h)" by force
  obtain opn k where e: "e = (opn, k)" by force
  show ?thesis
  proof (cases opn)
    case True
    show ?thesis
    proof (cases "acquire s k")
      case None
      then show ?thesis using c True by (simp add: hold_step_def sh e)
    next
      case (Some s')
      have "\<not> key_limit \<le> used s k" "\<not> total_limit \<le> in_use s" using acquire_None [of s k] Some c by (auto simp: counted_def sh)
      then show ?thesis using acquire_Some [OF _ Some] c True Some by (auto simp: hold_step_def counted_def sh e)
    qed
  next
    case False
    show ?thesis
    proof (cases "k \<in># h")
      case True
      then have "0 < used s k" using c by (simp add: counted_def sh)
      then show ?thesis using release_one [of s k] c False True
        by (auto simp: hold_step_def counted_def sh e size_Diff_singleton le_diff_conv intro: le_trans)
    qed (use c False in \<open>simp add: hold_step_def sh e\<close>)
  qed
qed

text \<open>The counters are exact and within the limits, whatever is opened and closed in whatever order.\<close>

lemma run_counted: "counted (foldl hold_step (idle, {#}) es)"
proof -
  have "counted (idle, {#})" by (simp add: counted_def idle_ok)
  moreover have "counted sh \<Longrightarrow> counted (foldl hold_step sh es)" for sh
    by (induction es arbitrary: sh) (simp_all add: hold_step_counted)
  ultimately show ?thesis by blast
qed

end

section \<open>A semaphore\<close>

text \<open>
  A buffered channel of \<open>cap\<close> elements used as a semaphore, as the accept loops do it: \<^verbatim>\<open>select\<close> with
  a send and a default, and a receive when the work is done.
\<close>

definition take_slot :: "nat \<Rightarrow> nat \<Rightarrow> unit \<Rightarrow> nat option" where
  "take_slot cap n u = (if n < cap then Some (n + 1) else None)"

definition free_slot :: "nat \<Rightarrow> unit \<Rightarrow> nat" where
  "free_slot n u = n - 1"

end
