(* ===== verification/Streams.thy ===== *)
theory Streams
  imports Conn NetText Egress Quota
begin

unbundle bit_operations_syntax

text \<open>
  The reliable channel: internal/proto/target.go (target and status on a stream, relay),
  internal/socks5/socks5.go (the local proxy's protocol), cmd/server/reliable.go (stream quotas,
  target check, one stream) and cmd/client/socks.go (the session to the server, one application
  connection). smux streams are connections like any other. Strings are the bytes they consist of.
\<close>

section \<open>Targets and status codes (internal/proto)\<close>

definition StatusFailure :: byte where "StatusFailure = 0x01"
definition StatusNotAllowed :: byte where "StatusNotAllowed = 0x02"
definition StatusNetUnreachable :: byte where "StatusNetUnreachable = 0x03"
definition StatusHostUnreachable :: byte where "StatusHostUnreachable = 0x04"
definition StatusRefused :: byte where "StatusRefused = 0x05"
definition DialOK :: byte where "DialOK = 0x00"

definition maxTarget :: nat where "maxTarget = 2 ^ 16 - 1"

definition bytes_str :: "bytes \<Rightarrow> string" where
  "bytes_str b = map (\<lambda>x. char_of (unat x)) b"

datatype target_error = TargetTooLong nat | TargetWrite string

definition WriteTarget :: "string \<Rightarrow> conn \<Rightarrow> conn \<times> target_error option" where
  "WriteTarget target c =
     (if maxTarget < length target then (c, Some (TargetTooLong (length target)))
      else (case conn_write (put16 (of_nat (length target)) @ str_bytes target) c of
              (c1, Some e) \<Rightarrow> (c1, Some (TargetWrite e))
            | (c1, None) \<Rightarrow> (c1, None)))"

definition ReadTarget :: "conn \<Rightarrow> io_error + (string \<times> conn)" where
  "ReadTarget c =
     (case conn_read_full 2 c of
        Inl e \<Rightarrow> Inl e
      | Inr (l, c1) \<Rightarrow>
          (case conn_read_full (unat (get16 l)) c1 of
             Inl e \<Rightarrow> Inl e
           | Inr (b, c2) \<Rightarrow> Inr (bytes_str b, c2)))"

text \<open>What \<^verbatim>\<open>errors.Is\<close> and \<^verbatim>\<open>errors.As\<close> find in a dial error.\<close>

record dial_error =
  not_allowed :: bool
  refused :: bool
  net_unreachable :: bool
  host_unreachable :: bool
  dns_error :: bool
  timed_out :: bool
  permanent :: bool

definition DialStatus :: "dial_error option \<Rightarrow> byte" where
  "DialStatus err =
     (case err of
        None \<Rightarrow> DialOK
      | Some e \<Rightarrow>
          if not_allowed e then StatusNotAllowed
          else if refused e then StatusRefused
          else if net_unreachable e then StatusNetUnreachable
          else if host_unreachable e \<or> dns_error e then StatusHostUnreachable
          else if timed_out e then StatusHostUnreachable
          else StatusFailure)"

text \<open>
  \<^verbatim>\<open>Relay\<close>: two copying goroutines and the one that waits for them. A copy that ends closes the
  write half of its destination, or all of it when it has no halves (\<open>halves\<close>); the relay waits for
  one copy, then for the other or for the drain timeout, closes both ends, and returns when both
  copies have ended.
\<close>

datatype side = SideA | SideB

datatype relay_phase = WaitFirst | WaitSecond | WaitCopies | Returned

record relay =
  halves :: "side \<Rightarrow> bool"         \<comment> \<open>has CloseWrite\<close>
  ended :: "side \<Rightarrow> bool"          \<comment> \<open>the copy to this side has ended\<close>
  wr_closed :: "side \<Rightarrow> bool"
  closed :: "side \<Rightarrow> bool"
  r_phase :: relay_phase

datatype relay_event = CopyEnds side | DrainTimeout

definition start_relay :: "(side \<Rightarrow> bool) \<Rightarrow> relay" where
  "start_relay h = \<lparr>halves = h, ended = (\<lambda>_. False), wr_closed = (\<lambda>_. False), closed = (\<lambda>_. False), r_phase = WaitFirst\<rparr>"

definition end_copy :: "relay \<Rightarrow> side \<Rightarrow> relay" where
  "end_copy r d =
     (if halves r d then r\<lparr>ended := (ended r)(d := True), wr_closed := (wr_closed r)(d := True)\<rparr>
      else r\<lparr>ended := (ended r)(d := True), closed := (closed r)(d := True)\<rparr>)"

definition close_both :: "relay \<Rightarrow> relay" where
  "close_both r =
     r\<lparr>closed := (\<lambda>_. True), r_phase := (if ended r SideA \<and> ended r SideB then Returned else WaitCopies)\<rparr>"

definition relay_step :: "relay \<Rightarrow> relay_event \<Rightarrow> relay" where
  "relay_step r e =
     (case e of
        CopyEnds d \<Rightarrow>
          if ended r d then r
          else
            let r1 = end_copy r d in
            (case r_phase r of
               WaitFirst \<Rightarrow> r1\<lparr>r_phase := WaitSecond\<rparr>
             | WaitSecond \<Rightarrow> close_both r1
             | WaitCopies \<Rightarrow> if ended r1 SideA \<and> ended r1 SideB then r1\<lparr>r_phase := Returned\<rparr> else r1
             | Returned \<Rightarrow> r1)
      | DrainTimeout \<Rightarrow> if r_phase r = WaitSecond then close_both r else r)"

lemma bytes_str_bytes [simp]: "bytes_str (str_bytes s) = s"
proof -
  have "char_of (unat (of_nat (of_char c) :: byte)) = c" for c
    by (simp only: unat_of_nat) (simp add: of_char_mod_256)
  then show ?thesis by (simp add: bytes_str_def str_bytes_def comp_def)
qed

lemma target_roundtrip:
  assumes "length target \<le> maxTarget"
  shows "ReadTarget (good_conn (put16 (of_nat (length target)) @ str_bytes target @ rest, e) t) = Inr (target, good_conn (rest, e) t)"
proof -
  have "unat (of_nat (length target) :: u16) = length target"
    using assms by (simp only: unat_of_nat) (simp add: maxTarget_def)
  then show ?thesis by (simp add: ReadTarget_def del: be_put.simps)
qed

lemma WriteTarget_good:
  "length target \<le> maxTarget \<Longrightarrow>
     WriteTarget target (good_conn i t) = (good_conn i (t @ put16 (of_nat (length target)) @ str_bytes target), None)"
  by (simp add: WriteTarget_def)

text \<open>The relay closes both sides only after a copy has ended, and returns when both have.\<close>

lemma all_sides: "(\<forall>d. P d) \<longleftrightarrow> P SideA \<and> P SideB" "(\<exists>d. P d) \<longleftrightarrow> P SideA \<or> P SideB"
  by (metis side.exhaust)+

definition relay_sound :: "relay \<Rightarrow> bool" where
  "relay_sound r \<longleftrightarrow>
     (case r_phase r of
        WaitFirst \<Rightarrow> (\<forall>d. \<not> ended r d \<and> \<not> closed r d \<and> \<not> wr_closed r d)
      | WaitSecond \<Rightarrow> (\<exists>d. ended r d \<and> (\<forall>d'. d' \<noteq> d \<longrightarrow> \<not> ended r d' \<and> \<not> closed r d' \<and> \<not> wr_closed r d'))
      | WaitCopies \<Rightarrow> (\<forall>d. closed r d) \<and> (\<exists>d. ended r d) \<and> (\<exists>d. \<not> ended r d)
      | Returned \<Rightarrow> (\<forall>d. closed r d \<and> ended r d))"

lemma relay_step_sound: "relay_sound r \<Longrightarrow> relay_sound (relay_step r e)"
proof (cases e)
  case DrainTimeout
  then show "relay_sound r \<Longrightarrow> ?thesis"
    by (cases "r_phase r") (auto simp: relay_sound_def relay_step_def close_both_def all_sides)
next
  case (CopyEnds d)
  then show "relay_sound r \<Longrightarrow> ?thesis"
    by (cases d; cases "r_phase r"; cases "halves r d")
      (auto simp: relay_sound_def relay_step_def close_both_def end_copy_def Let_def all_sides)
qed

lemma relay_run_sound: "relay_sound (foldl relay_step (start_relay h) es)"
proof -
  have "relay_sound (start_relay h)" by (simp add: relay_sound_def start_relay_def)
  moreover have "relay_sound r \<Longrightarrow> relay_sound (foldl relay_step r es)" for r
    by (induction es arbitrary: r) (simp_all add: relay_step_sound)
  ultimately show ?thesis by blast
qed

section \<open>The SOCKS5 protocol (internal/socks5)\<close>

definition version5 :: byte where "version5 = 0x05"
definition cmdConnect :: byte where "cmdConnect = 0x01"
definition atypIPv4 :: byte where "atypIPv4 = 0x01"
definition atypDomain :: byte where "atypDomain = 0x03"
definition atypIPv6 :: byte where "atypIPv6 = 0x04"
definition methodNoAuth :: byte where "methodNoAuth = 0x00"
definition methodNoAcceptable :: byte where "methodNoAcceptable = 0xFF"

datatype socks_error =
    SocksRead io_error | SocksWrite string | BadVersion byte | NoMethod | BadCommand byte | BadAddressType byte

definition Handshake :: "conn \<Rightarrow> conn \<times> socks_error option" where
  "Handshake c =
     (case conn_read_full 2 c of
        Inl e \<Rightarrow> (c, Some (SocksRead e))
      | Inr (header, c1) \<Rightarrow>
          if header ! 0 \<noteq> version5 then (c1, Some (BadVersion (header ! 0)))
          else (case conn_read_full (unat (header ! 1)) c1 of
                  Inl e \<Rightarrow> (c1, Some (SocksRead e))
                | Inr (methods, c2) \<Rightarrow>
                    if methodNoAuth \<in> set methods
                    then (case conn_write [version5, methodNoAuth] c2 of (c3, r) \<Rightarrow> (c3, map_option SocksWrite r))
                    else (fst (conn_write [version5, methodNoAcceptable] c2), Some NoMethod)))"

text \<open>The host of the request, by address type.\<close>

definition read_host :: "byte \<Rightarrow> conn \<Rightarrow> socks_error + (string \<times> conn)" where
  "read_host atyp c =
     (if atyp = atypIPv4 then
        (case conn_read_full 4 c of Inl e \<Rightarrow> Inl (SocksRead e) | Inr (a, c1) \<Rightarrow> Inr (ip_string a, c1))
      else if atyp = atypDomain then
        (case conn_read_full 1 c of
           Inl e \<Rightarrow> Inl (SocksRead e)
         | Inr (l, c1) \<Rightarrow>
             (case conn_read_full (unat (l ! 0)) c1 of
                Inl e \<Rightarrow> Inl (SocksRead e)
              | Inr (d, c2) \<Rightarrow> Inr (bytes_str d, c2)))
      else if atyp = atypIPv6 then
        (case conn_read_full 16 c of Inl e \<Rightarrow> Inl (SocksRead e) | Inr (a, c1) \<Rightarrow> Inr (ip_string a, c1))
      else Inl (BadAddressType atyp))"

definition ReadRequest :: "conn \<Rightarrow> socks_error + (string \<times> conn)" where
  "ReadRequest c =
     (case conn_read_full 4 c of
        Inl e \<Rightarrow> Inl (SocksRead e)
      | Inr (header, c1) \<Rightarrow>
          if header ! 0 \<noteq> version5 then Inl (BadVersion (header ! 0))
          else if header ! 1 \<noteq> cmdConnect then Inl (BadCommand (header ! 1))
          else (case read_host (header ! 3) c1 of
                  Inl e \<Rightarrow> Inl e
                | Inr (host, c2) \<Rightarrow>
                    (case conn_read_full 2 c2 of
                       Inl e \<Rightarrow> Inl (SocksRead e)
                     | Inr (p, c3) \<Rightarrow> Inr (JoinHostPort host (itoa (unat (get16 p))), c3))))"

definition reply_bytes :: "byte \<Rightarrow> bytes" where
  "reply_bytes code = [version5, code, 0x00, atypIPv4, 0, 0, 0, 0, 0, 0]"

definition WriteReply :: "conn \<Rightarrow> byte \<Rightarrow> conn \<times> string option" where
  "WriteReply c code = conn_write (reply_bytes code) c"

section \<open>Stream quotas and targets (cmd/server/reliable.go)\<close>

definition maxStreamsPerKey :: int where "maxStreamsPerKey = 256"
definition maxOutboundTCP :: int where "maxOutboundTCP = 2048"

record streamLimiter =
  perKey :: "(string, int) fmap"
  lim_total :: int
  maxPerKey :: int
  maxTotal :: int

definition newStreamLimiter :: "int \<Rightarrow> int \<Rightarrow> streamLimiter" where
  "newStreamLimiter mk mt = \<lparr>perKey = fmempty, lim_total = 0, maxPerKey = mk, maxTotal = mt\<rparr>"

definition acquire :: "streamLimiter \<Rightarrow> string \<Rightarrow> streamLimiter \<times> bool \<times> string" where
  "acquire l keyID =
     (if maxPerKey l \<le> goget (perKey l) keyID 0
      then (l, False, ''more than '' @ itoa (nat (maxPerKey l)) @ '' streams for this key'')
      else if maxTotal l \<le> lim_total l
      then (l, False, ''more than '' @ itoa (nat (maxTotal l)) @ '' outgoing connections on the server'')
      else (l\<lparr>perKey := fmupd keyID (goget (perKey l) keyID 0 + 1) (perKey l), lim_total := lim_total l + 1\<rparr>, True, ''''))"

definition release :: "streamLimiter \<Rightarrow> string \<Rightarrow> streamLimiter" where
  "release l keyID =
     (let n = goget (perKey l) keyID 0 - 1 in
      l\<lparr>lim_total := lim_total l - 1, perKey := (if n \<le> 0 then fmdrop keyID (perKey l) else fmupd keyID n (perKey l))\<rparr>)"

text \<open>One stream arriving on a session of \<open>keyID\<close>: what is written to it, and whether it is served.\<close>

definition accept_stream :: "streamLimiter \<Rightarrow> string \<Rightarrow> streamLimiter \<times> bytes \<times> bool" where
  "accept_stream l keyID =
     (case acquire l keyID of
        (l1, True, _) \<Rightarrow> (l1, [], True)
      | (l1, False, _) \<Rightarrow> (l1, [0x01], False))"

definition smtpPort :: string where "smtpPort = ''25''"

datatype target_refusal = BadAddress | SMTPBlocked | HostBlocked string string

definition checkTarget :: "policy \<Rightarrow> string \<Rightarrow> target_refusal option" where
  "checkTarget pol address =
     (case SplitHostPort address of
        None \<Rightarrow> Some BadAddress
      | Some (host, port) \<Rightarrow>
          if port = smtpPort then Some SMTPBlocked
          else case Allowed pol (ParseIP host) of
                 (True, _) \<Rightarrow> None
               | (False, reason) \<Rightarrow> Some (HostBlocked host reason))"

definition dial_failure :: dial_error where
  "dial_failure = \<lparr>not_allowed = False, refused = False, net_unreachable = False, host_unreachable = False,
     dns_error = False, timed_out = False, permanent = False\<rparr>"

text \<open>What the error of \<^verbatim>\<open>Control\<close> is to \<^verbatim>\<open>DialStatus\<close>: the policy errors wrap \<^verbatim>\<open>ErrNotAllowed\<close>.\<close>

definition refusal_error :: "target_refusal \<Rightarrow> dial_error" where
  "refusal_error r = dial_failure\<lparr>not_allowed := (r \<noteq> BadAddress)\<rparr>"

text \<open>
  \<^verbatim>\<open>targetDialer.Dial\<close>: the resolved addresses are tried one after the other, each checked by \<^verbatim>\<open>Control\<close>
  right before it is connected to; the error is the first one. The resolver (an error, or the
  addresses) and the outcome of each \<^verbatim>\<open>connect\<close> are arguments. The result has the list of the
  addresses a connection was attempted to.
\<close>

fun dial_serial ::
  "policy \<Rightarrow> (string \<Rightarrow> dial_error option) \<Rightarrow> string list \<Rightarrow> dial_error option \<Rightarrow> string list \<times> (dial_error + string)" where
  "dial_serial pol connect [] first = ([], Inl (case first of None \<Rightarrow> dial_failure | Some e \<Rightarrow> e))"
| "dial_serial pol connect (a # as) first =
     (case checkTarget pol a of
        Some r \<Rightarrow> dial_serial pol connect as (if first = None then Some (refusal_error r) else first)
      | None \<Rightarrow>
          (case connect a of
             None \<Rightarrow> ([a], Inr a)
           | Some e \<Rightarrow>
               (case dial_serial pol connect as (if first = None then Some e else first) of
                  (tried, res) \<Rightarrow> (a # tried, res))))"

definition dial_target ::
  "policy \<Rightarrow> (string \<Rightarrow> dial_error + string list) \<Rightarrow> (string \<Rightarrow> dial_error option) \<Rightarrow> string \<Rightarrow>
     string list \<times> (dial_error + string)" where
  "dial_target pol resolve connect target =
     (case resolve target of
        Inl e \<Rightarrow> ([], Inl e)
      | Inr as \<Rightarrow> dial_serial pol connect as None)"

text \<open>\<^verbatim>\<open>handleStream\<close> up to the relay: the stream, the addresses tried, and the one relayed to.\<close>

definition handleStream ::
  "policy \<Rightarrow> (string \<Rightarrow> dial_error + string list) \<Rightarrow> (string \<Rightarrow> dial_error option) \<Rightarrow> conn \<Rightarrow>
     conn \<times> string list \<times> string option" where
  "handleStream pol resolve connect s =
     (case ReadTarget s of
        Inl e \<Rightarrow> (s, [], None)
      | Inr (target, s1) \<Rightarrow>
          (case dial_target pol resolve connect target of
             (tried, Inl err) \<Rightarrow> (fst (conn_write [DialStatus (Some err)] s1), tried, None)
           | (tried, Inr a) \<Rightarrow>
               (case conn_write [DialOK] s1 of
                  (s2, Some _) \<Rightarrow> (s2, tried, None)
                | (s2, None) \<Rightarrow> (s2, tried, Some a))))"

section \<open>The session to the server (cmd/client/socks.go)\<close>

definition redialMin :: duration where "redialMin = 500 * ms"
definition redialMax :: duration where "redialMax = 5 * sec"

datatype open_error = FatalDial dial_error | Unreachable duration | DialFailed dial_error | StreamFailed string

record socksSession =
  sess :: "nat option"
  backoff :: duration
  nextDial :: time
  fatal :: "dial_error option"

definition new_socks :: "nat \<Rightarrow> socksSession" where
  "new_socks i = \<lparr>sess = Some i, backoff = 0, nextDial = 0, fatal = None\<rparr>"

text \<open>
  One call of \<^verbatim>\<open>openStream\<close>: \<open>existing\<close> is what \<^verbatim>\<open>OpenStream\<close> gives on the present session (\<open>Inl\<close> too
  when it is closed), \<open>dial\<close> the outcome of a dial, \<open>fresh\<close> that of \<^verbatim>\<open>OpenStream\<close> on the new session;
  \<open>now\<close> and \<open>now2\<close> are the instants before and after the dial. The last component tells whether
  it dialled.
\<close>

definition openStream ::
  "socksSession \<Rightarrow> string + conn \<Rightarrow> dial_error + nat \<Rightarrow> string + conn \<Rightarrow> time \<Rightarrow> time \<Rightarrow>
     socksSession \<times> (open_error + conn) \<times> bool" where
  "openStream s existing dial fresh now now2 =
     (case (if sess s = None then Inl '''' else existing) of
        Inr stream \<Rightarrow> (s, Inr stream, False)
      | Inl _ \<Rightarrow>
          let s1 = s\<lparr>sess := None\<rparr> in
          (case fatal s1 of
             Some e \<Rightarrow> (s1, Inl (FatalDial e), False)
           | None \<Rightarrow>
               if 0 < nextDial s1 - now then (s1, Inl (Unreachable (nextDial s1 - now)), False)
               else (case dial of
                       Inl e \<Rightarrow>
                         if permanent e then (s1\<lparr>fatal := Some e\<rparr>, Inl (FatalDial e), True)
                         else
                           let b = min (max (2 * backoff s1) redialMin) redialMax in
                           (s1\<lparr>backoff := b, nextDial := now2 + b\<rparr>, Inl (DialFailed e), True)
                     | Inr i \<Rightarrow>
                         (s1\<lparr>backoff := 0, sess := Some i\<rparr>,
                          (case fresh of Inl e \<Rightarrow> Inl (StreamFailed e) | Inr stream \<Rightarrow> Inr stream), True))))"

text \<open>\<^verbatim>\<open>handleApp\<close>: the application's connection, the stream (when one was opened), and whether it is relayed.\<close>

definition handleApp :: "conn \<Rightarrow> open_error + conn \<Rightarrow> conn \<times> conn option \<times> bool" where
  "handleApp app opened =
     (case Handshake app of
        (a1, Some e) \<Rightarrow> (a1, None, False)
      | (a1, None) \<Rightarrow>
          (case ReadRequest a1 of
             Inl e \<Rightarrow> (a1, None, False)
           | Inr (target, a2) \<Rightarrow>
               (case opened of
                  Inl e \<Rightarrow> (fst (WriteReply a2 StatusFailure), None, False)
                | Inr stream \<Rightarrow>
                    (case WriteTarget target stream of
                       (s1, Some e) \<Rightarrow> (fst (WriteReply a2 StatusFailure), Some s1, False)
                     | (s1, None) \<Rightarrow>
                         (case conn_read_full 1 s1 of
                            Inl e \<Rightarrow> (fst (WriteReply a2 StatusFailure), Some s1, False)
                          | Inr (status, s2) \<Rightarrow>
                              (case WriteReply a2 (status ! 0) of
                                 (a3, r) \<Rightarrow> (a3, Some s2, r = None \<and> status ! 0 = DialOK)))))))"

section \<open>The quota of streams\<close>

definition take_stream :: "streamLimiter \<Rightarrow> string \<Rightarrow> streamLimiter option" where
  "take_stream l k = (case acquire l k of (l1, ok, _) \<Rightarrow> if ok then Some l1 else None)"

definition limiter_ok :: "streamLimiter \<Rightarrow> bool" where
  "limiter_ok l \<longleftrightarrow> maxPerKey l = maxStreamsPerKey \<and> maxTotal l = maxOutboundTCP \<and>
     (\<forall>k n. fmlookup (perKey l) k = Some n \<longrightarrow> 0 < n) \<and> lim_total l = fmsum id (perKey l)"

definition streams_of :: "streamLimiter \<Rightarrow> string \<Rightarrow> nat" where
  "streams_of l k = nat (goget (perKey l) k 0)"

lemma goget_pos: "limiter_ok l \<Longrightarrow> 0 \<le> goget (perKey l) k 0"
  by (auto simp: limiter_ok_def split: option.split intro: less_imp_le)

lemma limiter_total: "limiter_ok l \<Longrightarrow> goget (perKey l) k 0 \<le> lim_total l"
proof -
  assume l: "limiter_ok l"
  have nn: "0 \<le> fmsum id m" if "\<And>k n. fmlookup m k = Some n \<Longrightarrow> (0::int) < n" for m :: "(string, int) fmap"
    unfolding fmsum_def using that by (intro sum_nonneg) (force simp: fmlookup_dom'_iff intro: less_imp_le)
  have "0 \<le> fmsum id (fmdrop k (perKey l))" using l by (intro nn) (auto simp: limiter_ok_def split: if_splits)
  moreover have "0 \<le> fmsum id (perKey l)" using l by (intro nn) (auto simp: limiter_ok_def)
  ultimately show ?thesis
    using l fmsum_split [of "perKey l" k _ id] by (cases "fmlookup (perKey l) k") (auto simp: limiter_ok_def)
qed

lemma fmsum_set: "fmsum id (fmupd k v m) = fmsum id m - goget m k 0 + (v :: int)"
  using fmsum_replace [of m k _ id v] fmsum_fmupd_new [of m k id v] by (cases "fmlookup m k") auto

lemma fmsum_del: "fmsum id (fmdrop k m) = fmsum id m - goget m k (0 :: int)"
  using fmsum_remove [of m k _ id] by (cases "fmlookup m k") (auto simp: fmdrop_absent)

interpretation stream_quota: quota take_stream release streams_of "\<lambda>l. nat (lim_total l)" 256 2048 limiter_ok
  "newStreamLimiter maxStreamsPerKey maxOutboundTCP"
proof unfold_locales
  show "limiter_ok (newStreamLimiter maxStreamsPerKey maxOutboundTCP)"
    "streams_of (newStreamLimiter maxStreamsPerKey maxOutboundTCP) k = 0"
    "nat (lim_total (newStreamLimiter maxStreamsPerKey maxOutboundTCP)) = 0" for k
    by (simp_all add: limiter_ok_def newStreamLimiter_def streams_of_def)
next
  fix s k assume "limiter_ok s"
  then show "take_stream s k = None \<longleftrightarrow> 256 \<le> streams_of s k \<or> 2048 \<le> nat (lim_total s)"
    by (auto simp: take_stream_def acquire_def streams_of_def limiter_ok_def maxStreamsPerKey_def maxOutboundTCP_def)
next
  fix s k s' j assume ok: "limiter_ok s" and t: "take_stream s k = Some s'"
  have s': "s' = s\<lparr>perKey := fmupd k (goget (perKey s) k 0 + 1) (perKey s), lim_total := lim_total s + 1\<rparr>"
    using t by (auto simp: take_stream_def acquire_def split: if_splits)
  have "limiter_ok s'"
    using ok goget_pos [OF ok, of k] unfolding s' by (auto simp: limiter_ok_def fmsum_set)
  moreover have "0 \<le> lim_total s" using goget_pos [OF ok, of k] limiter_total [OF ok, of k] by simp
  ultimately show "limiter_ok s' \<and> streams_of s' j = (if j = k then Suc (streams_of s j) else streams_of s j) \<and>
      nat (lim_total s') = Suc (nat (lim_total s))"
    using goget_pos [OF ok, of k] unfolding s' by (auto simp: streams_of_def nat_add_distrib)
next
  fix s k j assume ok: "limiter_ok s" and p: "0 < streams_of s k"
  define n where "n = goget (perKey s) k 0 - 1"
  have n: "0 \<le> n" "1 \<le> lim_total s" using p limiter_total [OF ok, of k] by (auto simp: streams_of_def n_def)
  have r: "release s k = s\<lparr>lim_total := lim_total s - 1, perKey := (if n \<le> 0 then fmdrop k (perKey s) else fmupd k n (perKey s))\<rparr>"
    by (simp add: release_def Let_def n_def)
  have "limiter_ok (release s k)"
    using ok n(1) unfolding r by (auto simp: limiter_ok_def fmsum_set fmsum_del n_def split: if_splits)
  moreover have "streams_of (release s k) j = (if j = k then streams_of s j - 1 else streams_of s j)"
    using n(1) unfolding r by (auto simp: streams_of_def n_def)
  moreover have "nat (lim_total (release s k)) = nat (lim_total s) - 1" using n(2) by (simp add: r nat_diff_distrib)
  ultimately show "limiter_ok (release s k) \<and> streams_of (release s k) j = (if j = k then streams_of s j - 1 else streams_of s j) \<and>
      nat (lim_total (release s k)) = nat (lim_total s) - 1" by blast
qed

text \<open>The server's streams: one arrives on a session of a key, one ends.\<close>

datatype stream_event = Arrives string | Ends string

definition stream_step :: "streamLimiter \<times> string multiset \<Rightarrow> stream_event \<Rightarrow> streamLimiter \<times> string multiset" where
  "stream_step lh e =
     (case e of
        Arrives k \<Rightarrow> (case accept_stream (fst lh) k of (l1, _, ok) \<Rightarrow> (l1, if ok then add_mset k (snd lh) else snd lh))
      | Ends k \<Rightarrow> if k \<in># snd lh then (release (fst lh) k, snd lh - {#k#}) else lh)"

lemma acquire_refused: "acquire l k = (l1, False, why) \<Longrightarrow> l1 = l"
  by (auto simp: acquire_def split: if_splits)

lemma stream_step_hold:
  "stream_step lh e = stream_quota.hold_step lh (case e of Arrives k \<Rightarrow> (True, k) | Ends k \<Rightarrow> (False, k))"
proof (cases e)
  case (Arrives k)
  obtain l1 ok why where a: "acquire (fst lh) k = (l1, ok, why)" by (metis prod_cases3)
  then show ?thesis using Arrives acquire_refused [of "fst lh" k l1 why]
    by (cases ok) (simp_all add: stream_step_def stream_quota.hold_step_def accept_stream_def take_stream_def)
next
  case (Ends k)
  then show ?thesis by (simp add: stream_step_def stream_quota.hold_step_def)
qed

text \<open>Whatever streams arrive and end, in any order and on any number of connections: the counters are
  the numbers of open streams, no key has more than 256 and the server not more than 2048, and a
  stream is refused exactly when one of the limits is reached.\<close>

theorem stream_quota_exact:
  "let (l, held) = foldl stream_step (newStreamLimiter maxStreamsPerKey maxOutboundTCP, {#}) es
   in goget (perKey l) k 0 = int (count held k) \<and> lim_total l = int (size held) \<and>
      count held k \<le> 256 \<and> size held \<le> 2048 \<and>
      (snd (snd (accept_stream l k)) \<longleftrightarrow> count held k < 256 \<and> size held < 2048)"
proof -
  obtain l held where r: "foldl stream_step (newStreamLimiter maxStreamsPerKey maxOutboundTCP, {#}) es = (l, held)" by force
  have "foldl stream_step sh es = foldl stream_quota.hold_step sh (map (\<lambda>e. case e of Arrives k \<Rightarrow> (True, k) | Ends k \<Rightarrow> (False, k)) es)" for sh
    by (induction es arbitrary: sh) (simp_all add: stream_step_hold)
  with stream_quota.run_counted r have c: "stream_quota.counted (l, held)" by metis
  then have ok: "limiter_ok l" by (simp add: stream_quota.counted_def)
  have g: "0 \<le> goget (perKey l) k 0" "0 \<le> lim_total l" using goget_pos [OF ok, of k] limiter_total [OF ok, of k] by simp_all
  have a: "snd (snd (accept_stream l k)) \<longleftrightarrow> take_stream l k \<noteq> None"
    by (auto simp: accept_stream_def take_stream_def split: prod.split)
  have n: "nat (goget (perKey l) k 0) = count held k" "nat (lim_total l) = size held" "count held k \<le> 256" "size held \<le> 2048"
    using c by (simp_all add: stream_quota.counted_def streams_of_def)
  then have "goget (perKey l) k 0 = int (count held k)" "lim_total l = int (size held)" using g by linarith+
  then show ?thesis
    using n a stream_quota.acquire_None [OF ok, of k] by (auto simp: r streams_of_def)
qed

section \<open>Only allowed targets\<close>

lemma dial_serial_allowed:
  "dial_serial pol connect as first = (tried, r) \<Longrightarrow>
     (\<forall>a\<in>set tried. checkTarget pol a = None) \<and> (\<forall>a. r = Inr a \<longrightarrow> a \<in> set tried \<and> connect a = None)"
proof (induction as arbitrary: first tried r)
  case (Cons a as)
  show ?case
  proof (cases "checkTarget pol a")
    case (Some x)
    then show ?thesis using Cons.prems Cons.IH by (cases first) auto
  next
    case none: None
    show ?thesis
    proof (cases "connect a")
      case None
      then show ?thesis using Cons.prems none by auto
    next
      case (Some e)
      obtain tried' r' where d: "dial_serial pol connect as (if first = None then Some e else first) = (tried', r')" by force
      then have "tried = a # tried'" "r = r'" using Cons.prems none Some by simp_all
      then show ?thesis using Cons.IH [OF d] none by simp
    qed
  qed
qed simp

lemma checkTarget_None:
  "checkTarget pol a = None \<longleftrightarrow> (\<exists>host port. SplitHostPort a = Some (host, port) \<and> port \<noteq> smtpPort \<and> fst (Allowed pol (ParseIP host)))"
  by (auto simp: checkTarget_def split: option.splits prod.splits bool.splits)


section \<open>From the application to the server\<close>

definition v4_target :: "bytes \<Rightarrow> u16 \<Rightarrow> string" where
  "v4_target a port = JoinHostPort (v4_string a) (itoa (unat port))"

definition target_wire :: "string \<Rightarrow> bytes" where
  "target_wire target = put16 (of_nat (length target)) @ str_bytes target"

lemma itoa_small: "n < 10 ^ k \<Longrightarrow> 0 < k \<Longrightarrow> length (itoa n) \<le> k"
proof (induction k arbitrary: n)
  case (Suc k)
  show ?case
  proof (cases "n < 10")
    case True
    then show ?thesis by (subst itoa.simps) simp
  next
    case False
    then have "0 < k" using Suc.prems(1) by (cases k) auto
    moreover have "n div 10 < 10 ^ k" using Suc.prems(1) by (simp add: div_less_iff_less_mult mult.commute)
    ultimately show ?thesis using Suc.IH [of "n div 10"] False by (subst itoa.simps) simp
  qed
qed simp

lemma v4_chars: "c \<in> set (v4_string [a, b, d, e]) \<Longrightarrow> is_digit c \<or> c = CHR ''.''"
  by (auto simp: v4_string_def dest: itoa_digits)

lemma v4_plain: "CHR '':'' \<notin> set (v4_string [a, b, c, d])" "\<not> brackets (v4_string [a, b, c, d])"
  using v4_chars [of "CHR '':''" a b c d] v4_chars [of "CHR 0x5B" a b c d] v4_chars [of "CHR 0x5D" a b c d]
  by (auto simp: brackets_def is_digit_def)

lemma itoa_plain: "CHR '':'' \<notin> set (itoa n)" "\<not> brackets (itoa n)"
  using itoa_digits [of "CHR '':''" n] itoa_digits [of "CHR 0x5B" n] itoa_digits [of "CHR 0x5D" n]
  by (auto simp: brackets_def is_digit_def)

lemma byte_text: "length (itoa (unat (x :: byte))) \<le> 3"
  using itoa_small [of "unat x" 3] unsigned_less [where 'a = nat, of x] by simp

lemma v4_target_length: "length (v4_target [a, b, c, d] port) \<le> 21"
proof -
  have "length (itoa (unat port)) \<le> 5" using itoa_small [of "unat port" 5] unsigned_less [where 'a = nat, of port] by simp
  then show ?thesis using byte_text [of a] byte_text [of b] byte_text [of c] byte_text [of d] v4_plain(1) [of a b c d]
    by (simp add: v4_target_def JoinHostPort_def v4_string_def)
qed

lemma v4_target_split: "SplitHostPort (v4_target [a, b, c, d] port) = Some (v4_string [a, b, c, d], itoa (unat port))"
  unfolding v4_target_def by (rule split_join_host) (simp_all add: v4_plain itoa_plain)

lemma smtp_iff: "itoa (unat (port :: u16)) = smtpPort \<longleftrightarrow> port = 25"
proof
  assume "itoa (unat port) = smtpPort"
  moreover have "itoa 25 = smtpPort" by (simp add: smtpPort_def itoa.simps [of 25] itoa.simps [of 2] digit_def char_of_eq_iff)
  ultimately have "unat port = unat (25 :: u16)" using itoa_inj [of "unat port" 25] by simp
  then show "port = 25" by (simp only: word_unat_eq_iff)
qed (simp add: smtpPort_def itoa.simps [of 25] itoa.simps [of 2] digit_def char_of_eq_iff)

lemma request_v4:
  "ReadRequest (good_conn ([version5, cmdConnect, x, atypIPv4] @ [a, b, c, d] @ put16 port @ rest, e) t) =
     Inr (v4_target [a, b, c, d] port, good_conn (rest, e) t)"
proof -
  have r1: "conn_read_full 4 (good_conn ([version5, cmdConnect, x, atypIPv4] @ [a, b, c, d] @ put16 port @ rest, e) t) =
      Inr ([version5, cmdConnect, x, atypIPv4], good_conn ([a, b, c, d] @ put16 port @ rest, e) t)"
    by (rule good_conn_read) simp
  have r2: "conn_read_full 4 (good_conn ([a, b, c, d] @ put16 port @ rest, e) t) = Inr ([a, b, c, d], good_conn (put16 port @ rest, e) t)"
    by (rule good_conn_read) simp
  have r3: "conn_read_full 2 (good_conn (put16 port @ rest, e) t) = Inr (put16 port, good_conn (rest, e) t)"
    by (rule good_conn_read) simp
  show ?thesis unfolding ReadRequest_def r1
    by (simp add: read_host_def r2 r3 ip_string_def v4_target_def del: be_put.simps append_Cons)
qed

lemma check_v4_target:
  "checkTarget pol (v4_target [a, b, c, d] port) = None \<longleftrightarrow> port \<noteq> 25 \<and> fst (Allowed pol (v4_prefix @ [a, b, c, d]))"
  by (simp add: checkTarget_None v4_target_split ParseIP_v4_string smtp_iff)

text \<open>The server tries nothing but allowed addresses, so a literal address is tried only if it is one.\<close>

definition greeting :: bytes where "greeting = [version5, 1, methodNoAuth]"

lemma handshake_greeting:
  "Handshake (good_conn (greeting @ rest, e) t) = (good_conn (rest, e) (t @ [version5, methodNoAuth]), None)"
proof -
  have r1: "conn_read_full 2 (good_conn (greeting @ rest, e) t) = Inr ([version5, 1], good_conn ([methodNoAuth] @ rest, e) t)"
    using good_conn_read [of "[version5, 1]" 2 "[methodNoAuth] @ rest" e t] by (simp add: greeting_def)
  show ?thesis unfolding Handshake_def r1 by simp
qed

text \<open>C26. End to end: an application that asks the proxy for an IPv4 address and port gets exactly the reply
  code the server derived from its dial; the server reads the target the application named, connects
  to nothing else when names resolve to themselves, and only if the policy allows the address and the
  port is not 25; bytes are relayed only when both ends said OK.\<close>

theorem socks_end_to_end:
  assumes server: "handleStream pol (\<lambda>h. Inr [h]) connect (good_conn (target_wire (v4_target [a, b, c, d] port) @ up, e1) []) = (s', tried, r)"
    and app: "handleApp (good_conn (greeting @ [version5, cmdConnect, 0, atypIPv4] @ [a, b, c, d] @ put16 port @ up, e2) [])
      (Inr (good_conn (tx s' @ down, e3) [])) = (app', st', relayed)"
  shows "\<exists>code. tx app' = [version5, methodNoAuth] @ reply_bytes code \<and> tx s' = [code] \<and>
     (code = DialOK \<longleftrightarrow> r \<noteq> None) \<and> (relayed \<longleftrightarrow> r \<noteq> None) \<and>
     (r \<noteq> None \<longleftrightarrow> port \<noteq> 25 \<and> fst (Allowed pol (v4_prefix @ [a, b, c, d])) \<and> connect (v4_target [a, b, c, d] port) = None) \<and>
     set tried \<subseteq> {v4_target [a, b, c, d] port} \<and>
     map_option tx st' = Some (target_wire (v4_target [a, b, c, d] port)) \<and> fst (rx app') = up"
proof -
  let ?t = "v4_target [a, b, c, d] port"
  have l: "length ?t \<le> maxTarget" using v4_target_length [of a b c d port] by (simp add: maxTarget_def)
  have rt: "ReadTarget (good_conn (target_wire ?t @ up, e1) []) = Inr (?t, good_conn (up, e1) [])"
    using target_roundtrip [OF l] by (simp add: target_wire_def)
  define ok where "ok \<longleftrightarrow> checkTarget pol ?t = None \<and> connect ?t = None"
  obtain code where s: "tx s' = [code]" "code = DialOK \<longleftrightarrow> ok" "r = (if ok then Some ?t else None)" "set tried \<subseteq> {?t}"
  proof (cases "checkTarget pol ?t")
    case (Some x)
    then show thesis
      using server that [of "DialStatus (Some (refusal_error x))"]
      by (auto simp: handleStream_def rt dial_target_def ok_def DialStatus_def refusal_error_def dial_failure_def DialOK_def
          StatusNotAllowed_def StatusFailure_def)
  next
    case none: None
    show thesis
    proof (cases "connect ?t")
      case None
      then show thesis using server that [of DialOK] none by (auto simp: handleStream_def rt dial_target_def ok_def)
    next
      case (Some y)
      then show thesis
        using server that [of "DialStatus (Some y)"] none
        by (auto simp: handleStream_def rt dial_target_def ok_def DialStatus_def DialOK_def StatusNotAllowed_def StatusFailure_def
          StatusRefused_def StatusNetUnreachable_def StatusHostUnreachable_def)
    qed
  qed
  have wt: "WriteTarget ?t (good_conn (tx s' @ down, e3) []) = (good_conn (tx s' @ down, e3) (target_wire ?t), None)"
    using WriteTarget_good [OF l] by (simp add: target_wire_def)
  have "handleApp (good_conn (greeting @ [version5, cmdConnect, 0, atypIPv4] @ [a, b, c, d] @ put16 port @ up, e2) [])
      (Inr (good_conn (tx s' @ down, e3) [])) =
      (good_conn (up, e2) ([version5, methodNoAuth] @ reply_bytes code), Some (good_conn (down, e3) (target_wire ?t)), code = DialOK)"
    unfolding handleApp_def handshake_greeting prod.case option.case request_v4 sum.case wt
    by (simp add: s(1) WriteReply_def)
  then have "app' = good_conn (up, e2) ([version5, methodNoAuth] @ reply_bytes code)" "st' = Some (good_conn (down, e3) (target_wire ?t))"
    "relayed \<longleftrightarrow> code = DialOK" using app by simp_all
  then show ?thesis using s by (auto simp: ok_def check_v4_target)
qed

theorem socks_end_to_end_witness:
  "\<exists>s' tried r app' st' code. handleStream \<lparr>AllowPrivate = True, own = {||}, extra = {||}\<rparr> (\<lambda>h. Inr [h]) (\<lambda>_. None)
       (good_conn (target_wire (v4_target [9, 9, 9, 9] 443) @ [1], EOF) []) = (s', tried, r) \<and>
     tx s' = [code] \<and> tx app' = [version5, methodNoAuth] @ reply_bytes code \<and>
     handleApp (good_conn (greeting @ [version5, cmdConnect, 0, atypIPv4] @ [9, 9, 9, 9] @ put16 443 @ [1], EOF) [])
       (Inr (good_conn (tx s' @ [2], EOF) [])) = (app', st', r \<noteq> None)"
proof -
  obtain s' tried r where h: "handleStream \<lparr>AllowPrivate = True, own = {||}, extra = {||}\<rparr> (\<lambda>h. Inr [h]) (\<lambda>_. None)
       (good_conn (target_wire (v4_target [9, 9, 9, 9] 443) @ [1], EOF) []) = (s', tried, r)" by (metis prod_cases3)
  obtain app' st' rl where a: "handleApp (good_conn (greeting @ [version5, cmdConnect, 0, atypIPv4] @ [9, 9, 9, 9] @ put16 443 @ [1], EOF) [])
       (Inr (good_conn (tx s' @ [2], EOF) [])) = (app', st', rl)" by (metis prod_cases3)
  from socks_end_to_end [OF h a] h a show ?thesis by blast
qed


section \<open>Dials are paced\<close>

record open_call =
  oc_existing :: "string + conn"
  oc_dial :: "dial_error + nat"
  oc_fresh :: "string + conn"
  oc_now :: time
  oc_now2 :: time

definition do_open :: "socksSession \<Rightarrow> open_call \<Rightarrow> socksSession \<times> (open_error + conn) \<times> bool" where
  "do_open s c = openStream s (oc_existing c) (oc_dial c) (oc_fresh c) (oc_now c) (oc_now2 c)"

text \<open>The calls that dialled, in order.\<close>

fun dial_log :: "socksSession \<Rightarrow> open_call list \<Rightarrow> open_call list" where
  "dial_log s [] = []"
| "dial_log s (c # cs) = (case do_open s c of (s1, _, dialled) \<Rightarrow> if dialled then c # dial_log s1 cs else dial_log s1 cs)"

definition paced :: "open_call \<Rightarrow> open_call \<Rightarrow> bool" where
  "paced c c' \<longleftrightarrow> (case oc_dial c of Inl e \<Rightarrow> \<not> permanent e \<and> oc_now2 c + redialMin \<le> oc_now c' | Inr _ \<Rightarrow> True)"

lemma open_cases:
  assumes "do_open s c = (s1, r, dialled)"
  shows "if dialled then fatal s = None \<and> nextDial s \<le> oc_now c \<and>
       (case oc_dial c of
          Inl e \<Rightarrow> if permanent e then s1 = s\<lparr>sess := None, fatal := Some e\<rparr>
                   else s1 = s\<lparr>sess := None, backoff := min (max (2 * backoff s) redialMin) redialMax,
                               nextDial := oc_now2 c + min (max (2 * backoff s) redialMin) redialMax\<rparr>
        | Inr i \<Rightarrow> s1 = s\<lparr>sess := Some i, backoff := 0\<rparr>)
     else fatal s1 = fatal s \<and> nextDial s1 = nextDial s \<and> backoff s1 = backoff s"
  using assms unfolding do_open_def openStream_def
  by (auto simp: Let_def split: sum.splits option.splits if_splits)

lemma fatal_stays: "fatal s \<noteq> None \<Longrightarrow> dial_log s cs = []"
proof (induction cs arbitrary: s)
  case (Cons c cs)
  obtain s1 r dialled where d: "do_open s c = (s1, r, dialled)" by (metis prod_cases3)
  show ?case using open_cases [OF d] Cons d by (cases dialled) auto
qed simp

lemma dial_log_after:
  assumes "fatal s = None" "\<And>c. nextDial s \<le> oc_now c \<Longrightarrow> P c" "dial_log s cs = c # rest"
  shows "P c"
  using assms
proof (induction cs arbitrary: s)
  case (Cons c0 cs)
  obtain s1 r dialled where d: "do_open s c0 = (s1, r, dialled)" by (metis prod_cases3)
  show ?case using open_cases [OF d] Cons d by (cases dialled) auto
qed simp

lemma paced_log: "successively paced (dial_log s cs)"
proof (induction cs arbitrary: s)
  case (Cons c cs)
  obtain s1 r dialled where d: "do_open s c = (s1, r, dialled)" by (metis prod_cases3)
  note oc = open_cases [OF d]
  show ?case
  proof (cases "dialled")
    case False
    then show ?thesis using Cons d by simp
  next
    case True
    have "dial_log s1 cs = [] \<or> paced c (hd (dial_log s1 cs))"
    proof (cases "dial_log s1 cs")
      case (Cons c' rest)
      show ?thesis
      proof (cases "oc_dial c")
        case (Inl e)
        have "fatal s1 = None" using fatal_stays [of s1 cs] Cons by (cases "fatal s1") auto
        then have np: "\<not> permanent e" "nextDial s1 = oc_now2 c + min (max (2 * backoff s) redialMin) redialMax"
          using oc True Inl by (auto split: if_splits)
        have "nextDial s1 \<le> oc_now c'"
          by (rule dial_log_after [OF \<open>fatal s1 = None\<close> _ Cons]) simp
        moreover have "redialMin \<le> min (max (2 * backoff s) redialMin) redialMax" by (simp add: redialMin_def redialMax_def ms_def sec_def)
        ultimately have "paced c c'" using np Inl by (simp add: paced_def)
        then show ?thesis using Cons by simp
      qed (simp add: paced_def)
    qed simp
    then show ?thesis using Cons.IH [of s1] d True by (auto simp: successively_Cons)
  qed
qed simp

text \<open>However often applications ask for a stream while the server cannot be reached, two dials are at
  least half a second apart after a failure, and after a failure that retrying cannot repair (a wrong
  key, whose retries would get the address banned) the client never dials again. The wait stays
  between half a second and five seconds.\<close>

theorem redials_paced:
  "successively paced (dial_log s cs) \<and> (\<nexists>c. fatal s \<noteq> None \<and> c \<in> set (dial_log s cs)) \<and>
   (\<nexists>c s1 r e. do_open s c = (s1, r, True) \<and> oc_dial c = Inl e \<and> \<not> permanent e \<and>
      \<not> (redialMin \<le> nextDial s1 - oc_now2 c \<and> nextDial s1 - oc_now2 c \<le> redialMax))"
proof -
  have "redialMin \<le> nextDial s1 - oc_now2 c \<and> nextDial s1 - oc_now2 c \<le> redialMax"
    if "do_open s c = (s1, r, True)" "oc_dial c = Inl e" "\<not> permanent e" for c s1 r e
    using open_cases [OF that(1)] that(2,3) by (simp add: redialMin_def redialMax_def ms_def sec_def)
  then show ?thesis using paced_log fatal_stays [of s cs] by fastforce
qed

end
