(* ===== verification/VpnServer.thy ===== *)
theory VpnServer
  imports Auth Frame Sched
begin

unbundle bit_operations_syntax

text \<open>
  cmd/server/vpn.go: the vpn channel of the server. Client connections are numbers, and a
  \<^verbatim>\<open>*vpnPeer\<close> is identified by its connection. The operations return what they do besides
  changing the shared state: packets put into a peer's queue (a scheduler of its own),
  packets written into the TUN, connections and queues closed.
\<close>

record vpn =
  currentVPN :: "nat option"
  peers :: "(nat, peer) fmap"         \<comment> \<open>the connections being handled, with their clients\<close>
  vpnSeq :: u32
  vpnStopped :: bool

datatype vpn_out =
    Enq nat flowkey bytes             \<comment> \<open>into the queue of this peer\<close>
  | TunWrite bytes
  | CloseConn nat
  | CloseQueue nat

definition vpn_start :: vpn where
  "vpn_start = \<lparr>currentVPN = None, peers = fmempty, vpnSeq = 0, vpnStopped = False\<rparr>"

definition keepaliveFlow :: flowkey where
  "keepaliveFlow = zero_key\<lparr>fk_proto := 255\<rparr>"

definition virtioHdrLen :: nat where "virtioHdrLen = 10"

definition nextVPNSeq :: "vpn \<Rightarrow> vpn \<times> u32" where
  "nextVPNSeq v = (v\<lparr>vpnSeq := vpnSeq v + 1\<rparr>, vpnSeq v + 1)"

text \<open>One queued packet of a TUN read; \<open>nows\<close> are the instants of \<^verbatim>\<open>frame.New\<close>.\<close>

fun queue_packets :: "vpn \<Rightarrow> nat \<Rightarrow> (nat \<Rightarrow> time) \<Rightarrow> bytes list \<Rightarrow> vpn \<times> vpn_out list" where
  "queue_packets v c nows [] = (v, [])"
| "queue_packets v c nows (pkt # pkts) =
     (if MaxPayload < length pkt then queue_packets v c nows pkts
      else case nextVPNSeq v of
             (v1, n) \<Rightarrow>
               (case queue_packets v1 c (\<lambda>i. nows (Suc i)) pkts of
                  (v2, outs) \<Rightarrow> (v2, Enq c (FlowOf pkt) (marshal (frame_new n (nows 0) pkt)) # outs)))"

datatype tun_error = NoError | TooManySegments | TunFailed

definition stopVPN :: "vpn \<Rightarrow> vpn \<times> vpn_out list" where
  "stopVPN v =
     (v\<lparr>vpnStopped := True, currentVPN := None\<rparr>,
      case currentVPN v of None \<Rightarrow> [] | Some c \<Rightarrow> [CloseConn c])"

text \<open>One round of \<^verbatim>\<open>vpnTunReader\<close>: the packets read and the error, if any.\<close>

definition tun_read :: "vpn \<Rightarrow> (nat \<Rightarrow> time) \<Rightarrow> bytes list \<Rightarrow> tun_error \<Rightarrow> vpn \<times> vpn_out list" where
  "tun_read v nows pkts err =
     (case (case currentVPN v of None \<Rightarrow> (v, []) | Some c \<Rightarrow> queue_packets v c nows pkts) of
        (v1, outs) \<Rightarrow>
          if err = TunFailed then (case stopVPN v1 of (v2, outs2) \<Rightarrow> (v2, outs @ outs2))
          else (v1, outs))"

datatype claim_error = VPNStopped | UsedBy peer

definition claimVPN :: "vpn \<Rightarrow> nat \<Rightarrow> peer \<Rightarrow> vpn \<times> (claim_error + nat option)" where
  "claimVPN v c p =
     (if vpnStopped v then (v, Inl VPNStopped)
      else case currentVPN v of
             Some old \<Rightarrow>
               (case fmlookup (peers v) old of
                  Some q \<Rightarrow> if KeyID q \<noteq> KeyID p then (v, Inl (UsedBy q)) else (v\<lparr>currentVPN := Some c\<rparr>, Inr (Some old))
                | None \<Rightarrow> (v\<lparr>currentVPN := Some c\<rparr>, Inr (Some old)))
           | None \<Rightarrow> (v\<lparr>currentVPN := Some c\<rparr>, Inr None))"

definition fromClient :: "bytes \<Rightarrow> ip \<Rightarrow> bool" where
  "fromClient pkt clientIP \<longleftrightarrow> 20 \<le> length pkt \<and> drop_bit 4 (pkt ! 0) = 4 \<and> slice 12 16 pkt = To4 clientIP"

text \<open>\<open>buf\<close> is the buffer up to its capacity.\<close>

definition withVirtioHdr :: "bytes \<Rightarrow> bytes \<Rightarrow> bytes" where
  "withVirtioHdr buf payload =
     (let n = virtioHdrLen + length payload;
          b = take n (if length buf < n then replicate n 0 else buf);
          b1 = replicate virtioHdrLen 0 @ drop virtioHdrLen b
      in take virtioHdrLen b1 @ payload)"

text \<open>\<^verbatim>\<open>handleVPNConn\<close> in its three parts: the connection is accepted, a frame arrives, it ends.\<close>

definition vpn_connect :: "vpn \<Rightarrow> nat \<Rightarrow> peer \<Rightarrow> vpn \<times> vpn_out list" where
  "vpn_connect v c p =
     (case claimVPN v c p of
        (v1, Inl e) \<Rightarrow> (v1, [CloseConn c])
      | (v1, Inr old) \<Rightarrow>
          (v1\<lparr>peers := fmupd c p (peers v1)\<rparr>, case old of None \<Rightarrow> [] | Some o' \<Rightarrow> [CloseConn o']))"

definition vpn_frame :: "ip \<Rightarrow> vpn \<Rightarrow> nat \<Rightarrow> frame \<Rightarrow> time \<Rightarrow> bytes \<Rightarrow> vpn \<times> vpn_out list" where
  "vpn_frame clientIP v c f now buf =
     (if fmlookup (peers v) c = None then (v, [])
      else if f_payload f = [] then
        (case nextVPNSeq v of (v1, n) \<Rightarrow> (v1, [Enq c keepaliveFlow (marshal (frame_new n now []))]))
      else if \<not> fromClient (f_payload f) clientIP then (v, [])
      else (v, [TunWrite (withVirtioHdr buf (f_payload f))]))"

definition vpn_disconnect :: "vpn \<Rightarrow> nat \<Rightarrow> vpn \<times> vpn_out list" where
  "vpn_disconnect v c =
     (if fmlookup (peers v) c = None then (v, [])
      else (v\<lparr>currentVPN := (if currentVPN v = Some c then None else currentVPN v), peers := fmdrop c (peers v)\<rparr>,
            [CloseQueue c, CloseConn c]))"

text \<open>One write of \<^verbatim>\<open>writeLoop\<close>: a batch of the queue, back to back.\<close>

definition batch_bytes :: "bytes list \<Rightarrow> bytes" where
  "batch_bytes batch = foldl (\<lambda>buf wire. buf @ wire) [] batch"

section \<open>One client, nothing spoofed\<close>

datatype vpn_op =
    Connect nat peer | FrameIn nat frame time bytes | Disconnect nat | TunRead "nat \<Rightarrow> time" "bytes list" tun_error

definition vpn_step :: "ip \<Rightarrow> vpn \<Rightarrow> vpn_op \<Rightarrow> vpn \<times> vpn_out list" where
  "vpn_step clientIP v x =
     (case x of
        Connect c p \<Rightarrow> if fmlookup (peers v) c = None then vpn_connect v c p else (v, [])
      | FrameIn c f now buf \<Rightarrow> vpn_frame clientIP v c f now buf
      | Disconnect c \<Rightarrow> vpn_disconnect v c
      | TunRead nows pkts err \<Rightarrow> tun_read v nows pkts err)"

definition vpn_inv :: "vpn \<Rightarrow> bool" where
  "vpn_inv v \<longleftrightarrow>
     (case currentVPN v of None \<Rightarrow> True | Some c \<Rightarrow> \<not> vpnStopped v \<and> (\<exists>p. fmlookup (peers v) c = Some p))"

lemma queue_packets_state:
  "queue_packets v c nows pkts = (v', outs) \<Longrightarrow>
     currentVPN v' = currentVPN v \<and> peers v' = peers v \<and> vpnStopped v' = vpnStopped v"
proof (induction pkts arbitrary: v nows v' outs)
  case (Cons pkt pkts)
  obtain v1 n where n: "nextVPNSeq v = (v1, n)" by force
  have v1: "currentVPN v1 = currentVPN v" "peers v1 = peers v" "vpnStopped v1 = vpnStopped v"
    using n by (auto simp: nextVPNSeq_def)
  obtain v2 outs2 where q: "queue_packets v1 c (\<lambda>i. nows (Suc i)) pkts = (v2, outs2)" by force
  show ?case
  proof (cases "MaxPayload < length pkt")
    case True
    then show ?thesis using Cons by simp
  next
    case False
    then have "v' = v2" using Cons.prems n q by simp
    then show ?thesis using Cons.IH [OF q] v1 by simp
  qed
qed simp

lemma queue_packets_outs:
  "queue_packets v c nows pkts = (v', outs) \<Longrightarrow> out \<in> set outs \<Longrightarrow>
     \<exists>pkt n t. pkt \<in> set pkts \<and> length pkt \<le> MaxPayload \<and> out = Enq c (FlowOf pkt) (marshal (frame_new n t pkt))"
proof (induction pkts arbitrary: v nows v' outs)
  case (Cons pkt pkts)
  obtain v1 n where n: "nextVPNSeq v = (v1, n)" by force
  obtain v2 outs2 where q: "queue_packets v1 c (\<lambda>i. nows (Suc i)) pkts = (v2, outs2)" by force
  show ?case
  proof (cases "MaxPayload < length pkt")
    case True
    then have "queue_packets v c nows pkts = (v', outs)" using Cons.prems by simp
    from Cons.IH [OF this Cons.prems(2)] show ?thesis by auto
  next
    case False
    then have "outs = Enq c (FlowOf pkt) (marshal (frame_new n (nows 0) pkt)) # outs2" using Cons.prems(1) n q by simp
    with Cons.prems(2) have "out = Enq c (FlowOf pkt) (marshal (frame_new n (nows 0) pkt)) \<or> out \<in> set outs2" by simp
    then show ?thesis
    proof
      assume "out \<in> set outs2"
      from Cons.IH [OF q this] show ?thesis by auto
    next
      assume "out = Enq c (FlowOf pkt) (marshal (frame_new n (nows 0) pkt))"
      then show ?thesis using False by (intro exI [of _ pkt] exI [of _ n] exI [of _ "nows 0"]) simp
    qed
  qed
qed simp

lemma virtio_frame: "withVirtioHdr buf payload = replicate virtioHdrLen 0 @ payload"
  by (simp add: withVirtioHdr_def Let_def)

lemma vpn_start_inv: "vpn_inv vpn_start"
  by (simp add: vpn_inv_def vpn_start_def)

lemma vpn_step_inv: "vpn_inv v \<Longrightarrow> vpn_inv (fst (vpn_step ip v x))"
proof (cases x)
  case (TunRead nows pkts err)
  then show "vpn_inv v \<Longrightarrow> ?thesis"
    by (auto simp: vpn_inv_def vpn_step_def tun_read_def stopVPN_def split: option.splits prod.splits
        dest!: queue_packets_state)
qed (auto simp: vpn_inv_def vpn_step_def vpn_connect_def claimVPN_def vpn_frame_def vpn_disconnect_def nextVPNSeq_def
      split: option.splits if_splits)

interpretation vpn_channel: guarded_system "\<lambda>v x. fst (vpn_step ip v x)" vpn_inv vpn_start for ip
  by unfold_locales (simp_all add: vpn_start_inv vpn_step_inv)

definition vpn_run :: "ip \<Rightarrow> vpn_op list \<Rightarrow> vpn" where
  "vpn_run ip xs = foldl (\<lambda>v x. fst (vpn_step ip v x)) vpn_start xs"

text \<open>What one step may do, in any state.\<close>

definition exclusive :: "vpn \<Rightarrow> vpn \<Rightarrow> vpn_out list \<Rightarrow> bool" where
  "exclusive v v' outs \<longleftrightarrow>
     (case (currentVPN v, currentVPN v') of
        (Some c, Some c') \<Rightarrow>
          c = c' \<or> (map_option KeyID (fmlookup (peers v) c) = map_option KeyID (fmlookup (peers v') c') \<and> CloseConn c \<in> set outs)
      | _ \<Rightarrow> True)"

definition addressed :: "ip \<Rightarrow> vpn \<Rightarrow> vpn_op \<Rightarrow> vpn_out \<Rightarrow> bool" where
  "addressed ip v x out \<longleftrightarrow>
     (case out of
        TunWrite b \<Rightarrow> (\<exists>c f now buf. x = FrameIn c f now buf \<and> b = replicate 10 0 @ f_payload f \<and> fromClient (f_payload f) ip)
      | Enq c k w \<Rightarrow>
          (\<exists>f now buf. x = FrameIn c f now buf \<and> f_payload f = [] \<and> k = keepaliveFlow) \<or>
          (currentVPN v = Some c \<and> (\<exists>nows pkts err pkt n t. x = TunRead nows pkts err \<and> pkt \<in> set pkts \<and>
             length pkt \<le> MaxPayload \<and> k = FlowOf pkt \<and> w = marshal (frame_new n t pkt)))
      | _ \<Rightarrow> True)"

lemma step_exclusive: "vpn_inv v \<Longrightarrow> vpn_step ip v x = (v', outs) \<Longrightarrow> exclusive v v' outs"
proof (cases x)
  case (TunRead nows pkts err)
  then show "vpn_inv v \<Longrightarrow> vpn_step ip v x = (v', outs) \<Longrightarrow> ?thesis"
    by (auto simp: exclusive_def vpn_step_def tun_read_def stopVPN_def split: option.splits prod.splits if_splits
        dest!: queue_packets_state)
qed (auto simp: vpn_inv_def exclusive_def vpn_step_def vpn_connect_def claimVPN_def vpn_frame_def vpn_disconnect_def nextVPNSeq_def
      split: option.splits if_splits)

lemma tun_read_outs:
  "tun_read v nows pkts err = (v', outs) \<Longrightarrow> out \<in> set outs \<Longrightarrow>
     (\<exists>c. out = CloseConn c) \<or> (\<exists>c v1 outs1. currentVPN v = Some c \<and> queue_packets v c nows pkts = (v1, outs1) \<and> out \<in> set outs1)"
  by (cases "currentVPN v") (auto simp: tun_read_def stopVPN_def split: option.splits prod.splits if_splits)

lemma step_addressed: "vpn_step ip v x = (v', outs) \<Longrightarrow> out \<in> set outs \<Longrightarrow> addressed ip v x out"
proof (cases x)
  case (TunRead nows pkts err)
  assume "vpn_step ip v x = (v', outs)" "out \<in> set outs"
  then have "tun_read v nows pkts err = (v', outs)" using TunRead by (simp add: vpn_step_def)
  from tun_read_outs [OF this \<open>out \<in> set outs\<close>] show ?thesis
    using queue_packets_outs TunRead by (fastforce simp: addressed_def)
qed (auto simp: addressed_def vpn_step_def vpn_connect_def claimVPN_def vpn_frame_def vpn_disconnect_def nextVPNSeq_def
      virtio_frame virtioHdrLen_def split: option.splits if_splits)

lemma stopped_stays: "vpn_step ip v x = (v', outs) \<Longrightarrow> vpnStopped v \<Longrightarrow> vpnStopped v'"
  by (cases x) (auto simp: vpn_step_def vpn_connect_def claimVPN_def vpn_frame_def vpn_disconnect_def nextVPNSeq_def tun_read_def
      stopVPN_def split: option.splits prod.splits if_splits dest!: queue_packets_state)



text \<open>A batch is the frames' bytes one after the other, which a client reads back one by one.\<close>

lemma batch_concat: "batch_bytes batch = concat batch"
proof -
  have "foldl (\<lambda>buf wire. buf @ wire) b batch = b @ concat batch" for b
    by (induction batch arbitrary: b) simp_all
  then show ?thesis by (simp add: batch_bytes_def)
qed

lemma batch_read_back:
  "list_all fits fs \<Longrightarrow> read_many read_frame (length fs) (batch_bytes (map marshal fs) @ rest, e) = Inr (fs, (rest, e))"
  unfolding batch_concat by (rule frames.read_batch)

end
