(* ===== verification/VpnSetup.thy ===== *)
theory VpnSetup
  imports Conn NetText Egress
begin

unbundle bit_operations_syntax

text \<open>
  cmd/server/vpn_setup.go: the address plan of the vpn channel and the firewall of the TUN, and
  \<^verbatim>\<open>vpnAddresses\<close> of cmd/client/startup.go, the client's reading of the same setting. The commands
  \<^verbatim>\<open>ip\<close> and \<^verbatim>\<open>iptables\<close> are a parameter: what a command line does to the state of the system, and
  whether it succeeded (\<open>run\<close>). What the program relies on of \<^verbatim>\<open>iptables\<close> is the hypothesis
  \<open>iptables_ok\<close>.
\<close>

section \<open>The address plan\<close>

record vpnNet =
  vn_subnet :: ipnet
  serverIP :: ip
  clientIP :: ip

datatype subnet_error = BadCIDR | NotIPv4 | HostBits | BadPrefixLength nat

definition parseVPNSubnet :: "string \<Rightarrow> subnet_error + vpnNet" where
  "parseVPNSubnet s =
     (case ParseCIDR s of
        None \<Rightarrow> Inl BadCIDR
      | Some (a, net, ones) \<Rightarrow>
          let base = To4 (net_ip net) in
          if base = [] then Inl NotIPv4
          else if \<not> ip_equal a (net_ip net) then Inl HostBits
          else if 30 < ones \<or> ones < 8 then Inl (BadPrefixLength ones)
          else Inr \<lparr>vn_subnet = net, serverIP = [base ! 0, base ! 1, base ! 2, base ! 3 OR 1],
                    clientIP = [base ! 0, base ! 1, base ! 2, base ! 3 OR 2]\<rparr>)"

text \<open>\<^verbatim>\<open>netip.ParsePrefix\<close> for an IPv4 address (\<open>None\<close> also for a valid IPv6 prefix).\<close>

definition parse_prefix4 :: "string \<Rightarrow> (bytes \<times> nat) option" where
  "parse_prefix4 s =
     (case split_last CHR ''/'' s of
        None \<Rightarrow> None
      | Some (addr, len) \<Rightarrow>
          (case parse_v4 addr of
             None \<Rightarrow> None
           | Some b \<Rightarrow>
               if len = [] \<or> \<not> list_all is_digit len \<or> (1 < length len \<and> hd len = CHR ''0'') \<or> 32 < dec_value len then None
               else Some (b, dec_value len)))"

text \<open>\<^verbatim>\<open>Addr.Next\<close> on the four bytes.\<close>

definition next_v4 :: "bytes \<Rightarrow> bytes" where
  "next_v4 b = put32 (get32 b + 1)"

definition vpnAddresses :: "string \<Rightarrow> (ip \<times> ip) option" where
  "vpnAddresses subnet =
     (case parse_prefix4 subnet of
        None \<Rightarrow> None
      | Some (b, bits) \<Rightarrow>
          if 30 < bits then None
          else
            let gateway = next_v4 (net_ip (cidr b bits))
            in Some (next_v4 gateway, gateway))"

lemma parse_v4_chars: "parse_v4 s = Some b \<Longrightarrow> c \<in> set s \<Longrightarrow> is_digit c \<or> c = CHR ''.''"
proof (rule ccontr)
  assume p: "parse_v4 s = Some b" and c: "c \<in> set s" and n: "\<not> (is_digit c \<or> c = CHR ''.'')"
  have "c \<in> set (concat (split_on CHR ''.'' s)) \<or> c = CHR ''.''"
    using c by (induction s) (auto split: list.splits)
  then obtain w where w: "w \<in> set (split_on CHR ''.'' s)" "c \<in> set w" using n by auto
  then have "v4_field w = None" using n by (auto simp: v4_field_def list_all_iff)
  then have "None \<in> set (map v4_field (split_on CHR ''.'' s))" using w(1) by force
  then show False using p by (auto simp: parse_v4_def split: list.splits option.splits)
qed

lemma parse_v4_length: "parse_v4 s = Some b \<Longrightarrow> length b = 4"
  by (auto simp: parse_v4_def split: list.splits option.splits)

lemma ParseIP_dotted:
  assumes "parse_v4 s = Some b"
  shows "ParseIP s = v4_prefix @ b"
proof -
  have ch: "c \<in> set s \<Longrightarrow> is_digit c \<or> c = CHR ''.''" for c by (rule parse_v4_chars [OF assms])
  have "CHR ''.'' \<in> set s"
  proof (rule ccontr)
    assume "CHR ''.'' \<notin> set s"
    then have "split_on CHR ''.'' s = [s]" by (rule split_on_plain)
    then show False using assms by (simp add: parse_v4_def split: option.splits)
  qed
  moreover have "filter (\<lambda>c. c = CHR ''.'' \<or> c = CHR '':'' \<or> c = CHR 0x25) s = filter (\<lambda>c. c = CHR ''.'') s"
    using ch [of "CHR '':''"] ch [of "CHR 0x25"] by (intro filter_cong) (auto simp: is_digit_def)
  moreover obtain c cs where f: "filter (\<lambda>c. c = CHR ''.'') s = c # cs"
    using calculation(1) by (cases "filter (\<lambda>c. c = CHR ''.'') s") (auto simp: filter_empty_conv)
  moreover have "c = CHR ''.''" using f Cons_eq_filterD [OF f [symmetric]] by auto
  ultimately show ?thesis using assms by (simp add: ParseIP_def)
qed

lemma mask_low_bits: "k \<le> 6 \<Longrightarrow> i < 2 \<Longrightarrow> \<not> bit (mask_byte k) i"
  by (auto simp: mask_byte_def bit_simps)

lemma be_put_take_get:
  "8 * length a \<le> m \<Longrightarrow> 8 * length a \<le> LENGTH('a) \<Longrightarrow> be_put (length a) (take_bit m (be_get a :: 'a::len word)) = a"
proof (induction a arbitrary: m rule: rev_induct)
  case (snoc b a)
  define w where "w = (be_get a :: 'a word)"
  have m: "8 \<le> m" "8 \<le> LENGTH('a)" using snoc.prems by simp_all
  have "drop_bit 8 (take_bit m (push_bit 8 w OR ucast b)) = take_bit (min (m - 8) (LENGTH('a) - 8)) w"
    by (rule bit_word_eqI) (use m in \<open>auto simp: bit_simps dest: bit_imp_le_length\<close>)
  moreover have "ucast (take_bit m (push_bit 8 w OR ucast b)) = b"
    by (rule bit_word_eqI) (use m in \<open>auto simp: bit_simps\<close>)
  moreover have "be_put (length a) (take_bit (min (m - 8) (LENGTH('a) - 8)) w) = a"
    unfolding w_def by (rule snoc.IH) (use snoc.prems in \<open>simp_all, linarith+\<close>)
  ultimately show ?case by (simp add: be_get_snoc w_def [symmetric])
qed simp

lemma put32_or:
  assumes a: "length a = 3" and x: "x = 1 \<or> x = 2"
  shows "put32 (get32 (a @ [b]) OR x) = a @ [b OR ucast x]"
proof -
  have "get32 (a @ [b]) OR x = get32 (a @ [b OR ucast x])"
    using x by (auto simp: be_get_snoc intro!: bit_word_eqI simp: bit_simps bit_2_iff bit_1_iff)
  moreover have "put32 (take_bit 32 (get32 (a @ [b OR ucast x]))) = a @ [b OR ucast x]"
    using be_put_take_get [of "a @ [b OR ucast x]" 32, where 'a = 32] a by simp
  ultimately show ?thesis by (simp add: take_bit_word_eq_self)
qed

lemma next_is_or:
  assumes "length a = 3" "\<not> bit b 0" "\<not> bit b 1"
  shows "next_v4 (a @ [b]) = a @ [b OR 1]" "next_v4 (next_v4 (a @ [b])) = a @ [b OR 2]"
proof -
  define w where "w = get32 (a @ [b])"
  have b: "\<not> bit w 0" "\<not> bit w 1" using assms(2,3) by (simp_all add: w_def be_get_snoc bit_simps)
  have "w AND 1 = 0" "w AND 2 = 0" using b by (auto intro!: bit_word_eqI simp: bit_simps bit_1_iff bit_2_iff)
  then have p: "w + 1 = w OR 1" "w + 2 = w OR 2" using word_plus_and_or [of w 1] word_plus_and_or [of w 2] by simp_all
  show "next_v4 (a @ [b]) = a @ [b OR 1]"
    using put32_or [OF assms(1), of 1 b] p(1) by (simp add: next_v4_def w_def del: be_put.simps)
  have "next_v4 (next_v4 (a @ [b])) = put32 (w + 1 + 1)" by (simp add: next_v4_def w_def del: be_put.simps)
  also have "w + 1 + 1 = w OR 2" using p(2) by (simp add: add.assoc)
  finally show "next_v4 (next_v4 (a @ [b])) = a @ [b OR 2]"
    using put32_or [OF assms(1), of 2 b] by (simp add: w_def del: be_put.simps)
qed

text \<open>What \<^verbatim>\<open>ParseCIDR\<close> gives for a text \<^verbatim>\<open>ParsePrefix\<close> accepts as IPv4.\<close>

lemma cidr_of_prefix4:
  assumes p: "parse_prefix4 s = Some (b, bits)" and c: "ParseCIDR s = Some (a, net, ones)"
  shows "length b = 4 \<and> ones = bits \<and> a = v4_prefix @ b \<and> net = cidr b bits"
proof -
  from p obtain addr len where sp: "split_last CHR ''/'' s = Some (addr, len)" "parse_v4 addr = Some b" "bits = dec_value len"
    by (auto simp: parse_prefix4_def split: option.splits prod.splits if_splits)
  have s: "s = addr @ CHR ''/'' # len" using split_last_Some [OF sp(1)] by simp
  have ch: "c \<in> set addr \<Longrightarrow> is_digit c \<or> c = CHR ''.''" for c by (rule parse_v4_chars [OF sp(2)])
  have ns: "CHR ''/'' \<notin> set addr" "CHR '':'' \<notin> set addr" using ch [of "CHR ''/''"] ch [of "CHR '':''"] by (auto simp: is_digit_def)
  have t: "takeWhile (\<lambda>c. c \<noteq> CHR ''/'') s = addr" "dropWhile (\<lambda>c. c \<noteq> CHR ''/'') s = CHR ''/'' # len"
    using ns(1) unfolding s by (subst takeWhile_append2 dropWhile_append2; auto)+
  have l: "length b = 4" by (rule parse_v4_length [OF sp(2)])
  have "To4 (v4_prefix @ b) = b" using l by (simp add: To4_def v4_prefix_def)
  then show ?thesis using c l ns(2) ParseIP_dotted [OF sp(2)] sp(3)
    by (auto simp: ParseCIDR_def t Let_def split: if_splits)
qed

lemma cidr4:
  assumes "length b = 4"
  shows "net_ip (cidr b k) = [b ! 0 AND mask_byte k, b ! 1 AND mask_byte (k - 8), b ! 2 AND mask_byte (k - 16), b ! 3 AND mask_byte (k - 24)]"
proof -
  obtain b0 b1 b2 b3 where "b = [b0, b1, b2, b3]" using assms by (auto simp: length_Suc_conv numeral_eq_Suc)
  then show ?thesis by (simp add: cidr_def numeral_eq_Suc)
qed

lemma addresses_agree:
  assumes "parseVPNSubnet s = Inr n" "vpnAddresses s = Some (local_addr, gateway)"
  shows "local_addr = clientIP n \<and> gateway = serverIP n \<and> serverIP n \<noteq> clientIP n \<and>
     net_contains (vn_subnet n) (serverIP n) \<and> net_contains (vn_subnet n) (clientIP n) \<and>
     serverIP n \<noteq> net_ip (vn_subnet n) \<and> clientIP n \<noteq> net_ip (vn_subnet n)"
proof -
  from assms(1) obtain a net ones where c: "ParseCIDR s = Some (a, net, ones)" by (auto simp: parseVPNSubnet_def split: option.splits)
  from assms(2) obtain b bits where p: "parse_prefix4 s = Some (b, bits)" "bits \<le> 30"
    and v: "gateway = next_v4 (net_ip (cidr b bits))" "local_addr = next_v4 gateway"
    by (auto simp: vpnAddresses_def Let_def split: option.splits if_splits)
  note e = cidr_of_prefix4 [OF p(1) c]
  define x where "x = b ! 3 AND mask_byte (bits - 24)"
  define h where "h = [b ! 0 AND mask_byte bits, b ! 1 AND mask_byte (bits - 8), b ! 2 AND mask_byte (bits - 16)]"
  have base: "net_ip (cidr b bits) = h @ [x]" "length h = 3" using cidr4 [of b bits] e by (simp_all add: h_def x_def)
  have low: "\<not> bit x 0" "\<not> bit x 1" using mask_low_bits [of "bits - 24"] p(2) by (simp_all add: x_def bit_simps)
  have To4: "To4 (h @ [x]) = h @ [x]" using base(2) by simp
  have n: "n = \<lparr>vn_subnet = cidr b bits, serverIP = h @ [x OR 1], clientIP = h @ [x OR 2]\<rparr>"
    using assms(1) c e base To4 by (simp add: parseVPNSubnet_def Let_def nth_append h_def split: if_splits)
  have mask: "net_mask (cidr b bits) = [mask_byte bits, mask_byte (bits - 8), mask_byte (bits - 16), mask_byte (bits - 24)]"
    using e by (simp add: cidr_def numeral_eq_Suc)
  have m: "\<not> bit (mask_byte (bits - 24)) 0" "\<not> bit (mask_byte (bits - 24)) 1" using mask_low_bits [of "bits - 24"] p(2) by simp_all
  then have keep: "(x OR 1) AND mask_byte (bits - 24) = x AND mask_byte (bits - 24)"
    "(x OR 2) AND mask_byte (bits - 24) = x AND mask_byte (bits - 24)"
    by (auto intro!: bit_word_eqI simp: bit_simps bit_1_iff bit_2_iff)
  have "bit (x OR 1) 0" "\<not> bit (x OR 2) 0" "bit (x OR 2) 1" using low by (simp_all add: bit_simps bit_1_iff bit_2_iff)
  then have ne: "x OR 1 \<noteq> x OR 2" "x OR 1 \<noteq> x" "x OR 2 \<noteq> x" using low by metis+
  have inside: "net_contains (cidr b bits) (h @ [y])" if "y AND mask_byte (bits - 24) = x AND mask_byte (bits - 24)" for y
    using that base mask by (simp add: net_contains_def h_def)
  have "gateway = h @ [x OR 1]" "local_addr = h @ [x OR 2]"
    using v base(1) next_is_or [OF base(2) low] by simp_all
  then show ?thesis using ne keep inside base(1) by (simp add: n)
qed

text \<open>Client and server read the same addresses out of the same setting: whenever both accept a subnet,
  the client's own and gateway address are the client and server address of the server's plan, four
  different bytes patterns inside the subnet: neither the network address nor each other.\<close>

theorem vpn_addresses_agree:
  assumes "parseVPNSubnet s = Inr n" "vpnAddresses s = Some (local_addr, gateway)"
  shows "local_addr = clientIP n \<and> gateway = serverIP n \<and> serverIP n \<noteq> clientIP n \<and>
     net_contains (vn_subnet n) (serverIP n) \<and> net_contains (vn_subnet n) (clientIP n) \<and>
     serverIP n \<noteq> net_ip (vn_subnet n) \<and> clientIP n \<noteq> net_ip (vn_subnet n)"
  using assms by (rule addresses_agree)

theorem vpn_addresses_agree_witness:
  "\<exists>n local_addr gateway. parseVPNSubnet ''10.66.0.0/24'' = Inr n \<and> vpnAddresses ''10.66.0.0/24'' = Some (local_addr, gateway) \<and>
     local_addr = clientIP n \<and> gateway = serverIP n"
proof -
  have p: "parse_prefix4 ''10.66.0.0/24'' = Some ([10, 66, 0, 0], 24)"
    by code_simp
  have "\<not> isl (parseVPNSubnet ''10.66.0.0/24'')" by code_simp
  then obtain n where n: "parseVPNSubnet ''10.66.0.0/24'' = Inr n" by (cases "parseVPNSubnet ''10.66.0.0/24''") auto
  obtain l g where v: "vpnAddresses ''10.66.0.0/24'' = Some (l, g)" using p by (simp add: vpnAddresses_def Let_def)
  from vpn_addresses_agree [OF n v] n v show ?thesis by blast
qed

section \<open>The firewall of the TUN\<close>

record fwRule =
  fw_table :: string        \<comment> \<open>empty for the filter table\<close>
  fw_chain :: string
  fw_spec :: "string list"
  fw_insert :: bool
  fw_optional :: bool

definition args :: "fwRule \<Rightarrow> string \<Rightarrow> string list" where
  "args r x =
     (if fw_table r \<noteq> '''' then [''-t'', fw_table r] else []) @ [x, fw_chain r] @
     (if x = ''-I'' then [''1''] else []) @ fw_spec r"

text \<open>The state of the system is \<open>'s\<close>; \<open>run\<close> executes a command line and tells whether it succeeded.\<close>

definition fw_run :: "('s \<Rightarrow> string list \<Rightarrow> 's \<times> bool) \<Rightarrow> string \<Rightarrow> 's \<Rightarrow> string list \<Rightarrow> 's \<times> bool" where
  "fw_run run bin s as = run s (bin # [''-w'', ''10''] @ as)"

definition plain_rule :: "string \<Rightarrow> string list \<Rightarrow> fwRule" where
  "plain_rule chain spec = \<lparr>fw_table = '''', fw_chain = chain, fw_spec = spec, fw_insert = False, fw_optional = False\<rparr>"

definition drop_rule :: "string \<Rightarrow> string \<Rightarrow> string list \<Rightarrow> fwRule" where
  "drop_rule tunIface chain match = (plain_rule chain ([''-i'', tunIface] @ match @ [''-j'', ''DROP'']))\<lparr>fw_insert := True\<rparr>"

text \<open>The rules of one forwarding chain, and the old ones to delete there.\<close>

definition chain_rules :: "string \<Rightarrow> bool \<Rightarrow> ip list \<Rightarrow> string \<Rightarrow> fwRule list" where
  "chain_rules tunIface allowPrivate publicIPs chain =
     [drop_rule tunIface chain [''-d'', ''169.254.0.0/16'']] @
     (if allowPrivate then [] else map (\<lambda>cidr. drop_rule tunIface chain [''-d'', cidr]) PrivateCIDRs) @
     map (\<lambda>a. drop_rule tunIface chain [''-d'', ip_string a]) (filter (\<lambda>a. To4 a \<noteq> []) publicIPs) @
     [drop_rule tunIface chain [''-p'', ''tcp'', ''--dport'', ''25''],
      (plain_rule chain [''-o'', tunIface, ''-m'', ''conntrack'', ''--ctstate'', ''ESTABLISHED,RELATED'', ''-j'', ''ACCEPT''])\<lparr>fw_insert := True\<rparr>,
      (plain_rule chain [''-o'', tunIface, ''-j'', ''DROP''])\<lparr>fw_insert := True\<rparr>,
      (plain_rule chain [''-i'', tunIface, ''-j'', ''ACCEPT''])\<lparr>fw_insert := True\<rparr>]"

definition chain_stale :: "string \<Rightarrow> bool \<Rightarrow> string \<Rightarrow> fwRule list" where
  "chain_stale tunIface allowPrivate chain =
     (if allowPrivate then map (\<lambda>cidr. drop_rule tunIface chain [''-d'', cidr]) PrivateCIDRs else []) @
     [plain_rule chain [''-o'', tunIface, ''-j'', ''ACCEPT'']]"

record firewall =
  fw_bin :: string
  fw_rules :: "fwRule list"
  fw_stale :: "fwRule list"

text \<open>\<open>docker\<close> is whether the chain DOCKER-USER exists.\<close>

definition firewall_of :: "bool \<Rightarrow> string \<Rightarrow> string \<Rightarrow> string \<Rightarrow> string \<Rightarrow> bool \<Rightarrow> ip list \<Rightarrow> firewall" where
  "firewall_of docker bin subnet egressIface tunIface allowPrivate publicIPs =
     (let chains = ''FORWARD'' # (if docker then [''DOCKER-USER''] else [])
      in \<lparr>fw_bin = bin,
          fw_rules =
            [(plain_rule ''POSTROUTING'' [''-s'', subnet, ''-o'', egressIface, ''-j'', ''MASQUERADE''])\<lparr>fw_table := ''nat''\<rparr>,
             (plain_rule ''INPUT'' [''-i'', tunIface, ''-j'', ''DROP''])\<lparr>fw_insert := True\<rparr>] @
            concat (map (chain_rules tunIface allowPrivate publicIPs) chains) @
            [(plain_rule ''FORWARD'' [''-o'', tunIface, ''-p'', ''tcp'', ''--tcp-flags'', ''SYN,RST'', ''SYN'', ''-j'', ''TCPMSS'',
                ''--clamp-mss-to-pmtu''])\<lparr>fw_table := ''mangle'', fw_optional := True\<rparr>],
          fw_stale = concat (map (chain_stale tunIface allowPrivate) chains)\<rparr>)"

definition newVPNFirewall ::
  "('s \<Rightarrow> string list \<Rightarrow> 's \<times> bool) \<Rightarrow> 's \<Rightarrow> string \<Rightarrow> string \<Rightarrow> string \<Rightarrow> string \<Rightarrow> bool \<Rightarrow> ip list \<Rightarrow> 's \<times> firewall" where
  "newVPNFirewall run s bin subnet egressIface tunIface allowPrivate publicIPs =
     (case fw_run run bin s [''-S'', ''DOCKER-USER''] of
        (s1, docker) \<Rightarrow> (s1, firewall_of docker bin subnet egressIface tunIface allowPrivate publicIPs))"

definition delete_rules :: "('s \<Rightarrow> string list \<Rightarrow> 's \<times> bool) \<Rightarrow> string \<Rightarrow> 's \<Rightarrow> fwRule list \<Rightarrow> 's" where
  "delete_rules run bin s rs = foldl (\<lambda>s r. fst (fw_run run bin s (args r ''-D''))) s rs"

definition fw_remove :: "('s \<Rightarrow> string list \<Rightarrow> 's \<times> bool) \<Rightarrow> firewall \<Rightarrow> 's \<Rightarrow> 's" where
  "fw_remove run f s = delete_rules run (fw_bin f) s (fw_rules f)"

text \<open>The adding loop over the rules from the last to the first; the result is the rule that could not be added.\<close>

fun add_rules :: "('s \<Rightarrow> string list \<Rightarrow> 's \<times> bool) \<Rightarrow> firewall \<Rightarrow> 's \<Rightarrow> fwRule list \<Rightarrow> 's \<times> fwRule option" where
  "add_rules run f s [] = (s, None)"
| "add_rules run f s (r # rs) =
     (case fw_run run (fw_bin f) s (args r ''-C'') of
        (s1, True) \<Rightarrow> add_rules run f s1 rs
      | (s1, False) \<Rightarrow>
          (case fw_run run (fw_bin f) s1 (args r (if fw_insert r then ''-I'' else ''-A'')) of
             (s2, True) \<Rightarrow> add_rules run f s2 rs
           | (s2, False) \<Rightarrow> if fw_optional r then add_rules run f s2 rs else (fw_remove run f s2, Some r)))"

definition fw_apply :: "('s \<Rightarrow> string list \<Rightarrow> 's \<times> bool) \<Rightarrow> firewall \<Rightarrow> 's \<Rightarrow> 's \<times> fwRule option" where
  "fw_apply run f s = add_rules run f (delete_rules run (fw_bin f) s (fw_stale f)) (rev (fw_rules f))"

text \<open>\<^verbatim>\<open>countRules\<close> and \<^verbatim>\<open>detectIptables\<close>, on the outputs of the two save commands.\<close>

definition countRules :: "string + string \<Rightarrow> string + nat" where
  "countRules out =
     (case out of
        Inl e \<Rightarrow> Inl e
      | Inr text' \<Rightarrow> Inr (length (filter (\<lambda>line. has_prefix line ''-'') (split_on CHR 0x0A text'))))"

definition detectIptables :: "string + string \<Rightarrow> string + string \<Rightarrow> string" where
  "detectIptables legacy_out nft_out =
     (case (countRules legacy_out, countRules nft_out) of
        (Inl _, Inl _) \<Rightarrow> ''iptables''
      | (Inr _, Inl _) \<Rightarrow> ''iptables-legacy''
      | (Inl _, Inr _) \<Rightarrow> ''iptables-nft''
      | (Inr legacy, Inr nft) \<Rightarrow> if nft < legacy then ''iptables-legacy'' else ''iptables-nft'')"

text \<open>\<^verbatim>\<open>detectEgressIface\<close>: the word after the first \<^verbatim>\<open>dev\<close> that has one.\<close>

fun after_dev :: "string list \<Rightarrow> string option" where
  "after_dev (f # g # rest) = (if f = ''dev'' then Some g else after_dev (g # rest))"
| "after_dev _ = None"

definition detectEgressIface :: "string + string \<Rightarrow> string option" where
  "detectEgressIface out = (case out of Inl _ \<Rightarrow> None | Inr text' \<Rightarrow> after_dev (text_fields text'))"

section \<open>All rules or none\<close>

definition loc :: "fwRule \<Rightarrow> string \<times> string" where
  "loc r = (if fw_table r = '''' then ''filter'' else fw_table r, fw_chain r)"

text \<open>
  What the program relies on of \<^verbatim>\<open>iptables\<close>, with \<open>view s\<close> the rules of each chain in state \<open>s\<close>: a check
  changes nothing and succeeds exactly when the rule is there; an append or insert that succeeds adds
  the rule at the end or at the top, one that fails adds nothing (for whatever reason, and at any
  time); a delete removes the first occurrence, if there is one.
\<close>

definition iptables_ok ::
  "('s \<Rightarrow> string list \<Rightarrow> 's \<times> bool) \<Rightarrow> string \<Rightarrow> ('s \<Rightarrow> string \<times> string \<Rightarrow> string list list) \<Rightarrow> bool" where
  "iptables_ok run bin view \<longleftrightarrow>
     (\<forall>s r.
        (case fw_run run bin s (args r ''-C'') of
           (s', ok) \<Rightarrow> view s' = view s \<and> (ok \<longleftrightarrow> fw_spec r \<in> set (view s (loc r)))) \<and>
        (case fw_run run bin s (args r ''-A'') of
           (s', ok) \<Rightarrow> view s' = (if ok then (view s)(loc r := view s (loc r) @ [fw_spec r]) else view s)) \<and>
        (case fw_run run bin s (args r ''-I'') of
           (s', ok) \<Rightarrow> view s' = (if ok then (view s)(loc r := fw_spec r # view s (loc r)) else view s)) \<and>
        view (fst (fw_run run bin s (args r ''-D''))) = (view s)(loc r := remove1 (fw_spec r) (view s (loc r))))"

definition at_top :: "string \<times> string \<Rightarrow> fwRule list \<Rightarrow> string list list" where
  "at_top l rs = map fw_spec (filter (\<lambda>r. loc r = l \<and> fw_insert r) rs)"

definition at_end :: "string \<times> string \<Rightarrow> fwRule list \<Rightarrow> string list list" where
  "at_end l rs = rev (map fw_spec (filter (\<lambda>r. loc r = l \<and> \<not> fw_insert r) rs))"

definition installed :: "('s \<Rightarrow> string \<times> string \<Rightarrow> string list list) \<Rightarrow> (string \<times> string \<Rightarrow> string list list) \<Rightarrow> fwRule list \<Rightarrow> 's \<Rightarrow> bool" where
  "installed view base done s \<longleftrightarrow> (\<forall>l. view s l = at_top l done @ base l @ at_end l done)"

definition absent :: "(string \<times> string \<Rightarrow> string list list) \<Rightarrow> fwRule list \<Rightarrow> bool" where
  "absent base rs \<longleftrightarrow> (\<forall>r\<in>set rs. fw_spec r \<notin> set (base (loc r)))"

definition separate :: "fwRule list \<Rightarrow> bool" where
  "separate rs \<longleftrightarrow> distinct (map (\<lambda>r. (loc r, fw_spec r)) rs)"

lemma at_simps [simp]:
  "at_top l [] = []" "at_end l [] = []"
  "at_top l (r # rs) = (if loc r = l \<and> fw_insert r then fw_spec r # at_top l rs else at_top l rs)"
  "at_end l (r # rs) = (if loc r = l \<and> \<not> fw_insert r then at_end l rs @ [fw_spec r] else at_end l rs)"
  by (simp_all add: at_top_def at_end_def)

lemma at_set: "x \<in> set (at_top l rs) \<union> set (at_end l rs) \<longleftrightarrow> (\<exists>r\<in>set rs. loc r = l \<and> fw_spec r = x)"
  by (induction rs) auto

lemma separate_inj: "separate rs \<Longrightarrow> r \<in> set rs \<Longrightarrow> r' \<in> set rs \<Longrightarrow> loc r = loc r' \<Longrightarrow> fw_spec r = fw_spec r' \<Longrightarrow> r = r'"
  unfolding separate_def distinct_map by (auto dest: inj_onD)

lemma ipt_add:
  assumes "iptables_ok run bin view" "installed view base done s"
    "fw_run run bin s (args r (if fw_insert r then ''-I'' else ''-A'')) = (s', ok)"
  shows "installed view base (if ok then r # done else done) s'"
  using assms unfolding iptables_ok_def installed_def
  by (cases "fw_insert r"; cases ok) (auto dest!: spec [of _ s] spec [of _ r])

lemma ipt_check:
  assumes "iptables_ok run bin view" "fw_run run bin s (args r ''-C'') = (s', ok)"
  shows "view s' = view s" "ok \<longleftrightarrow> fw_spec r \<in> set (view s (loc r))"
  using assms unfolding iptables_ok_def by (auto dest!: spec [of _ s] spec [of _ r])

text \<open>Deleting all rules undoes what was added.\<close>

lemma remove1_middle: "x \<notin> set a \<Longrightarrow> x \<notin> set b \<Longrightarrow> remove1 x (a @ b @ c) = a @ b @ remove1 x c"
  by (simp add: remove1_append)

lemma remove_at:
  assumes "separate done" "r \<in> set done" "fw_spec r \<notin> set (base (loc r))"
  shows "remove1 (fw_spec r) (at_top (loc r) done @ base (loc r) @ at_end (loc r) done) =
     at_top (loc r) (remove1 r done) @ base (loc r) @ at_end (loc r) (remove1 r done)"
  using assms(1,2)
proof (induction "done")
  case (Cons d ds)
  have sep: "separate ds" "\<And>r'. r' \<in> set ds \<Longrightarrow> loc r' = loc d \<Longrightarrow> fw_spec r' \<noteq> fw_spec d"
    using Cons.prems(1) by (auto simp: separate_def) (metis (mono_tags, lifting) image_eqI)
  show ?case
  proof (cases "d = r")
    case True
    have "fw_spec r \<notin> set (at_top (loc r) ds)" "fw_spec r \<notin> set (at_end (loc r) ds)"
      using sep(2) True at_set [of "fw_spec r" "loc r" ds] by auto
    then show ?thesis using True assms(3) by (simp add: remove1_append)
  next
    case False
    then have r: "r \<in> set ds" using Cons.prems(2) by simp
    note IH = Cons.IH [OF sep(1) r]
    have x: "fw_spec r \<in> set (at_top (loc r) ds @ base (loc r) @ at_end (loc r) ds)"
      using at_set [of "fw_spec r" "loc r" ds] r by auto
    show ?thesis
    proof (cases "loc d = loc r \<and> \<not> fw_insert d")
      case True
      have "remove1 (fw_spec r) ((at_top (loc r) ds @ base (loc r) @ at_end (loc r) ds) @ [fw_spec d]) =
          remove1 (fw_spec r) (at_top (loc r) ds @ base (loc r) @ at_end (loc r) ds) @ [fw_spec d]"
        using x by (subst remove1_append) simp
      then show ?thesis using True False IH by simp
    next
      case no: False
      show ?thesis using no False IH sep(2) [OF r] by auto
    qed
  qed
qed simp

lemma separate_remove1: "separate rs \<Longrightarrow> separate (remove1 r rs)"
  by (simp add: separate_def distinct_map inj_on_def)

lemma delete_installed:
  assumes ok: "iptables_ok run bin view" and i: "installed view base done s" and sep: "separate rs"
    and sub: "set done \<subseteq> set rs" and r: "r \<in> set rs" and ab: "absent base rs" and sd: "separate done"
  shows "installed view base (remove1 r done) (fst (fw_run run bin s (args r ''-D'')))"
proof -
  have v: "view (fst (fw_run run bin s (args r ''-D''))) = (view s)(loc r := remove1 (fw_spec r) (view s (loc r)))"
    using ok unfolding iptables_ok_def by blast
  have nb: "fw_spec r \<notin> set (base (loc r))" using ab r by (simp add: absent_def)
  have vs: "view s (loc r) = at_top (loc r) done @ base (loc r) @ at_end (loc r) done" using i unfolding installed_def by blast
  have at: "at_top l (remove1 r done) = at_top l done" "at_end l (remove1 r done) = at_end l done" if "l \<noteq> loc r" for l
    using that by (induction "done") auto
  show ?thesis
  proof (cases "r \<in> set done")
    case True
    show ?thesis unfolding installed_def v vs remove_at [where base = base, OF sd True nb]
      using i at by (simp add: installed_def)
  next
    case False
    have "fw_spec r \<notin> set (at_top (loc r) done) \<union> set (at_end (loc r) done)"
      using at_set [of "fw_spec r" "loc r" "done"] separate_inj [OF sep _ r] sub False by blast
    then have "remove1 (fw_spec r) (view s (loc r)) = view s (loc r)" using nb vs by (simp add: remove1_idem)
    then show ?thesis unfolding installed_def v using i False by (simp add: installed_def remove1_idem)
  qed
qed

lemma delete_all:
  assumes ok: "iptables_ok run bin view" and sep: "separate rs" and ab: "absent base rs"
  shows "installed view base done s \<Longrightarrow> separate done \<Longrightarrow> set done \<subseteq> set rs \<Longrightarrow> set ds \<subseteq> set rs \<Longrightarrow>
     installed view base (filter (\<lambda>r. r \<notin> set ds) done) (delete_rules run bin s ds)"
proof (induction ds arbitrary: s "done")
  case (Cons d ds)
  have "installed view base (remove1 d done) (fst (fw_run run bin s (args d ''-D'')))"
    using delete_installed [OF ok Cons.prems(1) sep Cons.prems(3) _ ab Cons.prems(2)] Cons.prems(4) by simp
  moreover have "separate (remove1 d done)" "set (remove1 d done) \<subseteq> set rs"
    using Cons.prems separate_remove1 set_remove1_subset [of d "done"] by auto
  ultimately have "installed view base (filter (\<lambda>r. r \<notin> set ds) (remove1 d done))
      (delete_rules run bin (fst (fw_run run bin s (args d ''-D''))) ds)"
    using Cons.IH Cons.prems(4) by simp
  moreover have "distinct done" using Cons.prems(2) by (simp add: separate_def distinct_map)
  then have "filter (\<lambda>r. r \<notin> set ds) (remove1 d done) = filter (\<lambda>r. r \<notin> set (d # ds)) done"
    by (simp add: distinct_remove1_removeAll removeAll_filter_not_eq conj_commute) (metis (lifting))
  ultimately show ?case by (simp add: delete_rules_def)
qed (simp add: delete_rules_def)

lemma separate_head: "separate (r # rs) \<Longrightarrow> r' \<in> set rs \<Longrightarrow> loc r' = loc r \<Longrightarrow> fw_spec r' \<noteq> fw_spec r"
  by (auto simp: separate_def) (metis (mono_tags, lifting) image_eqI)

lemma absent_from_view:
  assumes "installed view base done s" "separate (r # done)" "fw_spec r \<notin> set (base (loc r))"
  shows "fw_spec r \<notin> set (view s (loc r))"
proof -
  have "fw_spec r \<notin> set (at_top (loc r) done) \<union> set (at_end (loc r) done)"
    using separate_head [OF assms(2)] at_set [of "fw_spec r" "loc r" "done"] by blast
  moreover have "view s (loc r) = at_top (loc r) done @ base (loc r) @ at_end (loc r) done"
    using assms(1) unfolding installed_def by blast
  ultimately show ?thesis using assms(3) by simp
qed

lemma separate_filter: "separate rs \<Longrightarrow> separate (filter P rs)"
  by (simp add: separate_def distinct_map inj_on_def)

lemma add_rules_result:
  assumes ok: "iptables_ok run (fw_bin f) view" and sep: "separate (fw_rules f)" and ab: "absent base (fw_rules f)"
  shows "fw_rules f = rev rs @ processed \<Longrightarrow> installed view base (filter P processed) s \<Longrightarrow>
     (\<forall>r\<in>set processed. \<not> fw_optional r \<longrightarrow> P r) \<Longrightarrow> add_rules run f s rs = (s', res) \<Longrightarrow>
     (case res of
        None \<Rightarrow> (\<exists>P. (\<forall>r\<in>set (fw_rules f). \<not> fw_optional r \<longrightarrow> P r) \<and> installed view base (filter P (fw_rules f)) s')
      | Some r \<Rightarrow> installed view base [] s')"
proof (induction rs arbitrary: s processed P)
  case Nil
  then show ?case by auto
next
  case (Cons r rs)
  have rules: "fw_rules f = rev rs @ r # processed" using Cons.prems(1) by simp
  have sepr: "separate (r # processed)" using sep unfolding rules by (simp add: separate_def)
  then have rn: "r \<notin> set processed" by (auto simp: separate_def)
  have fp: "filter (P(r := b)) processed = filter P processed" for b using rn by (intro filter_cong) auto
  have sepd: "separate (r # filter P processed)"
    using separate_filter [OF sepr, of "P(r := True)"] unfolding filter.simps fp [of True] by simp
  have rb: "fw_spec r \<notin> set (base (loc r))" using ab by (simp add: absent_def rules)
  obtain s1 c where c: "fw_run run (fw_bin f) s (args r ''-C'') = (s1, c)" by force
  have v1: "view s1 = view s" and nc: "\<not> c"
    using ipt_check [OF ok c] absent_from_view [OF Cons.prems(2) sepd rb] by simp_all
  obtain s2 a where a: "fw_run run (fw_bin f) s1 (args r (if fw_insert r then ''-I'' else ''-A'')) = (s2, a)" by force
  have i1: "installed view base (filter P processed) s1" using Cons.prems(2) v1 by (simp add: installed_def)
  have i2: "installed view base (if a then r # filter P processed else filter P processed) s2"
    by (rule ipt_add [OF ok i1 a])
  have step: "add_rules run f s (r # rs) =
      (if a \<or> fw_optional r then add_rules run f s2 rs else (fw_remove run f s2, Some r))"
    using c nc a by (cases a) simp_all
  show ?case
  proof (cases "a \<or> fw_optional r")
    case True
    have "installed view base (filter (P(r := a)) (r # processed)) s2"
      using i2 unfolding filter.simps fp by (cases a) simp_all
    moreover have "\<forall>r'\<in>set (r # processed). \<not> fw_optional r' \<longrightarrow> (P(r := a)) r'" using Cons.prems(3) True by auto
    moreover have "add_rules run f s2 rs = (s', res)" using Cons.prems(4) step True by simp
    ultimately show ?thesis by (rule Cons.IH [OF rules])
  next
    case False
    then have "s' = delete_rules run (fw_bin f) s2 (fw_rules f)" "res = Some r"
      using Cons.prems(4) step by (simp_all add: fw_remove_def)
    moreover have "installed view base (filter (\<lambda>r. r \<notin> set (fw_rules f)) (filter P processed))
        (delete_rules run (fw_bin f) s2 (fw_rules f))"
      by (rule delete_all [OF ok sep ab])
        (use i2 False sepd in \<open>auto simp: rules separate_def\<close>)
    moreover have "filter (\<lambda>r. r \<notin> set (fw_rules f)) (filter P processed) = []" by (auto simp: rules filter_empty_conv)
    ultimately show ?thesis by (simp only: option.case)
  qed
qed

lemma chain_rules_top:
  assumes "r \<in> set (chain_rules tunIface allowPrivate publicIPs chain)"
  shows "fw_insert r \<and> \<not> fw_optional r \<and> loc r = (''filter'', chain)"
  using assms by (auto simp: chain_rules_def drop_rule_def plain_rule_def loc_def split: if_splits)

lemma at_top_append: "at_top l (xs @ ys) = at_top l xs @ at_top l ys" "at_end l (xs @ ys) = at_end l ys @ at_end l xs"
  by (simp_all add: at_top_def at_end_def)

lemma at_chain_rules:
  assumes "\<forall>r\<in>set (chain_rules tunIface allowPrivate publicIPs chain). P r"
  shows "at_top l (filter P (chain_rules tunIface allowPrivate publicIPs chain)) =
      (if l = (''filter'', chain) then map fw_spec (chain_rules tunIface allowPrivate publicIPs chain) else [])"
    "at_end l (filter P (chain_rules tunIface allowPrivate publicIPs chain)) = []"
  using assms chain_rules_top [of _ tunIface allowPrivate publicIPs chain]
  by (auto simp: at_top_def at_end_def filter_empty_conv filter_id_conv)

text \<open>What \<^verbatim>\<open>apply\<close> leaves, in terms of the rules added, and what \<^verbatim>\<open>remove\<close> makes of that.\<close>

lemma apply_installed:
  assumes "iptables_ok run (fw_bin f) view" "separate (fw_rules f)" "s0 = delete_rules run (fw_bin f) s (fw_stale f)"
    "absent (view s0) (fw_rules f)" "fw_apply run f s = (s', res)"
  shows "case res of
     Some r \<Rightarrow> view s' = view s0
   | None \<Rightarrow> \<exists>P. (\<forall>r\<in>set (fw_rules f). \<not> fw_optional r \<longrightarrow> P r) \<and> installed view (view s0) (filter P (fw_rules f)) s'"
proof -
  have i0: "installed view (view s0) (filter (\<lambda>_. True) []) s0" by (simp add: installed_def)
  have "add_rules run f s0 (rev (fw_rules f)) = (s', res)" using assms(3,5) by (simp add: fw_apply_def)
  from add_rules_result [OF assms(1,2,4) _ i0 _ this, simplified]
  show ?thesis by (cases res) (auto simp: installed_def fun_eq_iff)
qed

lemma remove_restores:
  assumes "iptables_ok run (fw_bin f) view" "separate (fw_rules f)" "absent base (fw_rules f)"
    "installed view base (filter P (fw_rules f)) s"
  shows "view (fw_remove run f s) = base"
proof -
  have "installed view base (filter (\<lambda>r. r \<notin> set (fw_rules f)) (filter P (fw_rules f))) (fw_remove run f s)"
    unfolding fw_remove_def
    by (rule delete_all [OF assms(1-3) assms(4)]) (use assms(2) in \<open>auto simp: separate_filter\<close>)
  moreover have "filter (\<lambda>r. r \<notin> set (fw_rules f)) (filter P (fw_rules f)) = []" by (auto simp: filter_empty_conv)
  ultimately show ?thesis by (auto simp: installed_def)
qed

lemma installed_view:
  assumes f: "f = firewall_of docker bin subnet egressIface tunIface allowPrivate publicIPs"
    and P: "\<forall>r\<in>set (fw_rules f). \<not> fw_optional r \<longrightarrow> P r" "installed view base (filter P (fw_rules f)) s'"
  shows "(\<forall>chain. chain = ''FORWARD'' \<or> (docker \<and> chain = ''DOCKER-USER'') \<longrightarrow>
          view s' (''filter'', chain) = map fw_spec (chain_rules tunIface allowPrivate publicIPs chain) @ base (''filter'', chain)) \<and>
       view s' (''filter'', ''INPUT'') = [''-i'', tunIface, ''-j'', ''DROP''] # base (''filter'', ''INPUT'') \<and>
       view s' (''nat'', ''POSTROUTING'') = base (''nat'', ''POSTROUTING'') @
         [[''-s'', subnet, ''-o'', egressIface, ''-j'', ''MASQUERADE'']]"
proof -
  have v: "view s' l = at_top l (filter P (fw_rules f)) @ base l @ at_end l (filter P (fw_rules f))" for l
    using P(2) unfolding installed_def by blast
  have ch: "\<forall>r\<in>set (chain_rules tunIface allowPrivate publicIPs ''FORWARD''). P r"
    "docker \<Longrightarrow> \<forall>r\<in>set (chain_rules tunIface allowPrivate publicIPs ''DOCKER-USER''). P r"
    using P(1) chain_rules_top by (fastforce simp: f firewall_of_def Let_def)+
  show ?thesis
    using P(1) at_chain_rules [OF ch(1)] at_chain_rules [OF ch(2)]
    by (cases docker) (auto simp: v f firewall_of_def Let_def at_top_append plain_rule_def loc_def)
qed

lemma firewall_of_bin: "fw_bin (firewall_of docker bin subnet egressIface tunIface allowPrivate publicIPs) = bin"
  by (simp add: firewall_of_def Let_def)


section \<open>The rules are different\<close>

lemma no_slash: "To4 a \<noteq> [] \<Longrightarrow> CHR ''/'' \<notin> set (ip_string a)"
  using v4_string_chars [of "CHR ''/''" "To4 a"] ip_string_v4 [of a] by (auto simp: is_digit_def)

definition drop_targets :: "bool \<Rightarrow> ip list \<Rightarrow> string list" where
  "drop_targets allowPrivate publicIPs =
     ''169.254.0.0/16'' # (if allowPrivate then [] else PrivateCIDRs) @ map ip_string (filter (\<lambda>a. To4 a \<noteq> []) publicIPs)"

lemma drop_targets_distinct:
  assumes "distinct (map ip_string (filter (\<lambda>a. To4 a \<noteq> []) publicIPs))"
  shows "distinct (drop_targets allowPrivate publicIPs)"
proof -
  have c: "distinct (''169.254.0.0/16'' # PrivateCIDRs)" "list_all (\<lambda>s. CHR ''/'' \<in> set s) (''169.254.0.0/16'' # PrivateCIDRs)"
    by code_simp+
  define m where "m = ''169.254.0.0/16''"
  have "s \<notin> set (m # PrivateCIDRs)" if "s \<in> set (map ip_string (filter (\<lambda>a. To4 a \<noteq> []) publicIPs))" for s
    using that no_slash c(2) unfolding m_def [symmetric] list_all_iff by auto
  then show ?thesis using assms c(1) unfolding drop_targets_def m_def [symmetric] by auto
qed

lemma chain_specs:
  "map fw_spec (chain_rules tunIface allowPrivate publicIPs chain) =
     map (\<lambda>x. [''-i'', tunIface, ''-d'', x, ''-j'', ''DROP'']) (drop_targets allowPrivate publicIPs) @
     [[''-i'', tunIface, ''-p'', ''tcp'', ''--dport'', ''25'', ''-j'', ''DROP''],
      [''-o'', tunIface, ''-m'', ''conntrack'', ''--ctstate'', ''ESTABLISHED,RELATED'', ''-j'', ''ACCEPT''],
      [''-o'', tunIface, ''-j'', ''DROP''], [''-i'', tunIface, ''-j'', ''ACCEPT'']]"
  by (simp add: chain_rules_def drop_targets_def drop_rule_def plain_rule_def comp_def)

lemma separate_same_loc:
  "\<forall>r\<in>set rs. loc r = l \<Longrightarrow> separate rs \<longleftrightarrow> distinct (map fw_spec rs)"
  by (induction rs) (auto simp: separate_def image_iff)

lemma separate_append:
  "separate (rs @ ss) \<longleftrightarrow> separate rs \<and> separate ss \<and> (\<forall>r\<in>set rs. \<forall>s\<in>set ss. loc r = loc s \<longrightarrow> fw_spec r \<noteq> fw_spec s)"
  unfolding separate_def by (auto simp: image_iff)

lemma separate_chain:
  assumes "distinct (map ip_string (filter (\<lambda>a. To4 a \<noteq> []) publicIPs))"
  shows "separate (chain_rules tunIface allowPrivate publicIPs chain)"
proof -
  have "distinct (map fw_spec (chain_rules tunIface allowPrivate publicIPs chain))"
    unfolding chain_specs using drop_targets_distinct [OF assms] by (auto simp: distinct_map inj_on_def)
  then show ?thesis using separate_same_loc [of _ "(''filter'', chain)"] chain_rules_top by blast
qed

lemma separate_firewall:
  assumes "distinct (map ip_string (filter (\<lambda>a. To4 a \<noteq> []) publicIPs))"
  shows "separate (fw_rules (firewall_of docker bin subnet egressIface tunIface allowPrivate publicIPs))"
proof -
  define cr where "cr = chain_rules tunIface allowPrivate publicIPs"
  define n where "n = (plain_rule ''POSTROUTING'' [''-s'', subnet, ''-o'', egressIface, ''-j'', ''MASQUERADE''])\<lparr>fw_table := ''nat''\<rparr>"
  define i where "i = (plain_rule ''INPUT'' [''-i'', tunIface, ''-j'', ''DROP''])\<lparr>fw_insert := True\<rparr>"
  define m where "m = (plain_rule ''FORWARD'' [''-o'', tunIface, ''-p'', ''tcp'', ''--tcp-flags'', ''SYN,RST'', ''SYN'', ''-j'', ''TCPMSS'',
                ''--clamp-mss-to-pmtu''])\<lparr>fw_table := ''mangle'', fw_optional := True\<rparr>"
  have l: "loc n = (''nat'', ''POSTROUTING'')" "loc i = (''filter'', ''INPUT'')" "loc m = (''mangle'', ''FORWARD'')"
    "\<And>r chain. r \<in> set (cr chain) \<Longrightarrow> loc r = (''filter'', chain)"
    using chain_rules_top by (auto simp: n_def i_def m_def cr_def plain_rule_def loc_def)
  have s: "separate (cr chain)" for chain unfolding cr_def by (rule separate_chain [OF assms])
  have one: "separate [r]" for r by (simp add: separate_def)
  have "separate ([n] @ [i] @ cr ''FORWARD'' @ (if docker then cr ''DOCKER-USER'' else []) @ [m])"
    unfolding separate_append using l s by (auto simp: one) (simp add: separate_def)
  then show ?thesis by (simp add: firewall_of_def Let_def n_def i_def m_def cr_def split: if_splits)
qed

text \<open>Every rule, also the old ones, names the device, except the NAT rule, which names the subnet.\<close>

lemma rules_name_device:
  assumes "r \<in> set (fw_rules (firewall_of docker bin subnet egressIface tunIface allowPrivate publicIPs)) \<union>
     set (fw_stale (firewall_of docker bin subnet egressIface tunIface allowPrivate publicIPs))"
  shows "tunIface \<in> set (fw_spec r) \<or> subnet \<in> set (fw_spec r)"
  using assms
  by (auto simp: firewall_of_def Let_def chain_rules_def chain_stale_def drop_rule_def plain_rule_def split: if_splits)

text \<open>The hypotheses can hold: a rule table that starts empty and where every command works.\<close>

definition table_run :: "(string \<times> string \<Rightarrow> string list list) \<Rightarrow> string list \<Rightarrow> (string \<times> string \<Rightarrow> string list list) \<times> bool" where
  "table_run s cmd =
     (let as = drop 3 cmd;
          table = (if as ! 0 = ''-t'' then as ! 1 else ''filter'');
          rest = (if as ! 0 = ''-t'' then drop 2 as else as);
          l = (table, rest ! 1);
          spec = (if rest ! 0 = ''-I'' then drop 3 rest else drop 2 rest)
      in if rest ! 0 = ''-C'' then (s, spec \<in> set (s l))
         else if rest ! 0 = ''-A'' then (s(l := s l @ [spec]), True)
         else if rest ! 0 = ''-I'' then (s(l := spec # s l), True)
         else (s(l := remove1 spec (s l)), spec \<in> set (s l)))"

lemma table_run_ok: "iptables_ok table_run bin (\<lambda>s. s)"
  by (auto simp: iptables_ok_def fw_run_def table_run_def args_def loc_def Let_def)

lemma delete_from_empty: "delete_rules table_run bin (\<lambda>_. []) rs = (\<lambda>_. [])"
proof (induction rs)
  case (Cons r rs)
  have "fst (fw_run table_run bin (\<lambda>_. []) (args r ''-D'')) = (\<lambda>_. [])"
    using table_run_ok [of bin] by (auto simp: iptables_ok_def fun_eq_iff)
  then show ?case using Cons by (simp add: delete_rules_def)
qed (simp add: delete_rules_def)


end
