(* ===== verification/Senders.thy ===== *)
theory Senders
  imports Contracts
begin

text \<open>
  internal/sched/pathwriter.go and internal/sched/shaper.go: the writer goroutine of one path with
  its bounded queue, and the token bucket that limits the write speed. Floating-point numbers are
  real numbers here: rounding is not modelled.
\<close>

section \<open>The writer of a path\<close>

text \<open>
  The channel is the list of queued frames. A call of \<^verbatim>\<open>Send\<close> is a sender with its frame, the attempt
  it is at and which of the two \<^verbatim>\<open>select\<close> statements comes next; every \<^verbatim>\<open>select\<close> is one step, so that
  senders, the writer goroutine and \<^verbatim>\<open>Close\<close> interleave in any way. The fields after \<open>wire\<close> only
  count what happened: frames offered, frames given up because the writer was closed, frames whose
  write failed.
\<close>

record queued =
  q_data :: bytes
  q_time :: time

datatype send_phase = TryPush | TryDrop

record sender =
  s_frame :: queued
  s_attempt :: nat
  s_phase :: send_phase

record pathWriter =
  pw_depth :: nat
  pw_chan :: "queued list"
  pw_maxAge :: duration
  pw_done :: bool
  pw_running :: bool       \<comment> \<open>the goroutine of \<^verbatim>\<open>run\<close> has not returned\<close>
  pw_drops :: nat
  senders :: "(nat, sender) fmap"
  wire :: "bytes list"
  offered :: nat
  given_up :: nat
  failed :: nat

definition NewPathWriter :: "int \<Rightarrow> duration \<Rightarrow> pathWriter" where
  "NewPathWriter depth maxAge =
     \<lparr>pw_depth = nat (if depth < 1 then 1 else depth), pw_chan = [], pw_maxAge = maxAge, pw_done = False, pw_running = True, pw_drops = 0,
      senders = fmempty, wire = [], offered = 0, given_up = 0, failed = 0\<rparr>"

definition sendAttempts :: nat where "sendAttempts = 3"

datatype pw_event =
    Send nat bytes time          \<comment> \<open>a call of \<^verbatim>\<open>Send\<close> starts\<close>
  | SendStep nat bool            \<comment> \<open>one \<^verbatim>\<open>select\<close> of it; the choice when two cases are ready\<close>
  | Take time bool               \<comment> \<open>the writer takes a frame; the outcome of the write\<close>
  | Stop                       \<comment> \<open>the writer sees that it is closed\<close>
  | CloseWriter

definition end_send :: "nat \<Rightarrow> pathWriter \<Rightarrow> pathWriter" where
  "end_send i p = p\<lparr>senders := fmdrop i (senders p)\<rparr>"

definition send_step :: "pathWriter \<Rightarrow> nat \<Rightarrow> sender \<Rightarrow> bool \<Rightarrow> pathWriter" where
  "send_step p i s see_done =
     (case s_phase s of
        TryPush \<Rightarrow>
          let room = length (pw_chan p) < pw_depth p in
          if pw_done p \<and> (see_done \<or> \<not> room) then (end_send i p)\<lparr>given_up := given_up p + 1\<rparr>
          else if room then (end_send i p)\<lparr>pw_chan := pw_chan p @ [s_frame s]\<rparr>
          else p\<lparr>senders := fmupd i (s\<lparr>s_phase := TryDrop\<rparr>) (senders p)\<rparr>
      | TryDrop \<Rightarrow>
          let p1 = (case pw_chan p of [] \<Rightarrow> p | q # qs \<Rightarrow> p\<lparr>pw_chan := qs, pw_drops := pw_drops p + 1\<rparr>) in
          if Suc (s_attempt s) < sendAttempts
          then p1\<lparr>senders := fmupd i (s\<lparr>s_attempt := Suc (s_attempt s), s_phase := TryPush\<rparr>) (senders p1)\<rparr>
          else (end_send i p1)\<lparr>pw_drops := pw_drops p1 + 1\<rparr>)"

definition pw_step :: "pathWriter \<Rightarrow> pw_event \<Rightarrow> pathWriter" where
  "pw_step p e =
     (case e of
        Send i d now \<Rightarrow>
          if fmlookup (senders p) i \<noteq> None then p
          else p\<lparr>senders := fmupd i \<lparr>s_frame = \<lparr>q_data = d, q_time = now\<rparr>, s_attempt = 0, s_phase = TryPush\<rparr> (senders p),
                 offered := offered p + 1\<rparr>
      | SendStep i see_done \<Rightarrow>
          (case fmlookup (senders p) i of None \<Rightarrow> p | Some s \<Rightarrow> send_step p i s see_done)
      | Take now ok \<Rightarrow>
          if \<not> pw_running p then p else
          (case pw_chan p of
             [] \<Rightarrow> p
           | q # qs \<Rightarrow>
               if 0 < pw_maxAge p \<and> pw_maxAge p < time_sub now (q_time q)
               then p\<lparr>pw_chan := qs, pw_drops := pw_drops p + 1\<rparr>
               else if ok then p\<lparr>pw_chan := qs, wire := wire p @ [q_data q]\<rparr>
               else p\<lparr>pw_chan := qs, failed := failed p + 1, pw_done := True, pw_running := False\<rparr>)
      | Stop \<Rightarrow> if pw_done p then p\<lparr>pw_running := False\<rparr> else p
      | CloseWriter \<Rightarrow> p\<lparr>pw_done := True\<rparr>)"

definition pw_inv :: "pathWriter \<Rightarrow> bool" where
  "pw_inv p \<longleftrightarrow> 1 \<le> pw_depth p \<and> length (pw_chan p) \<le> pw_depth p \<and>
     offered p = gosize (senders p) + length (pw_chan p) + length (wire p) + pw_drops p + given_up p + failed p"

lemma new_pw_inv: "pw_inv (NewPathWriter depth maxAge)"
  by (auto simp: pw_inv_def NewPathWriter_def)

lemma size_end_send: "fmlookup (senders p) i = Some s \<Longrightarrow> Suc (gosize (fmdrop i (senders p))) = gosize (senders p)"
  unfolding gosize_fmdrop using gosize_pos [of "senders p" i s] by simp

lemma size_keep_send: "fmlookup (senders p) i = Some s \<Longrightarrow> gosize (fmupd i s' (senders p)) = gosize (senders p)"
  unfolding gosize_fmupd by simp

lemma size_new_send: "fmlookup (senders p) i = None \<Longrightarrow> gosize (fmupd i s' (senders p)) = Suc (gosize (senders p))"
  unfolding gosize_fmupd by simp

lemma send_step_inv:
  assumes i: "pw_inv p" and s: "fmlookup (senders p) i = Some s"
  shows "pw_inv (send_step p i s see_done)"
proof -
  note sz = size_end_send [OF s] size_keep_send [OF s]
  show ?thesis
  proof (cases "s_phase s")
    case TryPush
    then show ?thesis using i sz by (simp add: send_step_def pw_inv_def end_send_def Let_def del: fmdom_fmupd fmdom_drop)
  next
    case TryDrop
    then show ?thesis using i sz
      by (cases "pw_chan p") (simp_all add: send_step_def pw_inv_def end_send_def Let_def del: fmdom_fmupd fmdom_drop)
  qed
qed

lemma pw_step_inv: "pw_inv p \<Longrightarrow> pw_inv (pw_step p e)"
proof (cases e)
  case (Send i d now)
  assume "pw_inv p"
  then show ?thesis using size_new_send [of p i] Send by (simp add: pw_step_def pw_inv_def del: fmdom_fmupd)
next
  case (SendStep i b)
  assume "pw_inv p"
  then show ?thesis using send_step_inv SendStep by (simp add: pw_step_def split: option.split)
next
  case (Take now ok)
  assume "pw_inv p"
  then show ?thesis using Take by (cases "pw_chan p") (simp_all add: pw_step_def pw_inv_def)
next
  case Stop
  assume "pw_inv p"
  then show ?thesis using Stop by (simp add: pw_step_def pw_inv_def)
next
  case CloseWriter
  assume "pw_inv p"
  then show ?thesis using CloseWriter by (simp add: pw_step_def pw_inv_def)
qed

interpretation path_writer: guarded_system pw_step pw_inv "NewPathWriter depth maxAge" for depth maxAge
  by unfold_locales (simp_all add: new_pw_inv pw_step_inv)

text \<open>A call of \<^verbatim>\<open>Send\<close> takes at most six steps, whatever happens between them: it never blocks.\<close>

definition send_left :: "sender \<Rightarrow> nat" where
  "send_left s = 2 * (sendAttempts - s_attempt s) - (if s_phase s = TryDrop then 1 else 0)"

lemma send_step_progress:
  assumes "s_attempt s < sendAttempts"
  shows "case fmlookup (senders (send_step p i s b)) i of
     None \<Rightarrow> True | Some s' \<Rightarrow> send_left s' < send_left s \<and> s_attempt s' < sendAttempts"
  using assms
  by (cases "s_phase s"; cases "pw_chan p") (auto simp: send_step_def end_send_def Let_def send_left_def)

section \<open>The token bucket\<close>

record shaper =
  sh_rate :: real            \<comment> \<open>bytes per second\<close>
  sh_burst :: real
  sh_tokens :: real
  sh_last :: time

definition NewShaper :: "real \<Rightarrow> shaper option" where
  "NewShaper mbps =
     (if mbps \<le> 0 then None
      else let rate = mbps * 1000000 / 8; burst = max (rate * (5 / 1000)) (2 * 1514)
           in Some \<lparr>sh_rate = rate, sh_burst = burst, sh_tokens = burst, sh_last = 0\<rparr>)"

definition seconds :: "duration \<Rightarrow> real" where "seconds d = real_of_int d / 1000000000"

text \<open>\<^verbatim>\<open>Wait\<close> at instant \<open>now\<close>: the new state, and how many seconds it sleeps.\<close>

definition shaper_wait :: "shaper \<Rightarrow> nat \<Rightarrow> time \<Rightarrow> shaper \<times> real" where
  "shaper_wait s n now =
     (let t = (if sh_last s \<noteq> 0 then min (sh_burst s) (sh_tokens s + seconds (time_sub now (sh_last s)) * sh_rate s)
               else sh_tokens s);
          t1 = t - real n
      in (s\<lparr>sh_last := now, sh_tokens := t1\<rparr>, if t1 < 0 then - t1 / sh_rate s else 0))"

definition shaper_wait_opt :: "shaper option \<Rightarrow> nat \<Rightarrow> time \<Rightarrow> shaper option \<times> real" where
  "shaper_wait_opt so n now =
     (case so of None \<Rightarrow> (None, 0) | Some s \<Rightarrow> (case shaper_wait s n now of (s', d) \<Rightarrow> (Some s', d)))"

text \<open>A sequence of writes: the bytes and the instant of each \<^verbatim>\<open>Wait\<close>.\<close>

fun shaper_run :: "shaper \<Rightarrow> (nat \<times> time) list \<Rightarrow> shaper" where
  "shaper_run s [] = s"
| "shaper_run s ((n, now) # ws) = shaper_run (fst (shaper_wait s n now)) ws"

definition bytes_of :: "(nat \<times> time) list \<Rightarrow> real" where
  "bytes_of ws = (\<Sum>w\<leftarrow>ws. real (fst w))"

lemma shaper_const [simp]:
  "sh_rate (fst (shaper_wait s n now)) = sh_rate s" "sh_burst (fst (shaper_wait s n now)) = sh_burst s"
  "sh_last (fst (shaper_wait s n now)) = now"
  by (simp_all add: shaper_wait_def Let_def)

lemma seconds_mono: "a \<le> b \<Longrightarrow> seconds a \<le> seconds b"
  by (simp add: seconds_def divide_right_mono)

lemma seconds_elapsed: "u \<le> t \<Longrightarrow> seconds (time_sub t u) \<le> seconds (t - u)"
  by (rule seconds_mono) (simp add: time_sub_def)

lemma shaper_account:
  assumes "0 < sh_rate s" "sh_last s \<noteq> 0" "sorted (map snd ws)" "\<And>w. w \<in> set ws \<Longrightarrow> sh_last s \<le> snd w" "0 < sh_last s"
  shows "bytes_of ws + sh_tokens (shaper_run s ws) \<le> sh_tokens s + sh_rate s * seconds (sh_last (shaper_run s ws) - sh_last s) \<and>
     sh_last s \<le> sh_last (shaper_run s ws)"
  using assms
proof (induction ws arbitrary: s)
  case Nil
  then show ?case by (simp add: bytes_of_def seconds_def)
next
  case (Cons w ws)
  obtain n now where w: "w = (n, now)" by force
  define s1 where "s1 = fst (shaper_wait s n now)"
  have now: "sh_last s \<le> now" using Cons.prems(4) [of w] by (simp add: w)
  have s1: "sh_rate s1 = sh_rate s" "sh_last s1 = now" by (simp_all add: s1_def)
  have "sh_tokens s1 \<le> sh_tokens s + seconds (time_sub now (sh_last s)) * sh_rate s - real n"
    using Cons.prems(2) by (simp add: s1_def shaper_wait_def Let_def)
  also have "\<dots> \<le> sh_tokens s + seconds (now - sh_last s) * sh_rate s - real n"
    using seconds_elapsed [OF now] Cons.prems(1) by (simp add: mult_right_mono)
  finally have t: "sh_tokens s1 \<le> sh_tokens s + seconds (now - sh_last s) * sh_rate s - real n" .
  have IH: "bytes_of ws + sh_tokens (shaper_run s1 ws) \<le> sh_tokens s1 + sh_rate s1 * seconds (sh_last (shaper_run s1 ws) - sh_last s1) \<and>
      sh_last s1 \<le> sh_last (shaper_run s1 ws)"
    by (rule Cons.IH) (use Cons.prems s1 w now in auto)
  have "seconds (sh_last (shaper_run s1 ws) - now) + seconds (now - sh_last s) = seconds (sh_last (shaper_run s1 ws) - sh_last s)"
    by (simp add: seconds_def diff_divide_distrib [symmetric] add_divide_distrib [symmetric])
  then have "sh_rate s * seconds (sh_last (shaper_run s1 ws) - now) + seconds (now - sh_last s) * sh_rate s =
      sh_rate s * seconds (sh_last (shaper_run s1 ws) - sh_last s)"
    by (metis distrib_left mult.commute)
  then show ?case using IH t s1 now by (simp add: w s1_def [symmetric] bytes_of_def)
qed

section \<open>Properties\<close>

text \<open>C23. Whatever the order of sends, writes and closes, no frame is lost unaccounted: each frame given to
  \<^verbatim>\<open>Send\<close> is still held by its call, queued, on the wire, counted as dropped, given up because the
  writer was closed, or the one whose write failed; and the queue never exceeds its depth, which is
  at least one.\<close>

theorem path_writer_conserves:
  "let p = foldl pw_step (NewPathWriter depth maxAge) es in
     1 \<le> pw_depth p \<and> length (pw_chan p) \<le> pw_depth p \<and>
     offered p = gosize (senders p) + length (pw_chan p) + length (wire p) + pw_drops p + given_up p + failed p"
  using path_writer.run_inv [of depth maxAge es] by (simp add: pw_inv_def)

text \<open>A writer that is not fresh: the bucket has been used before.\<close>

lemma shaper_first:
  assumes "NewShaper mbps = Some s"
  shows "0 < sh_rate s" "sh_tokens s = sh_burst s" "sh_last s = 0" "2 * 1514 \<le> sh_burst s"
  using assms by (auto simp: NewShaper_def Let_def split: if_splits)

lemma shaper_wait_first:
  assumes "sh_last s = 0"
  shows "sh_tokens (fst (shaper_wait s n now)) = sh_tokens s - real n"
  using assms by (simp add: shaper_wait_def Let_def)

lemma last_wait_tokens: "sh_tokens (shaper_run s (ws @ [(n, now)])) = sh_tokens (fst (shaper_wait (shaper_run s ws) n now))"
  by (induction ws arbitrary: s) (auto simp: split_paired_all)

lemma shaper_run_const [simp]:
  "sh_rate (shaper_run s ws) = sh_rate s"
  by (induction s ws rule: shaper_run.induct) simp_all

lemma shaper_run_last: "sh_last (shaper_run s (ws @ [(n, now)])) = now"
  by (induction ws arbitrary: s) (auto simp: split_paired_all)

text \<open>
  The instant at which the \<^verbatim>\<open>Wait\<close> of the last write returns is at least \<open>now\<close> plus what it sleeps.
\<close>

definition wait_sleep :: "shaper \<Rightarrow> nat \<Rightarrow> time \<Rightarrow> real" where
  "wait_sleep s n now = snd (shaper_wait s n now)"

lemma wait_sleep_pays:
  assumes "0 < sh_rate s"
  shows "0 \<le> sh_tokens (fst (shaper_wait s n now)) + sh_rate s * wait_sleep s n now" "0 \<le> wait_sleep s n now"
  using assms by (simp_all add: shaper_wait_def wait_sleep_def Let_def divide_nonneg_pos)



end
