(* ===== verification/DropChannel.thy ===== *)
theory DropChannel
  imports Frame GlueServer
begin

text \<open>
  cmd/server/drop.go: the droppable test channel. Its sessions by ID, shared by the connections
  (paths) of a test run; connections are numbers, \<open>drop_conns\<close> is the session each one holds
  between \<^verbatim>\<open>getDropSession\<close> and \<^verbatim>\<open>leave\<close>. The log lines are not modelled; the numbers of the summary are.
\<close>

section \<open>Counting the frames of a session\<close>

definition maxDropSeen :: nat where "maxDropSeen = 100000"

record dropSession =
  d_recv :: receiver
  d_seen :: "u32 fset"
  accepted :: nat
  ttlDropped :: nat
  duplicates :: nat
  capHit :: bool
  d_paths :: int
  lastActive :: time

definition new_drop_session :: dropSession where
  "new_drop_session =
     \<lparr>d_recv = NewReceiver (150 * ms), d_seen = {||}, accepted = 0, ttlDropped = 0, duplicates = 0, capHit = False,
      d_paths = 0, lastActive = 0\<rparr>"

text \<open>\<^verbatim>\<open>record\<close>: one frame through the receiver, and into the counters.\<close>

definition record_frame :: "dropSession \<Rightarrow> time \<Rightarrow> frame \<Rightarrow> dropSession \<times> bool \<times> string" where
  "record_frame s now f =
     (let known = f_seq f |\<in>| d_seen s;
          counted = known \<or> fcard (d_seen s) < maxDropSeen;
          s1 = (if counted then s\<lparr>d_seen := finsert (f_seq f) (d_seen s)\<rparr> else s\<lparr>capHit := True\<rparr>)
      in case accept (d_recv s1) now f of
           (r, ok, reason) \<Rightarrow>
             let s2 = s1\<lparr>d_recv := r\<rparr>
             in (if \<not> counted then s2
                 else if ok then s2\<lparr>accepted := accepted s2 + 1\<rparr>
                 else if reason = ''ttl exceeded'' then s2\<lparr>ttlDropped := ttlDropped s2 + 1\<rparr>
                 else s2\<lparr>duplicates := duplicates s2 + 1\<rparr>, ok, reason))"

text \<open>The numbers \<^verbatim>\<open>summary\<close> prints (the loss in percent as a real number).\<close>

record dropSummary =
  sm_accepted :: int
  sm_total :: int
  sm_lost :: int
  sm_lossPct :: real
  sm_ttlDropped :: nat
  sm_duplicates :: nat
  sm_capHit :: bool

definition summary :: "dropSession \<Rightarrow> dropSummary" where
  "summary s =
     (let total = int (fcard (d_seen s));
          lost = total - int (accepted s)
      in \<lparr>sm_accepted = int (accepted s), sm_total = total, sm_lost = lost,
          sm_lossPct = (if 0 < total then 100 * real_of_int lost / real_of_int total else 0),
          sm_ttlDropped = ttlDropped s, sm_duplicates = duplicates s, sm_capHit = capHit s\<rparr>)"

text \<open>A session's frames in the order they are recorded, each at its instant.\<close>

definition record_all :: "dropSession \<Rightarrow> (time \<times> frame) list \<Rightarrow> dropSession" where
  "record_all s fs = foldl (\<lambda>s a. fst (record_frame s (fst a) (snd a))) s fs"

lemma record_all_simps [simp]:
  "record_all s [] = s" "record_all s (a # fs) = record_all (fst (record_frame s (fst a) (snd a))) fs"
  by (simp_all add: record_all_def)

definition full :: "dropSession \<Rightarrow> bool" where
  "full s \<longleftrightarrow> maxDropSeen \<le> fcard (d_seen s)"

definition counted_frame :: "dropSession \<Rightarrow> frame \<Rightarrow> bool" where
  "counted_frame s f \<longleftrightarrow> f_seq f |\<in>| d_seen s \<or> \<not> full s"

lemma record_frame_parts:
  "d_recv (fst (record_frame s now f)) = fst (accept (d_recv s) now f)"
  "d_seen (fst (record_frame s now f)) = (if counted_frame s f then finsert (f_seq f) (d_seen s) else d_seen s)"
  "accepted (fst (record_frame s now f)) =
     accepted s + (if counted_frame s f \<and> fst (snd (accept (d_recv s) now f)) then 1 else 0)"
  "capHit (fst (record_frame s now f)) \<longleftrightarrow> capHit s \<or> \<not> counted_frame s f"
  "d_paths (fst (record_frame s now f)) = d_paths s"
  by (auto simp: record_frame_def counted_frame_def full_def Let_def split: prod.splits)

lemma record_frame_sum:
  "accepted (fst (record_frame s now f)) + ttlDropped (fst (record_frame s now f)) + duplicates (fst (record_frame s now f)) =
     accepted s + ttlDropped s + duplicates s + (if counted_frame s f then 1 else 0)"
  by (auto simp: record_frame_def counted_frame_def full_def Let_def split: prod.splits)

lemma seen_full: "full s \<Longrightarrow> d_seen (record_all s fs) = d_seen s"
proof (induction fs arbitrary: s)
  case (Cons a fs)
  have "d_seen (fst (record_frame s (fst a) (snd a))) = d_seen s"
    using Cons.prems by (auto simp: record_frame_parts counted_frame_def)
  then show ?case using Cons by (simp add: full_def)
qed simp

lemma seen_grows: "d_seen s |\<subseteq>| d_seen (record_all s fs)"
proof (induction fs arbitrary: s)
  case (Cons a fs)
  have "d_seen s |\<subseteq>| d_seen (fst (record_frame s (fst a) (snd a)))" by (auto simp: record_frame_parts)
  then show ?case using Cons.IH [of "fst (record_frame s (fst a) (snd a))"] by auto
qed simp

lemma seen_bounded: "fcard (d_seen s) \<le> maxDropSeen \<Longrightarrow> fcard (d_seen (record_all s fs)) \<le> maxDropSeen"
proof (induction fs arbitrary: s)
  case (Cons a fs)
  have "fcard (d_seen (fst (record_frame s (fst a) (snd a)))) \<le> maxDropSeen"
    using Cons.prems by (auto simp: record_frame_parts counted_frame_def full_def fcard_finsert_if)
  then show ?case using Cons.IH by simp
qed simp

text \<open>Whether a frame was counted shows in the final set.\<close>

lemma counted_final:
  "f_seq f |\<in>| d_seen (record_all (fst (record_frame s now f)) fs) \<longleftrightarrow> counted_frame s f"
proof (cases "counted_frame s f")
  case True
  then have "f_seq f |\<in>| d_seen (fst (record_frame s now f))" by (simp add: record_frame_parts)
  then show ?thesis using True seen_grows [of "fst (record_frame s now f)" fs] by auto
next
  case False
  then have "full (fst (record_frame s now f))" "f_seq f |\<notin>| d_seen (fst (record_frame s now f))"
    by (auto simp: counted_frame_def full_def record_frame_parts)
  then show ?thesis using False seen_full by simp
qed

definition arrivals :: "(nat \<times> time \<times> frame) list \<Rightarrow> (nat \<times> time option \<times> frame) list" where
  "arrivals as = map (\<lambda>(k, now, f). (k, Some now, f)) as"

lemma accepted_counts:
  "numbered K (arrivals as) \<Longrightarrow>
     accepted (record_all s (map snd as)) =
       accepted s + length (filter (\<lambda>k. of_nat k |\<in>| d_seen (record_all s (map snd as))) (deliver (d_recv s) (arrivals as)))"
proof (induction as arbitrary: s)
  case (Cons a as)
  obtain k now f where a: "a = (k, now, f)" by (cases a)
  have k: "f_seq f = of_nat k" and n: "numbered K (arrivals as)" using Cons.prems by (auto simp: numbered_def arrivals_def a)
  define s1 where "s1 = fst (record_frame s now f)"
  have fin: "of_nat k |\<in>| d_seen (record_all s1 (map snd as)) \<longleftrightarrow> counted_frame s f"
    using counted_final [of f s now "map snd as"] by (simp add: k s1_def)
  show ?case
    using Cons.IH [OF n, of s1] fin record_frame_parts(3) [of s now f] record_frame_parts(1) [of s now f]
    by (simp add: a s1_def [symmetric] arrivals_def recv_step_def case_prod_beta)
qed (simp add: arrivals_def)

lemma of_nat_u32_inj:
  assumes "close_set K" "i \<in> K" "j \<in> K" "(of_nat i :: u32) = of_nat j"
  shows "i = j"
proof -
  have "unat (of_nat i :: u32) = unat (of_nat j :: u32)" using assms(4) by simp
  then have "i mod 2 ^ 32 = j mod 2 ^ 32" by (simp add: unat_of_nat)
  then have "int i mod 2 ^ 32 = int j mod 2 ^ 32" by (metis of_nat_mod of_nat_numeral of_nat_power)
  moreover have "\<bar>int i - int j\<bar> < 2 ^ 31" using assms(1-3) by (simp add: close_set_def)
  ultimately have "2 ^ 32 dvd int i - int j" "\<bar>int i - int j\<bar> < 2 ^ 32" by (simp_all add: mod_eq_dvd_iff)
  then have "int i - int j = 0" using zdvd_imp_le [of "2 ^ 32" "\<bar>int i - int j\<bar>"] by fastforce
  then show ?thesis by simp
qed

lemma filter_short: "(\<exists>x\<in>set xs. \<not> P x) \<longleftrightarrow> length (filter P xs) < length xs"
  by (induction xs) (auto simp: le_imp_less_Suc)

lemma delivered_in: "numbered K as \<Longrightarrow> set (deliver r as) \<subseteq> K"
  by (induction as arbitrary: r) (auto simp: numbered_def split: prod.splits if_splits)

text \<open>The summary of a test run is consistent: as long as the frame numbers in play stay less than \<open>2\<^sup>3\<^sup>1\<close>
  apart, at most as many frames are counted as delivered as different numbers were seen (no negative
  loss), at most \<^verbatim>\<open>maxDropSeen\<close> numbers are remembered, every counted copy is in exactly one of the
  counters, and the note about the limit is there exactly if a copy was left out.\<close>

theorem drop_summary_consistent:
  assumes "close_set K" "numbered K (arrivals as)"
  shows "let s = record_all new_drop_session (map snd as) in
     0 \<le> sm_lost (summary s) \<and> sm_total (summary s) \<le> int maxDropSeen \<and>
     accepted s + ttlDropped s + duplicates s = length (filter (\<lambda>a. f_seq (snd (snd a)) |\<in>| d_seen s) as) \<and>
     (sm_capHit (summary s) \<longleftrightarrow> accepted s + ttlDropped s + duplicates s < length as)"
proof -
  define s where "s = record_all new_drop_session (map snd as)"
  let ?ks = "filter (\<lambda>k. of_nat k |\<in>| d_seen s) (deliver (NewReceiver (150 * ms)) (arrivals as))"
  have acc: "accepted s = length ?ks"
    using accepted_counts [OF assms(2), of new_drop_session] by (simp add: s_def new_drop_session_def)
  have "distinct ?ks" using deliver_distinct [OF assms] by simp
  then have "length ?ks = card (set ?ks)" by (rule distinct_card [symmetric])
  also have "\<dots> = card ((of_nat :: nat \<Rightarrow> u32) ` set ?ks)"
    using delivered_in [OF assms(2)] of_nat_u32_inj [OF assms(1)]
    by (subst card_image) (auto simp: inj_on_def subset_eq)
  also have "\<dots> \<le> card (fset (d_seen s))" by (rule card_mono) auto
  finally have le: "accepted s \<le> fcard (d_seen s)" by (simp add: acc fcard.rep_eq)
  have bnd: "fcard (d_seen s) \<le> maxDropSeen" unfolding s_def by (rule seen_bounded) (simp add: new_drop_session_def)
  have sum: "accepted (record_all t (map snd bs)) + ttlDropped (record_all t (map snd bs)) + duplicates (record_all t (map snd bs)) =
      accepted t + ttlDropped t + duplicates t + length (filter (\<lambda>a. f_seq (snd (snd a)) |\<in>| d_seen (record_all t (map snd bs))) bs)"
    for t and bs :: "(nat \<times> time \<times> frame) list"
  proof (induction bs arbitrary: t)
    case (Cons b bs)
    obtain k now f where b: "b = (k, now, f)" by (cases b)
    show ?case using Cons.IH [of "fst (record_frame t now f)"] record_frame_sum [of t now f] counted_final [of f t now "map snd bs"]
      by (simp add: b)
  qed simp
  have cap: "capHit (record_all t (map snd bs)) \<longleftrightarrow>
      capHit t \<or> (\<exists>a\<in>set bs. f_seq (snd (snd a)) |\<notin>| d_seen (record_all t (map snd bs)))"
    for t and bs :: "(nat \<times> time \<times> frame) list"
  proof (induction bs arbitrary: t)
    case (Cons b bs)
    obtain k now f where b: "b = (k, now, f)" by (cases b)
    show ?case using Cons.IH [of "fst (record_frame t now f)"] record_frame_parts(4) [of t now f] counted_final [of f t now "map snd bs"]
      by (auto simp: b)
  qed simp
  have total: "accepted s + ttlDropped s + duplicates s = length (filter (\<lambda>a. f_seq (snd (snd a)) |\<in>| d_seen s) as)"
    using sum [of new_drop_session as] by (simp add: s_def new_drop_session_def)
  have "capHit s \<longleftrightarrow> (\<exists>a\<in>set as. f_seq (snd (snd a)) |\<notin>| d_seen s)"
    using cap [of new_drop_session as] by (simp add: s_def new_drop_session_def)
  also have "\<dots> \<longleftrightarrow> length (filter (\<lambda>a. f_seq (snd (snd a)) |\<in>| d_seen s) as) < length as"
    by (rule filter_short)
  finally show ?thesis using le bnd total unfolding s_def [symmetric] Let_def by (simp add: summary_def Let_def)
qed
text \<open>Two copies of frame 0 and one of frame 1, all in time.\<close>

theorem drop_summary_consistent_witness:
  "0 \<le> sm_lost (summary (record_all new_drop_session
     [(5, \<lparr>f_seq = 0, f_ts = 0, f_payload = []\<rparr>), (6, \<lparr>f_seq = 0, f_ts = 0, f_payload = []\<rparr>), (7, \<lparr>f_seq = 1, f_ts = 0, f_payload = []\<rparr>)]))"
  using drop_summary_consistent [of "{0, 1}"
      "[(0, 5, \<lparr>f_seq = 0, f_ts = 0, f_payload = []\<rparr>), (0, 6, \<lparr>f_seq = 0, f_ts = 0, f_payload = []\<rparr>), (1, 7, \<lparr>f_seq = 1, f_ts = 0, f_payload = []\<rparr>)]"]
  unfolding Let_def by (simp add: close_set_def numbered_def arrivals_def)

text \<open>Without that bound the sequence numbers wrap around: a number accepted again is counted twice.\<close>

abbreviation plain_frame :: "u32 \<Rightarrow> frame" where
  "plain_frame n \<equiv> \<lparr>f_seq = n, f_ts = 0, f_payload = []\<rparr>"

definition steady :: "receiver \<Rightarrow> u32 \<Rightarrow> bool" where
  "steady r n \<longleftrightarrow> haveOffset r \<and> prevMinOffset r = curMinOffset r \<and> curMinOffset r = time_sub 5 (unix_milli 0) \<and>
     windowStart r = 5 \<and> 0 \<le> maxAge r \<and> haveTop r \<and> rtop r = n"

lemma accept_on_time:
  assumes "haveOffset r \<longrightarrow> prevMinOffset r = curMinOffset r \<and> curMinOffset r = time_sub 5 (unix_milli 0) \<and> windowStart r = 5" "0 \<le> maxAge r"
  shows "\<exists>r'. accept r 5 (plain_frame m) = accept_seq r' (plain_frame m) \<and> haveTop r' = haveTop r \<and> rtop r' = rtop r \<and>
     haveOffset r' \<and> prevMinOffset r' = curMinOffset r' \<and> curMinOffset r' = time_sub 5 (unix_milli 0) \<and> windowStart r' = 5 \<and>
     maxAge r' = maxAge r"
proof -
  define raw where "raw = time_sub 5 (unix_milli 0)"
  have "dur_wrap 0 = 0" by (simp add: dur_wrap_exact)
  then show ?thesis
    using assms by (auto simp: accept_def track_offset_def Let_def raw_def [symmetric] offsetWindow_def sec_def)
qed

lemma steady_first: "0 \<le> maxAge r \<Longrightarrow> \<not> haveOffset r \<Longrightarrow> \<not> haveTop r \<Longrightarrow>
     fst (snd (accept r 5 (plain_frame m))) \<and> steady (fst (accept r 5 (plain_frame m))) m"
  using accept_on_time [of r m] by (auto simp: steady_def accept_seq_def)

lemma steady_newer: "steady r n \<Longrightarrow> 0 < sint (m - n) \<Longrightarrow>
     fst (snd (accept r 5 (plain_frame m))) \<and> steady (fst (accept r 5 (plain_frame m))) m"
  using accept_on_time [of r m] by (auto simp: steady_def accept_seq_def Let_def)

lemma sm_lost_eq: "sm_lost (summary s) = int (fcard (d_seen s)) - int (accepted s)"
  by (simp add: summary_def Let_def)

lemma drop_summary_wraps:
  "sm_lost (summary (record_all new_drop_session
     [(5, plain_frame 0), (5, plain_frame 2147483647), (5, plain_frame 4294967294), (5, plain_frame 0)])) = - 1"
proof -
  define r0 where "r0 = d_recv new_drop_session"
  define r1 where "r1 = fst (accept r0 5 (plain_frame 0))"
  define r2 where "r2 = fst (accept r1 5 (plain_frame 2147483647))"
  define r3 where "r3 = fst (accept r2 5 (plain_frame 4294967294))"
  have s: "fst (snd (accept r0 5 (plain_frame 0)))" "fst (snd (accept r1 5 (plain_frame 2147483647)))"
    "fst (snd (accept r2 5 (plain_frame 4294967294)))" "fst (snd (accept r3 5 (plain_frame 0)))"
    using steady_first [of r0 0] steady_newer [of r1 0 2147483647] steady_newer [of r2 2147483647 4294967294]
      steady_newer [of r3 4294967294 0]
    by (simp_all add: r0_def [symmetric] r1_def [symmetric] r2_def [symmetric] r3_def [symmetric])
      (simp_all add: r0_def new_drop_session_def NewReceiver_def ms_def)
  note p = record_frame_parts
  show ?thesis using s
    by (simp add: sm_lost_eq p r0_def [symmetric] r1_def [symmetric] r2_def [symmetric] r3_def [symmetric] counted_frame_def)
      (simp add: full_def maxDropSeen_def new_drop_session_def p counted_frame_def fcard_finsert_if)
qed

section \<open>The sessions\<close>

record dropChannel =
  drops :: "(string, dropSession) fmap"
  drop_conns :: "(nat, string) fmap"

definition drop_start :: dropChannel where
  "drop_start = \<lparr>drops = fmempty, drop_conns = fmempty\<rparr>"

definition getDropSession :: "dropChannel \<Rightarrow> string \<Rightarrow> time \<Rightarrow> dropChannel" where
  "getDropSession g i now =
     (let s = (case fmlookup (drops g) i of None \<Rightarrow> new_drop_session | Some s \<Rightarrow> s)
      in g\<lparr>drops := fmupd i (s\<lparr>d_paths := d_paths s + 1, lastActive := now\<rparr>) (drops g)\<rparr>)"

definition leave :: "dropSession \<Rightarrow> time \<Rightarrow> dropSession" where
  "leave s now = s\<lparr>d_paths := d_paths s - 1, lastActive := now\<rparr>"

definition drop_gone :: "time \<Rightarrow> dropSession \<Rightarrow> bool" where
  "drop_gone now s \<longleftrightarrow> d_paths s = 0 \<and> glueSessionIdle < time_sub now (lastActive s)"

definition cleanupDrop :: "dropChannel \<Rightarrow> time \<Rightarrow> dropChannel" where
  "cleanupDrop g now =
     g\<lparr>drops := fmfilter (\<lambda>i. case fmlookup (drops g) i of None \<Rightarrow> True | Some s \<Rightarrow> \<not> drop_gone now s) (drops g)\<rparr>"

text \<open>\<^verbatim>\<open>handleDroppableConn\<close> after the handshake, and the janitor: what can happen to the sessions.\<close>

datatype drop_event =
    DropJoin nat string time
  | DropFrame nat time frame
  | DropLeave nat time
  | DropCleanup time

definition drop_step :: "dropChannel \<Rightarrow> drop_event \<Rightarrow> dropChannel" where
  "drop_step g e =
     (case e of
        DropJoin c i now \<Rightarrow>
          if fmlookup (drop_conns g) c \<noteq> None then g
          else (getDropSession g i now)\<lparr>drop_conns := fmupd c i (drop_conns g)\<rparr>
      | DropFrame c now f \<Rightarrow>
          (case fmlookup (drop_conns g) c of
             None \<Rightarrow> g
           | Some i \<Rightarrow>
               (case fmlookup (drops g) i of
                  None \<Rightarrow> g
                | Some s \<Rightarrow> g\<lparr>drops := fmupd i (fst (record_frame s now f)) (drops g)\<rparr>))
      | DropLeave c now \<Rightarrow>
          (case fmlookup (drop_conns g) c of
             None \<Rightarrow> g
           | Some i \<Rightarrow>
               (case fmlookup (drops g) i of
                  None \<Rightarrow> g\<lparr>drop_conns := fmdrop c (drop_conns g)\<rparr>
                | Some s \<Rightarrow> g\<lparr>drops := fmupd i (leave s now) (drops g), drop_conns := fmdrop c (drop_conns g)\<rparr>))
      | DropCleanup now \<Rightarrow> cleanupDrop g now)"

definition holders :: "dropChannel \<Rightarrow> string \<Rightarrow> int" where
  "holders g i = fmsum (\<lambda>j. if j = i then 1 else 0) (drop_conns g)"

definition drop_inv :: "dropChannel \<Rightarrow> bool" where
  "drop_inv g \<longleftrightarrow>
     (\<forall>c i. fmlookup (drop_conns g) c = Some i \<longrightarrow> fmlookup (drops g) i \<noteq> None) \<and>
     (\<forall>i s. fmlookup (drops g) i = Some s \<longrightarrow> d_paths s = holders g i \<and> fcard (d_seen s) \<le> maxDropSeen)"

lemma drop_invD:
  assumes "drop_inv g"
  shows "fmlookup (drop_conns g) c = Some i \<Longrightarrow> \<exists>s. fmlookup (drops g) i = Some s"
    "fmlookup (drops g) i = Some s \<Longrightarrow> d_paths s = holders g i"
    "fmlookup (drops g) i = Some s \<Longrightarrow> fcard (d_seen s) \<le> maxDropSeen"
  using assms by (auto simp: drop_inv_def)

lemma holders_join:
  "fmlookup (drop_conns g) c = None \<Longrightarrow> holders (g\<lparr>drops := d, drop_conns := fmupd c i (drop_conns g)\<rparr>) j = holders g j + (if i = j then 1 else 0)"
  by (simp add: holders_def fmsum_fmupd_new)

lemma holders_leave:
  "fmlookup (drop_conns g) c = Some i \<Longrightarrow> holders (g\<lparr>drops := d, drop_conns := fmdrop c (drop_conns g)\<rparr>) j = holders g j - (if i = j then 1 else 0)"
  using fmsum_remove [of "drop_conns g" c i "\<lambda>k. if k = j then 1 else (0::int)"] by (simp add: holders_def)

lemma holders_same [simp]: "holders (g\<lparr>drops := d\<rparr>) i = holders g i"
  by (simp add: holders_def)

lemma holders_none: "(\<And>c. fmlookup (drop_conns g) c \<noteq> Some i) \<Longrightarrow> holders g i = 0"
  unfolding holders_def by (rule fmsum_eq_0) auto

lemma holders_pos: "fmlookup (drop_conns g) c = Some i \<Longrightarrow> 1 \<le> holders g i"
  using fmsum_split [of "drop_conns g" c i "\<lambda>k. if k = i then 1 else (0::int)"]
  by (simp add: holders_def fmsum_def sum_nonneg)

lemma drop_step_inv: "drop_inv g \<Longrightarrow> drop_inv (drop_step g e)"
proof (cases e)
  case (DropJoin c i now)
  assume inv: "drop_inv g"
  note D = drop_invD [OF inv]
  show ?thesis
  proof (cases "fmlookup (drop_conns g) c")
    case None
    have z: "fmlookup (drops g) i = None \<Longrightarrow> holders g i = 0" using D(1) by (intro holders_none) fastforce
    show ?thesis
      using D z None holders_join [OF None]
      by (auto simp: drop_inv_def drop_step_def DropJoin getDropSession_def Let_def new_drop_session_def maxDropSeen_def
          split: option.splits)
  qed (simp add: inv drop_step_def DropJoin)
next
  case (DropFrame c now f)
  assume inv: "drop_inv g"
  note D = drop_invD [OF inv]
  have b: "fcard (d_seen (fst (record_frame s now f))) \<le> maxDropSeen" if "fcard (d_seen s) \<le> maxDropSeen" for s
    using seen_bounded [of s "[(now, f)]"] that by simp
  show ?thesis using D b by (auto simp: drop_inv_def drop_step_def DropFrame record_frame_parts(5) split: option.splits)
next
  case (DropLeave c now)
  assume inv: "drop_inv g"
  note D = drop_invD [OF inv]
  show ?thesis
  proof (cases "fmlookup (drop_conns g) c")
    case (Some i)
    obtain s where s: "fmlookup (drops g) i = Some s" using D(1) [OF Some] by blast
    show ?thesis using D holders_leave [OF Some] Some s
      by (auto simp: drop_inv_def drop_step_def DropLeave leave_def)
  qed (simp add: inv drop_step_def DropLeave)
next
  case (DropCleanup now)
  assume inv: "drop_inv g"
  note D = drop_invD [OF inv]
  have "\<not> drop_gone now s" if "fmlookup (drop_conns g) c = Some i" "fmlookup (drops g) i = Some s" for c i s
    using holders_pos [OF that(1)] D(2) [OF that(2)] by (simp add: drop_gone_def)
  then show ?thesis using D by (fastforce simp: drop_inv_def drop_step_def DropCleanup cleanupDrop_def split: option.splits)
qed

interpretation drop_channel: guarded_system drop_step drop_inv drop_start
  by unfold_locales (simp_all add: drop_step_inv, simp add: drop_inv_def drop_start_def)

text \<open>Whatever connections join, send, leave and whenever the janitor runs: the session a connection
  holds is never removed, every session counts exactly the connections that hold it, and it
  remembers at most \<^verbatim>\<open>maxDropSeen\<close> frame numbers.\<close>

theorem drop_sessions_counted:
  "let g = foldl drop_step drop_start es in
     fmpred (\<lambda>c i. fmlookup (drops g) i \<noteq> None) (drop_conns g) \<and>
     fmpred (\<lambda>i s. d_paths s = holders g i \<and> fcard (d_seen s) \<le> maxDropSeen) (drops g)"
  using drop_channel.run_inv [of es] by (auto simp: Let_def drop_inv_def fmpred_iff)

end
