(* ===== verification/Measure.thy ===== *)
theory Measure
  imports Contracts "HOL-Library.Multiset"
begin

text \<open>
  internal/measure/measure.go: the ping statistics. Percentages and the jitter are real numbers here
  (float64 in the code). The rank \<^verbatim>\<open>math.Ceil(0.95*n)\<close> is written with integers, which agrees with
  the float64 computation for all \<open>n \<le> maxSamples\<close>: the product is exact or rounds to the integer
  when 20 divides \<open>n\<close>, and is at least 1/20 away from an integer otherwise.
\<close>

definition maxSamples :: nat where "maxSamples = 10000"
definition maxPendingAge :: duration where "maxPendingAge = 30 * sec"
definition minScanAt :: nat where "minScanAt = 1024"

record stats =
  sentAt :: "(u64, time) fmap"
  scanAt :: nat
  rtts :: "duration list"      \<comment> \<open>a ring; \<open>next_ix\<close> is the oldest once it is full\<close>
  next_ix :: nat
  sent_cnt :: int
  recv_cnt :: int
  lastRTT :: duration
  jitterAcc :: real
  haveLast :: bool

definition NewStats :: stats where
  "NewStats = \<lparr>sentAt = fmempty, scanAt = minScanAt, rtts = [], next_ix = 0, sent_cnt = 0, recv_cnt = 0, lastRTT = 0,
     jitterAcc = 0, haveLast = False\<rparr>"

definition expireOlderThan :: "stats \<Rightarrow> duration \<Rightarrow> time \<Rightarrow> stats" where
  "expireOlderThan s d now =
     s\<lparr>sentAt := fmfilter (\<lambda>k. case fmlookup (sentAt s) k of None \<Rightarrow> True | Some t \<Rightarrow> \<not> t < now - d) (sentAt s)\<rparr>"

definition OnSend :: "stats \<Rightarrow> u64 \<Rightarrow> time \<Rightarrow> stats" where
  "OnSend s nonce now =
     (let s1 = s\<lparr>sentAt := fmupd nonce now (sentAt s), sent_cnt := sent_cnt s + 1\<rparr>
      in if scanAt s1 \<le> gosize (sentAt s1)
         then let s2 = expireOlderThan s1 maxPendingAge now in s2\<lparr>scanAt := max (2 * gosize (sentAt s2)) minScanAt\<rparr>
         else s1)"

definition push_rtt :: "stats \<Rightarrow> duration \<Rightarrow> stats" where
  "push_rtt s rtt =
     (if length (rtts s) < maxSamples then s\<lparr>rtts := rtts s @ [rtt]\<rparr>
      else s\<lparr>rtts := (rtts s)[next_ix s := rtt], next_ix := (next_ix s + 1) mod maxSamples\<rparr>)"

definition OnRecv :: "stats \<Rightarrow> u64 \<Rightarrow> time \<Rightarrow> stats" where
  "OnRecv s nonce now =
     (case fmlookup (sentAt s) nonce of
        None \<Rightarrow> s
      | Some t \<Rightarrow>
          let rtt = time_sub now t;
              s1 = push_rtt (s\<lparr>sentAt := fmdrop nonce (sentAt s)\<rparr>) rtt;
              s2 = s1\<lparr>recv_cnt := recv_cnt s1 + 1\<rparr>;
              s3 = (if haveLast s2
                    then s2\<lparr>jitterAcc := jitterAcc s2 +
                           (\<bar>real_of_int (dur_wrap (rtt - lastRTT s2)) / real_of_int ms\<bar> - jitterAcc s2) / 16\<rparr>
                    else s2)
          in s3\<lparr>lastRTT := rtt, haveLast := True\<rparr>)"

record summary =
  Sent :: int
  Received :: int
  LossPct :: real
  MinRTT :: duration
  MaxRTT :: duration
  MeanRTT :: duration
  P95RTT :: duration
  JitterMS :: real

text \<open>Go's division of integers truncates towards zero.\<close>

definition go_div :: "int \<Rightarrow> int \<Rightarrow> int" where
  "go_div a b = sgn a * sgn b * (\<bar>a\<bar> div \<bar>b\<bar>)"

definition p95_rank :: "nat \<Rightarrow> nat" where
  "p95_rank n = (19 * n + 19) div 20"

definition Snapshot :: "stats \<Rightarrow> duration \<Rightarrow> time \<Rightarrow> stats \<times> summary" where
  "Snapshot s lossTimeout now =
     (let s1 = expireOlderThan s lossTimeout now;
          n = sent_cnt s1 - int (gosize (sentAt s1));
          sum = \<lparr>Sent = n, Received = recv_cnt s1,
                 LossPct = (if 0 < n then 100 * real_of_int (n - recv_cnt s1) / real_of_int n else 0),
                 MinRTT = 0, MaxRTT = 0, MeanRTT = 0, P95RTT = 0, JitterMS = jitterAcc s1\<rparr>
      in (s1,
          if rtts s1 = [] then sum
          else let srt = sort (rtts s1); l = length srt
               in sum\<lparr>MinRTT := srt ! 0, MaxRTT := srt ! (l - 1),
                      MeanRTT := go_div (foldl (\<lambda>t r. dur_wrap (t + r)) 0 srt) (int l),
                      P95RTT := srt ! (p95_rank l - 1)\<rparr>))"

section \<open>The counters\<close>

datatype ping_event = Sent_ping u64 time | Got_reply u64 time | Take_snapshot duration time

definition stats_step :: "stats \<Rightarrow> ping_event \<Rightarrow> stats" where
  "stats_step s e =
     (case e of
        Sent_ping n now \<Rightarrow> OnSend s n now
      | Got_reply n now \<Rightarrow> OnRecv s n now
      | Take_snapshot d now \<Rightarrow> fst (Snapshot s d now))"

definition stats_inv :: "stats \<Rightarrow> bool" where
  "stats_inv s \<longleftrightarrow> 0 \<le> recv_cnt s \<and> recv_cnt s + int (gosize (sentAt s)) \<le> sent_cnt s \<and>
     gosize (sentAt s) < scanAt s \<and> minScanAt \<le> scanAt s \<and> int (length (rtts s)) = min (recv_cnt s) (int maxSamples)"

lemma gosize_fmfilter: "gosize (fmfilter P m) \<le> gosize m"
  by (rule fcard_mono) auto

lemma expire_shrinks: "gosize (sentAt (expireOlderThan s d now)) \<le> gosize (sentAt s)"
  unfolding expireOlderThan_def using gosize_fmfilter [of _ "sentAt s"] by simp

lemma expire_parts [simp]:
  "sent_cnt (expireOlderThan s d now) = sent_cnt s" "recv_cnt (expireOlderThan s d now) = recv_cnt s"
  "rtts (expireOlderThan s d now) = rtts s" "scanAt (expireOlderThan s d now) = scanAt s"
  "next_ix (expireOlderThan s d now) = next_ix s"
  by (simp_all add: expireOlderThan_def)

lemma push_rtt_parts [simp]:
  "sentAt (push_rtt s r) = sentAt s" "recv_cnt (push_rtt s r) = recv_cnt s" "sent_cnt (push_rtt s r) = sent_cnt s"
  "scanAt (push_rtt s r) = scanAt s" "length (rtts (push_rtt s r)) = min (max (Suc (length (rtts s))) (length (rtts s))) (max maxSamples (length (rtts s)))"
  by (auto simp: push_rtt_def)

lemma stats_new_inv: "stats_inv NewStats"
  by (simp add: stats_inv_def NewStats_def minScanAt_def)

lemma OnSend_inv: "stats_inv s \<Longrightarrow> stats_inv (OnSend s n now)"
proof -
  assume i: "stats_inv s"
  define s1 where "s1 = s\<lparr>sentAt := fmupd n now (sentAt s), sent_cnt := sent_cnt s + 1\<rparr>"
  have a: "gosize (sentAt s1) \<le> Suc (gosize (sentAt s))" by (simp add: s1_def fcard_finsert_if)
  have p: "sent_cnt s1 = sent_cnt s + 1" "recv_cnt s1 = recv_cnt s" "rtts s1 = rtts s" "scanAt s1 = scanAt s" by (simp_all add: s1_def)
  define s2 where "s2 = expireOlderThan s1 maxPendingAge now"
  have b: "gosize (sentAt s2) \<le> gosize (sentAt s1)" "sent_cnt s2 = sent_cnt s1" "recv_cnt s2 = recv_cnt s1" "rtts s2 = rtts s1"
    by (simp_all add: s2_def expire_shrinks)
  show ?thesis
  proof (cases "scanAt s1 \<le> gosize (sentAt s1)")
    case True
    then have "OnSend s n now = s2\<lparr>scanAt := max (2 * gosize (sentAt s2)) minScanAt\<rparr>"
      by (simp add: OnSend_def Let_def s1_def [symmetric] s2_def [symmetric])
    then show ?thesis using i a b p by (simp add: stats_inv_def minScanAt_def)
  next
    case False
    then have "OnSend s n now = s1" by (simp add: OnSend_def Let_def s1_def [symmetric])
    then show ?thesis using i a p False by (simp add: stats_inv_def)
  qed
qed

lemma OnRecv_inv: "stats_inv s \<Longrightarrow> stats_inv (OnRecv s n now)"
proof (cases "fmlookup (sentAt s) n")
  case (Some t)
  assume i: "stats_inv s"
  have "Suc (gosize (fmdrop n (sentAt s))) = gosize (sentAt s)"
    unfolding gosize_fmdrop using gosize_pos [OF Some] Some by simp
  then show ?thesis using i Some by (auto simp: OnRecv_def Let_def stats_inv_def simp del: fmdom_drop)
qed (simp add: OnRecv_def)

lemma Snapshot_inv: "stats_inv s \<Longrightarrow> stats_inv (fst (Snapshot s d now))"
  using expire_shrinks [of s d now] by (auto simp: Snapshot_def Let_def stats_inv_def)

interpretation ping_stats: guarded_system stats_step stats_inv NewStats
  by unfold_locales (auto simp: stats_new_inv stats_step_def OnSend_inv OnRecv_inv Snapshot_inv split: ping_event.split)

section \<open>The ring holds the latest round trips\<close>

text \<open>The round trips a run completes, in order.\<close>

definition replied :: "stats \<Rightarrow> ping_event \<Rightarrow> duration list" where
  "replied s e =
     (case e of
        Got_reply n now \<Rightarrow> (case fmlookup (sentAt s) n of None \<Rightarrow> [] | Some t \<Rightarrow> [time_sub now t])
      | _ \<Rightarrow> [])"

primrec round_trips :: "stats \<Rightarrow> ping_event list \<Rightarrow> duration list" where
  "round_trips s [] = []"
| "round_trips s (e # es) = replied s e @ round_trips (stats_step s e) es"

definition latest :: "'a list \<Rightarrow> 'a list" where
  "latest xs = drop (length xs - maxSamples) xs"

definition ring_ok :: "stats \<Rightarrow> duration list \<Rightarrow> bool" where
  "ring_ok s hist \<longleftrightarrow>
     (if length hist < maxSamples then next_ix s = 0 else next_ix s < maxSamples) \<and>
     length (rtts s) = min (length hist) maxSamples \<and> rotate (next_ix s) (rtts s) = latest hist"

lemma ring_full:
  assumes "length xs = n" "i < n" "rotate i xs = y # ys"
  shows "rotate ((i + 1) mod n) (xs[i := r]) = ys @ [r]"
proof -
  have rot: "rotate i xs = drop i xs @ take i xs" using assms(1,2) by (simp add: rotate_drop_take)
  have "drop i xs = xs ! i # drop (Suc i) xs" using assms(1,2) by (simp add: Cons_nth_drop_Suc)
  then have ys: "ys = drop (Suc i) xs @ take i xs" using assms(3) rot by simp
  have upd: "xs[i := r] = take i xs @ r # drop (Suc i) xs" by (rule upd_conv_take_nth_drop) (simp add: assms(1,2))
  show ?thesis
  proof (cases "Suc i = n")
    case True
    then show ?thesis using assms(1) ys by (simp add: upd)
  next
    case False
    then have "(i + 1) mod n = Suc i" using assms(2) by simp
    then show ?thesis using assms(1,2) ys False by (simp add: upd rotate_drop_take)
  qed
qed

lemma push_ring:
  assumes "ring_ok s hist"
  shows "ring_ok (push_rtt s r) (hist @ [r])"
proof (cases "length (rtts s) < maxSamples")
  case True
  have "length (rtts s) = min (length hist) maxSamples" using assms by (simp add: ring_ok_def)
  then have l: "length hist < maxSamples" using True by linarith
  then have "latest hist = hist" by (simp add: latest_def)
  moreover have z: "next_ix s = 0" using assms l by (simp add: ring_ok_def)
  moreover have "rotate (next_ix s) (rtts s) = latest hist" using assms by (simp add: ring_ok_def)
  ultimately have h: "rtts s = hist" by simp
  have "latest (hist @ [r]) = hist @ [r]" using l by (simp add: latest_def)
  then show ?thesis using h z True by (simp add: ring_ok_def push_rtt_def maxSamples_def)
next
  case False
  then have l: "length (rtts s) = maxSamples" "maxSamples \<le> length hist" "next_ix s < maxSamples"
    using assms by (auto simp: ring_ok_def maxSamples_def split: if_splits)
  define y where "y = hist ! (length hist - maxSamples)"
  have pos: "0 < maxSamples" by (simp add: maxSamples_def)
  have lat: "latest hist = y # drop (Suc (length hist - maxSamples)) hist"
    unfolding latest_def y_def using l(2) pos by (intro Cons_nth_drop_Suc [symmetric]) linarith
  have "Suc (length hist - maxSamples) = Suc (length hist) - maxSamples" using l(2) by simp
  then have nxt: "latest (hist @ [r]) = drop (Suc (length hist - maxSamples)) hist @ [r]"
    using l(2) pos by (simp add: latest_def)
  have "rotate (next_ix s) (rtts s) = y # drop (Suc (length hist - maxSamples)) hist"
    using assms lat by (simp add: ring_ok_def)
  from ring_full [OF l(1) l(3) this, of r] nxt show ?thesis
    using l False pos by (simp add: ring_ok_def push_rtt_def)
qed

lemma ring_ok_cong: "ring_ok s hist \<Longrightarrow> rtts s' = rtts s \<Longrightarrow> next_ix s' = next_ix s \<Longrightarrow> ring_ok s' hist"
  by (simp add: ring_ok_def)

lemma ring_step: "ring_ok s hist \<Longrightarrow> ring_ok (stats_step s e) (hist @ replied s e)"
proof (cases e)
  case (Got_reply n now)
  assume r: "ring_ok s hist"
  show ?thesis
  proof (cases "fmlookup (sentAt s) n")
    case (Some t)
    define s1 where "s1 = push_rtt (s\<lparr>sentAt := fmdrop n (sentAt s)\<rparr>) (time_sub now t)"
    have "ring_ok (s\<lparr>sentAt := fmdrop n (sentAt s)\<rparr>) hist" by (rule ring_ok_cong [OF r]) simp_all
    then have "ring_ok s1 (hist @ [time_sub now t])" unfolding s1_def by (rule push_ring)
    then have "ring_ok (stats_step s e) (hist @ [time_sub now t])"
      by (rule ring_ok_cong) (simp_all add: stats_step_def Got_reply OnRecv_def Some Let_def s1_def)
    then show ?thesis using Some by (simp add: replied_def Got_reply)
  qed (use r in \<open>simp add: stats_step_def replied_def Got_reply OnRecv_def\<close>)
qed (auto simp: stats_step_def replied_def OnSend_def Snapshot_def ring_ok_def Let_def)

lemma ring_run: "ring_ok s hist \<Longrightarrow> ring_ok (foldl stats_step s es) (hist @ round_trips s es)"
proof (induction es arbitrary: s hist)
  case (Cons e es)
  from Cons.IH [OF ring_step [OF Cons.prems, of e]] show ?case by simp
qed simp

lemma ring_start: "ring_ok NewStats []"
  by (simp add: ring_ok_def NewStats_def latest_def maxSamples_def)

lemma ring_mset: "ring_ok s hist \<Longrightarrow> mset (rtts s) = mset (latest hist)"
  unfolding ring_ok_def rotate_drop_take by (metis append_take_drop_id mset_append union_commute)

section \<open>The summary\<close>

lemma sorted_rank:
  assumes "sorted xs" "k < length xs"
  shows "Suc k \<le> length (filter (\<lambda>r. r \<le> xs ! k) xs)" "length (filter (\<lambda>r. r < xs ! k) xs) \<le> k"
proof -
  have "filter (\<lambda>r. r \<le> xs ! k) (take (Suc k) xs) = take (Suc k) xs"
    using assms by (intro filter_True) (auto simp: in_set_conv_nth less_Suc_eq_le sorted_nth_mono)
  then have "length (filter (\<lambda>r. r \<le> xs ! k) (take (Suc k) xs)) = Suc k" using assms(2) by simp
  moreover have "filter (\<lambda>r. r \<le> xs ! k) xs = filter (\<lambda>r. r \<le> xs ! k) (take (Suc k) xs) @ filter (\<lambda>r. r \<le> xs ! k) (drop (Suc k) xs)"
    by (metis append_take_drop_id filter_append)
  ultimately show "Suc k \<le> length (filter (\<lambda>r. r \<le> xs ! k) xs)" by simp
  have "filter (\<lambda>r. r < xs ! k) (drop k xs) = []"
    using assms by (auto simp: filter_empty_conv in_set_conv_nth not_less intro!: sorted_nth_mono)
  moreover have "filter (\<lambda>r. r < xs ! k) xs = filter (\<lambda>r. r < xs ! k) (take k xs) @ filter (\<lambda>r. r < xs ! k) (drop k xs)"
    by (metis append_take_drop_id filter_append)
  ultimately show "length (filter (\<lambda>r. r < xs ! k) xs) \<le> k" using length_filter_le [of _ "take k xs"] by (metis append_Nil2 length_take min.coboundedI2 order_trans min.cobounded2)
qed

lemma rank_mset: "mset xs = mset ys \<Longrightarrow> length (filter P xs) = length (filter P ys)"
  by (metis mset_filter size_mset)

definition nearest_rank95 :: "duration list \<Rightarrow> duration \<Rightarrow> bool" where
  "nearest_rank95 xs v \<longleftrightarrow>
     v \<in> set xs \<and> 95 * length xs \<le> 100 * length (filter (\<lambda>r. r \<le> v) xs) \<and>
     100 * length (filter (\<lambda>r. r < v) xs) < 95 * length xs"

lemma p95_correct:
  assumes "xs \<noteq> []" "mset ys = mset xs"
  shows "nearest_rank95 ys (sort xs ! (p95_rank (length xs) - 1))"
proof -
  let ?n = "length xs"
  define k where "k = p95_rank ?n - 1"
  have n: "0 < ?n" using assms(1) by simp
  then have k: "k < length (sort xs)" "95 * ?n \<le> 100 * Suc k" "100 * k < 95 * ?n"
  proof -
    have "20 * p95_rank ?n \<le> 19 * ?n + 19" "19 * ?n + 19 < 20 * p95_rank ?n + 20" by (simp_all add: p95_rank_def)
    moreover from this have "p95_rank ?n \<noteq> 0" using n by linarith
    then have "p95_rank ?n = Suc k" by (simp add: k_def)
    ultimately show "k < length (sort xs)" "95 * ?n \<le> 100 * Suc k" "100 * k < 95 * ?n"
      using n by simp_all
  qed
  have l: "length ys = ?n" using assms(2) by (rule mset_eq_length)
  have m: "mset (sort xs) = mset ys" using assms(2) by simp
  note sr = sorted_rank [OF sorted_sort k(1)]
  have "sort xs ! k \<in> set ys" using nth_mem [OF k(1)] assms(2) by (metis mset_eq_setD set_sort)
  moreover have "95 * ?n \<le> 100 * length (filter (\<lambda>r. r \<le> sort xs ! k) ys)"
    using mult_le_mono2 [OF sr(1), of 100] k(2) rank_mset [OF m, of "\<lambda>r. r \<le> sort xs ! k"] by simp
  moreover have "100 * length (filter (\<lambda>r. r < sort xs ! k) ys) < 95 * ?n"
    using mult_le_mono2 [OF sr(2), of 100] k(3) rank_mset [OF m, of "\<lambda>r. r < sort xs ! k"] by simp
  ultimately show ?thesis by (simp add: nearest_rank95_def l k_def)
qed

lemma sort_ends:
  assumes "xs \<noteq> []"
  shows "sort xs ! 0 = Min (set xs)" "sort xs ! (length xs - 1) = Max (set xs)"
proof -
  have l: "0 < length (sort xs)" using assms by simp
  have "\<And>x. x \<in> set xs \<Longrightarrow> sort xs ! 0 \<le> x"
    by (metis in_set_conv_nth le0 set_sort sorted_nth_mono sorted_sort)
  moreover have "sort xs ! 0 \<in> set xs" using nth_mem [OF l] by simp
  ultimately show "sort xs ! 0 = Min (set xs)" by (intro Min_eqI [symmetric]) auto
  have "\<And>x. x \<in> set xs \<Longrightarrow> x \<le> sort xs ! (length xs - 1)"
  proof -
    fix x assume "x \<in> set xs"
    then obtain i where i: "i < length (sort xs)" "sort xs ! i = x" by (metis in_set_conv_nth set_sort)
    then show "x \<le> sort xs ! (length xs - 1)" using sorted_nth_mono [OF sorted_sort, of i "length xs - 1" xs] by simp
  qed
  moreover have "sort xs ! (length xs - 1) \<in> set xs" using nth_mem [of "length xs - 1" "sort xs"] l by simp
  ultimately show "sort xs ! (length xs - 1) = Max (set xs)" by (intro Max_eqI [symmetric]) auto
qed

text \<open>The summary says what happened: the loss is a percentage, no reply is counted that was not to a ping
  sent, and the round-trip numbers are the minimum, the maximum and the 95th percentile (nearest
  rank: at least 95 % of the samples are not larger, fewer than 95 % are smaller) of the last
  \<^verbatim>\<open>maxSamples\<close> replies; the ring that is overwritten in place keeps exactly those. The pings waiting
  for a reply stay fewer than \<^verbatim>\<open>scanAt\<close>.\<close>

theorem snapshot_correct:
  "let s = foldl stats_step NewStats es;
       recent = latest (round_trips NewStats es);
       m = snd (Snapshot s d now)
   in 0 \<le> Received m \<and> Received m \<le> Sent m \<and> 0 \<le> LossPct m \<and> LossPct m \<le> 100 \<and>
      gosize (sentAt s) < scanAt s \<and>
      (recent = [] \<or> (MinRTT m = Min (set recent) \<and> MaxRTT m = Max (set recent) \<and> nearest_rank95 recent (P95RTT m)))"
proof -
  define s where "s = foldl stats_step NewStats es"
  define recent where "recent = latest (round_trips NewStats es)"
  define m where "m = snd (Snapshot s d now)"
  have i: "stats_inv s" unfolding s_def by (rule ping_stats.run_inv)
  have ms: "mset (rtts s) = mset recent"
    using ring_mset [OF ring_run [OF ring_start, of es]] by (simp add: s_def recent_def)
  have i': "stats_inv (expireOlderThan s d now)" using Snapshot_inv [OF i, of d now] by (simp add: Snapshot_def Let_def)
  have m1: "Received m = recv_cnt s" "Sent m = sent_cnt s - int (gosize (sentAt (expireOlderThan s d now)))"
    "LossPct m = (if 0 < Sent m then 100 * real_of_int (Sent m - Received m) / real_of_int (Sent m) else 0)"
    by (simp_all add: m_def Snapshot_def Let_def)
  have cnt: "0 \<le> Received m" "Received m \<le> Sent m" using i' by (simp_all add: m1 stats_inv_def)
  then have loss: "0 \<le> LossPct m" "LossPct m \<le> 100" by (simp_all add: m1(3) divide_le_eq)
  have "MinRTT m = Min (set recent) \<and> MaxRTT m = Max (set recent) \<and> nearest_rank95 recent (P95RTT m)" if "recent \<noteq> []"
  proof -
    have ne: "rtts s \<noteq> []" using ms that by (metis mset_zero_iff)
    have st: "set (rtts s) = set recent" using ms by (rule mset_eq_setD)
    show ?thesis using sort_ends [OF ne] p95_correct [OF ne ms [symmetric]] ne
      by (simp add: m_def Snapshot_def Let_def st)
  qed
  then show ?thesis using cnt loss i unfolding s_def [symmetric] recent_def [symmetric] m_def [symmetric] Let_def
    by (auto simp: stats_inv_def)
qed

end
