(* ===== verification/ClientGlue.thy ===== *)
theory ClientGlue
  imports Streams Flows Frame Glue
begin

text \<open>
  cmd/client/gluepaths.go: the parallel connections (paths) of a client to the glue server, how
  each one is kept alive, and what happens to the replies. Connections and path writers are
  numbers; dialing and its errors are arguments. An epoch is the number of the server session a
  path joined.
\<close>

definition gluePathDepth :: nat where "gluePathDepth = 32"
definition glueStaleAfter :: duration where "glueStaleAfter = 150 * ms"
definition pathPingInterval :: duration where "pathPingInterval = 200 * ms"
definition pathDeadAfter :: duration where "pathDeadAfter = sec"
definition replyMaxAge :: duration where "replyMaxAge = 150 * ms"

section \<open>Joining a session\<close>

datatype join_error = SendHello string | NoAccept io_error | Refused glue_error

definition joinSession :: "conn \<Rightarrow> bytes \<Rightarrow> conn \<times> (join_error + u64)" where
  "joinSession c sid =
     (case conn_write (EncodeHello sid) c of
        (c1, Some e) \<Rightarrow> (c1, Inl (SendHello e))
      | (c1, None) \<Rightarrow>
          (case conn_read_full AcceptSize c1 of
             Inl e \<Rightarrow> (c1, Inl (NoAccept e))
           | Inr (b, c2) \<Rightarrow>
               (case DecodeAccept b of
                  None \<Rightarrow> (c2, Inl (NoAccept EOF))      \<comment> \<open>does not happen: \<open>b\<close> has \<^verbatim>\<open>AcceptSize\<close> bytes\<close>
                | Some (Inl e) \<Rightarrow> (c2, Inl (Refused e))
                | Some (Inr epoch) \<Rightarrow> (c2, Inr epoch))))"

lemma DecodeAccept_total: "length b = AcceptSize \<Longrightarrow> DecodeAccept b \<noteq> None"
  by (auto simp: DecodeAccept_def AcceptSize_def)

lemma join_good:
  "joinSession (good_conn (EncodeAccept status ep @ rest, e) t) sid =
     (good_conn (rest, e) (t @ EncodeHello sid),
      if status = StatusOK then Inr ep else Inl (Refused (if status = StatusBusy then ErrBusy else if status = Glue.StatusRefused then ErrRefused
        else if status = StatusUnsupported then ErrUnsupportedVersion else ErrUnknownStatus status)))"
  by (simp add: joinSession_def length_EncodeAccept accept_roundtrip)

section \<open>Keeping a path connected\<close>

text \<open>
  One path: the goroutine of \<^verbatim>\<open>keepPath\<close> dials, serves the connection until it is lost, waits and
  dials again; it stops for good after an error that reconnecting cannot repair. \<open>report\<close> is
  whether the result of the first attempt is still to be reported to \<^verbatim>\<open>start\<close>.
\<close>

datatype path_phase = Dialing | Serving nat u64 time | Stopped

record path_loop =
  kp_phase :: path_phase
  kp_backoff :: duration
  kp_report :: bool

record gluePaths =
  loops :: "(nat, path_loop) fmap"
  g_writers :: "(nat, nat) fmap"     \<comment> \<open>path to its connection's writer\<close>

datatype path_out =
    NewEpoch u64                     \<comment> \<open>\<^verbatim>\<open>onEpoch\<close>\<close>
  | FirstResult "dial_error option"  \<comment> \<open>to \<^verbatim>\<open>start\<close>\<close>
  | Fatal dial_error                 \<comment> \<open>\<^verbatim>\<open>onFatal\<close>\<close>
  | Pause duration

definition new_loop :: path_loop where
  "new_loop = \<lparr>kp_phase = Dialing, kp_backoff = redialMin, kp_report = True\<rparr>"

definition next_backoff :: "duration \<Rightarrow> duration" where
  "next_backoff b = min (b * 2) redialMax"

text \<open>The dial of path \<open>i\<close> returns: an error, or a connection and its epoch.\<close>

definition path_dialed :: "gluePaths \<Rightarrow> nat \<Rightarrow> dial_error + nat \<times> u64 \<Rightarrow> time \<Rightarrow> gluePaths \<times> path_out list" where
  "path_dialed g i res now =
     (case fmlookup (loops g) i of
        None \<Rightarrow> (g, [])
      | Some p \<Rightarrow>
          if kp_phase p \<noteq> Dialing then (g, []) else
          let first = (if kp_report p then [FirstResult (case res of Inl e \<Rightarrow> Some e | Inr _ \<Rightarrow> None)] else []);
              p1 = p\<lparr>kp_report := False\<rparr>
          in (case res of
                Inr (c, ep) \<Rightarrow>
                  (g\<lparr>g_writers := fmupd i c (g_writers g), loops := fmupd i (p1\<lparr>kp_phase := Serving c ep now\<rparr>) (loops g)\<rparr>,
                   NewEpoch ep # first)
              | Inl e \<Rightarrow>
                  if permanent e then (g\<lparr>loops := fmupd i (p1\<lparr>kp_phase := Stopped\<rparr>) (loops g)\<rparr>, first @ [Fatal e])
                  else (g\<lparr>loops := fmupd i (p1\<lparr>kp_backoff := next_backoff (kp_backoff p1)\<rparr>) (loops g)\<rparr>,
                        first @ [Pause (kp_backoff p1)])))"

text \<open>\<^verbatim>\<open>servePath\<close> of path \<open>i\<close> returns.\<close>

definition path_lost :: "gluePaths \<Rightarrow> nat \<Rightarrow> time \<Rightarrow> gluePaths \<times> path_out list" where
  "path_lost g i now =
     (case fmlookup (loops g) i of
        None \<Rightarrow> (g, [])
      | Some p \<Rightarrow>
          (case kp_phase p of
             Serving c ep started \<Rightarrow>
               let b = (if 10 * sec < time_sub now started then redialMin else kp_backoff p)
               in (g\<lparr>g_writers := fmdrop i (g_writers g),
                     loops := fmupd i (p\<lparr>kp_phase := Dialing, kp_backoff := next_backoff b\<rparr>) (loops g)\<rparr>, [Pause b])
           | _ \<Rightarrow> (g, [])))"

text \<open>The start of \<open>n\<close> paths, and what \<^verbatim>\<open>start\<close> makes of their first results.\<close>

definition start_paths :: "int \<Rightarrow> gluePaths" where
  "start_paths n =
     (let k = nat (if n < 1 then 1 else n)
      in \<lparr>loops = fmap_of_list (map (\<lambda>i. (i, new_loop)) [0..<k]), g_writers = fmempty\<rparr>)"

definition start_result :: "dial_error option list \<Rightarrow> dial_error option" where
  "start_result results =
     (case foldl (\<lambda>(n, lastErr) r. case r of Some e \<Rightarrow> (n, Some e) | None \<Rightarrow> (Suc n, lastErr)) (0, None) results of
        (n, lastErr) \<Rightarrow> if n = 0 then lastErr else None)"

definition live :: "gluePaths \<Rightarrow> nat" where
  "live g = gosize (g_writers g)"

text \<open>\<^verbatim>\<open>send\<close>: the wire goes to every registered writer.\<close>

definition send_all :: "gluePaths \<Rightarrow> bytes \<Rightarrow> (nat \<times> bytes) fset" where
  "send_all g wire = (\<lambda>w. (w, wire)) |`| fmran (g_writers g)"

datatype path_event = Dialed nat "dial_error + nat \<times> u64" time | Lost nat time

definition path_step :: "gluePaths \<Rightarrow> path_event \<Rightarrow> gluePaths \<times> path_out list" where
  "path_step g e = (case e of Dialed i res now \<Rightarrow> path_dialed g i res now | Lost i now \<Rightarrow> path_lost g i now)"

definition serving :: "path_loop \<Rightarrow> nat option" where
  "serving p = (case kp_phase p of Serving c ep t \<Rightarrow> Some c | _ \<Rightarrow> None)"

definition paths_inv :: "gluePaths \<Rightarrow> bool" where
  "paths_inv g \<longleftrightarrow>
     (\<forall>i. fmlookup (g_writers g) i = (case fmlookup (loops g) i of None \<Rightarrow> None | Some p \<Rightarrow> serving p)) \<and>
     (\<forall>i p. fmlookup (loops g) i = Some p \<longrightarrow> redialMin \<le> kp_backoff p \<and> kp_backoff p \<le> redialMax)"

lemma next_backoff_bounds: "redialMin \<le> b \<Longrightarrow> redialMin \<le> next_backoff b \<and> next_backoff b \<le> redialMax"
  by (simp add: next_backoff_def redialMin_def redialMax_def ms_def sec_def)

lemma paths_inv_start: "paths_inv (start_paths n)"
  by (auto simp: paths_inv_def start_paths_def fmlookup_of_list new_loop_def serving_def redialMin_def redialMax_def ms_def sec_def
      map_of_map_restrict restrict_map_def Let_def map_of_eq_None_iff split: option.splits dest!: map_of_SomeD)

lemma path_dialed_inv: "paths_inv g \<Longrightarrow> paths_inv (fst (path_dialed g i res now))"
proof (cases "fmlookup (loops g) i")
  case (Some p)
  assume i: "paths_inv g"
  then have b: "redialMin \<le> kp_backoff p" using Some by (simp add: paths_inv_def)
  show ?thesis using i Some next_backoff_bounds [OF b]
    by (auto simp: paths_inv_def path_dialed_def Let_def serving_def split: sum.splits)
qed (simp add: path_dialed_def)

lemma path_lost_inv: "paths_inv g \<Longrightarrow> paths_inv (fst (path_lost g i now))"
proof (cases "fmlookup (loops g) i")
  case (Some p)
  assume i: "paths_inv g"
  then have b: "redialMin \<le> kp_backoff p" using Some by (simp add: paths_inv_def)
  have m: "redialMin \<le> redialMin" by simp
  show ?thesis using i Some next_backoff_bounds [OF b] next_backoff_bounds [OF m]
    by (auto simp: paths_inv_def path_lost_def Let_def serving_def split: path_phase.splits)
qed (simp add: path_lost_def)

interpretation glue_paths: guarded_system "\<lambda>g e. fst (path_step g e)" paths_inv "start_paths n" for n
  by unfold_locales (auto simp: paths_inv_start path_step_def path_dialed_inv path_lost_inv split: path_event.split)

section \<open>Serving a path\<close>

text \<open>
  The connection's reader goroutine, the ticker and the writer's end, as they reach the loop of
  \<^verbatim>\<open>servePath\<close>. \<open>sp_end\<close> is the reason once the loop returned. Instants are the argument of each
  event; \<^verbatim>\<open>UnixNano\<close> and \<^verbatim>\<open>time.Unix\<close> are inverse on them.
\<close>

datatype lost_reason = ReadError string | WriteFailed | NoPingReply duration

record serve_path =
  sp_epoch :: u64
  lastEcho :: time
  sp_end :: "lost_reason option"

definition serve_start :: "u64 \<Rightarrow> time \<Rightarrow> serve_path" where
  "serve_start ep now = \<lparr>sp_epoch = ep, lastEcho = now, sp_end = None\<rparr>"

datatype serve_event =
    GotFrame frame time
  | GotReadError string
  | WriterDone "string option"     \<comment> \<open>with the read error if there is one too\<close>
  | Tick time

datatype serve_out = OnFrame u64 frame | SendPing bytes

definition unix_nano :: "time \<Rightarrow> int" where
  "unix_nano t = t - unix_epoch"

definition serve_step :: "serve_path \<Rightarrow> serve_event \<Rightarrow> serve_path \<times> serve_out list" where
  "serve_step s e =
     (case e of
        GotFrame f now \<Rightarrow>
          if IsPathPing (f_payload f) then (s\<lparr>lastEcho := now\<rparr>, []) else (s, [OnFrame (sp_epoch s) f])
      | GotReadError err \<Rightarrow> (if sp_end s = None then s\<lparr>sp_end := Some (ReadError err)\<rparr> else s, [])
      | WriterDone r \<Rightarrow>
          (if sp_end s = None then s\<lparr>sp_end := Some (case r of Some err \<Rightarrow> ReadError err | None \<Rightarrow> WriteFailed)\<rparr> else s, [])
      | Tick now \<Rightarrow>
          if sp_end s \<noteq> None then (s, [])
          else
            let silent = time_sub now (lastEcho s)
            in if pathDeadAfter < silent then (s\<lparr>sp_end := Some (NoPingReply silent)\<rparr>, [])
               else (s, [SendPing (marshal (frame_new 0 now (EncodePathPing (of_int (unix_nano now)))))]))"

definition serve_run :: "serve_path \<Rightarrow> serve_event list \<Rightarrow> serve_path" where
  "serve_run s es = foldl (\<lambda>s e. fst (serve_step s e)) s es"

lemma serve_run_simps [simp]:
  "serve_run s [] = s" "serve_run s (e # es) = serve_run (fst (serve_step s e)) es"
  by (simp_all add: serve_run_def)

lemma serve_ended: "sp_end s \<noteq> None \<Longrightarrow> sp_end (serve_run s es) = sp_end s"
  by (induction es arbitrary: s) (auto simp: serve_step_def split: serve_event.split)

text \<open>The reference: the ticks at which the last echo is more than \<^verbatim>\<open>pathDeadAfter\<close> ago.\<close>

fun too_silent :: "time \<Rightarrow> serve_event list \<Rightarrow> bool" where
  "too_silent echo [] = False"
| "too_silent echo (Tick now # es) = (pathDeadAfter < now - echo \<or> too_silent echo es)"
| "too_silent echo (GotFrame f now # es) = too_silent (if IsPathPing (f_payload f) then now else echo) es"
| "too_silent echo (_ # es) = too_silent echo es"

definition only_silence :: "serve_event \<Rightarrow> bool" where
  "only_silence e \<longleftrightarrow> (case e of GotFrame _ _ \<Rightarrow> True | Tick _ \<Rightarrow> True | _ \<Rightarrow> False)"

lemma silence_ends:
  "sp_end s = None \<Longrightarrow> list_all only_silence es \<Longrightarrow> sp_end (serve_run s es) \<noteq> None \<longleftrightarrow> too_silent (lastEcho s) es"
proof (induction es arbitrary: s)
  case (Cons e es)
  show ?case
  proof (cases e)
    case (Tick now)
    have d: "pathDeadAfter < time_sub now (lastEcho s) \<longleftrightarrow> pathDeadAfter < now - lastEcho s"
      by (rule time_sub_gt) (simp_all add: pathDeadAfter_def sec_def)
    show ?thesis
    proof (cases "pathDeadAfter < now - lastEcho s")
      case True
      then have "sp_end (fst (serve_step s e)) \<noteq> None" using Cons.prems d by (simp add: Tick serve_step_def Let_def)
      then show ?thesis using serve_ended [of "fst (serve_step s e)" es] True by (simp add: Tick)
    next
      case False
      then have "fst (serve_step s e) = s" using Cons.prems d by (simp add: Tick serve_step_def Let_def)
      then show ?thesis using Cons False by (simp add: Tick)
    qed
  next
    case (GotFrame f now)
    then show ?thesis using Cons.prems Cons.IH [of s] Cons.IH [of "s\<lparr>lastEcho := now\<rparr>"] by (simp add: serve_step_def)
  qed (use Cons.prems in \<open>auto simp: only_silence_def\<close>)
qed simp

section \<open>Replies\<close>

record replyHandler =
  rh_flows :: flowTable
  rh_epoch :: u64
  rh_recv :: receiver
  rh_ipID :: u32           \<comment> \<open>the counter of \<^verbatim>\<open>BuildIPv4UDP\<close>\<close>

datatype reply_out = PingReply u64 | TunPacket bytes

definition newReplyHandler :: "flowTable \<Rightarrow> u32 \<Rightarrow> replyHandler" where
  "newReplyHandler t n = \<lparr>rh_flows = t, rh_epoch = 0, rh_recv = NewReceiver replyMaxAge, rh_ipID = n\<rparr>"

definition setEpoch :: "replyHandler \<Rightarrow> u64 \<Rightarrow> replyHandler" where
  "setEpoch h ep = (if ep = rh_epoch h then h else h\<lparr>rh_epoch := ep, rh_recv := NewReceiver replyMaxAge\<rparr>)"

text \<open>The second half of \<^verbatim>\<open>handle\<close>: a reply that was accepted.\<close>

definition write_reply :: "replyHandler \<Rightarrow> time \<Rightarrow> frame \<Rightarrow> replyHandler \<times> reply_out option" where
  "write_reply h now f =
     (case DecodeInbound (f_payload f) of
        Inl _ \<Rightarrow> (h, None)
      | Inr (flowID, payload) \<Rightarrow>
          (case lookup_flow (rh_flows h) flowID now of
             (t, None) \<Rightarrow> (h\<lparr>rh_flows := t\<rparr>, None)
           | (t, Some fi) \<Rightarrow>
               (case BuildIPv4UDP (rh_ipID h) (origDst fi) (origSrc fi) (origDstPort fi) (origSrcPort fi) payload of
                  (n, pkt) \<Rightarrow> (h\<lparr>rh_flows := t, rh_ipID := n\<rparr>, if pkt = [] then None else Some (TunPacket pkt)))))"

definition reply_handle :: "bool \<Rightarrow> replyHandler \<Rightarrow> u64 \<Rightarrow> time \<Rightarrow> frame \<Rightarrow> replyHandler \<times> reply_out option" where
  "reply_handle onPing h ep now f =
     (case DecodePing (f_payload f) of
        Some nonce \<Rightarrow> (h, if onPing then Some (PingReply nonce) else None)
      | None \<Rightarrow>
          if ep \<noteq> rh_epoch h then (h, None)
          else (case accept (rh_recv h) now f of
                  (r, ok, reason) \<Rightarrow>
                    if \<not> ok then (h\<lparr>rh_recv := r\<rparr>, None) else write_reply (h\<lparr>rh_recv := r\<rparr>) now f))"

lemma write_reply_frame [simp]:
  "rh_recv (fst (write_reply h now f)) = rh_recv h" "rh_epoch (fst (write_reply h now f)) = rh_epoch h"
  by (auto simp: write_reply_def split: sum.splits prod.splits option.splits)

text \<open>What reaches the handler; each frame carries the number its server session gave it.\<close>

datatype reply_event = Epoch u64 | Reply u64 nat time frame

definition reply_step :: "bool \<Rightarrow> replyHandler \<Rightarrow> reply_event \<Rightarrow> replyHandler \<times> reply_out option" where
  "reply_step onPing h e =
     (case e of Epoch ep \<Rightarrow> (setEpoch h ep, None) | Reply ep k now f \<Rightarrow> reply_handle onPing h ep now f)"

text \<open>The replies written into the TUN, as epoch and number, and the epochs the handler goes through.\<close>

primrec written :: "bool \<Rightarrow> replyHandler \<Rightarrow> reply_event list \<Rightarrow> (u64 \<times> nat) list" where
  "written onPing h [] = []"
| "written onPing h (e # es) =
     (case (e, snd (reply_step onPing h e)) of
        (Reply ep k now f, Some (TunPacket p)) \<Rightarrow> [(ep, k)] | _ \<Rightarrow> []) @ written onPing (fst (reply_step onPing h e)) es"

fun epochs :: "u64 \<Rightarrow> reply_event list \<Rightarrow> u64 list" where
  "epochs ep [] = [ep]"
| "epochs ep (Epoch ep' # es) = (if ep' = ep then epochs ep es else ep # epochs ep' es)"
| "epochs ep (_ # es) = epochs ep es"

definition seqs_ok :: "nat set \<Rightarrow> reply_event list \<Rightarrow> bool" where
  "seqs_ok K es \<longleftrightarrow> (\<forall>ep k now f. Reply ep k now f \<in> set es \<longrightarrow> k \<in> K \<and> f_seq f = of_nat k)"

lemma epochs_first: "epochs ep es \<noteq> [] \<and> ep \<in> set (epochs ep es)"
  by (induction ep es rule: epochs.induct) auto

lemma reply_step_cases:
  obtains (skip) "snd (reply_step b h (Reply ep k now f)) = None \<or> (\<exists>n. snd (reply_step b h (Reply ep k now f)) = Some (PingReply n))"
      "rh_recv (fst (reply_step b h (Reply ep k now f))) = rh_recv h"
      "rh_epoch (fst (reply_step b h (Reply ep k now f))) = rh_epoch h"
  | (late) "ep = rh_epoch h" "snd (reply_step b h (Reply ep k now f)) = None"
      "rh_recv (fst (reply_step b h (Reply ep k now f))) = fst (recv_step (rh_recv h) (Some now) f)"
      "rh_epoch (fst (reply_step b h (Reply ep k now f))) = rh_epoch h"
  | (taken) "ep = rh_epoch h" "fst (snd (recv_step (rh_recv h) (Some now) f))"
      "rh_recv (fst (reply_step b h (Reply ep k now f))) = fst (recv_step (rh_recv h) (Some now) f)"
      "rh_epoch (fst (reply_step b h (Reply ep k now f))) = rh_epoch h"
proof (cases "DecodePing (f_payload f) = None \<and> ep = rh_epoch h")
  case False
  then show thesis by (intro skip) (auto simp: reply_step_def reply_handle_def split: option.splits if_splits)
next
  case True
  obtain r ok reason where a: "accept (rh_recv h) now f = (r, ok, reason)" by (metis prod_cases3)
  show thesis
  proof (cases ok)
    case False
    then show thesis using a True by (intro late) (auto simp: reply_step_def reply_handle_def recv_step_def)
  next
    case ok: True
    then show thesis using a True by (intro taken) (auto simp: reply_step_def reply_handle_def recv_step_def)
  qed
qed

lemma written_distinct:
  assumes c: "close_set K"
  shows "remembers (rh_recv h) A \<Longrightarrow> A \<subseteq> K \<Longrightarrow> seqs_ok K es \<Longrightarrow> distinct (epochs (rh_epoch h) es) \<Longrightarrow>
     distinct (written b h es) \<and> fst ` set (written b h es) \<subseteq> set (epochs (rh_epoch h) es) \<and>
     (\<forall>k. (rh_epoch h, k) \<in> set (written b h es) \<longrightarrow> k \<notin> A)"
proof (induction es arbitrary: h A)
  case (Cons e es)
  define h1 where "h1 = fst (reply_step b h e)"
  have es: "seqs_ok K es" using Cons.prems(3) by (simp add: seqs_ok_def)
  show ?case
  proof (cases e)
    case (Epoch ep)
    show ?thesis
    proof (cases "ep = rh_epoch h")
      case True
      then have "fst (reply_step b h (Epoch (rh_epoch h))) = h" by (simp add: reply_step_def setEpoch_def)
      then show ?thesis using Cons.IH [OF Cons.prems(1,2) es] Cons.prems(4) by (simp add: Epoch True)
    next
      case False
      then have h1: "rh_epoch h1 = ep" "rh_recv h1 = NewReceiver replyMaxAge" by (simp_all add: h1_def Epoch reply_step_def setEpoch_def)
      have d: "distinct (epochs ep es)" "rh_epoch h \<notin> set (epochs ep es)" using Cons.prems(4) False by (simp_all add: Epoch)
      have "remembers (rh_recv h1) {}" by (simp add: h1)
      from Cons.IH [OF this _ es] d h1(1)
      have "distinct (written b h1 es) \<and> fst ` set (written b h1 es) \<subseteq> set (epochs ep es)" by simp
      moreover have "written b h (e # es) = written b h1 es" by (simp add: h1_def Epoch)
      ultimately show ?thesis using False d(2) by (auto simp: Epoch)
    qed
  next
    case (Reply ep k now f)
    have k: "k \<in> K" "f_seq f = of_nat k" using Cons.prems(3) by (auto simp: seqs_ok_def Reply)
    have d: "distinct (epochs (rh_epoch h) es)" using Cons.prems(4) by (simp add: Reply)
    have nt: "written b h (e # es) = written b h1 es" if "snd (reply_step b h e) = None \<or> (\<exists>n. snd (reply_step b h e) = Some (PingReply n))"
      using that by (auto simp: h1_def Reply split: option.splits)
    from remembers_step [OF c k Cons.prems(2,1), of "Some now"] obtain B where
      B: "remembers (fst (recv_step (rh_recv h) (Some now) f)) B" "A \<subseteq> B" "B \<subseteq> insert k A"
      "fst (snd (recv_step (rh_recv h) (Some now) f)) \<longrightarrow> k \<notin> A \<and> k \<in> B" by blast
    have BK: "B \<subseteq> K" using B(3) Cons.prems(2) k(1) by auto
    show ?thesis
    proof (cases rule: reply_step_cases [of b h ep k now f])
      case skip
      then show ?thesis using Cons.IH [of h1 A] Cons.prems(1,2) es d nt by (simp add: h1_def Reply)
    next
      case late
      then show ?thesis using Cons.IH [of h1 B] B BK es d nt by (auto simp: h1_def Reply)
    next
      case taken
      have "rh_recv h1 = fst (recv_step (rh_recv h) (Some now) f)" "rh_epoch h1 = rh_epoch h" using taken by (simp_all add: h1_def Reply)
      with Cons.IH [of h1 B] B BK es d
      have IH: "distinct (written b h1 es)" "fst ` set (written b h1 es) \<subseteq> set (epochs (rh_epoch h) es)"
        "\<forall>k. (rh_epoch h, k) \<in> set (written b h1 es) \<longrightarrow> k \<notin> B" by simp_all
      have kB: "k \<in> B" "k \<notin> A" using B(4) taken(2) by auto
      have w: "written b h (e # es) = written b h1 es \<or> written b h (e # es) = (ep, k) # written b h1 es"
        by (auto simp: h1_def Reply split: option.splits reply_out.splits)
      then show ?thesis
      proof
        assume "written b h (e # es) = written b h1 es"
        then show ?thesis using IH B(2) by (auto simp: Reply)
      next
        assume "written b h (e # es) = (ep, k) # written b h1 es"
        then show ?thesis using IH B(2) kB epochs_first [of "rh_epoch h" es] taken(1) by (auto simp: Reply)
      qed
    qed
  qed
qed simp

section \<open>Properties\<close>

text \<open>C21. A reply reaches the application at most once, over all paths and across server sessions: whatever
  copies arrive on whatever path, late or out of order, no (session, frame) is written into the TUN
  twice, and only frames of a session the client had joined are written. The sessions' epochs do not
  come back, and the frame numbers of a session stay less than \<open>2\<^sup>3\<^sup>1\<close> apart.\<close>

theorem reply_at_most_once:
  assumes "close_set K" "seqs_ok K es" "distinct (epochs 0 es)"
  shows "distinct (written onPing (newReplyHandler t n) es) \<and>
     fst ` set (written onPing (newReplyHandler t n) es) \<subseteq> set (epochs 0 es)"
  using written_distinct [OF assms(1), of "newReplyHandler t n" "{}" es onPing] assms(2,3) by (simp add: newReplyHandler_def)

theorem reply_at_most_once_witness:
  "distinct (written False (newReplyHandler newFlowTable 0)
     [Epoch 7, Reply 7 1 5 \<lparr>f_seq = 1, f_ts = 0, f_payload = [2, 0, 1]\<rparr>, Epoch 9, Reply 7 1 6 \<lparr>f_seq = 1, f_ts = 0, f_payload = [2, 0, 1]\<rparr>])"
  by (rule conjunct1 [OF reply_at_most_once [where K = "{1}"]]) (auto simp: close_set_def seqs_ok_def)

text \<open>C32. A path that stays silent is found out, and only then: without read or write errors the loop ends
  exactly if at some tick the last echo was more than a second ago.\<close>

theorem dead_path_detected:
  assumes "list_all only_silence es"
  shows "sp_end (serve_run (serve_start ep now) es) \<noteq> None \<longleftrightarrow> too_silent now es"
  using silence_ends [OF _ assms, of "serve_start ep now"] by (simp add: serve_start_def)

theorem dead_path_detected_witness:
  "sp_end (serve_run (serve_start 3 0) [Tick 200000000, GotFrame (frame_new 0 0 (EncodePathPing 1)) 300000000, Tick 1400000000]) \<noteq> None"
proof -
  have "IsPathPing (f_payload (frame_new 0 0 (EncodePathPing 1)))" by (simp add: frame_new_def IsPathPing_def EncodePathPing_def)
  then show ?thesis
    using dead_path_detected [of "[Tick 200000000, GotFrame (frame_new 0 0 (EncodePathPing 1)) 300000000, Tick 1400000000]" 3 0]
    by (simp add: only_silence_def pathDeadAfter_def sec_def)
qed

definition phase_stopped :: "path_loop \<Rightarrow> bool" where
  "phase_stopped p \<longleftrightarrow> kp_phase p = Stopped"

definition pauses_ok :: "path_out list \<Rightarrow> bool" where
  "pauses_ok outs = list_all (\<lambda>x. case x of Pause d \<Rightarrow> redialMin \<le> d \<and> d \<le> redialMax | Fatal e \<Rightarrow> permanent e | _ \<Rightarrow> True) outs"

lemma stopped_stays_stopped:
  "fmlookup (loops g) i = Some p \<Longrightarrow> phase_stopped p \<Longrightarrow> fmlookup (loops (fst (path_step g e))) i = Some p"
  by (cases e) (auto simp: phase_stopped_def path_step_def path_dialed_def path_lost_def Let_def
      split: option.splits sum.splits path_phase.splits)

lemma step_pauses: "paths_inv g \<Longrightarrow> pauses_ok (snd (path_step g e))"
  by (cases e) (auto simp: pauses_ok_def path_step_def path_dialed_def path_lost_def Let_def paths_inv_def redialMin_def redialMax_def
      ms_def sec_def split: option.splits sum.splits path_phase.splits)

lemma live_serving: "paths_inv g \<Longrightarrow> fmdom' (g_writers g) = {i. \<exists>p. fmlookup (loops g) i = Some p \<and> serving p \<noteq> None}"
proof -
  assume "paths_inv g"
  then have "fmlookup (g_writers g) i = (case fmlookup (loops g) i of None \<Rightarrow> None | Some p \<Rightarrow> serving p)" for i
    by (simp add: paths_inv_def)
  then have "(\<exists>c. fmlookup (g_writers g) i = Some c) \<longleftrightarrow> (\<exists>p. fmlookup (loops g) i = Some p \<and> serving p \<noteq> None)" for i
    by (cases "fmlookup (loops g) i") auto
  then show ?thesis by (auto simp: fmlookup_dom'_iff)
qed

text \<open>After any run of dials and losses: exactly the paths being served have a writer, so frames go to all
  live paths and to nothing else; every pause before a redial is between half a second and five
  seconds; a path gives up only on a permanent error, and then never dials again.\<close>

theorem glue_paths_supervised:
  "let g = foldl (\<lambda>g e. fst (path_step g e)) (start_paths n) es in
     fmdom' (g_writers g) = {i. \<exists>p. fmlookup (loops g) i = Some p \<and> serving p \<noteq> None} \<and>
     live g = card {i. \<exists>p. fmlookup (loops g) i = Some p \<and> serving p \<noteq> None} \<and>
     pauses_ok (snd (path_step g e)) \<and>
     fmfilter (\<lambda>i. \<exists>p. fmlookup (loops g) i = Some p \<and> phase_stopped p) (loops g) \<subseteq>\<^sub>f loops (fst (path_step g e))"
proof -
  define g where "g = foldl (\<lambda>g e. fst (path_step g e)) (start_paths n) es"
  have i: "paths_inv g" unfolding g_def by (rule glue_paths.run_inv)
  have "live g = card (fmdom' (g_writers g))" by (simp add: live_def fcard.rep_eq fmdom'_alt_def)
  moreover have "fmfilter (\<lambda>i. \<exists>p. fmlookup (loops g) i = Some p \<and> phase_stopped p) (loops g) \<subseteq>\<^sub>f loops (fst (path_step g e))"
    using stopped_stays_stopped by (fastforce simp: fmsubset.rep_eq map_le_def split: if_splits)
  ultimately show ?thesis using live_serving [OF i] step_pauses [OF i] unfolding g_def [symmetric] Let_def by simp
qed

end
