(* ===== verification/Pinning.thy ===== *)
theory Pinning
  imports NetText
begin

text \<open>
  internal/transport/tls.go: how the client decides that it talks to its server. The TLS handshake
  itself is not code of this repository: what it gives is the list of certificates the server
  presented, and whether the standard check of a chain against a name holds (\<open>verify\<close>). SHA-256 is a
  parameter. Files are a map from names to contents.
\<close>

section \<open>Dialing\<close>

record dialConfig =
  ServerName :: string
  Pin :: "bytes option"
  Insecure :: bool

datatype tls_error = TcpError string | NoCertificate | PinMismatch | ChainError | HandshakeError string

definition sni_name :: "string \<Rightarrow> dialConfig \<Rightarrow> string" where
  "sni_name addr dc =
     (if ServerName dc \<noteq> '''' then ServerName dc
      else case SplitHostPort addr of Some (host, port) \<Rightarrow> host | None \<Rightarrow> '''')"

text \<open>The check of the peer certificate as configured by \<^verbatim>\<open>Dial\<close>; \<open>None\<close> accepts.\<close>

definition check_server ::
  "(bytes \<Rightarrow> bytes) \<Rightarrow> (string \<Rightarrow> bytes list \<Rightarrow> bool) \<Rightarrow> string \<Rightarrow> dialConfig \<Rightarrow> bytes list \<Rightarrow> tls_error option" where
  "check_server sha256 verify addr dc certs =
     (case Pin dc of
        Some pin \<Rightarrow>
          (case certs of
             [] \<Rightarrow> Some NoCertificate
           | c # _ \<Rightarrow> if sha256 c \<noteq> pin then Some PinMismatch else None)
      | None \<Rightarrow> if Insecure dc then None else if verify (sni_name addr dc) certs then None else Some ChainError)"

text \<open>The dial: the TCP connect, then the handshake with its own outcome, then the check.\<close>

definition Dial ::
  "(bytes \<Rightarrow> bytes) \<Rightarrow> (string \<Rightarrow> bytes list \<Rightarrow> bool) \<Rightarrow> string \<Rightarrow> dialConfig \<Rightarrow> tls_error + bytes list \<Rightarrow> tls_error option" where
  "Dial sha256 verify addr dc net =
     (case net of Inl e \<Rightarrow> Some e | Inr certs \<Rightarrow> check_server sha256 verify addr dc certs)"

section \<open>Fingerprints\<close>

datatype pin_error = BadHex | BadLength nat

definition sha256_Size :: nat where "sha256_Size = 32"

definition ParsePin :: "string \<Rightarrow> pin_error + bytes" where
  "ParsePin s =
     (case hex_decode (trim_space s) of
        None \<Rightarrow> Inl BadHex
      | Some pin \<Rightarrow> if length pin \<noteq> sha256_Size then Inl (BadLength (length pin)) else Inr pin)"

text \<open>\<^verbatim>\<open>LoadCertFingerprint\<close> on the content of the file (\<open>pem\<close> decodes the first block: type and bytes).\<close>

datatype cert_error = ReadCert string | NoPemBlock

definition LoadCertFingerprint ::
  "(bytes \<Rightarrow> bytes) \<Rightarrow> (string \<Rightarrow> (string \<times> bytes) option) \<Rightarrow> string + string \<Rightarrow> cert_error + bytes" where
  "LoadCertFingerprint sha256 pem file =
     (case file of
        Inl e \<Rightarrow> Inl (ReadCert e)
      | Inr raw \<Rightarrow>
          (case pem raw of
             None \<Rightarrow> Inl NoPemBlock
           | Some (typ, b) \<Rightarrow> if typ \<noteq> ''CERTIFICATE'' then Inl NoPemBlock else Inr (sha256 b)))"

lemma ParsePin_hex: "length pin = sha256_Size \<Longrightarrow> ParsePin (hex_string pin) = Inr pin"
  by (simp add: ParsePin_def trim_space_plain hex_string_chars)

lemma ParsePin_newline: "length pin = sha256_Size \<Longrightarrow> ParsePin (hex_string pin @ [CHR 0x0A]) = Inr pin"
proof -
  assume l: "length pin = sha256_Size"
  then have "hex_string pin \<noteq> []" by (cases pin) (simp_all add: hex_string_def sha256_Size_def)
  then show ?thesis using l trim_space_newline [of "hex_string pin"] hex_string_chars [of _ pin] by (simp add: ParsePin_def)
qed

section \<open>Saving a file\<close>

type_synonym files = "(string, string) fmap"

text \<open>Where \<^verbatim>\<open>writeFileAtomic\<close> fails (after how many bytes), if it does.\<close>

datatype write_fault = AtCreate | AtWrite nat | AtClose | AtChmod | AtRename

text \<open>The file system after each system call, in order, and whether it returned without an error. A
  crash leaves the last state reached. \<open>tmp\<close> is the name \<^verbatim>\<open>os.CreateTemp\<close> picks.\<close>

definition writeFileAtomic :: "files \<Rightarrow> string \<Rightarrow> string \<Rightarrow> string \<Rightarrow> write_fault option \<Rightarrow> files list \<times> bool" where
  "writeFileAtomic fs tmp path data fault =
     (let s1 = fmupd tmp '''' fs;
          s2 = fmupd tmp data s1
      in case fault of
           Some AtCreate \<Rightarrow> ([fs], False)
         | Some (AtWrite k) \<Rightarrow> ([fs, s1, fmupd tmp (take k data) s1, fmdrop tmp s1], False)
         | Some _ \<Rightarrow> ([fs, s1, s2, fmdrop tmp s2], False)
         | None \<Rightarrow> ([fs, s1, s2, fmupd path data (fmdrop tmp s2), fmupd path data (fmdrop tmp s2)], True))"

definition after_write :: "files list \<Rightarrow> files" where
  "after_write states = states ! (length states - 1)"

lemma write_states:
  assumes "tmp \<noteq> path" "fmlookup fs tmp = None"
  shows "s \<in> set (fst (writeFileAtomic fs tmp path data fault)) \<Longrightarrow> fmlookup s path = fmlookup fs path \<or> fmlookup s path = Some data"
    and "after_write (fst (writeFileAtomic fs tmp path data fault)) =
      (if snd (writeFileAtomic fs tmp path data fault) then fmupd path data fs else fs)"
proof -
  have d: "fmdrop tmp (fmupd tmp x fs) = fs" for x
    using assms(2) by (simp add: fmdrop_fmupd_same fmdrop_absent)
  show "s \<in> set (fst (writeFileAtomic fs tmp path data fault)) \<Longrightarrow> fmlookup s path = fmlookup fs path \<or> fmlookup s path = Some data"
    using assms by (auto simp: writeFileAtomic_def Let_def split: option.splits write_fault.splits)
  show "after_write (fst (writeFileAtomic fs tmp path data fault)) =
      (if snd (writeFileAtomic fs tmp path data fault) then fmupd path data fs else fs)"
    by (auto simp: writeFileAtomic_def after_write_def Let_def d split: option.splits write_fault.splits)
qed

section \<open>Trust on first use\<close>

datatype resolve_error = BadPinFile pin_error | UnreadablePinFile | FirstUse tls_error | SavePin

text \<open>\<open>unreadable\<close>: reading the file fails for another reason than that it does not exist.\<close>

definition ResolvePin ::
  "(bytes \<Rightarrow> bytes) \<Rightarrow> files \<Rightarrow> bool \<Rightarrow> string \<Rightarrow> string \<Rightarrow> tls_error + bytes list \<Rightarrow> write_fault option \<Rightarrow> files \<times> (resolve_error + bytes)" where
  "ResolvePin sha256 fs unreadable pinFile tmp net fault =
     (if unreadable then (fs, Inl UnreadablePinFile)
      else case fmlookup fs pinFile of
        Some data \<Rightarrow> (fs, case ParsePin data of Inl e \<Rightarrow> Inl (BadPinFile e) | Inr pin \<Rightarrow> Inr pin)
      | None \<Rightarrow>
          (case net of
             Inl e \<Rightarrow> (fs, Inl (FirstUse e))
           | Inr [] \<Rightarrow> (fs, Inl (FirstUse NoCertificate))
           | Inr (c # _) \<Rightarrow>
               (case writeFileAtomic fs tmp pinFile (hex_string (sha256 c)) fault of
                  (states, ok) \<Rightarrow> (after_write states, if ok then Inr (sha256 c) else Inl SavePin))))"

text \<open>The pin the client uses, from its settings (\<^verbatim>\<open>main\<close> of cmd/client): an explicit pin, a pin file, or none.\<close>

definition choose_pin ::
  "(bytes \<Rightarrow> bytes) \<Rightarrow> files \<Rightarrow> bool \<Rightarrow> string \<Rightarrow> string \<Rightarrow> string \<Rightarrow> tls_error + bytes list \<Rightarrow> write_fault option \<Rightarrow>
     files \<times> (resolve_error + bytes option)" where
  "choose_pin sha256 fs unreadable serverPin pinFile tmp net fault =
     (if serverPin \<noteq> '''' then
        (fs, case ParsePin serverPin of Inl e \<Rightarrow> Inl (BadPinFile e) | Inr p \<Rightarrow> Inr (Some p))
      else if pinFile \<noteq> '''' then
        (case ResolvePin sha256 fs unreadable pinFile tmp net fault of
           (fs1, Inl e) \<Rightarrow> (fs1, Inl e)
         | (fs1, Inr p) \<Rightarrow> (fs1, Inr (Some p)))
      else (fs, Inr None))"

text \<open>C19. Trust on first use: once a client without a pin file has connected to a server that presented the
  certificate \<open>c\<close> and saved its pin, every later start reads the same pin back whatever server
  answers, and every later connection is accepted only if the server presents a certificate with
  the fingerprint of \<open>c\<close>, even if the client is set to accept any certificate. A failed or
  interrupted save leaves no pin file behind.\<close>

theorem trust_on_first_use:
  assumes len: "length (sha256 c) = sha256_Size"
    and fresh: "fmlookup fs pinFile = None" "fmlookup fs tmp = None" "tmp \<noteq> pinFile"
    and first: "ResolvePin sha256 fs False pinFile tmp (Inr (c # chain)) fault = (fs1, r)"
  shows "(case r of
      Inl e \<Rightarrow> fs1 = fs
    | Inr pin \<Rightarrow> pin = sha256 c \<and>
        ResolvePin sha256 fs1 False pinFile tmp2 net2 fault2 = (fs1, Inr pin) \<and>
        (Dial sha256 verify addr \<lparr>ServerName = name, Pin = Some pin, Insecure = ins\<rparr> (Inr (d # ds)) = None \<longleftrightarrow> sha256 d = sha256 c) \<and>
        Dial sha256 verify addr \<lparr>ServerName = name, Pin = Some pin, Insecure = ins\<rparr> (Inr []) \<noteq> None) \<and>
     list_all (\<lambda>s. fmlookup s pinFile = None \<or> fmlookup s pinFile = Some (hex_string (sha256 c)))
       (fst (writeFileAtomic fs tmp pinFile (hex_string (sha256 c)) fault))"
proof -
  note w = write_states [OF fresh(3,2), where data = "hex_string (sha256 c)" and fault = fault]
  obtain states ok where s: "writeFileAtomic fs tmp pinFile (hex_string (sha256 c)) fault = (states, ok)" by force
  have r: "fs1 = after_write states" "r = (if ok then Inr (sha256 c) else Inl SavePin)"
    using first fresh(1) s by (simp_all add: ResolvePin_def)
  have fs1: "fs1 = (if ok then fmupd pinFile (hex_string (sha256 c)) fs else fs)" using w(2) s r by simp
  have "list_all (\<lambda>x. fmlookup x pinFile = None \<or> fmlookup x pinFile = Some (hex_string (sha256 c))) states"
    using w(1) s fresh(1) by (auto simp: list_all_iff)
  moreover have "ok \<Longrightarrow> ResolvePin sha256 fs1 False pinFile tmp2 net2 fault2 = (fs1, Inr (sha256 c))"
    using fs1 ParsePin_hex [OF len] by (simp add: ResolvePin_def)
  ultimately show ?thesis unfolding s fst_conv using r(2) fs1 by (cases ok) (simp_all add: Dial_def check_server_def)
qed

theorem trust_on_first_use_witness:
  "snd (ResolvePin (\<lambda>_. replicate 32 7) (fst (ResolvePin (\<lambda>_. replicate 32 7) fmempty False ''pin'' ''tmp'' (Inr [[1]]) None)) False ''pin'' ''t'' (Inl PinMismatch) None)
     = Inr (replicate 32 7)"
  using trust_on_first_use [of "\<lambda>_. replicate 32 7" "[1]" fmempty "''pin''" "''tmp''" "[]" None _ _ "''t''" "Inl PinMismatch" None
      "\<lambda>_ _. False" "''''" "''''" False "[2]" "[]", OF _ _ _ _ refl [THEN trans, OF prod.collapse [symmetric]]]
  by (simp add: sha256_Size_def ResolvePin_def writeFileAtomic_def Let_def)

text \<open>The fingerprint the server prints on start, pasted as \<^verbatim>\<open>server_pin\<close> (or saved to a file with a newline
  at its end), is read back exactly, and the connection is then accepted only from the holder of that
  certificate; without a pin and unless told otherwise, only a certificate valid for the name is.\<close>

theorem printed_pin_works:
  assumes "LoadCertFingerprint sha256 pem (Inr cert_file) = Inr fp" "length fp = sha256_Size"
  shows "ParsePin (hex_string fp) = Inr fp \<and> ParsePin (hex_string fp @ [CHR 0x0A]) = Inr fp \<and>
     choose_pin sha256 fs u (hex_string fp) pinFile tmp net fault = (fs, Inr (Some fp)) \<and>
     (\<exists>b. pem cert_file = Some (''CERTIFICATE'', b) \<and>
        (Dial sha256 verify addr \<lparr>ServerName = name, Pin = Some fp, Insecure = ins\<rparr> (Inr (d # ds)) = None \<longleftrightarrow> sha256 d = sha256 b)) \<and>
     (Dial sha256 verify addr \<lparr>ServerName = name, Pin = None, Insecure = False\<rparr> (Inr certs) = None \<longleftrightarrow>
        verify (sni_name addr \<lparr>ServerName = name, Pin = None, Insecure = False\<rparr>) certs)"
proof -
  have "hex_string fp \<noteq> []" using assms(2) by (cases fp) (simp_all add: hex_string_def sha256_Size_def)
  then show ?thesis using assms ParsePin_hex [OF assms(2)] ParsePin_newline [OF assms(2)]
    by (auto simp: LoadCertFingerprint_def choose_pin_def Dial_def check_server_def split: option.splits prod.splits if_splits)
qed

theorem printed_pin_works_witness:
  "ParsePin (hex_string (replicate 32 7)) = Inr (replicate 32 7)"
  using printed_pin_works [of "\<lambda>_. replicate 32 7" "\<lambda>_. Some (''CERTIFICATE'', [])" "''''" "replicate 32 7"]
  by (simp add: LoadCertFingerprint_def sha256_Size_def)

end
