(* ===== verification/Startup.thy ===== *)
theory Startup
  imports Auth
begin

text \<open>
  What client and server read at startup: internal/config/config.go, cmd/client/startup.go and the
  list parsers of the two \<^verbatim>\<open>main\<close> functions. The DNS lookup and the decoding of JSON are parameters.
\<close>

section \<open>Configuration\<close>

datatype file_read = FileMissing | FileError string | FileData string

datatype load_error = ReadConfig string | ParseConfig string

definition Load :: "(string \<Rightarrow> string + 'v) \<Rightarrow> 'v \<Rightarrow> file_read \<Rightarrow> load_error + (bool \<times> 'v)" where
  "Load decode v file =
     (case file of
        FileMissing \<Rightarrow> Inr (False, v)
      | FileError e \<Rightarrow> Inl (ReadConfig e)
      | FileData d \<Rightarrow> (case decode d of Inl e \<Rightarrow> Inl (ParseConfig e) | Inr v' \<Rightarrow> Inr (True, v')))"

definition cutPrefix :: "string \<Rightarrow> string \<Rightarrow> string \<times> bool" where
  "cutPrefix s p = (if length p \<le> length s \<and> take (length p) s = p then (drop (length p) s, True) else ('''', False))"

fun FindFlag :: "string list \<Rightarrow> string \<Rightarrow> string" where
  "FindFlag [] name = ''''"
| "FindFlag (a # rest) name =
     (let long = ''--'' @ name; short = ''-'' @ name in
      if a = ''--'' then ''''
      else if a = short \<or> a = long then (case rest of b # _ \<Rightarrow> b | [] \<Rightarrow> '''')
      else case cutPrefix a (short @ ''='') of
             (v, True) \<Rightarrow> v
           | _ \<Rightarrow> (case cutPrefix a (long @ ''='') of (v, True) \<Rightarrow> v | _ \<Rightarrow> FindFlag rest name))"

definition Str :: "string \<Rightarrow> string \<Rightarrow> string" where
  "Str cfgVal fallback = (if cfgVal \<noteq> '''' then cfgVal else fallback)"

definition cfg_Int :: "int \<Rightarrow> int \<Rightarrow> int" where
  "cfg_Int cfgVal fallback = (if cfgVal \<noteq> 0 then cfgVal else fallback)"

text \<open>The four spellings of a flag mean the same, wherever they stand before \<^verbatim>\<open>--\<close>.\<close>

definition other_arg :: "string \<Rightarrow> string \<Rightarrow> bool" where
  "other_arg name a \<longleftrightarrow> a \<noteq> ''--'' \<and> a \<noteq> ''-'' @ name \<and> a \<noteq> ''--'' @ name \<and>
     \<not> has_prefix a (''-'' @ name @ ''='') \<and> \<not> has_prefix a (''--'' @ name @ ''='')"

lemma cutPrefix_None: "\<not> has_prefix s p \<Longrightarrow> cutPrefix s p = ('''', False)"
  by (auto simp: cutPrefix_def has_prefix_def)

lemma cutPrefix_app [simp]: "cutPrefix (p @ v) p = (v, True)"
  by (simp add: cutPrefix_def)

lemma FindFlag_skip: "list_all (other_arg name) pre \<Longrightarrow> FindFlag (pre @ rest) name = FindFlag rest name"
  by (induction pre) (auto simp: other_arg_def cutPrefix_None Let_def)

lemma FindFlag_spellings:
  assumes "list_all (other_arg name) pre" "name \<noteq> []" "hd name \<noteq> CHR ''-''"
  shows "FindFlag (pre @ (''-'' @ name) # v # rest) name = v" "FindFlag (pre @ (''--'' @ name) # v # rest) name = v"
    "FindFlag (pre @ (''-'' @ name @ ''='' @ v) # rest) name = v" "FindFlag (pre @ (''--'' @ name @ ''='' @ v) # rest) name = v"
    "FindFlag (pre @ ''--'' # rest) name = ''''"
proof -
  obtain c cs where n: "name = c # cs" "c \<noteq> CHR ''-''" using assms(2,3) by (cases name) auto
  have "cutPrefix (''-'' @ name @ ''='' @ v) (''-'' @ name @ ''='') = (v, True)" "cutPrefix (''--'' @ name @ ''='' @ v) (''--'' @ name @ ''='') = (v, True)"
    using cutPrefix_app [of "''-'' @ name @ ''=''" v] cutPrefix_app [of "''--'' @ name @ ''=''" v] by simp_all
  moreover have "cutPrefix (''--'' @ name @ ''='' @ v) (''-'' @ name @ ''='') = ('''', False)"
    using n by (simp add: cutPrefix_def)
  ultimately show "FindFlag (pre @ (''-'' @ name) # v # rest) name = v" "FindFlag (pre @ (''--'' @ name) # v # rest) name = v"
    "FindFlag (pre @ (''-'' @ name @ ''='' @ v) # rest) name = v" "FindFlag (pre @ (''--'' @ name @ ''='' @ v) # rest) name = v"
    "FindFlag (pre @ ''--'' # rest) name = ''''"
    using n unfolding FindFlag_skip [OF assms(1)] by (simp_all add: Let_def)
qed

section \<open>The client's key\<close>

datatype key_error = EnvKey | FileKey auth_error | InlineKey | KeyLength nat | ErrNoClientKey

definition loadClientKey :: "string \<Rightarrow> string \<Rightarrow> string \<Rightarrow> (string \<Rightarrow> string + string) \<Rightarrow> key_error + bytes" where
  "loadClientKey env file inline read =
     (let check = (\<lambda>seed. if length seed \<noteq> SeedSize then Inl (KeyLength (length seed)) else Inr seed) in
      if env \<noteq> '''' then (case DecodeKey env of None \<Rightarrow> Inl EnvKey | Some seed \<Rightarrow> check seed)
      else if file \<noteq> '''' then (case LoadClientKey (read file) of Inl e \<Rightarrow> Inl (FileKey e) | Inr seed \<Rightarrow> Inr seed)
      else if inline \<noteq> '''' then (case DecodeKey inline of None \<Rightarrow> Inl InlineKey | Some seed \<Rightarrow> check seed)
      else Inl ErrNoClientKey)"

lemma loadClientKey_size: "loadClientKey env file inline read = Inr seed \<Longrightarrow> length seed = SeedSize"
  by (auto simp: loadClientKey_def LoadClientKey_def Let_def split: if_splits option.splits sum.splits)

section \<open>Server addresses\<close>

text \<open>\<^verbatim>\<open>netip.ParseAddr\<close> succeeds: an address, an IPv6 one perhaps with a zone.\<close>

definition is_addr :: "string \<Rightarrow> bool" where
  "is_addr s =
     (let a = takeWhile (\<lambda>c. c \<noteq> CHR 0x25) s; zone = drop (Suc (length a)) s in
      if CHR 0x25 \<notin> set s then ParseIP s \<noteq> []
      else CHR '':'' \<in> set a \<and> ParseIP a \<noteq> [] \<and> zone \<noteq> [])"

type_synonym resolver = "(string, ip) fmap"

datatype resolve_error = BadServerAddress string | LookupFailed string string | NoAddresses string

definition pickIP :: "ip list \<Rightarrow> ip" where
  "pickIP addrs =
     (case filter (\<lambda>a. To4 a \<noteq> []) addrs of
        a # _ \<Rightarrow> To4 a
      | [] \<Rightarrow> (case addrs of a # _ \<Rightarrow> a | [] \<Rightarrow> []))"

text \<open>The result is the address to dial and the host name (empty for a literal address).\<close>

definition resolve :: "(string \<Rightarrow> string + ip list) \<Rightarrow> resolver \<Rightarrow> string \<Rightarrow> resolver \<times> (resolve_error + (string \<times> string))" where
  "resolve dns r addr =
     (case SplitHostPort addr of
        None \<Rightarrow> (r, Inl (BadServerAddress addr))
      | Some (host, port) \<Rightarrow>
          if is_addr host then (r, Inr (addr, ''''))
          else case fmlookup r host of
            Some a \<Rightarrow> (r, Inr (JoinHostPort (ip_string a) port, host))
          | None \<Rightarrow>
              (case dns host of
                 Inl e \<Rightarrow> (r, Inl (LookupFailed host e))
               | Inr addrs \<Rightarrow>
                   if pickIP addrs = [] then (r, Inl (NoAddresses host))
                   else (fmupd host (pickIP addrs) r, Inr (JoinHostPort (ip_string (pickIP addrs)) port, host))))"

record endpoint_cfg =
  ep_addr :: string
  ep_serverName :: string
  ep_insecure :: bool

definition endpoint :: "(string \<Rightarrow> string + ip list) \<Rightarrow> resolver \<Rightarrow> string \<Rightarrow> string \<Rightarrow> bool \<Rightarrow> resolver \<times> (resolve_error + endpoint_cfg)" where
  "endpoint dns r addr serverName insecure =
     (case resolve dns r addr of
        (r1, Inl e) \<Rightarrow> (r1, Inl e)
      | (r1, Inr (ipAddr, name)) \<Rightarrow>
          (r1, Inr \<lparr>ep_addr = ipAddr, ep_serverName = (if serverName = '''' then name else serverName), ep_insecure = insecure\<rparr>))"

lemma resolve_keeps: "fmlookup r host = Some a \<Longrightarrow> fmlookup (fst (resolve dns r addr)) host = Some a"
  by (auto simp: resolve_def split: option.splits prod.splits sum.splits)

lemma resolve_known:
  "fmlookup r host = Some a \<Longrightarrow> SplitHostPort addr = Some (host, port) \<Longrightarrow> \<not> is_addr host \<Longrightarrow>
     resolve dns r addr = (r, Inr (JoinHostPort (ip_string a) port, host))"
  by (simp add: resolve_def)

text \<open>The client uses one address per server name for its whole run: after a name has been resolved once,
  every later use of it, on any port, whatever DNS answers then and whatever was resolved in between,
  dials the same IP (so the route around the tunnel covers it), and the certificate is checked
  against that name unless another one is configured.\<close>

theorem one_ip_per_host:
  assumes first: "endpoint dns r addr serverName ins = (r1, Inr ep)"
    and name: "SplitHostPort addr = Some (host, port)" "\<not> is_addr host" "SplitHostPort addr2 = Some (host, port2)"
    and later: "r2 = foldl (\<lambda>r q. fst (endpoint (fst q) r (fst (snd q)) (fst (snd (snd q))) (snd (snd (snd q))))) r1 qs"
  shows "\<exists>a. ep_addr ep = JoinHostPort (ip_string a) port \<and>
     ep_serverName ep = (if serverName = '''' then host else serverName) \<and>
     endpoint dns2 r2 addr2 sn2 ins2 =
       (r2, Inr \<lparr>ep_addr = JoinHostPort (ip_string a) port2, ep_serverName = (if sn2 = '''' then host else sn2), ep_insecure = ins2\<rparr>)"
proof -
  obtain ipAddr nm where res: "resolve dns r addr = (r1, Inr (ipAddr, nm))"
    and ep: "ep = \<lparr>ep_addr = ipAddr, ep_serverName = (if serverName = '''' then nm else serverName), ep_insecure = ins\<rparr>"
    using first by (auto simp: endpoint_def split: prod.splits sum.splits)
  have "nm = host \<and> (\<exists>a. fmlookup r1 host = Some a \<and> ipAddr = JoinHostPort (ip_string a) port)"
    using res name(1,2) by (auto simp: resolve_def split: option.splits prod.splits sum.splits if_splits)
  then obtain a where a: "nm = host" "fmlookup r1 host = Some a" "ipAddr = JoinHostPort (ip_string a) port" by blast
  have keep: "fmlookup (fst (endpoint d t x y z)) host = Some a" if "fmlookup t host = Some a" for d t x y z
    using resolve_keeps [OF that, of d x] by (auto simp: endpoint_def split: prod.splits sum.splits)
  have "fmlookup (foldl (\<lambda>r q. fst (endpoint (fst q) r (fst (snd q)) (fst (snd (snd q))) (snd (snd (snd q))))) t qs) host = Some a"
    if "fmlookup t host = Some a" for t
    using that by (induction qs arbitrary: t) (auto simp: keep)
  then have "fmlookup r2 host = Some a" using a(2) later by simp
  from resolve_known [OF this name(3,2), of dns2] show ?thesis
    using a ep by (intro exI [of _ a]) (simp add: endpoint_def)
qed

theorem one_ip_per_host_witness:
  "endpoint (\<lambda>_. Inl ''gone'') (fst (endpoint (\<lambda>_. Inr [[1, 2, 3, 4]]) fmempty ''vps:1'' '''' False)) ''vps:2'' '''' False =
     (fst (endpoint (\<lambda>_. Inr [[1, 2, 3, 4]]) fmempty ''vps:1'' '''' False),
      Inr \<lparr>ep_addr = JoinHostPort (ip_string [1, 2, 3, 4]) ''2'', ep_serverName = ''vps'', ep_insecure = False\<rparr>)"
proof -
  have sp: "SplitHostPort ''vps:1'' = Some (''vps'', ''1'')" "SplitHostPort ''vps:2'' = Some (''vps'', ''2'')" "\<not> is_addr ''vps''"
    by code_simp+
  have p: "pickIP [[1, 2, 3, 4]] = [1, 2, 3, 4]" by (simp add: pickIP_def To4_def)
  have r: "resolve (\<lambda>_. Inr [[1, 2, 3, 4]]) fmempty ''vps:1'' =
      (fmupd ''vps'' [1, 2, 3, 4] fmempty, Inr (JoinHostPort (ip_string [1, 2, 3, 4]) ''1'', ''vps''))"
    by (simp add: resolve_def sp p)
  have f: "endpoint (\<lambda>_. Inr [[1, 2, 3, 4]]) fmempty ''vps:1'' '''' False =
      (fmupd ''vps'' [1, 2, 3, 4] fmempty, Inr \<lparr>ep_addr = JoinHostPort (ip_string [1, 2, 3, 4]) ''1'', ep_serverName = ''vps'', ep_insecure = False\<rparr>)"
    by (simp add: endpoint_def r)
  from one_ip_per_host [OF f sp(1,3,2), of _ "[]" "\<lambda>_. Inl ''gone''" "''''" False]
  obtain a where "endpoint (\<lambda>_. Inl ''gone'') (fmupd ''vps'' [1, 2, 3, 4] fmempty) ''vps:2'' '''' False =
      (fmupd ''vps'' [1, 2, 3, 4] fmempty, Inr \<lparr>ep_addr = JoinHostPort (ip_string a) ''2'', ep_serverName = ''vps'', ep_insecure = False\<rparr>)"
    by auto
  moreover have "endpoint (\<lambda>_. Inl ''gone'') (fmupd ''vps'' [1, 2, 3, 4] fmempty) ''vps:2'' '''' False =
      (fmupd ''vps'' [1, 2, 3, 4] fmempty, Inr \<lparr>ep_addr = JoinHostPort (ip_string [1, 2, 3, 4]) ''2'', ep_serverName = ''vps'', ep_insecure = False\<rparr>)"
    by (simp add: endpoint_def resolve_def sp)
  ultimately show ?thesis by (simp add: f)
qed

section \<open>Lists\<close>

text \<open>\<^verbatim>\<open>parseIPList\<close> of the server: the loop, then the function.\<close>

fun parse_ips :: "string list \<Rightarrow> string + ip list" where
  "parse_ips [] = Inr []"
| "parse_ips (p # ps) =
     (let part = trim_space p in
      if part = '''' then parse_ips ps
      else if ParseIP part = [] then Inl part
      else case parse_ips ps of Inl e \<Rightarrow> Inl e | Inr xs \<Rightarrow> Inr (ParseIP part # xs))"

definition parseIPList :: "string \<Rightarrow> string + ip list" where
  "parseIPList s = parse_ips (split_on CHR '','' s)"

text \<open>\<^verbatim>\<open>parseGameProcesses\<close> of the client, on ASCII text.\<close>

definition to_lower :: "char \<Rightarrow> char" where
  "to_lower c = (let n = of_char c :: nat in if 65 \<le> n \<and> n \<le> 90 then char_of (n + 32) else c)"

definition parseGameProcesses :: "string \<Rightarrow> string list" where
  "parseGameProcesses s = filter (\<lambda>p. p \<noteq> '''') (map (\<lambda>p. map to_lower (trim_space p)) (split_on CHR '','' s))"

end
