(* ===== verification/VpnClient.thy ===== *)
theory VpnClient
  imports ClientGlue Sched
begin

text \<open>
  cmd/client/vpnlink.go, cmd/client/vpn.go and cmd/client/tun.go: the vpn connection that reconnects by itself, and
  the read loops that take packets out of the TUN. Connections are numbers; dialing, reading and
  writing have their outcomes as arguments.
\<close>

section \<open>The link\<close>

text \<open>
  The goroutine of \<^verbatim>\<open>run\<close>: about to serve a new connection, serving it, waiting for the next dial,
  dialing, or returned. \<open>openConns\<close> is the set of connections not closed yet.
\<close>

datatype link_phase =
    Entering nat | ServingConn nat | WaitingRedial duration | DialingAgain duration | Ended "dial_error option"

record vpnLink =
  l_conn :: "nat option"
  l_closed :: bool
  l_phase :: link_phase
  openConns :: "nat fset"

definition new_link :: "nat \<Rightarrow> vpnLink" where
  "new_link c = \<lparr>l_conn = None, l_closed = False, l_phase = Entering c, openConns = {|c|}\<rparr>"

datatype link_out = Packet bytes | WriteTo nat bytes | Connected

definition close_conn :: "nat \<Rightarrow> vpnLink \<Rightarrow> vpnLink" where
  "close_conn c l = l\<lparr>openConns := openConns l |-| {|c|}\<rparr>"

text \<open>\<^verbatim>\<open>run\<close> after \<^verbatim>\<open>serve\<close> returned.\<close>

definition lost :: "vpnLink \<Rightarrow> vpnLink" where
  "lost l = l\<lparr>l_phase := (if l_closed l then Ended None else WaitingRedial redialMin)\<rparr>"

text \<open>The start of \<^verbatim>\<open>serve\<close>, a frame read by it (reading a closed connection fails), and its end.\<close>

definition serve_enter :: "vpnLink \<Rightarrow> nat \<Rightarrow> vpnLink" where
  "serve_enter l c = (if l_closed l then lost (close_conn c l) else l\<lparr>l_conn := Some c, l_phase := ServingConn c\<rparr>)"

definition serve_end :: "vpnLink \<Rightarrow> nat \<Rightarrow> vpnLink" where
  "serve_end l c = lost (close_conn c (if l_conn l = Some c then l\<lparr>l_conn := None\<rparr> else l))"

definition serve_read :: "vpnLink \<Rightarrow> nat \<Rightarrow> frame option \<Rightarrow> vpnLink \<times> link_out list" where
  "serve_read l c r =
     (case (if c |\<in>| openConns l then r else None) of
        None \<Rightarrow> (serve_end l c, [])
      | Some f \<Rightarrow> (l, if f_payload f = [] then [] else [Packet (f_payload f)]))"

text \<open>One step of the goroutine; a step that needs an outcome takes it from the arguments.\<close>

definition run_step :: "vpnLink \<Rightarrow> frame option \<Rightarrow> dial_error + nat \<Rightarrow> vpnLink \<times> link_out list" where
  "run_step l rd dl =
     (case l_phase l of
        Entering c \<Rightarrow> (serve_enter l c, [])
      | ServingConn c \<Rightarrow> serve_read l c rd
      | WaitingRedial b \<Rightarrow> (l\<lparr>l_phase := (if l_closed l then Ended None else DialingAgain b)\<rparr>, [])
      | DialingAgain b \<Rightarrow>
          (case dl of
             Inr c \<Rightarrow> (l\<lparr>l_phase := Entering c, openConns := finsert c (openConns l)\<rparr>, [Connected])
           | Inl e \<Rightarrow>
               (l\<lparr>l_phase := (if permanent e then Ended (Some e) else WaitingRedial (next_backoff b))\<rparr>, []))
      | Ended e \<Rightarrow> (l, []))"

definition link_close :: "vpnLink \<Rightarrow> vpnLink" where
  "link_close l =
     (let l1 = l\<lparr>l_closed := True\<rparr> in case l_conn l1 of None \<Rightarrow> l1 | Some c \<Rightarrow> close_conn c l1)"

definition link_write :: "vpnLink \<Rightarrow> bytes \<Rightarrow> bool \<Rightarrow> vpnLink \<times> link_out list" where
  "link_write l wire ok =
     (case l_conn l of
        None \<Rightarrow> (l, [])
      | Some c \<Rightarrow> if ok \<and> c |\<in>| openConns l then (l, [WriteTo c wire]) else (close_conn c l, []))"

datatype link_event = RunStep "frame option" "dial_error + nat" | CloseLink | WriteLink bytes bool

definition link_step :: "vpnLink \<Rightarrow> link_event \<Rightarrow> vpnLink \<times> link_out list" where
  "link_step l e =
     (case e of
        RunStep rd dl \<Rightarrow> run_step l rd dl
      | CloseLink \<Rightarrow> (link_close l, [])
      | WriteLink w ok \<Rightarrow> link_write l w ok)"

definition link_inv :: "vpnLink \<Rightarrow> bool" where
  "link_inv l \<longleftrightarrow>
     (case l_phase l of
        Entering c \<Rightarrow> l_conn l = None \<and> openConns l = {|c|}
      | ServingConn c \<Rightarrow> l_conn l = Some c \<and> openConns l |\<subseteq>| {|c|} \<and> (l_closed l \<longrightarrow> openConns l = {||})
      | WaitingRedial b \<Rightarrow> l_conn l = None \<and> openConns l = {||} \<and> redialMin \<le> b \<and> b \<le> redialMax
      | DialingAgain b \<Rightarrow> l_conn l = None \<and> openConns l = {||} \<and> redialMin \<le> b \<and> b \<le> redialMax
      | Ended e \<Rightarrow> l_conn l = None \<and> openConns l = {||})"

lemma link_inv_new: "link_inv (new_link c)"
  by (simp add: link_inv_def new_link_def)

lemma fsub_minus: "A |\<subseteq>| {|c|} \<Longrightarrow> A |-| {|c|} = {||}"
  by auto

lemma redial_bounds: "redialMin \<le> redialMin" "redialMin \<le> redialMax"
  by (simp_all add: redialMin_def redialMax_def ms_def sec_def)

lemma run_step_inv: "link_inv l \<Longrightarrow> link_inv (fst (run_step l rd dl))"
proof (cases "l_phase l")
  case (DialingAgain b)
  assume "link_inv l"
  then show ?thesis using DialingAgain next_backoff_bounds [of b]
    by (auto simp: link_inv_def run_step_def split: sum.splits)
next
  case (ServingConn c)
  assume i: "link_inv l"
  then show ?thesis using ServingConn redial_bounds fsub_minus [of "openConns l" c]
    by (auto simp: link_inv_def run_step_def serve_read_def serve_end_def lost_def close_conn_def split: option.splits if_splits)
qed (auto simp: link_inv_def run_step_def serve_enter_def lost_def close_conn_def redial_bounds)

lemma link_step_inv: "link_inv l \<Longrightarrow> link_inv (fst (link_step l e))"
proof (cases e)
  case CloseLink
  assume "link_inv l"
  then show ?thesis using CloseLink
    by (auto simp: link_step_def link_close_def link_inv_def close_conn_def Let_def fsub_minus split: link_phase.splits option.splits)
next
  case (WriteLink w ok)
  assume "link_inv l"
  then show ?thesis using WriteLink
    by (auto simp: link_step_def link_write_def link_inv_def close_conn_def fsub_minus split: link_phase.splits option.splits)
qed (simp add: link_step_def run_step_inv)

interpretation vpn_link: guarded_system "\<lambda>l e. fst (link_step l e)" link_inv "new_link c" for c
  by unfold_locales (simp_all add: link_inv_new link_step_inv)

text \<open>After \<^verbatim>\<open>close\<close> the goroutine returns within three of its steps.\<close>

definition steps_left :: "vpnLink \<Rightarrow> nat" where
  "steps_left l =
     (case l_phase l of
        Ended e \<Rightarrow> 0 | WaitingRedial b \<Rightarrow> 1 | ServingConn c \<Rightarrow> 1 | Entering c \<Rightarrow> 1 | DialingAgain b \<Rightarrow> 2)"

lemma closing_progress:
  "link_inv l \<Longrightarrow> l_closed l \<Longrightarrow> l_closed (fst (run_step l rd dl)) \<and> steps_left (fst (run_step l rd dl)) \<le> steps_left l - 1"
  by (cases "l_phase l") (auto simp: link_inv_def run_step_def serve_enter_def serve_read_def serve_end_def lost_def close_conn_def
      steps_left_def split: sum.splits option.splits)

definition no_conn_left :: "vpnLink \<Rightarrow> bool" where
  "no_conn_left l \<longleftrightarrow> (case l_phase l of Ended e \<Rightarrow> openConns l = {||} | _ \<Rightarrow> False)"

text \<open>C18. The link never leaks a connection: at every moment at most one is open, the one being served or handed
  over, whatever is read, written, dialed or closed in whatever order. Two steps of its goroutine
  after \<^verbatim>\<open>close\<close>, whatever they find, it has returned and no connection is open; and what is written
  goes to the connection being served only.\<close>

theorem vpn_link_closes:
  "let l = foldl (\<lambda>l e. fst (link_step l e)) (new_link c0) es in
     fcard (openConns l) \<le> 1 \<and>
     no_conn_left (fst (run_step (fst (run_step (link_close l) rd1 dl1)) rd2 dl2)) \<and>
     (\<forall>w ok c x. snd (link_write l w ok) = [WriteTo c x] \<longrightarrow> l_phase l = ServingConn c \<and> x = w)"
proof -
  define l where "l = foldl (\<lambda>l e. fst (link_step l e)) (new_link c0) es"
  define l1 where "l1 = fst (run_step (link_close l) rd1 dl1)"
  define l2 where "l2 = fst (run_step l1 rd2 dl2)"
  have i: "link_inv l" unfolding l_def by (rule vpn_link.run_inv)
  have ic: "link_inv (link_close l)" using link_step_inv [OF i, of CloseLink] by (simp add: link_step_def)
  have "fcard A \<le> 1" if "A |\<subseteq>| {|c|}" for A and c :: nat
    using fcard_mono [OF that] by (simp add: fcard_finsert_if)
  then have one: "fcard (openConns l) \<le> 1" using i by (auto simp: link_inv_def split: link_phase.splits)
  have cl: "l_closed (link_close l)" by (auto simp: link_close_def Let_def close_conn_def split: option.split)
  have p1: "l_closed l1" "steps_left l1 \<le> steps_left (link_close l) - 1" using closing_progress [OF ic cl] by (simp_all add: l1_def)
  have i1: "link_inv l1" unfolding l1_def by (rule run_step_inv [OF ic])
  have p2: "steps_left l2 \<le> steps_left l1 - 1" using closing_progress [OF i1 p1(1)] by (simp add: l2_def)
  have i2: "link_inv l2" unfolding l2_def by (rule run_step_inv [OF i1])
  have "steps_left (link_close l) \<le> 2" by (simp add: steps_left_def split: link_phase.split)
  then have "steps_left l2 = 0" using p1 p2 by simp
  then have "no_conn_left l2" using i2 by (auto simp: steps_left_def no_conn_left_def link_inv_def split: link_phase.splits)
  moreover have "\<forall>w ok c x. snd (link_write l w ok) = [WriteTo c x] \<longrightarrow> l_phase l = ServingConn c \<and> x = w"
    using i by (auto simp: link_write_def link_inv_def split: option.splits if_splits link_phase.splits)
  ultimately show ?thesis using one unfolding l_def [symmetric] l1_def [symmetric] l2_def [symmetric] Let_def by simp
qed

theorem vpn_link_closes_witness:
  "no_conn_left (fst (run_step (fst (run_step (link_close (new_link 4)) None (Inr 5))) None (Inr 6)))"
  using vpn_link_closes [of 4 "[]" None "Inr 5" None "Inr 6"] by (simp add: Let_def)

section \<open>The read loop of the vpn mode\<close>

record uplink =
  up_seq :: u32
  glueSeq :: u32
  up_split :: "gameSplit option"
  fragDrops :: nat

datatype up_out =
    ToVPN flowkey bytes      \<comment> \<open>into the queue of the vpn connection\<close>
  | ToPaths bytes            \<comment> \<open>on every glue path\<close>

text \<open>One packet of a TUN read (\<open>None\<close> where the flow table would dereference a missing entry).\<close>

definition vpn_forward :: "uplink \<Rightarrow> time \<Rightarrow> bytes \<Rightarrow> uplink \<times> up_out list" where
  "vpn_forward u now pkt =
     (let n = up_seq u + 1 in (u\<lparr>up_seq := n\<rparr>, [ToVPN (FlowOf pkt) (marshal (frame_new n now pkt))]))"

definition vpn_packet ::
  "(u16 \<Rightarrow> string option) \<Rightarrow> (string \<Rightarrow> bool) \<Rightarrow> uplink \<Rightarrow> time \<Rightarrow> bytes \<Rightarrow> (uplink \<times> up_out list) option" where
  "vpn_packet owner isGame u now pkt =
     (case Parse pkt of
        (i, ok) \<Rightarrow>
          if \<not> ok \<or> Noise i \<or> Version i \<noteq> 4 then Some (u, [])
          else case up_split u of
            None \<Rightarrow> Some (vpn_forward u now pkt)
          | Some s \<Rightarrow>
              (case decide s owner isGame i now of
                 None \<Rightarrow> None
               | Some (s', act, flowID) \<Rightarrow>
                   let u1 = u\<lparr>up_split := Some s'\<rparr> in
                   (case act of
                      dropUnknown \<Rightarrow> Some (u1, [])
                    | dropFragment \<Rightarrow> Some (u1\<lparr>fragDrops := fragDrops u1 + 1\<rparr>, [])
                    | toGlue \<Rightarrow>
                        (case EncodeOutbound flowID (Dst i) (DstPort i) (case Payload i of Some p \<Rightarrow> p | None \<Rightarrow> []) of
                           Inl e \<Rightarrow> Some (u1, [])
                         | Inr envelope \<Rightarrow>
                             let n = glueSeq u1 + 1 in Some (u1\<lparr>glueSeq := n\<rparr>, [ToPaths (marshal (frame_new n now envelope))]))
                    | toVPN \<Rightarrow> Some (vpn_forward u1 now pkt))))"

section \<open>The read loop of the tun mode\<close>

record tun_mode =
  t_flows :: flowTable
  t_seq :: u32

definition tun_packet :: "tun_mode \<Rightarrow> time \<Rightarrow> bytes \<Rightarrow> (tun_mode \<times> bytes option) option" where
  "tun_packet t now pkt =
     (case Parse pkt of
        (i, ok) \<Rightarrow>
          (case Payload i of
             None \<Rightarrow> Some (t, None)
           | Some payload \<Rightarrow>
               if \<not> ok \<or> Noise i \<or> Version i \<noteq> 4 \<or> Proto i \<noteq> 17 then Some (t, None)
               else case id_of (t_flows t) (flow_info_of i) now of
                 None \<Rightarrow> None
               | Some (fl, None) \<Rightarrow> Some (t\<lparr>t_flows := fl\<rparr>, None)
               | Some (fl, Some flowID) \<Rightarrow>
                   let t1 = t\<lparr>t_flows := fl\<rparr> in
                   (case EncodeOutbound flowID (Dst i) (DstPort i) payload of
                      Inl e \<Rightarrow> Some (t1, None)
                    | Inr envelope \<Rightarrow>
                        let n = t_seq t1 + 1 in Some (t1\<lparr>t_seq := n\<rparr>, Some (marshal (frame_new n now envelope))))))"

text \<open>\<^verbatim>\<open>dropCounter.add\<close>: whether the total is logged now.\<close>

record dropCounter =
  dc_every :: duration
  dc_n :: u64
  dc_lastLog :: time

definition drop_add :: "dropCounter \<Rightarrow> time \<Rightarrow> dropCounter \<times> bool" where
  "drop_add d now =
     (let d1 = d\<lparr>dc_n := dc_n d + 1\<rparr>
      in if dc_lastLog d1 = 0 \<or> dc_every d1 \<le> time_sub now (dc_lastLog d1) then (d1\<lparr>dc_lastLog := now\<rparr>, True) else (d1, False))"

text \<open>The channel \<^verbatim>\<open>stop\<close> of capacity one: the first error stops the client.\<close>

definition report_error :: "'e option \<Rightarrow> 'e \<Rightarrow> 'e option" where
  "report_error stop err = (case stop of None \<Rightarrow> Some err | Some e \<Rightarrow> Some e)"

section \<open>Where a packet goes\<close>

definition split_ok :: "uplink \<Rightarrow> bool" where
  "split_ok u \<longleftrightarrow> (case up_split u of None \<Rightarrow> True | Some s \<Rightarrow> ft_inv (gflows s))"

text \<open>\<open>glue_copy u' pkt now w\<close>: \<open>w\<close> is the glue frame of the whole UDP datagram \<open>pkt\<close>, under a flow ID that leads
  back to the packet's ports and destination.\<close>

definition glue_copy :: "uplink \<Rightarrow> bytes \<Rightarrow> time \<Rightarrow> bytes \<Rightarrow> bool" where
  "glue_copy u' pkt now w \<longleftrightarrow>
     (\<exists>i s flowID g payload env.
        Parse pkt = (i, True) \<and> Proto i = 17 \<and> \<not> Fragment i \<and> Payload i = Some payload \<and>
        up_split u' = Some s \<and> snd (lookup_flow (gflows s) flowID now) = Some g \<and> flowKeyOf g = flowKeyOf (flow_info_of i) \<and>
        DecodeOutbound env = Inr (flowID, To4 (Dst i), DstPort i, payload) \<and> w = marshal (frame_new (glueSeq u') now env))"

definition routed :: "uplink \<Rightarrow> uplink \<Rightarrow> bytes \<Rightarrow> time \<Rightarrow> up_out list \<Rightarrow> bool" where
  "routed u u' pkt now outs \<longleftrightarrow>
     (case outs of
        [] \<Rightarrow> up_seq u' = up_seq u \<and> glueSeq u' = glueSeq u
      | [ToVPN k w] \<Rightarrow>
          k = FlowOf pkt \<and> w = marshal (frame_new (up_seq u') now pkt) \<and> up_seq u' = up_seq u + 1 \<and> glueSeq u' = glueSeq u
      | [ToPaths w] \<Rightarrow> glue_copy u' pkt now w \<and> glueSeq u' = glueSeq u + 1 \<and> up_seq u' = up_seq u
      | _ \<Rightarrow> False)"

lemma vpn_forward_routed:
  "vpn_forward u now pkt = (u', outs) \<Longrightarrow> up_seq u = up_seq u0 \<Longrightarrow> glueSeq u = glueSeq u0 \<Longrightarrow>
     routed u0 u' pkt now outs \<and> up_split u' = up_split u"
  by (auto simp: vpn_forward_def routed_def Let_def)

lemma vpn_packet_routed:
  assumes ok: "split_ok u"
  shows "\<exists>u' outs. vpn_packet owner isGame u now pkt = Some (u', outs) \<and> split_ok u' \<and> routed u u' pkt now outs"
proof -
  obtain i p_ok where p: "Parse pkt = (i, p_ok)" by force
  show ?thesis
  proof (cases "\<not> p_ok \<or> Noise i \<or> Version i \<noteq> 4")
    case True
    then show ?thesis using ok by (simp add: vpn_packet_def p routed_def)
  next
    case good: False
    show ?thesis
    proof (cases "up_split u")
      case None
      obtain u' outs where f: "vpn_forward u now pkt = (u', outs)" by force
      then have "vpn_packet owner isGame u now pkt = Some (u', outs)" using good None by (simp add: vpn_packet_def p)
      then show ?thesis using vpn_forward_routed [OF f refl refl] None by (auto simp: split_ok_def)
    next
      case (Some s)
      have "ft_inv (gflows s)" using ok Some by (simp add: split_ok_def)
      from decide_ok [OF this, of owner isGame i now] obtain s' act flowID where
        d: "decide s owner isGame i now = Some (s', act, flowID)" "ft_inv (gflows s')" and
        g: "act = toGlue \<Longrightarrow> Proto i = 17 \<and> \<not> Fragment i \<and> Payload i \<noteq> None \<and>
           (\<exists>g. snd (lookup_flow (gflows s') flowID now) = Some g \<and> flowKeyOf g = flowKeyOf (flow_info_of i))"
        by blast
      define u1 where "u1 = u\<lparr>up_split := Some s'\<rparr>"
      have u1: "split_ok u1" "up_seq u1 = up_seq u" "glueSeq u1 = glueSeq u" "up_split u1 = Some s'"
        using d(2) by (simp_all add: u1_def split_ok_def)
      have eq: "vpn_packet owner isGame u now pkt =
         (case act of
            dropUnknown \<Rightarrow> Some (u1, [])
          | dropFragment \<Rightarrow> Some (u1\<lparr>fragDrops := fragDrops u1 + 1\<rparr>, [])
          | toGlue \<Rightarrow>
              (case EncodeOutbound flowID (Dst i) (DstPort i) (case Payload i of Some p \<Rightarrow> p | None \<Rightarrow> []) of
                 Inl e \<Rightarrow> Some (u1, [])
               | Inr envelope \<Rightarrow>
                   let n = glueSeq u1 + 1 in Some (u1\<lparr>glueSeq := n\<rparr>, [ToPaths (marshal (frame_new n now envelope))]))
          | toVPN \<Rightarrow> Some (vpn_forward u1 now pkt))"
        unfolding u1_def vpn_packet_def Let_def using good Some by (simp add: p d(1))
      show ?thesis
      proof (cases act)
        case toVPN
        obtain u' outs where f: "vpn_forward u1 now pkt = (u', outs)" by force
        show ?thesis using vpn_forward_routed [OF f u1(2,3)] u1 eq f toVPN by (auto simp: split_ok_def)
      next
        case toGlue
        then obtain payload gi where pl: "Payload i = Some payload" "Proto i = 17" "\<not> Fragment i"
          "snd (lookup_flow (gflows s') flowID now) = Some gi" "flowKeyOf gi = flowKeyOf (flow_info_of i)" using g by auto
        show ?thesis
        proof (cases "EncodeOutbound flowID (Dst i) (DstPort i) payload")
          case (Inl e)
          then show ?thesis using eq toGlue pl u1 by (simp add: routed_def)
        next
          case (Inr env)
          define u' where "u' = u1\<lparr>glueSeq := glueSeq u1 + 1\<rparr>"
          have "glue_copy u' pkt now (marshal (frame_new (glueSeq u') now env))"
            unfolding glue_copy_def using p good pl DecodeOutbound_Encode [OF Inr] u1
            by (intro exI [of _ i] exI [of _ s'] exI [of _ flowID] exI [of _ gi] exI [of _ payload] exI [of _ env])
              (simp add: u'_def)
          then show ?thesis using eq toGlue pl u1 Inr by (simp add: routed_def u'_def Let_def split_ok_def)
        qed
      qed (use eq u1 in \<open>simp_all add: routed_def split_ok_def\<close>)
    qed
  qed
qed

text \<open>C31. Every packet read from the client's TUN is dropped or goes one way, never both: into the vpn
  queue, whole, in a frame with the next vpn sequence number, or on the glue paths, as the
  whole UDP datagram with its destination and the next glue number, under a flow ID that leads back to
  the packet's ports. The loop never fails, and it keeps the flow table consistent.\<close>

theorem packet_goes_one_way:
  assumes "split_ok u"
  shows "\<exists>u' outs. vpn_packet owner isGame u now pkt = Some (u', outs) \<and> split_ok u' \<and> routed u u' pkt now outs"
  using assms by (rule vpn_packet_routed)

theorem packet_goes_one_way_witness:
  "\<exists>u' outs. vpn_packet (\<lambda>_. Some ''game'') (\<lambda>_. True)
      \<lparr>up_seq = 0, glueSeq = 0, up_split = Some \<lparr>router = newUDPRouter, gflows = newFlowTable\<rparr>, fragDrops = 0\<rparr> 5
      (snd (BuildIPv4UDP 6 [10, 66, 0, 2] [1, 2, 3, 4] 5 6 [7, 8])) = Some (u', outs) \<and> split_ok u'"
  using packet_goes_one_way [of "\<lparr>up_seq = 0, glueSeq = 0, up_split = Some \<lparr>router = newUDPRouter, gflows = newFlowTable\<rparr>, fragDrops = 0\<rparr>"
      "\<lambda>_. Some ''game''" "\<lambda>_. True" 5 "snd (BuildIPv4UDP 6 [10, 66, 0, 2] [1, 2, 3, 4] 5 6 [7, 8])"]
  by (fastforce simp: split_ok_def ft_inv_new)

section \<open>The other goroutines of the vpn mode\<close>

text \<open>The ticker's keepalive, the flow it is queued in, and the process names of the configuration.\<close>

definition keepaliveKey :: flowkey where "keepaliveKey = zero_key\<lparr>fk_proto := 255\<rparr>"

definition vpn_keepalive :: "uplink \<Rightarrow> time \<Rightarrow> uplink \<times> up_out list" where
  "vpn_keepalive u now =
     (let n = up_seq u + 1 in (u\<lparr>up_seq := n\<rparr>, [ToVPN keepaliveKey (marshal (frame_new n now []))]))"

definition is_game :: "string list \<Rightarrow> string \<Rightarrow> bool" where
  "is_game gameProcesses name \<longleftrightarrow> list_ex (\<lambda>g. g = name) gameProcesses"

end
