(* ===== verification/EndToEnd.thy ===== *)
theory EndToEnd
  imports GlueServer VpnServer VpnClient ClientGlue
begin

text \<open>
  The two ends of the vpn and glue channels together: a packet from one TUN to the other, a game's datagram
  to its destination and the answer back, and the start of a glue path.
\<close>

section \<open>The vpn channel, end to end\<close>

lemma read_one: "fits f \<Longrightarrow> read_frame (marshal f, e) = Inr (f, ([], e))"
  using read_frame_marshal [of f "[]" e] by simp

lemma fits_new [simp]: "fits (frame_new n now p) \<longleftrightarrow> length p \<le> MaxPayload"
  by (simp add: fits_def frame_new_def)

lemma payload_new [simp]: "f_payload (frame_new n now p) = p"
  by (simp add: frame_new_def)

text \<open>A packet that the client sends into the vpn arrives in the server's TUN unchanged, behind an empty
  offload header, if it comes from the client's tunnel address, and is dropped otherwise.\<close>

theorem vpn_uplink:
  assumes "vpn_packet procOf isGame u now pkt = Some (u', [ToVPN k wire])" "split_ok u" "length pkt \<le> MaxPayload" "pkt \<noteq> []"
    and "fmlookup (peers v) c \<noteq> None"
  shows "\<exists>f. read_frame (wire @ rest, e) = Inr (f, (rest, e)) \<and>
     vpn_frame clientIP v c f now2 buf =
       (v, if fromClient pkt clientIP then [TunWrite (replicate 10 0 @ pkt)] else [])"
proof -
  from vpn_packet_routed [OF assms(2), of procOf isGame now pkt] assms(1)
  have "wire = marshal (frame_new (up_seq u') now pkt)" by (simp add: routed_def)
  then show ?thesis using assms(3-5) read_frame_marshal [of "frame_new (up_seq u') now pkt" rest e]
    by (intro exI [of _ "frame_new (up_seq u') now pkt"]) (auto simp: vpn_frame_def virtio_frame virtioHdrLen_def)
qed

text \<open>What the client does with a sequence of frames, and which packets of the server's TUN get through.\<close>

definition packets_of :: "frame list \<Rightarrow> bytes list" where
  "packets_of fs = filter (\<lambda>p. p \<noteq> []) (map f_payload fs)"

definition sendable :: "bytes list \<Rightarrow> bytes list" where
  "sendable pkts = filter (\<lambda>p. length p \<le> MaxPayload \<and> p \<noteq> []) pkts"

definition wire_of :: "vpn_out \<Rightarrow> bytes" where
  "wire_of x = (case x of Enq c k w \<Rightarrow> w | _ \<Rightarrow> [])"

lemma queue_packets_frames:
  "queue_packets v c nows pkts = (v', outs) \<Longrightarrow>
     \<exists>fs. map wire_of outs = map marshal fs \<and> list_all fits fs \<and> map f_payload fs = filter (\<lambda>p. length p \<le> MaxPayload) pkts \<and>
       list_all (\<lambda>x. case x of Enq c' k w \<Rightarrow> c' = c | _ \<Rightarrow> False) outs"
proof (induction pkts arbitrary: v nows v' outs)
  case (Cons pkt pkts)
  show ?case
  proof (cases "MaxPayload < length pkt")
    case True
    then show ?thesis using Cons by simp
  next
    case False
    obtain v1 n where n: "nextVPNSeq v = (v1, n)" by force
    obtain v2 outs2 where q: "queue_packets v1 c (\<lambda>i. nows (Suc i)) pkts = (v2, outs2)" by force
    from Cons.IH [OF q] obtain fs where
      fs: "map wire_of outs2 = map marshal fs" "list_all fits fs" "map f_payload fs = filter (\<lambda>p. length p \<le> MaxPayload) pkts"
      "list_all (\<lambda>x. case x of Enq c' k w \<Rightarrow> c' = c | _ \<Rightarrow> False) outs2" by blast
    have "outs = Enq c (FlowOf pkt) (marshal (frame_new n (nows 0) pkt)) # outs2" using Cons.prems False n q by simp
    moreover have "wire_of (Enq c k w) = w" for k w by (simp add: wire_of_def)
    ultimately show ?thesis using fs False
      by (intro exI [of _ "frame_new n (nows 0) pkt # fs"]) simp
  qed
qed simp

text \<open>Packets that come out of the server's TUN reach the client's TUN unchanged and in the order they are
  sent: what is queued for the current client, written in one batch and read back by the client's
  loop, are exactly the packets that fit into a frame (empty ones are keepalives).\<close>

theorem vpn_downlink:
  assumes "tun_read v nows pkts NoError = (v', outs)" "currentVPN v = Some c"
  shows "\<exists>fs. read_many read_frame (length fs) (batch_bytes (map wire_of outs) @ rest, e) = Inr (fs, (rest, e)) \<and>
     packets_of fs = sendable pkts \<and>
     concat (map (\<lambda>f. snd (serve_read l d (Some f))) fs) = (if d |\<in>| openConns l then map Packet (sendable pkts) else [])"
proof -
  obtain v1 outs1 where q: "queue_packets v c nows pkts = (v1, outs1)" by force
  then have o: "outs = outs1" using assms by (simp add: tun_read_def)
  from queue_packets_frames [OF q] obtain fs where
    fs: "map wire_of outs = map marshal fs" "list_all fits fs" "map f_payload fs = filter (\<lambda>p. length p \<le> MaxPayload) pkts"
    unfolding o by blast
  have p: "packets_of fs = sendable pkts" by (simp add: packets_of_def sendable_def fs(3) conj_commute)
  have "concat (map (\<lambda>f. snd (serve_read l d (Some f))) fs) = (if d |\<in>| openConns l then map Packet (packets_of fs) else [])"
    by (induction fs) (auto simp: serve_read_def packets_of_def)
  then show ?thesis using batch_read_back [OF fs(2), of rest e] p by (auto simp: fs(1))
qed

section \<open>A game's datagram and its answer\<close>

lemma DecodeOutbound_length: "DecodeOutbound env = Inr (j, dst, port, payload) \<Longrightarrow> length env = 9 + length payload"
  by (auto simp: DecodeOutbound_def split: if_splits)

lemma inbound_not_ping [simp]: "DecodePing (EncodeInbound j p) = None"
  by (simp add: DecodePing_def EncodeInbound_def msgInbound_def msgPing_def)

definition arrays_ok :: "flowTable \<Rightarrow> bool" where
  "arrays_ok t \<longleftrightarrow> fmpred (\<lambda>_ e. length (origSrc (e_info e)) = 4 \<and> length (origDst (e_info e)) = 4) (tflows t)"

lemma lookup_flow_arrays:
  "arrays_ok t \<Longrightarrow> snd (lookup_flow t j now) = Some fi \<Longrightarrow> length (origSrc fi) = 4 \<and> length (origDst fi) = 4"
  by (auto simp: arrays_ok_def lookup_flow_def fmpred_iff split: option.splits)

text \<open>The reader of a flow's socket sends the answer under the flow's ID.\<close>

lemma answer_wire:
  assumes i: "srv_inv g" and s: "fmlookup (sessions g) sid = Some s" and f: "fmlookup (udpFlows s) j = Some fl" "u_conn fl = c"
    and r: "readFlow g c (ReadData reply) now = (g', Some (ws, wire))" and fit: "length reply \<le> MaxInboundPayload"
  shows "\<exists>n. wire = marshal (frame_new n now (EncodeInbound j reply)) \<and> ws = writers s"
proof -
  have rd: "fmlookup (readers g) c = Some (sid, ref s, j)"
    using srv_invD(5) [OF i s] f by (auto simp: sess_ok_def)
  define s1 where "s1 = touch_flow s j c now"
  have "writers s1 = writers s" by (auto simp: s1_def touch_flow_def writers_def split: option.splits)
  moreover have "readFlow g c (ReadData reply) now = broadcastReply (put_session sid s1 g) sid j reply now"
    by (simp add: readFlow_def rd s s1_def)
  ultimately show ?thesis using r fit by (auto simp: broadcastReply_def broadcast_def)
qed

lemma answer_written:
  assumes f: "f_payload f = EncodeInbound j reply" and len: "length reply \<le> MaxUDPPayload"
    and fl: "snd (lookup_flow (rh_flows h) j now) = Some fi" "arrays_ok (rh_flows h)"
    and ok: "fst (snd (accept (rh_recv h) now f))"
  shows "\<exists>h' pkt. reply_handle b h (rh_epoch h) now f = (h', Some (TunPacket pkt)) \<and>
     Parse pkt = (built_info (origDst fi) (origSrc fi) (origDstPort fi) (origSrcPort fi) reply, True)"
proof -
  obtain r reason where a: "accept (rh_recv h) now f = (r, True, reason)" using ok by (cases "accept (rh_recv h) now f") auto
  obtain t where t: "lookup_flow (rh_flows h) j now = (t, Some fi)" using fl(1) by (cases "lookup_flow (rh_flows h) j now") auto
  obtain n pkt where p: "BuildIPv4UDP (rh_ipID h) (origDst fi) (origSrc fi) (origDstPort fi) (origSrcPort fi) reply = (n, pkt)" by force
  note l = lookup_flow_arrays [OF fl(2,1)]
  have parse: "Parse pkt = (built_info (origDst fi) (origSrc fi) (origDstPort fi) (origSrcPort fi) reply, True)"
    by (rule Parse_built(1) [OF _ _ len p]) (use l in simp_all)
  then have "pkt \<noteq> []" by (auto simp: Parse_def)
  then show ?thesis using parse
    by (simp add: reply_handle_def write_reply_def f DecodeInbound_Encode a t p)
qed
text \<open>C5. A game's datagram and its answer, through client, server and back: the datagram taken from the TUN
  leaves the server, if at all, with the same payload, through an open socket connected to exactly
  the destination the game sent to, and only if both filters allow it; the answer read from that
  socket, when the client accepts the frame, is written into the client's TUN as a UDP packet from
  that destination to the game's own port, with the answer's payload unchanged.\<close>

theorem game_round_trip:
  assumes client: "split_ok u" "vpn_packet procOf isGame u now pkt = Some (u', [ToPaths wire])" "length pkt \<le> MaxPayload"
    and frame_in: "read_frame (wire, e1) = Inr (f, rest1)"
    and server: "srv_inv g" "handle_glue_frame pol g sid w f now2 err = (g2, outs)" "UdpWrite c data \<in> set outs"
    and answer: "readFlow g2 c (ReadData reply) now3 = (g3, Some (ws, wire2))" "length reply \<le> MaxUDPPayload"
    and frame_back: "read_frame (wire2, e2) = Inr (f2, rest2)"
    and handler: "up_split u' = Some s'" "rh_flows h = gflows s'" "arrays_ok (gflows s')" "fst (snd (accept (rh_recv h) now4 f2))"
  shows "\<exists>i s2 j fl src h' pkt2. Parse pkt = (i, True) \<and> Payload i = Some data \<and>
     fst (Allowed pol (To4 (Dst i))) \<and> fst (DestinationAllowed (To4 (Dst i)) (DstPort i)) \<and>
     fmlookup (sessions g2) sid = Some s2 \<and> fmlookup (udpFlows s2) j = Some fl \<and>
     u_conn fl = c \<and> u_dst fl = (canon (To4 (Dst i)), DstPort i) \<and> c |\<in>| openSocks g2 \<and>
     reply_handle onPing h (rh_epoch h) now4 f2 = (h', Some (TunPacket pkt2)) \<and>
     Parse pkt2 = (built_info (addr4 (Dst i)) src (DstPort i) (SrcPort i) reply, True)"
proof -
  from vpn_packet_routed [OF client(1), of procOf isGame now pkt] client(2)
  have "glue_copy u' pkt now wire" by (simp add: routed_def)
  then obtain i j gi env where
    i: "Parse pkt = (i, True)" and pl: "\<exists>p. Payload i = Some p \<and> DecodeOutbound env = Inr (j, To4 (Dst i), DstPort i, p)" and
    gi: "snd (lookup_flow (gflows s') j now) = Some gi" "flowKeyOf gi = flowKeyOf (flow_info_of i)" and
    wire: "wire = marshal (frame_new (glueSeq u') now env)"
    using handler(1) unfolding glue_copy_def by auto
  then obtain p where p: "Payload i = Some p" "DecodeOutbound env = Inr (j, To4 (Dst i), DstPort i, p)" by blast
  obtain pre post where "pkt = pre @ p @ post" "28 \<le> length pre" using parse_inside_packet [OF i] p(1) by blast
  then have "length env \<le> MaxPayload" using DecodeOutbound_length [OF p(2)] client(3) by (simp add: MaxPayload_def)
  then have f: "f_payload f = env" using frame_in read_one [of "frame_new (glueSeq u') now env" e1] by (auto simp: wire)
  from server(2) obtain fl s2 where sv: "data = p" "fst (Allowed pol (To4 (Dst i)))" "fst (DestinationAllowed (To4 (Dst i)) (DstPort i))"
    "fmlookup (sessions g2) sid = Some s2" "fmlookup (udpFlows s2) j = Some fl" "u_conn fl = c" "u_dst fl = (canon (To4 (Dst i)), DstPort i)"
  proof (cases rule: handle_frame_cases)
    case (relayed s r j' dst port payload' c')
    have "j' = j" "dst = To4 (Dst i)" "port = DstPort i" "payload' = p" "c' = c" "data = p"
      using relayed(4,8) p(2) server(3) by (auto simp: f)
    then show thesis using relayed flow_socket_bound [OF relayed(7)] that by auto
  qed (use server(3) in auto)
  have i2: "srv_inv g2" using handle_frame_inv [OF server(1), of pol sid w f now2 err] server(2) by simp
  have sock: "c |\<in>| openSocks g2" using srv_invD(5) [OF i2 sv(4)] sv(5,6) by (auto simp: sess_ok_def)
  have ml: "length reply \<le> MaxInboundPayload" using answer(2) by (simp add: MaxUDPPayload_def MaxInboundPayload_def)
  obtain n where w2: "wire2 = marshal (frame_new n now3 (EncodeInbound j reply))"
    using answer_wire [OF i2 sv(4-6) answer(1) ml] by blast
  have "length (EncodeInbound j reply) \<le> MaxPayload"
    using ml by (simp add: EncodeInbound_def MaxInboundPayload_def MaxPayload_def)
  then have f2: "f_payload f2 = EncodeInbound j reply"
    using frame_back read_one [of "frame_new n now3 (EncodeInbound j reply)" e2] by (auto simp: w2)
  have gi4: "snd (lookup_flow (rh_flows h) j now4) = Some gi"
    using gi(1) handler(2) by (auto simp: lookup_flow_def split: option.splits)
  have ar: "arrays_ok (rh_flows h)" using handler(2,3) by simp
  from answer_written [OF f2 answer(2) gi4 ar handler(4), of onPing] obtain h' pkt2 where
    r: "reply_handle onPing h (rh_epoch h) now4 f2 = (h', Some (TunPacket pkt2))"
    "Parse pkt2 = (built_info (origDst gi) (origSrc gi) (origDstPort gi) (origSrcPort gi) reply, True)" by blast
  have "origDst gi = addr4 (Dst i)" "origDstPort gi = DstPort i" "origSrcPort gi = SrcPort i"
    using gi(2) by (simp_all add: flowKeyOf_def flow_info_of_def)
  then show ?thesis using i p(1) sv sock r(1) r(2) by (intro exI [of _ i] exI [of _ s2] exI [of _ j] exI [of _ fl] exI [of _ "origSrc gi"] exI [of _ h'] exI [of _ pkt2]) simp
qed

text \<open>A first packet of a game, through a fresh client to the server with one joined session.\<close>

definition game_packet :: bytes where
  "game_packet = snd (BuildIPv4UDP 6 [10, 66, 0, 2] [9, 9, 9, 9] 5 27015 [1, 2, 3])"

definition fresh_uplink :: uplink where
  "fresh_uplink = \<lparr>up_seq = 0, glueSeq = 0, up_split = Some \<lparr>router = newUDPRouter, gflows = newFlowTable\<rparr>, fragDrops = 0\<rparr>"

lemma game_packet_parsed: "Parse game_packet = (built_info [10, 66, 0, 2] [9, 9, 9, 9] 5 27015 [1, 2, 3], True)" "length game_packet = 31"
proof -
  obtain n pkt where b: "BuildIPv4UDP 6 [10, 66, 0, 2] [9, 9, 9, 9] 5 27015 [1, 2, 3] = (n, pkt)" by force
  then have "game_packet = pkt" by (simp add: game_packet_def)
  then show "Parse game_packet = (built_info [10, 66, 0, 2] [9, 9, 9, 9] 5 27015 [1, 2, 3], True)" "length game_packet = 31"
    using Parse_built [OF _ _ _ b] by (simp_all add: MaxUDPPayload_def)
qed

lemma find_first_id: "find_id 65536 0 fmempty = (1, True)"
proof -
  have "find_id (Suc n) 0 fmempty = (1, True)" for n by simp
  from this [of 65535] show ?thesis by simp
qed

lemma game_packet_quiet:
  "Version (built_info [10, 66, 0, 2] [9, 9, 9, 9] 5 27015 [1, 2, 3]) = 4" "\<not> Noise (built_info [10, 66, 0, 2] [9, 9, 9, 9] 5 27015 [1, 2, 3])"
  "Payload (built_info [10, 66, 0, 2] [9, 9, 9, 9] 5 27015 [1, 2, 3]) = Some [1, 2, 3]" 
  by (simp_all add: built_info_def with_class_def classify_def IsMulticast_def To4_def wellKnownNoisePorts_def)

lemma game_packet_sent:
  "\<exists>u' s' env. vpn_packet (\<lambda>_. Some ''game'') (\<lambda>_. True) fresh_uplink 5 game_packet =
      Some (u', [ToPaths (marshal (frame_new 1 5 env))]) \<and>
     DecodeOutbound env = Inr (1, [9, 9, 9, 9], 27015, [1, 2, 3]) \<and> up_split u' = Some s' \<and> arrays_ok (gflows s')"
proof -
  have length_addr4: "length (origSrc (flow_info_of i)) = 4" "length (origDst (flow_info_of i)) = 4" for i
    by (simp_all add: flow_info_of_def addr4_def min_def)
  let ?i = "built_info [10, 66, 0, 2] [9, 9, 9, 9] 5 27015 [1, 2, 3]"
  have f: "flow_info_of ?i = \<lparr>origSrc = [10, 66, 0, 2], origDst = [9, 9, 9, 9], origSrcPort = 5, origDstPort = 27015\<rparr>"
    by (simp add: flow_info_of_def built_info_def with_class_def addr4_def To4_def)
  obtain s' where d: "decide \<lparr>router = newUDPRouter, gflows = newFlowTable\<rparr> (\<lambda>_. Some ''game'') (\<lambda>_. True) ?i 5 = Some (s', toGlue, 1)"
      "arrays_ok (gflows s')"
    unfolding decide_def
    by (simp add: f game_packet_quiet built_info_def with_class_def Let_def classify_udp_def newUDPRouter_def id_of_def newFlowTable_def find_first_id arrays_ok_def
        fmpred_iff length_addr4)
  obtain env where e: "EncodeOutbound 1 (Dst ?i) (DstPort ?i) [1, 2, 3] = Inr env"
    by (simp add: EncodeOutbound_def built_info_def with_class_def To4_def Let_def)
  have "DecodeOutbound env = Inr (1, [9, 9, 9, 9], 27015, [1, 2, 3])"
    using DecodeOutbound_Encode [OF e] by (simp add: built_info_def with_class_def To4_def)
  then show ?thesis unfolding vpn_packet_def fresh_uplink_def
    by (auto intro!: exI [of _ env] simp: game_packet_parsed game_packet_quiet d e Let_def)
qed

lemma fresh_uplink_ok: "split_ok fresh_uplink"
  by (simp add: split_ok_def fresh_uplink_def ft_inv_new)

lemma answer_relayed:
  assumes i: "srv_inv g" and s: "fmlookup (sessions g) sid = Some s" and f: "fmlookup (udpFlows s) j = Some fl"
    and len: "length reply \<le> MaxInboundPayload"
  shows "\<exists>g' ws n. readFlow g (u_conn fl) (ReadData reply) now = (g', Some (ws, marshal (frame_new n now (EncodeInbound j reply))))"
proof -
  have "fmlookup (readers g) (u_conn fl) = Some (sid, ref s, j)"
    using srv_invD(5) [OF i s] f by (auto simp: sess_ok_def)
  then show ?thesis using s len by (auto simp: readFlow_def broadcastReply_def broadcast_def)
qed

theorem game_round_trip_witness:
  "\<exists>u' wire f g2 c g3 ws wire2 f2 s' h' pkt2 src.
     vpn_packet (\<lambda>_. Some ''game'') (\<lambda>_. True) fresh_uplink 5 game_packet = Some (u', [ToPaths wire]) \<and> up_split u' = Some s' \<and>
     read_frame (wire, EOF) = Inr (f, [], EOF) \<and>
     handle_glue_frame open_pol joined_server sid0 0 f (1000 * sec) None = (g2, [UdpWrite c [1, 2, 3]]) \<and>
     readFlow g2 c (ReadData [8]) (1001 * sec) = (g3, Some (ws, wire2)) \<and> read_frame (wire2, EOF) = Inr (f2, [], EOF) \<and>
     reply_handle False (newReplyHandler (gflows s') 3) 0 (1002 * sec) f2 = (h', Some (TunPacket pkt2)) \<and>
     Parse pkt2 = (built_info [9, 9, 9, 9] src 27015 5 [8], True)"
proof -
  let ?i = "built_info [10, 66, 0, 2] [9, 9, 9, 9] 5 27015 [1, 2, 3]"
  obtain u' s' env where u: "vpn_packet (\<lambda>_. Some ''game'') (\<lambda>_. True) fresh_uplink 5 game_packet = Some (u', [ToPaths (marshal (frame_new 1 5 env))])"
    and d: "DecodeOutbound env = Inr (1, [9, 9, 9, 9], 27015, [1, 2, 3])" and s': "up_split u' = Some s'" "arrays_ok (gflows s')"
    using game_packet_sent by blast
  have len: "length env = 12" using DecodeOutbound_length [OF d] by simp
  then have r1: "read_frame (marshal (frame_new 1 5 env), EOF) = Inr (frame_new 1 5 env, [], EOF)"
    by (simp add: read_one MaxPayload_def)
  obtain g2 c where h: "handle_glue_frame open_pol joined_server sid0 0 (frame_new 1 5 env) (1000 * sec) None = (g2, [UdpWrite c [1, 2, 3]])"
    using new_flow_relayed [of "frame_new 1 5 env"] d by auto
  have "\<exists>s2 fl. fmlookup (sessions g2) sid0 = Some s2 \<and> fmlookup (udpFlows s2) 1 = Some fl \<and> u_conn fl = c"
    using h
  proof (cases rule: handle_frame_cases)
    case (relayed s r j' dst port payload' c')
    then show ?thesis using flow_socket_bound [OF relayed(7)] relayed(4,8) d by auto
  qed auto
  then obtain s2 fl where fl: "fmlookup (sessions g2) sid0 = Some s2" "fmlookup (udpFlows s2) 1 = Some fl" "u_conn fl = c" by blast
  have i2: "srv_inv g2" using handle_frame_inv [OF joined_server_inv, of open_pol sid0 0 "frame_new 1 5 env" "1000 * sec" None] h by simp
  obtain g3 ws n where r: "readFlow g2 c (ReadData [8]) (1001 * sec) = (g3, Some (ws, marshal (frame_new n (1001 * sec) (EncodeInbound 1 [8]))))"
    using answer_relayed [OF i2 fl(1,2), of "[8]" "1001 * sec"] fl(3) by (auto simp: MaxInboundPayload_def)
  have r2: "read_frame (marshal (frame_new n (1001 * sec) (EncodeInbound 1 [8])), EOF) = Inr (frame_new n (1001 * sec) (EncodeInbound 1 [8]), [], EOF)"
    by (simp add: read_one MaxPayload_def EncodeInbound_def)
  have acc: "fst (snd (accept (rh_recv (newReplyHandler (gflows s') 3)) (1002 * sec) (frame_new n (1001 * sec) (EncodeInbound 1 [8]))))"
    by (simp add: newReplyHandler_def fresh_receiver_accepts replyMaxAge_def ms_def sec_def)
  have ep: "rh_epoch (newReplyHandler (gflows s') 3) = 0" "rh_flows (newReplyHandler (gflows s') 3) = gflows s'" by (simp_all add: newReplyHandler_def)
  have a: "addr4 (Dst ?i) = [9, 9, 9, 9]" "DstPort ?i = 27015" "SrcPort ?i = 5"
    by (simp_all add: built_info_def with_class_def addr4_def To4_def)
  have u8: "length game_packet \<le> MaxPayload" "UdpWrite c [1, 2, 3] \<in> set [UdpWrite c [1, 2, 3]]" "length [8::byte] \<le> MaxUDPPayload"
    by (simp_all add: game_packet_parsed MaxPayload_def MaxUDPPayload_def)
  from game_round_trip [OF fresh_uplink_ok u u8(1) r1 joined_server_inv h u8(2) r u8(3) r2 s'(1) ep(2) s'(2) acc, of False]
  have "\<exists>h' pkt2 src. reply_handle False (newReplyHandler (gflows s') 3) 0 (1002 * sec) (frame_new n (1001 * sec) (EncodeInbound 1 [8])) =
      (h', Some (TunPacket pkt2)) \<and> Parse pkt2 = (built_info [9, 9, 9, 9] src 27015 5 [8], True)"
    using a by (auto simp: game_packet_parsed ep)
  then obtain h' pkt2 src where
    w: "reply_handle False (newReplyHandler (gflows s') 3) 0 (1002 * sec) (frame_new n (1001 * sec) (EncodeInbound 1 [8])) =
      (h', Some (TunPacket pkt2))" "Parse pkt2 = (built_info [9, 9, 9, 9] src 27015 5 [8], True)" by blast
  show ?thesis by (intro exI conjI, rule u, rule s'(1), rule r1, rule h, rule r, rule r2, rule w(1), rule w(2))
qed

text \<open>The address check of the server and the parser of the client read the same field.\<close>

lemma parsed_source: "Parse pkt = (i, True) \<Longrightarrow> Version i = 4 \<Longrightarrow> fromClient pkt (Src i)"
proof -
  assume p: "Parse pkt = (i, True)" and v: "Version i = 4"
  have l: "To4 (slice 12 16 pkt) = slice 12 16 pkt" if "20 \<le> length pkt"
    using that by (auto simp: To4_def slice_def min_def)
  show ?thesis using p v l unfolding Parse_def parse4_def parse6_def with_class_def fromClient_def
    by (auto simp: Let_def split: if_splits)
qed

lemma game_packet_source: "fromClient game_packet [10, 66, 0, 2]"
  using parsed_source [OF game_packet_parsed(1) game_packet_quiet(1)] by (simp add: built_info_def with_class_def)

definition plain_uplink :: uplink where "plain_uplink = fresh_uplink\<lparr>up_split := None\<rparr>"

lemma game_packet_forwarded:
  "vpn_packet (\<lambda>_. None) (\<lambda>_. False) plain_uplink 5 game_packet =
     Some (plain_uplink\<lparr>up_seq := 1\<rparr>, [ToVPN (FlowOf game_packet) (marshal (frame_new 1 5 game_packet))])"
  unfolding vpn_packet_def plain_uplink_def fresh_uplink_def
  by (simp add: game_packet_parsed game_packet_quiet vpn_forward_def Let_def)

theorem vpn_uplink_witness:
  "\<exists>u' k wire f. vpn_packet (\<lambda>_. None) (\<lambda>_. False) plain_uplink 5 game_packet = Some (u', [ToVPN k wire]) \<and>
     read_frame (wire, EOF) = Inr (f, [], EOF) \<and>
     vpn_frame [10, 66, 0, 2] (vpn_start\<lparr>peers := fmupd 3 alice fmempty\<rparr>) 3 f 6 [] =
       (vpn_start\<lparr>peers := fmupd 3 alice fmempty\<rparr>, [TunWrite (replicate 10 0 @ game_packet)])"
proof -
  have "split_ok plain_uplink" "length game_packet \<le> MaxPayload" "game_packet \<noteq> []"
    "fmlookup (peers (vpn_start\<lparr>peers := fmupd 3 alice fmempty\<rparr>)) 3 \<noteq> None"
    using game_packet_parsed(2) by (auto simp: split_ok_def plain_uplink_def MaxPayload_def)
  from vpn_uplink [OF game_packet_forwarded this, of "[]" EOF "[10, 66, 0, 2]" 6 "[]"]
  show ?thesis using game_packet_forwarded game_packet_source by auto
qed

theorem vpn_downlink_witness:
  "\<exists>v' outs fs. tun_read (vpn_start\<lparr>currentVPN := Some 3\<rparr>) (\<lambda>_. 5) [game_packet, []] NoError = (v', outs) \<and>
     read_many read_frame (length fs) (batch_bytes (map wire_of outs), EOF) = Inr (fs, ([], EOF)) \<and> packets_of fs = [game_packet] \<and>
     concat (map (\<lambda>f. snd (serve_read (new_link 8) 8 (Some f))) fs) = [Packet game_packet]"
proof -
  obtain v' outs where t: "tun_read (vpn_start\<lparr>currentVPN := Some 3\<rparr>) (\<lambda>_. 5) [game_packet, []] NoError = (v', outs)" by force
  have s: "sendable [game_packet, []] = [game_packet]"
    using game_packet_parsed(2) by (auto simp: sendable_def MaxPayload_def)
  have c: "currentVPN (vpn_start\<lparr>currentVPN := Some 3\<rparr>) = Some 3" "8 |\<in>| openConns (new_link 8)" by (simp_all add: new_link_def)
  show ?thesis using vpn_downlink [OF t c(1), of "[]" EOF "new_link 8" 8] t c(2) by (auto simp: s)
qed

section \<open>Joining a glue session\<close>

text \<open>Client and server agree on the outcome of a path setup: the client believes it joined a session exactly
  if the server attached this connection to the session of its ID, and then both have the same
  epoch; otherwise the client gets the reason the server had, which is permanent only for a wrong
  protocol version.\<close>

theorem glue_join_in_sync:
  assumes "srv_inv g" "orders_ok os" "length sid = SessionIDSize"
    and server: "glue_setup os rnd g p conn (EncodeHello sid) = Some (g', reply, on)"
  shows "\<exists>r. joinSession (good_conn (reply @ rest, e) []) sid = (good_conn (rest, e) (EncodeHello sid), r) \<and>
     (case on of
        None \<Rightarrow> r = Inl (Refused ErrBusy) \<or> r = Inl (Refused ErrRefused)
      | Some i \<Rightarrow> i = hex_string sid \<and>
          (\<exists>s. fmlookup (sessions g') i = Some s \<and> r = Inr (epoch s) \<and> epoch s \<noteq> 0 \<and> KeyID (owner s) = KeyID p \<and>
             fmlookup (gpaths s) conn = Some None))"
proof -
  obtain g1 n st where at: "attachGluePath os rnd g (hex_string sid) p conn = Some (g1, n, st)"
    using server assms(3) by (auto simp: glue_setup_def hello_roundtrip Let_def split: option.splits)
  note st = attach_status [OF assms(1,2) at]
  show ?thesis
  proof (cases "st = StatusOK")
    case False
    then have "reply = EncodeAccept st 0" "on = None" "st = StatusBusy \<or> st = Glue.StatusRefused"
      using server assms(3) st by (auto simp: glue_setup_def hello_roundtrip Let_def at)
    then show ?thesis by (auto simp: join_good StatusOK_def StatusBusy_def Glue.StatusRefused_def)
  next
    case True
    then obtain s where s: "fmlookup (sessions g1) (hex_string sid) = Some s" "KeyID (owner s) = KeyID p"
        "fmlookup (gpaths s) conn = Some None" "epoch s \<noteq> 0"
      using st by (auto simp: joined_def StatusOK_def StatusBusy_def Glue.StatusRefused_def)
    then have "g' = g1" "reply = EncodeAccept StatusOK (epoch s)" "on = Some (hex_string sid)"
      using server assms(3) True by (auto simp: glue_setup_def hello_roundtrip Let_def at)
    then show ?thesis using s by (simp add: join_good)
  qed
qed

theorem glue_join_in_sync_witness:
  "\<exists>g' reply s. glue_setup sorted_orders (\<lambda>_. 1) empty_server alice 7 (EncodeHello (replicate SessionIDSize 0)) = Some (g', reply, Some sid0) \<and>
     fmlookup (sessions g') sid0 = Some s \<and>
     joinSession (good_conn (reply, EOF) []) (replicate SessionIDSize 0) =
       (good_conn ([], EOF) (EncodeHello (replicate SessionIDSize 0)), Inr (epoch s))"
proof -
  obtain g' reply where g: "glue_setup sorted_orders (\<lambda>_. 1) empty_server alice 7 (EncodeHello (replicate SessionIDSize 0)) =
      Some (g', reply, Some sid0)"
    by (simp add: glue_setup_def sid0_bytes attach_empty Let_def hello_roundtrip)
  show ?thesis
    using glue_join_in_sync [OF empty_server_inv sorted_orders_ok _ g, of "[]" EOF] g by (auto simp: sid0_bytes)
qed

section \<open>Keepalives\<close>

lemma keepalive_answered:
  assumes "vpn_keepalive u now = (u', [ToVPN k wire])" "fmlookup (peers v) c \<noteq> None"
    and "vpn_frame clientIP v c (fst (projr (read_frame (wire, e)))) now2 buf = (v', [Enq c' k' wire'])"
  shows "k = k' \<and> c' = c \<and> snd (serve_read l d (Some (fst (projr (read_frame (wire', e)))))) = []"
  using assms by (auto simp: vpn_keepalive_def vpn_frame_def nextVPNSeq_def Let_def read_one keepaliveKey_def keepaliveFlow_def serve_read_def
      split: prod.splits)

end
