(* ===== verification/ServerMain.thy ===== *)
theory ServerMain
  imports Startup VpnSetup GlueServer DropChannel Bans Quota
begin

text \<open>
  cmd/server/main.go and \<^verbatim>\<open>setupVPNTun\<close> of cmd/server/vpn_setup.go: starting the server with everything checked and
  every listener open before the firewall is touched, accepting connections with one limit for all
  channels, the janitor, and stopping. The commands the server runs, the TUN device, the files and
  the listeners are arguments: what \<^verbatim>\<open>runCmd\<close> does to the system (\<open>cmd\<close>) and what opening a thing gave.
\<close>

section \<open>The TUN and its firewall\<close>

text \<open>\<open>Inl\<close> is the error of a command, \<open>Inr\<close> its output.\<close>

type_synonym 's runner = "'s \<Rightarrow> string list \<Rightarrow> 's \<times> (string + string)"

definition ran :: "'s runner \<Rightarrow> 's \<Rightarrow> string list \<Rightarrow> 's \<times> bool" where
  "ran cmd s as = (case cmd s as of (s', r) \<Rightarrow> (s', case r of Inl _ \<Rightarrow> False | Inr _ \<Rightarrow> True))"

definition detect_egress :: "'s runner \<Rightarrow> 's \<Rightarrow> 's \<times> string option" where
  "detect_egress cmd s =
     (case cmd s [''ip'', ''route'', ''get'', ''8.8.8.8''] of (s', out) \<Rightarrow> (s', detectEgressIface out))"

definition detect_iptables :: "'s runner \<Rightarrow> 's \<Rightarrow> 's \<times> string" where
  "detect_iptables cmd s =
     (case cmd s [''iptables-legacy-save''] of
        (s1, legacy) \<Rightarrow> (case cmd s1 [''iptables-nft-save''] of (s2, nft) \<Rightarrow> (s2, detectIptables legacy nft)))"

record vpnSetup =
  vs_tunName :: string
  vs_mtu :: int
  vs_subnet :: string
  vs_egressIface :: string
  vs_allowPrivate :: bool
  vs_publicIPs :: "ip list"

text \<open>The host: the state of the system the commands work on, and the open TUN devices.\<close>

record 's host =
  sys :: 's
  devs :: "nat fset"

datatype setup_error =
    BadSubnet subnet_error | CreateTUN string | AddrAdd string | LinkUp string | ReadForward string | ForwardOff
  | NoEgress | IptablesSetup fwRule

text \<open>\<^verbatim>\<open>Mask.Size\<close> of a contiguous mask, and \<^verbatim>\<open>IPNet.String\<close>.\<close>

definition mask_ones :: "bytes \<Rightarrow> nat" where
  "mask_ones m = sum_list (map (\<lambda>b. length (filter (bit b) [0..<8])) m)"

definition net_string :: "ipnet \<Rightarrow> string" where
  "net_string n = ip_string (net_ip n) @ ''/'' @ itoa (mask_ones (net_mask n))"

definition close_dev :: "nat \<Rightarrow> 's host \<Rightarrow> 's host" where
  "close_dev dev h = h\<lparr>devs := devs h |-| {|dev|}\<rparr>"

text \<open>\<open>tun\<close> is what \<^verbatim>\<open>CreateTUN\<close> gave, a device and its name; \<open>forward\<close> reads the \<^verbatim>\<open>ip_forward\<close> file.\<close>

definition setupVPNTun ::
  "'s runner \<Rightarrow> string + (nat \<times> string) \<Rightarrow> ('s \<Rightarrow> string + string) \<Rightarrow> vpnSetup \<Rightarrow> 's host \<Rightarrow>
     's host \<times> (setup_error + (nat \<times> vpnNet \<times> firewall))" where
  "setupVPNTun cmd tun forward c h =
     (case parseVPNSubnet (vs_subnet c) of
        Inl e \<Rightarrow> (h, Inl (BadSubnet e))
      | Inr n \<Rightarrow>
          (case tun of
             Inl e \<Rightarrow> (h, Inl (CreateTUN e))
           | Inr (dev, actualName) \<Rightarrow>
               let ones = mask_ones (net_mask (vn_subnet n));
                   h1 = h\<lparr>devs := finsert dev (devs h)\<rparr>;
                   fail = (\<lambda>s e. (close_dev dev (h1\<lparr>sys := s\<rparr>), Inl e))
               in (case cmd (sys h1) [''ip'', ''addr'', ''add'', ip_string (serverIP n) @ ''/'' @ itoa ones, ''dev'', actualName] of
                     (s1, Inl e) \<Rightarrow> fail s1 (AddrAdd e)
                   | (s1, Inr _) \<Rightarrow>
                       (case cmd s1 [''ip'', ''link'', ''set'', ''dev'', actualName, ''up''] of
                          (s2, Inl e) \<Rightarrow> fail s2 (LinkUp e)
                        | (s2, Inr _) \<Rightarrow>
                            (case forward s2 of
                               Inl e \<Rightarrow> fail s2 (ReadForward e)
                             | Inr cur \<Rightarrow>
                                 if trim_space cur \<noteq> ''1'' then fail s2 ForwardOff
                                 else
                                   (case (if vs_egressIface c = '''' then detect_egress cmd s2 else (s2, Some (vs_egressIface c))) of
                                      (s3, None) \<Rightarrow> fail s3 NoEgress
                                    | (s3, Some egressIface) \<Rightarrow>
                                        (case detect_iptables cmd s3 of
                                           (s4, bin) \<Rightarrow>
                                             (case newVPNFirewall (ran cmd) s4 bin (net_string (vn_subnet n)) egressIface actualName
                                                (vs_allowPrivate c) (vs_publicIPs c) of
                                                (s5, fw) \<Rightarrow>
                                                  (case fw_apply (ran cmd) fw s5 of
                                                     (s6, Some r) \<Rightarrow> fail s6 (IptablesSetup r)
                                                   | (s6, None) \<Rightarrow> (h1\<lparr>sys := s6\<rparr>, Inr (dev, n, fw)))))))))))"

text \<open>The function \<^verbatim>\<open>cleanup\<close> it returns.\<close>

definition vpn_cleanup :: "'s runner \<Rightarrow> nat \<times> vpnNet \<times> firewall \<Rightarrow> 's host \<Rightarrow> 's host" where
  "vpn_cleanup cmd up h =
     (case up of (dev, n, fw) \<Rightarrow> close_dev dev (h\<lparr>sys := fw_remove (ran cmd) fw (sys h)\<rparr>))"

text \<open>
  What is relied on of the commands: the host uses the iptables backend \<open>bin\<close>; it works as
  documented (\<open>iptables_ok\<close>); \<^verbatim>\<open>ip\<close>, the save commands and listing a chain leave its rules alone.
\<close>

definition commands_ok :: "'s runner \<Rightarrow> string \<Rightarrow> ('s \<Rightarrow> string \<times> string \<Rightarrow> string list list) \<Rightarrow> bool" where
  "commands_ok cmd bin view \<longleftrightarrow>
     iptables_ok (ran cmd) bin view \<and>
     (\<forall>s. snd (detect_iptables cmd s) = bin) \<and>
     (\<forall>s as. as \<noteq> [] \<longrightarrow> hd as \<in> {''ip'', ''iptables-legacy-save'', ''iptables-nft-save''} \<longrightarrow> view (fst (cmd s as)) = view s) \<and>
     (\<forall>s. view (fst (cmd s [bin, ''-w'', ''10'', ''-S'', ''DOCKER-USER''])) = view s)"

text \<open>No rule mentions the device or the subnet of the tunnel.\<close>

definition unmentioned :: "string \<Rightarrow> string \<Rightarrow> (string \<times> string \<Rightarrow> string list list) \<Rightarrow> bool" where
  "unmentioned dev subnet base \<longleftrightarrow> (\<forall>l. \<forall>spec\<in>set (base l). dev \<notin> set spec \<and> subnet \<notin> set spec)"

definition distinct_ips :: "ip list \<Rightarrow> bool" where
  "distinct_ips ips \<longleftrightarrow> distinct (map ip_string (filter (\<lambda>a. To4 a \<noteq> []) ips))"

lemma commands_okD:
  assumes "commands_ok cmd bin view"
  shows "iptables_ok (ran cmd) bin view" "snd (detect_iptables cmd s) = bin"
    "view (fst (cmd s (''ip'' # as))) = view s" "view (fst (cmd s [''iptables-legacy-save''])) = view s"
    "view (fst (cmd s [''iptables-nft-save''])) = view s"
    "view (fst (cmd s [bin, ''-w'', ''10'', ''-S'', ''DOCKER-USER''])) = view s"
  using assms by (simp_all add: commands_ok_def)

lemma ran_fst [simp]: "fst (ran cmd s as) = fst (cmd s as)"
  by (simp add: ran_def split: prod.splits)

lemma detect_keeps:
  assumes "commands_ok cmd bin view"
  shows "view (fst (detect_iptables cmd s)) = view s" "view (fst (detect_egress cmd s)) = view s"
  using commands_okD(4) [OF assms, of s] commands_okD(5) [OF assms, of "fst (cmd s [''iptables-legacy-save''])"]
    commands_okD(3) [OF assms, of s]
  by (simp_all add: detect_iptables_def detect_egress_def case_prod_beta)

lemma delete_stale:
  assumes "iptables_ok run bin view" "\<And>r. r \<in> set rs \<Longrightarrow> fw_spec r \<notin> set (view s (loc r))"
  shows "view (delete_rules run bin s rs) = view s"
  using assms(2)
proof (induction rs arbitrary: s)
  case (Cons r rs)
  define s1 where "s1 = fst (fw_run run bin s (args r ''-D''))"
  have "view s1 = (view s)(loc r := remove1 (fw_spec r) (view s (loc r)))"
    using assms(1) unfolding iptables_ok_def s1_def by blast
  then have v: "view s1 = view s" using Cons.prems [of r] by (simp add: remove1_idem)
  have "view (delete_rules run bin s1 rs) = view s1" by (rule Cons.IH) (use Cons.prems v in auto)
  then show ?case using v by (simp add: delete_rules_def s1_def)
qed (simp add: delete_rules_def)

text \<open>Applying the firewall of a fresh device.\<close>

lemma apply_fresh:
  assumes ok: "iptables_ok run bin view" and f: "f = firewall_of docker bin subnet egressIface dev allowPrivate ips"
    and ips: "distinct_ips ips" and un: "unmentioned dev subnet (view s)" and a: "fw_apply run f s = (s', res)"
  shows "case res of
     Some r \<Rightarrow> view s' = view s
   | None \<Rightarrow> (\<exists>P. (\<forall>r\<in>set (fw_rules f). \<not> fw_optional r \<longrightarrow> P r) \<and> installed view (view s) (filter P (fw_rules f)) s') \<and>
       view (fw_remove run f s') = view s"
proof -
  have bin: "fw_bin f = bin" by (simp add: f firewall_of_bin)
  have sep: "separate (fw_rules f)" unfolding f using ips by (intro separate_firewall) (simp add: distinct_ips_def)
  have "fw_spec r \<notin> set (view s (loc r))" if "r \<in> set (fw_rules f) \<union> set (fw_stale f)" for r
    using rules_name_device [OF that [unfolded f]] un unfolding unmentioned_def by blast
  then have ab: "absent (view s) (fw_rules f)" and st: "view (delete_rules run bin s (fw_stale f)) = view s"
    using delete_stale [OF ok] by (auto simp: absent_def)
  have "absent (view (delete_rules run (fw_bin f) s (fw_stale f))) (fw_rules f)" using ab st bin by simp
  note res = apply_installed [OF ok [folded bin] sep refl this a, unfolded bin st]
  show ?thesis
  proof (cases res)
    case None
    then obtain P where P: "\<forall>r\<in>set (fw_rules f). \<not> fw_optional r \<longrightarrow> P r" "installed view (view s) (filter P (fw_rules f)) s'"
      using res by auto
    from remove_restores [OF ok [folded bin] sep ab P(2)] P show ?thesis using None by auto
  qed (use res in simp)
qed

lemma step_keeps:
  assumes "commands_ok cmd bin view"
  shows "cmd s (''ip'' # as) = (s', r) \<Longrightarrow> view s' = view s"
    "(if iface = '''' then detect_egress cmd s else (s, Some iface)) = (s', r') \<Longrightarrow> view s' = view s"
    "detect_iptables cmd s = (s', b) \<Longrightarrow> view s' = view s \<and> b = bin"
    "newVPNFirewall (ran cmd) s bin subnet egressIface dev allowPrivate ips = (s', fw) \<Longrightarrow>
       view s' = view s \<and> (\<exists>docker. fw = firewall_of docker bin subnet egressIface dev allowPrivate ips)"
proof -
  show "cmd s (''ip'' # as) = (s', r) \<Longrightarrow> view s' = view s" using commands_okD(3) [OF assms, of s as] by simp
  show "(if iface = '''' then detect_egress cmd s else (s, Some iface)) = (s', r') \<Longrightarrow> view s' = view s"
    using detect_keeps(2) [OF assms, of s] by (auto split: if_splits)
  show "detect_iptables cmd s = (s', b) \<Longrightarrow> view s' = view s \<and> b = bin"
    using detect_keeps(1) [OF assms, of s] commands_okD(2) [OF assms, of s] by simp
  show "newVPNFirewall (ran cmd) s bin subnet egressIface dev allowPrivate ips = (s', fw) \<Longrightarrow>
       view s' = view s \<and> (\<exists>docker. fw = firewall_of docker bin subnet egressIface dev allowPrivate ips)"
    using commands_okD(6) [OF assms, of s] ran_fst [of cmd s "[bin, ''-w'', ''10'', ''-S'', ''DOCKER-USER'']"]
    by (cases "ran cmd s [bin, ''-w'', ''10'', ''-S'', ''DOCKER-USER'']") (auto simp: newVPNFirewall_def fw_run_def)
qed

text \<open>How far the setup came: it failed before the firewall, or the firewall was applied.\<close>

lemma setup_outcome:
  assumes ok: "commands_ok cmd bin view" and s: "setupVPNTun cmd tun forward c h = (h', r)"
    and dev: "\<forall>dev name. tun = Inr (dev, name) \<longrightarrow> dev |\<notin>| devs h"
  shows "(\<exists>e. r = Inl e \<and> devs h' = devs h \<and> view (sys h') = view (sys h)) \<or>
     (\<exists>dev name n docker egressIface fw s5 s6 res.
        tun = Inr (dev, name) \<and> parseVPNSubnet (vs_subnet c) = Inr n \<and>
        fw = firewall_of docker bin (net_string (vn_subnet n)) egressIface name (vs_allowPrivate c) (vs_publicIPs c) \<and>
        view s5 = view (sys h) \<and> fw_apply (ran cmd) fw s5 = (s6, res) \<and> sys h' = s6 \<and>
        (case res of Some e \<Rightarrow> r = Inl (IptablesSetup e) \<and> devs h' = devs h
         | None \<Rightarrow> r = Inr (dev, n, fw) \<and> devs h' = finsert dev (devs h)))"
proof (cases "parseVPNSubnet (vs_subnet c)")
  case n: (Inr n)
  show ?thesis
  proof (cases tun)
    case (Inr d)
    then obtain dev name where d: "tun = Inr (dev, name)" by (cases d) auto
    have nd: "dev |\<notin>| devs h" using dev d by blast
    then have dd: "finsert dev (devs h) |-| {|dev|} = devs h" "devs h |-| {|dev|} = devs h" by auto
    obtain s1 r1 where c1: "cmd (sys h) [''ip'', ''addr'', ''add'', ip_string (serverIP n) @ CHR ''/'' # itoa (mask_ones (net_mask (vn_subnet n))),
        ''dev'', name] = (s1, r1)" by force
    obtain s2 r2 where c2: "cmd s1 [''ip'', ''link'', ''set'', ''dev'', name, ''up''] = (s2, r2)" by force
    obtain s3 r3 where c3: "(if vs_egressIface c = '''' then detect_egress cmd s2 else (s2, Some (vs_egressIface c))) = (s3, r3)" by force
    obtain s4 b where c4: "detect_iptables cmd s3 = (s4, b)" by force
    note v = step_keeps(1) [OF ok c1] step_keeps(1) [OF ok c2] step_keeps(2) [OF ok c3] step_keeps(3) [OF ok c4]
    show ?thesis
    proof (cases "isl r1 \<or> isl r2 \<or> isl (forward s2) \<or> trim_space (projr (forward s2)) \<noteq> ''1'' \<or> r3 = None")
      case True
      have "(\<exists>e. r = Inl e) \<and> devs h' = devs h \<and> (sys h' = s1 \<or> sys h' = s2 \<or> sys h' = s3)"
        using s True
        by (cases r1; cases r2; cases "forward s2"; cases r3) (auto simp: setupVPNTun_def n d c1 c2 c3 close_dev_def dd Let_def split: if_splits)
      then show ?thesis using v by auto
    next
      case False
      then obtain egressIface where e: "r3 = Some egressIface" by auto
      obtain s5 fw where c5: "newVPNFirewall (ran cmd) s4 bin (net_string (vn_subnet n)) egressIface name (vs_allowPrivate c) (vs_publicIPs c) = (s5, fw)"
        by force
      obtain s6 res where c6: "fw_apply (ran cmd) fw s5 = (s6, res)" by force
      obtain o1 o2 o3 where o: "r1 = Inr o1" "r2 = Inr o2" "forward s2 = Inr o3" "trim_space o3 = ''1''"
        using False by (cases r1; cases r2; cases "forward s2") auto
      have "(h', r) = (case res of Some x \<Rightarrow> (close_dev dev (h\<lparr>devs := finsert dev (devs h), sys := s6\<rparr>), Inl (IptablesSetup x))
          | None \<Rightarrow> (h\<lparr>devs := finsert dev (devs h), sys := s6\<rparr>, Inr (dev, n, fw)))"
        unfolding s [symmetric] setupVPNTun_def n d Let_def
        using v(4) c5 by (simp add: c1 o c2 c3 e c4 c6 split: option.splits)
      then have out: "sys h' = s6" "case res of Some x \<Rightarrow> r = Inl (IptablesSetup x) \<and> devs h' = devs h
          | None \<Rightarrow> r = Inr (dev, n, fw) \<and> devs h' = finsert dev (devs h)"
        using dd by (auto simp: close_dev_def split: option.splits)
      from step_keeps(4) [OF ok c5] obtain docker
        where fw: "fw = firewall_of docker bin (net_string (vn_subnet n)) egressIface name (vs_allowPrivate c) (vs_publicIPs c)"
          and v5: "view s5 = view (sys h)"
        using v by auto
      show ?thesis by (intro disjI2 exI conjI) (fact d n fw v5 c6 out)+
    qed
  qed (use s in \<open>auto simp: setupVPNTun_def n\<close>)
qed (use s in \<open>auto simp: setupVPNTun_def\<close>)

lemma vpn_setup_result:
  assumes ok: "commands_ok cmd bin view" and ips: "distinct_ips (vs_publicIPs c)"
    and fresh: "\<And>dev name n. tun = Inr (dev, name) \<Longrightarrow> parseVPNSubnet (vs_subnet c) = Inr n \<Longrightarrow>
       dev |\<notin>| devs h \<and> unmentioned name (net_string (vn_subnet n)) (view (sys h))"
    and s: "setupVPNTun cmd tun forward c h = (h', r)"
  shows "case r of
     Inl e \<Rightarrow> devs h' = devs h \<and> view (sys h') = view (sys h)
   | Inr up \<Rightarrow> (\<exists>name docker egressIface. tun = Inr (fst up, name) \<and> parseVPNSubnet (vs_subnet c) = Inr (fst (snd up)) \<and>
         snd (snd up) = firewall_of docker bin (net_string (vn_subnet (fst (snd up)))) egressIface name (vs_allowPrivate c) (vs_publicIPs c) \<and>
         view (sys h') (''filter'', ''FORWARD'') =
           map fw_spec (chain_rules name (vs_allowPrivate c) (vs_publicIPs c) ''FORWARD'') @ view (sys h) (''filter'', ''FORWARD'') \<and>
         view (sys h') (''filter'', ''INPUT'') = [''-i'', name, ''-j'', ''DROP''] # view (sys h) (''filter'', ''INPUT'')) \<and>
       devs h' = finsert (fst up) (devs h) \<and>
       devs (vpn_cleanup cmd up h') = devs h \<and> view (sys (vpn_cleanup cmd up h')) = view (sys h)"
proof (cases "parseVPNSubnet (vs_subnet c)")
  case (Inl e)
  then show ?thesis using s by (auto simp: setupVPNTun_def)
next
  case n: (Inr n)
  have "\<forall>dev name. tun = Inr (dev, name) \<longrightarrow> dev |\<notin>| devs h" using fresh [OF _ n] by blast
  from setup_outcome [OF ok s this] show ?thesis
  proof (elim disjE exE conjE)
    fix dev name n' docker egressIface fw s5 s6 res
    assume a: "tun = Inr (dev, name)" "parseVPNSubnet (vs_subnet c) = Inr n'"
        "fw = firewall_of docker bin (net_string (vn_subnet n')) egressIface name (vs_allowPrivate c) (vs_publicIPs c)"
        "view s5 = view (sys h)" "fw_apply (ran cmd) fw s5 = (s6, res)" "sys h' = s6"
        "case res of Some e \<Rightarrow> r = Inl (IptablesSetup e) \<and> devs h' = devs h
         | None \<Rightarrow> r = Inr (dev, n', fw) \<and> devs h' = finsert dev (devs h)"
    have f: "dev |\<notin>| devs h" "unmentioned name (net_string (vn_subnet n')) (view s5)"
      using fresh [OF a(1,2)] a(4) by simp_all
    from apply_fresh [OF commands_okD(1) [OF ok] a(3) ips f(2) a(5)] show ?thesis
    proof (cases res)
      case None
      note ap = apply_fresh [OF commands_okD(1) [OF ok] a(3) ips f(2) a(5), unfolded None option.case]
      obtain P where P: "\<forall>r\<in>set (fw_rules fw). \<not> fw_optional r \<longrightarrow> P r" "installed view (view s5) (filter P (fw_rules fw)) s6"
        using ap by blast
      note iv = installed_view [OF a(3) P]
      have c: "devs (vpn_cleanup cmd (dev, n', fw) h') = devs h" "view (sys (vpn_cleanup cmd (dev, n', fw) h')) = view (sys h)"
        using a(4,6,7) ap None f(1) by (auto simp: vpn_cleanup_def close_dev_def)
      show ?thesis using a c iv None by auto
    qed (use a in simp)
  qed auto
qed

section \<open>The configuration\<close>

record Config =
  Addr :: string
  DropAddr :: string
  GlueAddr :: string
  VPNAddr :: string
  VPNTunName :: string
  VPNTunMTU :: int
  VPNSubnet :: string
  EgressIface :: string
  Cert :: string
  KeyFile :: string
  AuthorizedKeysFile :: string
  VPNDownMbps :: real
  AllowPrivateDestinations :: bool
  PublicIPs :: "string list"

definition no_config :: Config where
  "no_config =
     \<lparr>Addr = '''', DropAddr = '''', GlueAddr = '''', VPNAddr = '''', VPNTunName = '''', VPNTunMTU = 0, VPNSubnet = '''', EgressIface = '''',
      Cert = '''', KeyFile = '''', AuthorizedKeysFile = '''', VPNDownMbps = 0, AllowPrivateDestinations = False, PublicIPs = []\<rparr>"

definition channelOff :: string where "channelOff = ''off''"

text \<open>The flags given on the command line, and the settings in force: a flag, else the file, else the default.\<close>

record flags =
  fl_text :: "string \<Rightarrow> string option"
  fl_mtu :: "int option"
  fl_rate :: "real option"
  fl_private :: "bool option"
  allowUnauth :: bool

record settings =
  addr :: string
  dropAddr :: string
  glueAddr :: string
  vpnAddr :: string
  vpnTunName :: string
  vpnTunMTU :: int
  vpnSubnet :: string
  egressIface :: string
  cert :: string
  key :: string
  authorizedKeysFile :: string
  vpnDownRate :: real
  allowPrivate :: bool
  publicIPs :: string

definition given :: "'a option \<Rightarrow> 'a \<Rightarrow> 'a" where
  "given flag dflt = (case flag of Some v \<Rightarrow> v | None \<Rightarrow> dflt)"

definition settings_of :: "Config \<Rightarrow> flags \<Rightarrow> settings" where
  "settings_of cfg fl =
     \<lparr>addr = given (fl_text fl ''addr'') (Str (Addr cfg) '':8443''),
      dropAddr = given (fl_text fl ''drop-addr'') (Str (DropAddr cfg) channelOff),
      glueAddr = given (fl_text fl ''glue-addr'') (Str (GlueAddr cfg) '':8446''),
      vpnAddr = given (fl_text fl ''vpn-addr'') (Str (VPNAddr cfg) '':8447''),
      vpnTunName = given (fl_text fl ''vpn-tun-name'') (Str (VPNTunName cfg) ''dormvpn0''),
      vpnTunMTU = given (fl_mtu fl) (cfg_Int (VPNTunMTU cfg) 1400),
      vpnSubnet = given (fl_text fl ''vpn-subnet'') (Str (VPNSubnet cfg) ''10.66.0.0/24''),
      egressIface = given (fl_text fl ''egress-iface'') (EgressIface cfg),
      cert = given (fl_text fl ''cert'') (Str (Cert cfg) ''devcerts/dev.crt''),
      key = given (fl_text fl ''key'') (Str (KeyFile cfg) ''devcerts/dev.key''),
      authorizedKeysFile = given (fl_text fl ''authorized-keys-file'') (AuthorizedKeysFile cfg),
      vpnDownRate = given (fl_rate fl) (VPNDownMbps cfg),
      allowPrivate = given (fl_private fl) (AllowPrivateDestinations cfg),
      publicIPs = given (fl_text fl ''public-ips'') (join_with '','' (PublicIPs cfg))\<rparr>"

section \<open>Starting and stopping\<close>

text \<open>
  What the world answers. \<open>listen_error\<close> tells whether listening on an address fails, given the addresses the
  server already listens on.
\<close>

record 's world =
  read_config :: "string \<Rightarrow> file_read"
  decode_config :: "string \<Rightarrow> string + Config"
  missing :: "string \<Rightarrow> bool"
  read_keys :: "string \<Rightarrow> string + (string + AuthorizedEntry list)"
  interface_addrs :: "string + ip option list"
  listen_error :: "string list \<Rightarrow> string \<Rightarrow> string option"
  create_tun :: "string \<Rightarrow> int \<Rightarrow> string + (nat \<times> string)"
  ip_forward :: "'s \<Rightarrow> string + string"
  cmd :: "'s runner"

datatype server_fatal =
    LoadConfig load_error | CertMissing string | LoadKeys auth_error | NoKeysFile | EgressPolicy egress_error
  | BadPublicIP string | ListenFailed string string | AllOff | TunSetup setup_error

definition checkCertFiles :: "(string \<Rightarrow> bool) \<Rightarrow> string list \<Rightarrow> string option" where
  "checkCertFiles gone files = find gone files"

definition choose_auth :: "(string \<Rightarrow> string + (string + AuthorizedEntry list)) \<Rightarrow> string \<Rightarrow> bool \<Rightarrow> server_fatal + (bytes, string) fmap option" where
  "choose_auth read file unauth =
     (if file \<noteq> '''' then (case LoadAuthorizedKeys (read file) of Inl e \<Rightarrow> Inl (LoadKeys e) | Inr keys \<Rightarrow> Inr (Some keys))
      else if unauth then Inr None
      else Inl NoKeysFile)"

definition egress_setup :: "bool \<Rightarrow> string + ip option list \<Rightarrow> string \<Rightarrow> server_fatal + (policy \<times> ip list)" where
  "egress_setup allow addrs ips =
     (case New allow addrs of
        Inl e \<Rightarrow> Inl (EgressPolicy e)
      | Inr p \<Rightarrow>
          (case parseIPList ips of
             Inl part \<Rightarrow> Inl (BadPublicIP part)
           | Inr ownIPs \<Rightarrow> Inr (if ownIPs \<noteq> [] then AddOwn p ownIPs else p, ownIPs)))"

text \<open>The names of the channels that listen, in the order they are opened.\<close>

fun listen_all :: "(string list \<Rightarrow> string \<Rightarrow> string option) \<Rightarrow> string list \<Rightarrow> (string \<times> string) list \<Rightarrow> server_fatal + string list" where
  "listen_all bnd taken [] = Inr []"
| "listen_all bnd taken ((name, a) # cs) =
     (if a = channelOff then listen_all bnd taken cs
      else
        (case bnd taken a of
           Some e \<Rightarrow> Inl (ListenFailed name e)
         | None \<Rightarrow> (case listen_all bnd (taken @ [a]) cs of Inl e \<Rightarrow> Inl e | Inr names \<Rightarrow> Inr (name # names))))"

definition channel_addrs :: "settings \<Rightarrow> (string \<times> string) list" where
  "channel_addrs st = [(''reliable'', addr st), (''droppable'', dropAddr st), (''glue'', glueAddr st), (''vpn'', vpnAddr st)]"

record running =
  authorizedKeys :: "(bytes, string) fmap option"
  destinations :: policy
  channels :: "string list"
  vpn_up :: "(nat \<times> vpnNet \<times> firewall) option"

definition vpn_setup_of :: "settings \<Rightarrow> ip list \<Rightarrow> vpnSetup" where
  "vpn_setup_of st ownIPs =
     \<lparr>vs_tunName = vpnTunName st, vs_mtu = vpnTunMTU st, vs_subnet = vpnSubnet st, vs_egressIface = egressIface st,
      vs_allowPrivate = allowPrivate st, vs_publicIPs = ownIPs\<rparr>"

definition server_config :: "'s world \<Rightarrow> string list \<Rightarrow> load_error + (bool \<times> Config)" where
  "server_config w argv =
     (let p = FindFlag argv ''config''
      in Load (decode_config w) no_config (read_config w (if p = '''' then ''server-config.json'' else p)))"

text \<open>\<^verbatim>\<open>main\<close> after the flags are parsed, up to the accept loops.\<close>

definition server_start :: "'s world \<Rightarrow> settings \<Rightarrow> bool \<Rightarrow> 's host \<Rightarrow> 's host \<times> (server_fatal + running)" where
  "server_start w st unauth h =
     (case checkCertFiles (missing w) [cert st, key st] of
        Some f \<Rightarrow> (h, Inl (CertMissing f))
      | None \<Rightarrow>
          (case choose_auth (read_keys w) (authorizedKeysFile st) unauth of
             Inl e \<Rightarrow> (h, Inl e)
           | Inr keys \<Rightarrow>
               (case egress_setup (allowPrivate st) (interface_addrs w) (publicIPs st) of
                  Inl e \<Rightarrow> (h, Inl e)
                | Inr (pol, ownIPs) \<Rightarrow>
                    (case listen_all (listen_error w) [] (channel_addrs st) of
                       Inl e \<Rightarrow> (h, Inl e)
                     | Inr names \<Rightarrow>
                         if names = [] then (h, Inl AllOff)
                         else if vpnAddr st = channelOff then
                           (h, Inr \<lparr>authorizedKeys = keys, destinations = pol, channels = names, vpn_up = None\<rparr>)
                         else
                           (case setupVPNTun (cmd w) (create_tun w (vpnTunName st) (vpnTunMTU st)) (ip_forward w) (vpn_setup_of st ownIPs) h of
                              (h1, Inl e) \<Rightarrow> (h1, Inl (TunSetup e))
                            | (h1, Inr up) \<Rightarrow>
                                (h1, Inr \<lparr>authorizedKeys = keys, destinations = pol, channels = names, vpn_up = Some up\<rparr>))))))"

definition server_main :: "'s world \<Rightarrow> string list \<Rightarrow> flags \<Rightarrow> 's host \<Rightarrow> 's host \<times> (server_fatal + running)" where
  "server_main w argv fl h =
     (case server_config w argv of
        Inl e \<Rightarrow> (h, Inl (LoadConfig e))
      | Inr (found, cfg) \<Rightarrow> server_start w (settings_of cfg fl) (allowUnauth fl) h)"

text \<open>After the signal: the listeners are closed and the firewall and the device removed.\<close>

definition server_stop :: "'s world \<Rightarrow> running \<Rightarrow> 's host \<Rightarrow> 's host" where
  "server_stop w r h = (case vpn_up r of None \<Rightarrow> h | Some up \<Rightarrow> vpn_cleanup (cmd w) up h)"

lemma listen_all_names:
  "listen_all bnd taken cs = Inr names \<Longrightarrow> names = map fst (filter (\<lambda>c. snd c \<noteq> channelOff) cs)"
  by (induction bnd taken cs arbitrary: names rule: listen_all.induct) (auto split: if_splits option.splits sum.splits)

lemma start_cases:
  assumes "server_start w st unauth h = (h', Inr r)"
  shows "checkCertFiles (missing w) [cert st, key st] = None \<and>
     choose_auth (read_keys w) (authorizedKeysFile st) unauth = Inr (authorizedKeys r) \<and>
     (vpnAddr st = channelOff \<longleftrightarrow> vpn_up r = None) \<and>
     (\<exists>ownIPs. egress_setup (allowPrivate st) (interface_addrs w) (publicIPs st) = Inr (destinations r, ownIPs) \<and>
        channels r = map fst (filter (\<lambda>c. snd c \<noteq> channelOff) (channel_addrs st)) \<and> channels r \<noteq> [] \<and>
        (if vpnAddr st = channelOff then vpn_up r = None \<and> h' = h
         else \<exists>up. vpn_up r = Some up \<and>
           setupVPNTun (cmd w) (create_tun w (vpnTunName st) (vpnTunMTU st)) (ip_forward w) (vpn_setup_of st ownIPs) h = (h', Inr up)))"
  using assms listen_all_names [of "listen_error w" "[]" "channel_addrs st"] unfolding server_start_def
  by (auto split: option.splits sum.splits if_splits prod.splits)

lemma start_fails:
  assumes "server_start w st unauth h = (h', Inl e)"
  shows "h' = h \<or> (\<exists>pol ownIPs e'. egress_setup (allowPrivate st) (interface_addrs w) (publicIPs st) = Inr (pol, ownIPs) \<and>
     setupVPNTun (cmd w) (create_tun w (vpnTunName st) (vpnTunMTU st)) (ip_forward w) (vpn_setup_of st ownIPs) h = (h', Inl e'))"
  using assms unfolding server_start_def
  by (auto split: option.splits sum.splits if_splits prod.splits)

lemma New_private: "New allow addrs = Inr p \<Longrightarrow> AllowPrivate p = allow"
  by (auto simp: New_def Refresh_def Let_def split: prod.splits option.splits sum.splits if_splits)

lemma egress_setup_ok:
  assumes "egress_setup allow addrs ips = Inr (p, ownIPs)"
  shows "parseIPList ips = Inr ownIPs \<and> own p \<noteq> {||} \<and> AllowPrivate p = allow \<and>
     (\<forall>a\<in>set ownIPs. \<forall>rs. \<not> fst (Allowed (foldl (\<lambda>q r. fst (Refresh q r)) p rs) a))"
proof -
  obtain q where q: "New allow addrs = Inr q" "parseIPList ips = Inr ownIPs" "p = (if ownIPs \<noteq> [] then AddOwn q ownIPs else q)"
    using assms by (auto simp: egress_setup_def split: sum.splits)
  have "\<not> fst (Allowed (foldl (\<lambda>q r. fst (Refresh q r)) p rs) a)" if "a \<in> set ownIPs" for a rs
    using own_addresses_stay_blocked [OF that, of a q rs] q(3) that by auto
  then show ?thesis using q New_knows [OF q(1)] New_private [OF q(1)] by (auto simp: AddOwn_def)
qed

text \<open>C8. The server fails closed. If it starts, clients are checked against the keys of the configured file,
  unless no file is set and the flag for that is on the command line, so that a client is let in
  only after a handshake with one of these keys; its own addresses are known and the declared ones
  stay blocked through every refresh; some channel is on, and the vpn channel only with its firewall.\<close>

theorem server_fails_closed:
  assumes "server_config w argv = Inr (found, cfg)" "server_main w argv fl h = (h', Inr r)"
  defines "st \<equiv> settings_of cfg fl"
  shows "(case authorizedKeys r of
       None \<Rightarrow> allowUnauth fl \<and> authorizedKeysFile st = ''''
     | Some ks \<Rightarrow> LoadAuthorizedKeys (read_keys w (authorizedKeysFile st)) = Inr ks) \<and>
     (\<not> allowUnauth fl \<longrightarrow> checkAuth cr t (authorizedKeys r) rnd remote now now2 b c = (b', c', Some p) \<longrightarrow>
       (\<exists>ks. LoadAuthorizedKeys (read_keys w (authorizedKeysFile st)) = Inr ks \<and> ServerHandshake cr t ks rnd c = (c', Inr p))) \<and>
     own (destinations r) \<noteq> {||} \<and> AllowPrivate (destinations r) = allowPrivate st \<and>
     (\<exists>ips. parseIPList (publicIPs st) = Inr ips \<and>
       (\<forall>a\<in>set ips. \<not> fst (Allowed (foldl (\<lambda>q r. fst (Refresh q r)) (destinations r) rs) a))) \<and>
     channels r \<noteq> [] \<and> (''vpn'' \<in> set (channels r) \<longleftrightarrow> vpn_up r \<noteq> None)"
proof -
  have "server_start w st (allowUnauth fl) h = (h', Inr r)" using assms(1,2) by (simp add: server_main_def st_def)
  note start = start_cases [OF this]
  then have vpn: "vpnAddr st = channelOff \<longleftrightarrow> vpn_up r = None" by blast
  from start obtain ownIPs
    where auth: "choose_auth (read_keys w) (authorizedKeysFile st) (allowUnauth fl) = Inr (authorizedKeys r)"
      and eg: "egress_setup (allowPrivate st) (interface_addrs w) (publicIPs st) = Inr (destinations r, ownIPs)"
      and ch: "channels r = map fst (filter (\<lambda>c. snd c \<noteq> channelOff) (channel_addrs st))" "channels r \<noteq> []"
    by blast
  have keys: "case authorizedKeys r of
       None \<Rightarrow> allowUnauth fl \<and> authorizedKeysFile st = ''''
     | Some ks \<Rightarrow> LoadAuthorizedKeys (read_keys w (authorizedKeysFile st)) = Inr ks"
    using auth by (cases "authorizedKeys r") (auto simp: choose_auth_def split: if_splits sum.splits)
  have "\<exists>ks. LoadAuthorizedKeys (read_keys w (authorizedKeysFile st)) = Inr ks \<and> ServerHandshake cr t ks rnd c = (c', Inr p)"
    if un: "\<not> allowUnauth fl" and ca: "checkAuth cr t (authorizedKeys r) rnd remote now now2 b c = (b', c', Some p)"
  proof -
    obtain ks where "authorizedKeys r = Some ks" "LoadAuthorizedKeys (read_keys w (authorizedKeysFile st)) = Inr ks"
      using keys un by (cases "authorizedKeys r") auto
    then show ?thesis using ca
      by (auto simp: checkAuth_def Let_def split: prod.splits option.splits sum.splits)
  qed
  moreover have "''vpn'' \<in> set (channels r) \<longleftrightarrow> vpn_up r \<noteq> None"
    using ch(1) vpn by (auto simp: channel_addrs_def split: if_splits)
  ultimately show ?thesis using keys egress_setup_ok [OF eg] ch(2) by blast
qed

lemma start_tun:
  assumes "commands_ok (cmd w) bin view" "\<forall>ips. parseIPList (publicIPs st) = Inr ips \<longrightarrow> distinct_ips ips"
    and "\<forall>dev name n. create_tun w (vpnTunName st) (vpnTunMTU st) = Inr (dev, name) \<and> parseVPNSubnet (vpnSubnet st) = Inr n \<longrightarrow>
       dev |\<notin>| devs h \<and> unmentioned name (net_string (vn_subnet n)) (view (sys h))"
    and "parseIPList (publicIPs st) = Inr ips"
    and "setupVPNTun (cmd w) (create_tun w (vpnTunName st) (vpnTunMTU st)) (ip_forward w) (vpn_setup_of st ips) h = (h1, q)"
  shows "case q of
     Inl e \<Rightarrow> devs h1 = devs h \<and> view (sys h1) = view (sys h)
   | Inr up \<Rightarrow> (\<exists>name. view (sys h1) (''filter'', ''FORWARD'') =
           map fw_spec (chain_rules name (allowPrivate st) ips ''FORWARD'') @ view (sys h) (''filter'', ''FORWARD'')) \<and>
       devs (vpn_cleanup (cmd w) up h1) = devs h \<and> view (sys (vpn_cleanup (cmd w) up h1)) = view (sys h)"
proof -
  have "distinct_ips (vs_publicIPs (vpn_setup_of st ips))" using assms(2,4) by (simp add: vpn_setup_of_def)
  from vpn_setup_result [OF assms(1) this _ assms(5)] assms(3)
  show ?thesis by (cases q) (auto simp: vpn_setup_of_def)
qed


section \<open>Accepting connections\<close>

definition maxActiveConns :: nat where "maxActiveConns = 1024"

interpretation conn_slots: quota "take_slot maxActiveConns" free_slot "\<lambda>n u. n" "\<lambda>n. n" maxActiveConns maxActiveConns "\<lambda>_. True" 0
  by unfold_locales (auto simp: take_slot_def free_slot_def split: if_splits)

text \<open>
  The accept loops of all channels (by name) and the handlers they start. Connections are numbers; a
  handler returns once. The time of the last log line of a loop starts as the zero time.
\<close>

datatype accepted = NewConn nat | AcceptError | ListenerClosed

record acceptor =
  slots :: nat
  handling :: "nat fset"
  lastFullLog :: "(string, time) fmap"
  ended :: "string fset"

definition accept_start :: acceptor where
  "accept_start = \<lparr>slots = 0, handling = {||}, lastFullLog = fmempty, ended = {||}\<rparr>"

datatype accept_event = Accept string accepted time | HandlerReturned nat

datatype accept_out = Handle string nat | Refuse nat | LogFull string time | Pause

definition last_log :: "acceptor \<Rightarrow> string \<Rightarrow> time" where
  "last_log a name = (case fmlookup (lastFullLog a) name of Some t \<Rightarrow> t | None \<Rightarrow> 0)"

definition accept_step :: "acceptor \<Rightarrow> accept_event \<Rightarrow> acceptor \<times> accept_out list" where
  "accept_step a e =
     (case e of
        Accept name x now \<Rightarrow>
          if name |\<in>| ended a then (a, [])
          else
            (case x of
               ListenerClosed \<Rightarrow> (a\<lparr>ended := finsert name (ended a)\<rparr>, [])
             | AcceptError \<Rightarrow> (a, [Pause])
             | NewConn c \<Rightarrow>
                 if c |\<in>| handling a then (a, [])
                 else
                   (case take_slot maxActiveConns (slots a) () of
                      Some n \<Rightarrow> (a\<lparr>slots := n, handling := finsert c (handling a)\<rparr>, [Handle name c])
                    | None \<Rightarrow>
                        if minute < time_sub now (last_log a name) then
                          (a\<lparr>lastFullLog := fmupd name now (lastFullLog a)\<rparr>, [Refuse c, LogFull name now])
                        else (a, [Refuse c])))
      | HandlerReturned c \<Rightarrow>
          if c |\<in>| handling a then (a\<lparr>slots := free_slot (slots a) (), handling := handling a |-| {|c|}\<rparr>, []) else (a, []))"

fun accept_run :: "acceptor \<Rightarrow> accept_event list \<Rightarrow> acceptor \<times> accept_out list" where
  "accept_run a [] = (a, [])"
| "accept_run a (e # es) =
     (case accept_step a e of (a1, outs) \<Rightarrow> (case accept_run a1 es of (a2, outs2) \<Rightarrow> (a2, outs @ outs2)))"

definition log_times :: "string \<Rightarrow> accept_out list \<Rightarrow> time list" where
  "log_times name outs = List.map_filter (\<lambda>x. case x of LogFull n t \<Rightarrow> if n = name then Some t else None | _ \<Rightarrow> None) outs"

definition slots_ok :: "acceptor \<Rightarrow> bool" where
  "slots_ok a \<longleftrightarrow> conn_slots.counted (slots a, replicate_mset (fcard (handling a)) ())"

lemma slots_okD: "slots_ok a \<Longrightarrow> slots a = fcard (handling a) \<and> slots a \<le> maxActiveConns"
  by (simp add: slots_ok_def conn_slots.counted_def)

lemma accept_step_slots:
  assumes ok: "slots_ok a"
  shows "slots_ok (fst (accept_step a e))"
proof -
  have new: "slots_ok (a\<lparr>slots := n, handling := finsert c (handling a)\<rparr>)"
    if "take_slot maxActiveConns (slots a) () = Some n" "c |\<notin>| handling a" for n c
  proof -
    have "conn_slots.hold_step (slots a, replicate_mset (fcard (handling a)) ()) (True, ()) =
        (n, replicate_mset (fcard (finsert c (handling a))) ())"
      using that by (simp add: conn_slots.hold_step_def fcard_finsert_disjoint)
    then show ?thesis using conn_slots.hold_step_counted [of "(slots a, replicate_mset (fcard (handling a)) ())" "(True, ())"] ok
      by (simp add: slots_ok_def)
  qed
  have freed: "slots_ok (a\<lparr>slots := free_slot (slots a) (), handling := handling a |-| {|c|}\<rparr>)" if "c |\<in>| handling a" for c
  proof -
    have f: "fcard (handling a) = Suc (fcard (handling a |-| {|c|}))" using that by (metis fcard_Suc_fminus1)
    then have "conn_slots.hold_step (slots a, replicate_mset (fcard (handling a)) ()) (False, ()) =
        (free_slot (slots a) (), replicate_mset (fcard (handling a |-| {|c|})) ())"
      by (simp add: conn_slots.hold_step_def)
    then show ?thesis using conn_slots.hold_step_counted [of "(slots a, replicate_mset (fcard (handling a)) ())" "(False, ())"] ok
      by (simp add: slots_ok_def)
  qed
  have same: "slots_ok (a\<lparr>ended := x\<rparr>)" "slots_ok (a\<lparr>lastFullLog := y\<rparr>)" for x y using ok by (simp_all add: slots_ok_def)
  show ?thesis
    using new freed same ok by (auto simp: accept_step_def split: accept_event.splits accepted.splits option.splits)
qed

lemma accept_run_slots: "slots_ok a \<Longrightarrow> slots_ok (fst (accept_run a es))"
proof (induction es arbitrary: a)
  case (Cons e es)
  obtain a1 outs where e: "accept_step a e = (a1, outs)" by force
  then have "slots_ok (fst (accept_run a1 es))" using accept_step_slots [OF Cons.prems, of e] Cons.IH by simp
  then show ?case by (cases "accept_run a1 es") (simp add: e)
qed simp

lemma accept_step_log:
  assumes "accept_step a e = (a1, outs)"
  shows "(log_times name outs = [] \<and> last_log a1 name = last_log a name) \<or>
     (\<exists>t. log_times name outs = [t] \<and> last_log a1 name = t \<and> last_log a name + minute < t)"
  using assms by (auto simp: accept_step_def log_times_def last_log_def map_filter_simps time_sub_gt minute_def
      split: accept_event.splits accepted.splits option.splits if_splits)

lemma log_times_append: "log_times name (xs @ ys) = log_times name xs @ log_times name ys"
  by (simp add: log_times_def List.map_filter_def)

lemma accept_run_log:
  "sorted_wrt (\<lambda>t u. t + minute < u) (last_log a name # log_times name (snd (accept_run a es)))"
proof (induction es arbitrary: a)
  case Nil
  then show ?case by (simp add: log_times_def map_filter_simps)
next
  case (Cons e es)
  obtain a1 outs where e: "accept_step a e = (a1, outs)" by force
  obtain a2 outs2 where es: "accept_run a1 es = (a2, outs2)" by force
  have IH: "sorted_wrt (\<lambda>t u. t + minute < u) (last_log a1 name # log_times name outs2)" using Cons.IH [of a1] by (simp add: es)
  have "0 < minute" by (simp add: minute_def)
  from accept_step_log [OF e, of name] show ?case
  proof (elim disjE exE conjE)
    fix t
    assume t: "log_times name outs = [t]" "last_log a1 name = t" "last_log a name + minute < t"
    have "last_log a name + minute < u" if "u \<in> set (log_times name outs2)" for u
      using IH that t(2,3) \<open>0 < minute\<close> by force
    then show ?thesis using IH t by (simp add: e es log_times_append)
  qed (use IH in \<open>simp add: e es log_times_append\<close>)
qed

text \<open>All channels share one limit: however their connections arrive and end, the slots in use are exactly
  the connections with a running handler, at most \<^verbatim>\<open>maxActiveConns\<close>; a new connection is handled exactly if
  fewer are, also directly after a refusal; and a full server logs at most once a minute per channel.\<close>

theorem accept_slots_exact:
  "case accept_run accept_start es of (a, outs) \<Rightarrow>
     slots a = fcard (handling a) \<and> slots a \<le> maxActiveConns \<and>
     (Handle name c \<in> set (snd (accept_step a (Accept name (NewConn c) now)))) =
       (name |\<notin>| ended a \<and> c |\<notin>| handling a \<and> fcard (handling a) < maxActiveConns) \<and>
     sorted_wrt (\<lambda>t u. t + minute < u) (log_times name outs)"
proof -
  obtain a outs where r: "accept_run accept_start es = (a, outs)" by force
  have "slots_ok accept_start" by (simp add: slots_ok_def accept_start_def conn_slots.counted_def)
  then have "slots_ok a" using accept_run_slots [of accept_start es] by (simp add: r)
  from slots_okD [OF this] show ?thesis
    using accept_run_log [of accept_start name es]
    by (auto simp: r accept_step_def take_slot_def split: if_splits)
qed

section \<open>The janitor\<close>

text \<open>One tick, on the state of the glue and the droppable channel, the bans and the destination policy.\<close>

definition janitor ::
  "orders \<Rightarrow> ((string, time) fmap \<Rightarrow> string list) \<Rightarrow> time \<Rightarrow> string + ip option list \<Rightarrow>
     server \<times> dropChannel \<times> bans \<times> policy \<Rightarrow> server \<times> dropChannel \<times> bans \<times> policy" where
  "janitor os ord now addrs st =
     (case st of (g, d, b, p) \<Rightarrow>
        (cleanupGlue os g now, cleanupDrop d now, cleanupAuthFailures ord b now, fst (Refresh p addrs)))"

lemma janitor_keeps:
  assumes "srv_inv g" "drop_inv d" "orders_ok os" "own p \<noteq> {||}" "janitor os ord now addrs (g, d, b, p) = (g', d', b', p')"
  shows "srv_inv g' \<and> drop_inv d' \<and> own p' \<noteq> {||} \<and> extra p' = extra p \<and> AllowPrivate p' = AllowPrivate p"
proof -
  have "drop_inv (drop_step d (DropCleanup now))" using assms(2) by (rule drop_step_inv)
  moreover have "own (fst (Refresh p addrs)) \<noteq> {||} \<and> AllowPrivate (fst (Refresh p addrs)) = AllowPrivate p"
    using assms(4) by (auto simp: Refresh_def Let_def split: sum.splits if_splits)
  ultimately show ?thesis
    using assms cleanup_inv [OF assms(1,3)] refresh_keeps_extra [of p addrs] by (auto simp: janitor_def drop_step_def)
qed

section \<open>Concrete runs\<close>

text \<open>A host whose system is the rule table; every other command does nothing and succeeds.\<close>

definition table_cmd :: "(string \<times> string \<Rightarrow> string list list) runner" where
  "table_cmd s as =
     (if 3 < length as \<and> hd as = ''iptables-nft'' then
        (if as ! 3 = ''-S'' then (s, Inr '''')
         else (case table_run s as of (s', ok) \<Rightarrow> (s', if ok then Inr '''' else Inl ''failed'')))
      else (s, Inr ''''))"

definition toy_world :: "(string \<times> string \<Rightarrow> string list list) world" where
  "toy_world =
     \<lparr>read_config = \<lambda>_. FileMissing, decode_config = \<lambda>_. Inl '''', missing = \<lambda>_. False, read_keys = \<lambda>_. Inr (Inr []),
      interface_addrs = Inr [Some [203, 0, 113, 7]], listen_error = \<lambda>_ _. None, create_tun = \<lambda>name mtu. Inr (5, name),
      ip_forward = \<lambda>_. Inr ''1'', cmd = table_cmd\<rparr>"

definition toy_flags :: flags where
  "toy_flags =
     \<lparr>fl_text = map_of [(''vpn-addr'', ''off''), (''authorized-keys-file'', ''keys''), (''public-ips'', ''8.8.4.4'')],
      fl_mtu = None, fl_rate = None, fl_private = None, allowUnauth = False\<rparr>"

lemma table_cmd_ok: "commands_ok table_cmd ''iptables-nft'' (\<lambda>s. s)"
proof -
  have "fw_run (ran table_cmd) ''iptables-nft'' s (args r x) = fw_run table_run ''iptables-nft'' s (args r x)"
    if "x \<in> {''-C'', ''-A'', ''-I'', ''-D''}" for s r x
    using that by (auto simp: fw_run_def ran_def table_cmd_def args_def split: prod.splits)
  then have "iptables_ok (ran table_cmd) ''iptables-nft'' (\<lambda>s. s)"
    using table_run_ok [of "''iptables-nft''"] by (simp add: iptables_ok_def)
  moreover have "snd (detect_iptables table_cmd s) = ''iptables-nft''" for s
    by (simp add: detect_iptables_def table_cmd_def) code_simp
  ultimately show ?thesis by (auto simp: commands_ok_def table_cmd_def)
qed

definition toy_settings :: settings where "toy_settings = settings_of no_config toy_flags"

lemma toy_settings_sel:
  "addr toy_settings = '':8443''" "dropAddr toy_settings = ''off''" "glueAddr toy_settings = '':8446''" "vpnAddr toy_settings = ''off''"
  "authorizedKeysFile toy_settings = ''keys''" "allowPrivate toy_settings = False" "publicIPs toy_settings = ''8.8.4.4''"
  by (simp_all add: toy_settings_def settings_of_def toy_flags_def no_config_def given_def Str_def channelOff_def)

lemma toy_world_sel:
  "missing toy_world = (\<lambda>_. False)" "read_keys toy_world = (\<lambda>_. Inr (Inr []))" "cmd toy_world = table_cmd"
  "interface_addrs toy_world = Inr [Some [203, 0, 113, 7]]" "listen_error toy_world = (\<lambda>_ _. None)"
  "create_tun toy_world = (\<lambda>name mtu. Inr (5, name))" "ip_forward toy_world = (\<lambda>_. Inr ''1'')"
  by (simp_all add: toy_world_def)

lemma toy_ips: "parseIPList ''8.8.4.4'' = Inr [v4_prefix @ [8, 8, 4, 4]]"
  by code_simp

lemma toy_starts: "\<exists>r. server_start toy_world toy_settings False h = (h, Inr r) \<and> vpn_up r = None"
proof -
  obtain p where p: "New False (Inr [Some [203, 0, 113, 7]]) = Inr p"
    by (auto simp: New_def Refresh_def List.map_filter_def)
  have "checkCertFiles (\<lambda>_. False) [cert toy_settings, key toy_settings] = None" by (simp add: checkCertFiles_def)
  moreover have "choose_auth (\<lambda>_. Inr (Inr [])) ''keys'' False = Inr (Some fmempty)" by (simp add: choose_auth_def LoadAuthorizedKeys_def)
  moreover have "\<exists>q. egress_setup False (Inr [Some [203, 0, 113, 7]]) ''8.8.4.4'' = Inr q" by (simp add: egress_setup_def p toy_ips)
  moreover have "listen_all (\<lambda>_ _. None) [] (channel_addrs toy_settings) = Inr [''reliable'', ''glue'']"
    by (simp add: channel_addrs_def toy_settings_sel channelOff_def)
  ultimately show ?thesis by (auto simp: server_start_def toy_settings_sel toy_world_sel channelOff_def)
qed

theorem server_fails_closed_witness:
  "\<exists>h' r. server_main toy_world [] toy_flags \<lparr>sys = (\<lambda>_. []), devs = {||}\<rparr> = (h', Inr r) \<and>
     authorizedKeys r \<noteq> None \<and> channels r \<noteq> [] \<and> vpn_up r = None"
proof -
  have c: "server_config toy_world [] = Inr (False, no_config)"
    by (simp add: server_config_def toy_world_def Load_def)
  have un: "allowUnauth toy_flags = False" by (simp add: toy_flags_def)
  obtain h' r where r: "server_main toy_world [] toy_flags \<lparr>sys = (\<lambda>_. []), devs = {||}\<rparr> = (h', Inr r)" "vpn_up r = None"
    using toy_starts [of "\<lparr>sys = (\<lambda>_. []), devs = {||}\<rparr>"] by (auto simp: server_main_def c un toy_settings_def)
  note closed = server_fails_closed [OF c r(1)]
  have "authorizedKeys r \<noteq> None" using conjunct1 [OF closed] by (cases "authorizedKeys r") (simp_all add: un)
  moreover have "channels r \<noteq> []" using closed by blast
  ultimately show ?thesis using r by blast
qed


end
