(* ===== verification/ClientMain.thy ===== *)
theory ClientMain
  imports Startup Pinning ClientGlue Auth VpnSetup Streams
begin

text \<open>
  cmd/client/main.go, and how every channel of the client dials: the settings, the server addresses and the pin the
  whole run uses, the choice of the mode, \<^verbatim>\<open>dialVPN\<close>, \<^verbatim>\<open>dialSocks\<close>, \<^verbatim>\<open>dialServer\<close> and the start and end of the
  SOCKS mode. The flag package, DNS, files and the parser of durations are arguments.
\<close>

section \<open>The settings\<close>

record client_config =
  Mode :: string
  Listen :: string
  Server :: string
  DropAddr :: string
  GlueAddr :: string
  TunName :: string
  TunMTU :: int
  TunPaths :: int
  TunMeasure :: bool
  TunMeasureInterval :: string
  VPNAddr :: string
  VPNTunName :: string
  VPNTunMTU :: int
  VPNSubnet :: string
  GameProcesses :: "string list"
  GamePaths :: int
  VPNUpMbps :: real
  DropCount :: int
  DropInterval :: string
  DropPaths :: int
  cfgInsecure :: bool
  ServerPin :: string
  cfgServerName :: string
  PinFile :: string
  ClientKeyFile :: string
  ClientKey :: string

text \<open>\<^verbatim>\<open>parseDurationOr\<close>; \<open>None\<close> ends the program.\<close>

definition parseDurationOr :: "(string \<Rightarrow> duration option) \<Rightarrow> string \<Rightarrow> duration \<Rightarrow> duration option" where
  "parseDurationOr parse s fallback = (if s = '''' then Some fallback else parse s)"

text \<open>The flags given on the command line, by name.\<close>

record client_flags =
  f_text :: "string \<Rightarrow> string option"
  f_int :: "string \<Rightarrow> int option"
  f_bool :: "string \<Rightarrow> bool option"
  f_duration :: "string \<Rightarrow> duration option"
  f_rate :: "real option"

record client_settings =
  mode :: string
  listenAddr :: string
  serverAddr :: string
  dropAddr :: string
  glueAddr :: string
  tunName :: string
  tunMTU :: int
  tunPaths :: int
  tunMeasure :: bool
  tunMeasureInterval :: duration
  vpnAddr :: string
  vpnTunName :: string
  vpnTunMTU :: int
  vpnSubnet :: string
  dropCount :: int
  dropInterval :: duration
  dropPaths :: int
  insecure :: bool
  serverName :: string
  serverPin :: string
  pinFile :: string
  gameProcessesFlag :: string
  gamePaths :: int
  vpnUpMbps :: real
  clientKeyFile :: string

definition or_default :: "'a option \<Rightarrow> 'a \<Rightarrow> 'a" where
  "or_default flag dflt = (case flag of Some v \<Rightarrow> v | None \<Rightarrow> dflt)"

text \<open>\<open>None\<close> when a duration in the file cannot be read.\<close>

definition client_settings_of :: "(string \<Rightarrow> duration option) \<Rightarrow> client_config \<Rightarrow> client_flags \<Rightarrow> client_settings option" where
  "client_settings_of parse cfg fl =
     (case (parseDurationOr parse (TunMeasureInterval cfg) (33 * ms), parseDurationOr parse (DropInterval cfg) (33 * ms)) of
        (Some measure_dflt, Some drop_dflt) \<Rightarrow>
          Some \<lparr>mode = or_default (f_text fl ''mode'') (Str (Mode cfg) ''socks5''),
            listenAddr = or_default (f_text fl ''listen'') (Str (Listen cfg) ''127.0.0.1:1080''),
            serverAddr = or_default (f_text fl ''server'') (Str (Server cfg) ''127.0.0.1:8443''),
            dropAddr = or_default (f_text fl ''drop-addr'') (Str (DropAddr cfg) ''127.0.0.1:8444''),
            glueAddr = or_default (f_text fl ''glue-addr'') (Str (GlueAddr cfg) ''127.0.0.1:8446''),
            tunName = or_default (f_text fl ''tun-name'') (Str (TunName cfg) ''dormtun0''),
            tunMTU = or_default (f_int fl ''tun-mtu'') (cfg_Int (TunMTU cfg) 1420),
            tunPaths = or_default (f_int fl ''tun-paths'') (cfg_Int (TunPaths cfg) 1),
            tunMeasure = or_default (f_bool fl ''tun-measure'') (TunMeasure cfg),
            tunMeasureInterval = or_default (f_duration fl ''tun-measure-interval'') measure_dflt,
            vpnAddr = or_default (f_text fl ''vpn-addr'') (Str (VPNAddr cfg) ''127.0.0.1:8447''),
            vpnTunName = or_default (f_text fl ''vpn-tun-name'') (Str (VPNTunName cfg) ''dormvpn0''),
            vpnTunMTU = or_default (f_int fl ''vpn-tun-mtu'') (cfg_Int (VPNTunMTU cfg) 1400),
            vpnSubnet = or_default (f_text fl ''vpn-subnet'') (Str (VPNSubnet cfg) ''10.66.0.0/24''),
            dropCount = or_default (f_int fl ''drop-count'') (DropCount cfg),
            dropInterval = or_default (f_duration fl ''drop-interval'') drop_dflt,
            dropPaths = or_default (f_int fl ''drop-paths'') (cfg_Int (DropPaths cfg) 1),
            insecure = or_default (f_bool fl ''insecure'') (cfgInsecure cfg),
            serverName = or_default (f_text fl ''server-name'') (cfgServerName cfg),
            serverPin = or_default (f_text fl ''server-pin'') (ServerPin cfg),
            pinFile = or_default (f_text fl ''pin-file'') (PinFile cfg),
            gameProcessesFlag = or_default (f_text fl ''game-processes'') (join_with '','' (GameProcesses cfg)),
            gamePaths = or_default (f_int fl ''game-paths'') (cfg_Int (GamePaths cfg) 0),
            vpnUpMbps = or_default (f_rate fl) (VPNUpMbps cfg),
            clientKeyFile = or_default (f_text fl ''client-key-file'') (ClientKeyFile cfg)\<rparr>
      | _ \<Rightarrow> None)"

section \<open>What the client will do\<close>

text \<open>Where to dial and how to check the certificate there.\<close>

record target =
  t_addr :: string
  t_dc :: dialConfig

datatype client_run =
    RunTun target string int int bool duration
  | RunVPN target string int target "string list" int real
  | RunDropMultipath target int duration int
  | RunDropStress target int duration
  | RunDropTest target
  | RunSocks target string

datatype client_fatal = BadClientKey key_error | BadVPNSubnet | BadServer Startup.resolve_error | BadPin Pinning.resolve_error

definition no_endpoint :: endpoint_cfg where
  "no_endpoint = \<lparr>ep_addr = '''', ep_serverName = '''', ep_insecure = False\<rparr>"

text \<open>The endpoints: that of the mode, and that of the game channel.\<close>

definition resolve_servers ::
  "(string \<Rightarrow> string + ip list) \<Rightarrow> client_settings \<Rightarrow> string list \<Rightarrow> client_fatal + (endpoint_cfg \<times> endpoint_cfg)" where
  "resolve_servers dns st games =
     (let one = (\<lambda>r a. case endpoint dns r a (serverName st) (insecure st) of (r1, Inl e) \<Rightarrow> (r1, Inl (BadServer e)) | (r1, Inr ep) \<Rightarrow> (r1, Inr ep)) in
      if mode st = ''vpn'' then
        (case vpnAddresses (vpnSubnet st) of
           None \<Rightarrow> Inl BadVPNSubnet
         | Some _ \<Rightarrow>
             (case one fmempty (vpnAddr st) of
                (r1, Inl e) \<Rightarrow> Inl e
              | (r1, Inr srv) \<Rightarrow>
                  if games = [] then Inr (srv, no_endpoint)
                  else (case one r1 (glueAddr st) of (_, Inl e) \<Rightarrow> Inl e | (_, Inr g) \<Rightarrow> Inr (srv, g))))
      else
        (case one fmempty (if mode st = ''tun'' then glueAddr st else if mode st = ''droptest'' then dropAddr st else serverAddr st) of
           (_, Inl e) \<Rightarrow> Inl e
         | (_, Inr srv) \<Rightarrow> Inr (srv, no_endpoint)))"

definition with_pin :: "bytes option \<Rightarrow> endpoint_cfg \<Rightarrow> target" where
  "with_pin pin ep =
     \<lparr>t_addr = ep_addr ep, t_dc = \<lparr>ServerName = ep_serverName ep, Pin = pin, Insecure = ep_insecure ep\<rparr>\<rparr>"

definition choose_run :: "client_settings \<Rightarrow> string list \<Rightarrow> target \<Rightarrow> target \<Rightarrow> client_run" where
  "choose_run st games srv glueSrv =
     (if mode st = ''tun'' then RunTun srv (tunName st) (tunMTU st) (tunPaths st) (tunMeasure st) (tunMeasureInterval st)
      else if mode st = ''vpn'' then
        RunVPN srv (vpnTunName st) (vpnTunMTU st) glueSrv games (if games \<noteq> [] \<and> gamePaths st \<le> 0 then 3 else gamePaths st) (vpnUpMbps st)
      else if mode st = ''droptest'' then
        (if 0 < dropCount st \<and> 1 < dropPaths st then RunDropMultipath srv (dropCount st) (dropInterval st) (dropPaths st)
         else if 0 < dropCount st then RunDropStress srv (dropCount st) (dropInterval st)
         else RunDropTest srv)
      else RunSocks srv (listenAddr st))"

text \<open>
  \<^verbatim>\<open>main\<close> after the flags: the key, the servers, the pin, the run. \<open>env\<close> and \<open>inline\<close> are the other
  places of the key; \<open>net\<close> what the first connection with an unknown server gives, and \<open>fault\<close> where
  saving its pin fails.
\<close>

definition client_start ::
  "(bytes \<Rightarrow> bytes) \<Rightarrow> (string \<Rightarrow> string + ip list) \<Rightarrow> (string \<Rightarrow> string + string) \<Rightarrow> string \<Rightarrow> string \<Rightarrow> files \<Rightarrow> bool \<Rightarrow> string \<Rightarrow>
     tls_error + bytes list \<Rightarrow> write_fault option \<Rightarrow> client_settings \<Rightarrow> files \<times> (client_fatal + (bytes \<times> client_run))" where
  "client_start sha256 dns read env inline fs unreadable tmp net fault st =
     (case loadClientKey env (clientKeyFile st) inline read of
        Inl e \<Rightarrow> (fs, Inl (BadClientKey e))
      | Inr key \<Rightarrow>
          let games = parseGameProcesses (gameProcessesFlag st) in
          (case resolve_servers dns st games of
             Inl e \<Rightarrow> (fs, Inl e)
           | Inr (srv, glueSrv) \<Rightarrow>
               (case choose_pin sha256 fs unreadable (serverPin st) (pinFile st) tmp net fault of
                  (fs1, Inl e) \<Rightarrow> (fs1, Inl (BadPin e))
                | (fs1, Inr pin) \<Rightarrow> (fs1, Inr (key, choose_run st games (with_pin pin srv) (with_pin pin glueSrv))))))"

section \<open>Dialing a channel\<close>

datatype dial_failure = DialTLS tls_error | DialAuth auth_error | DialSmux string | DialJoin join_error

definition isPermanentDialError :: "dial_failure \<Rightarrow> bool" where
  "isPermanentDialError e \<longleftrightarrow> e = DialAuth ErrRejected \<or> e = DialTLS PinMismatch \<or> e = DialJoin (Refused ErrUnsupportedVersion)"

text \<open>
  \<open>net\<close> is what the server presents, \<open>c\<close> the connection after the TLS handshake, \<open>t\<close> its TLS state.
  The result is the connection as it is left, with its error or the open channel.
\<close>

definition dialVPN ::
  "(bytes \<Rightarrow> bytes) \<Rightarrow> (string \<Rightarrow> bytes list \<Rightarrow> bool) \<Rightarrow> crypto \<Rightarrow> target \<Rightarrow> bytes \<Rightarrow> tls_error + bytes list \<Rightarrow> tls \<Rightarrow> conn \<Rightarrow> conn \<times> dial_failure option" where
  "dialVPN sha256 verify cr srv key net t c =
     (case Dial sha256 verify (t_addr srv) (t_dc srv) net of
        Some e \<Rightarrow> (c, Some (DialTLS e))
      | None \<Rightarrow> (case ClientHandshake cr t key c of (c1, Some e) \<Rightarrow> (c1, Some (DialAuth e)) | (c1, None) \<Rightarrow> (c1, None)))"

text \<open>\<open>smux\<close> is the error of starting the multiplexer, if any.\<close>

definition dialSocks ::
  "(bytes \<Rightarrow> bytes) \<Rightarrow> (string \<Rightarrow> bytes list \<Rightarrow> bool) \<Rightarrow> crypto \<Rightarrow> target \<Rightarrow> bytes \<Rightarrow> tls_error + bytes list \<Rightarrow> tls \<Rightarrow> string option \<Rightarrow> conn \<Rightarrow>
     conn \<times> dial_failure option" where
  "dialSocks sha256 verify cr srv key net t smux c =
     (case dialVPN sha256 verify cr srv key net t c of
        (c1, Some e) \<Rightarrow> (c1, Some e)
      | (c1, None) \<Rightarrow> (c1, map_option DialSmux smux))"

definition dialServer ::
  "(bytes \<Rightarrow> bytes) \<Rightarrow> (string \<Rightarrow> bytes list \<Rightarrow> bool) \<Rightarrow> crypto \<Rightarrow> target \<Rightarrow> bytes \<Rightarrow> tls_error + bytes list \<Rightarrow> tls \<Rightarrow> bytes \<Rightarrow> conn \<Rightarrow>
     conn \<times> (dial_failure + u64)" where
  "dialServer sha256 verify cr srv key net t sid c =
     (case dialVPN sha256 verify cr srv key net t c of
        (c1, Some e) \<Rightarrow> (c1, Inl e)
      | (c1, None) \<Rightarrow> (case joinSession c1 sid of (c2, Inl e) \<Rightarrow> (c2, Inl (DialJoin e)) | (c2, Inr epoch) \<Rightarrow> (c2, Inr epoch)))"

section \<open>One identity for all channels\<close>

fun run_targets :: "client_run \<Rightarrow> target list" where
  "run_targets (RunTun s _ _ _ _ _) = [s]"
| "run_targets (RunVPN s _ _ g games _ _) = (if games = [] then [s] else [s, g])"
| "run_targets (RunDropMultipath s _ _ _) = [s]"
| "run_targets (RunDropStress s _ _) = [s]"
| "run_targets (RunDropTest s) = [s]"
| "run_targets (RunSocks s _) = [s]"

lemma run_targets_choose:
  "run_targets (choose_run st games srv g) = (if mode st = ''vpn'' \<and> games \<noteq> [] then [srv, g] else [srv])"
  by (simp add: choose_run_def)

lemma choose_pin_some:
  "choose_pin sha256 fs u sp pf tmp net fault = (fs', Inr pin) \<Longrightarrow> pin \<noteq> None \<longleftrightarrow> sp \<noteq> '''' \<or> pf \<noteq> ''''"
  by (auto simp: choose_pin_def split: if_splits sum.splits prod.splits)

lemma pinned_dial:
  assumes "dialVPN sha256 verify cr (with_pin (Some pin) ep) key net t c = (c', None)"
  shows "\<exists>d ds. net = Inr (d # ds) \<and> sha256 d = pin"
  using assms by (auto simp: dialVPN_def with_pin_def Dial_def check_server_def split: sum.splits list.splits if_splits option.splits prod.splits)

lemma dial_variants:
  "dialSocks sha256 verify cr srv key net t smux c = (c', None) \<Longrightarrow> dialVPN sha256 verify cr srv key net t c = (c', None)"
  "dialServer sha256 verify cr srv key net t sid c = (c2, Inr epoch) \<Longrightarrow> \<exists>c1. dialVPN sha256 verify cr srv key net t c = (c1, None)"
  by (auto simp: dialSocks_def dialServer_def split: prod.splits option.splits)

lemma resolve_vpn_games:
  assumes r: "resolve_servers dns st games = Inr (srv, g)" and m: "mode st = ''vpn''" "games \<noteq> []"
    and h: "SplitHostPort (vpnAddr st) = Some (host, p1)" "SplitHostPort (glueAddr st) = Some (host, p2)" "\<not> is_addr host"
  shows "\<exists>a. ep_addr srv = JoinHostPort (ip_string a) p1 \<and> ep_addr g = JoinHostPort (ip_string a) p2"
proof -
  from r m obtain r1 where e1: "endpoint dns fmempty (vpnAddr st) (serverName st) (insecure st) = (r1, Inr srv)"
    and e2: "snd (endpoint dns r1 (glueAddr st) (serverName st) (insecure st)) = Inr g"
    by (auto simp: resolve_servers_def Let_def split: option.splits prod.splits sum.splits)
  from one_ip_per_host [OF e1 h(1,3,2), of r1 "[]" dns "serverName st" "insecure st"] obtain a
    where "ep_addr srv = JoinHostPort (ip_string a) p1" "snd (endpoint dns r1 (glueAddr st) (serverName st) (insecure st)) =
      Inr \<lparr>ep_addr = JoinHostPort (ip_string a) p2, ep_serverName = (if serverName st = '''' then host else serverName st), ep_insecure = insecure st\<rparr>"
    by auto
  then show ?thesis using e2 by (intro exI [of _ a]) simp
qed

text \<open>C20. All channels of a run belong to one server. If the client starts, it has a key of the right size, and with a
  pin or a pin file every channel it dials, the game channel included, is open only to a server whose
  certificate has one and the same fingerprint, even if certificates are not checked otherwise; both
  channels of the vpn mode dial the same address for the same host name; and game traffic has a path.\<close>

theorem one_server_identity:
  assumes "client_start sha256 dns read env inline fs u tmp net fault st = (fs', Inr (key, run))"
  shows "length key = SeedSize \<and> (\<exists>pin. (pin \<noteq> None \<longleftrightarrow> serverPin st \<noteq> '''' \<or> pinFile st \<noteq> '''') \<and>
      list_all (\<lambda>tg. Pin (t_dc tg) = pin \<and>
        (\<forall>f. pin = Some f \<and> snd (dialVPN sha256 verify cr tg k net2 t c) = None \<longrightarrow>
           (\<exists>d ds. net2 = Inr (d # ds) \<and> sha256 d = f))) (run_targets run)) \<and>
    (case run of
       RunVPN srv _ _ g games paths _ \<Rightarrow>
         vpnAddresses (vpnSubnet st) \<noteq> None \<and> games = parseGameProcesses (gameProcessesFlag st) \<and>
         (games \<noteq> [] \<longrightarrow> 1 \<le> paths) \<and>
         (\<forall>host p1 p2. games \<noteq> [] \<and> SplitHostPort (vpnAddr st) = Some (host, p1) \<and> SplitHostPort (glueAddr st) = Some (host, p2) \<and>
            \<not> is_addr host \<longrightarrow> (\<exists>a. t_addr srv = JoinHostPort (ip_string a) p1 \<and> t_addr g = JoinHostPort (ip_string a) p2))
     | _ \<Rightarrow> mode st \<noteq> ''vpn'')"
proof -
  define games where "games = parseGameProcesses (gameProcessesFlag st)"
  from assms obtain srv g pin
    where key: "loadClientKey env (clientKeyFile st) inline read = Inr key"
      and res: "resolve_servers dns st games = Inr (srv, g)"
      and pin: "choose_pin sha256 fs u (serverPin st) (pinFile st) tmp net fault = (fs', Inr pin)"
      and run: "run = choose_run st games (with_pin pin srv) (with_pin pin g)"
    by (auto simp: client_start_def Let_def games_def split: sum.splits prod.splits)
  have dial: "\<exists>d ds. net2 = Inr (d # ds) \<and> sha256 d = f"
    if "pin = Some f" "snd (dialVPN sha256 verify cr (with_pin pin ep) k net2 t c) = None" for f ep
    using that pinned_dial [of sha256 verify cr f ep k net2 t c] by (cases "dialVPN sha256 verify cr (with_pin pin ep) k net2 t c") simp
  have tgs: "set (run_targets run) \<subseteq> {with_pin pin srv, with_pin pin g}" by (auto simp: run run_targets_choose)
  have p: "Pin (t_dc (with_pin pin ep)) = pin" for ep by (simp add: with_pin_def)
  have "list_all (\<lambda>tg. Pin (t_dc tg) = pin \<and>
        (\<forall>f. pin = Some f \<and> snd (dialVPN sha256 verify cr tg k net2 t c) = None \<longrightarrow>
           (\<exists>d ds. net2 = Inr (d # ds) \<and> sha256 d = f))) (run_targets run)"
    unfolding list_all_iff
  proof (intro ballI)
    fix tg
    assume "tg \<in> set (run_targets run)"
    then obtain ep where ep: "tg = with_pin pin ep" using tgs by blast
    show "Pin (t_dc tg) = pin \<and> (\<forall>f. pin = Some f \<and> snd (dialVPN sha256 verify cr tg k net2 t c) = None \<longrightarrow>
        (\<exists>d ds. net2 = Inr (d # ds) \<and> sha256 d = f))" unfolding ep using dial [of _ ep] p [of ep] by blast
  qed
  moreover have "case run of
       RunVPN srv _ _ g games paths _ \<Rightarrow>
         vpnAddresses (vpnSubnet st) \<noteq> None \<and> games = parseGameProcesses (gameProcessesFlag st) \<and>
         (games \<noteq> [] \<longrightarrow> 1 \<le> paths) \<and>
         (\<forall>host p1 p2. games \<noteq> [] \<and> SplitHostPort (vpnAddr st) = Some (host, p1) \<and> SplitHostPort (glueAddr st) = Some (host, p2) \<and>
            \<not> is_addr host \<longrightarrow> (\<exists>a. t_addr srv = JoinHostPort (ip_string a) p1 \<and> t_addr g = JoinHostPort (ip_string a) p2))
     | _ \<Rightarrow> mode st \<noteq> ''vpn''"
  proof (cases "mode st = ''vpn''")
    case True
    then have "vpnAddresses (vpnSubnet st) \<noteq> None"
      using res by (cases "vpnAddresses (vpnSubnet st)") (auto simp: resolve_servers_def)
    then show ?thesis using True resolve_vpn_games [OF res True]
      by (auto simp: run choose_run_def games_def [symmetric] with_pin_def [of pin])
  qed (simp add: run choose_run_def)
  ultimately show ?thesis using loadClientKey_size [OF key] choose_pin_some [OF pin] by blast
qed

section \<open>A concrete start\<close>

definition toy_settings :: client_settings where
  "toy_settings =
     \<lparr>mode = ''vpn'', listenAddr = '''', serverAddr = '''', dropAddr = '''', glueAddr = ''1.2.3.4:2'', tunName = '''', tunMTU = 0,
      tunPaths = 1, tunMeasure = False, tunMeasureInterval = 0, vpnAddr = ''1.2.3.4:1'', vpnTunName = ''dormvpn0'', vpnTunMTU = 1400,
      vpnSubnet = ''10.66.0.0/24'', dropCount = 0, dropInterval = 0, dropPaths = 1, insecure = True, serverName = '''',
      serverPin = hex_string (replicate 32 7), pinFile = '''', gameProcessesFlag = ''deadlock.exe'', gamePaths = 0, vpnUpMbps = 0,
      clientKeyFile = ''''\<rparr>"

theorem one_server_identity_witness:
  "\<exists>srv g games. client_start (\<lambda>b. b) (\<lambda>_. Inl '''') (\<lambda>_. Inl '''') (EncodeKey (replicate 32 5)) '''' fmempty False ''tmp'' (Inl NoCertificate)
       None toy_settings = (fmempty, Inr (replicate 32 5, RunVPN srv ''dormvpn0'' 1400 g games 3 0)) \<and>
     Pin (t_dc srv) = Some (replicate 32 7) \<and> games \<noteq> []"
proof -
  have key: "loadClientKey (EncodeKey (replicate 32 5)) '''' '''' (\<lambda>_. Inl '''') = Inr (replicate 32 5)"
  proof -
    have "EncodeKey (replicate 32 5) \<noteq> ''''" by code_simp
    then show ?thesis by (simp add: loadClientKey_def DecodeKey_EncodeKey SeedSize_def)
  qed
  have "parse_prefix4 ''10.66.0.0/24'' = Some ([10, 66, 0, 0], 24)" by code_simp
  then have sub: "\<exists>x. vpnAddresses ''10.66.0.0/24'' = Some x" by (simp add: vpnAddresses_def Let_def)
  have sp: "SplitHostPort ''1.2.3.4:1'' = Some (''1.2.3.4'', ''1'')" "SplitHostPort ''1.2.3.4:2'' = Some (''1.2.3.4'', ''2'')" "is_addr ''1.2.3.4''"
    by code_simp+
  have games: "parseGameProcesses ''deadlock.exe'' = [''deadlock.exe'']" by code_simp
  have pin: "choose_pin (\<lambda>b. b) fmempty False (hex_string (replicate 32 7)) '''' ''tmp'' (Inl NoCertificate) None = (fmempty, Inr (Some (replicate 32 7)))"
    by (simp add: choose_pin_def ParsePin_hex sha256_Size_def) (simp add: hex_string_def)
  obtain srv g where s: "client_start (\<lambda>b. b) (\<lambda>_. Inl '''') (\<lambda>_. Inl '''') (EncodeKey (replicate 32 5)) '''' fmempty False ''tmp'' (Inl NoCertificate)
       None toy_settings = (fmempty, Inr (replicate 32 5, RunVPN srv ''dormvpn0'' 1400 g [''deadlock.exe''] 3 0))"
    using sub by (auto simp: client_start_def toy_settings_def key games pin resolve_servers_def endpoint_def resolve_def sp choose_run_def)
  have "Pin (t_dc srv) = Some (replicate 32 7)"
    using s sub by (auto simp: client_start_def toy_settings_def key games pin resolve_servers_def endpoint_def resolve_def sp choose_run_def with_pin_def)
  moreover have "[''deadlock.exe''] = parseGameProcesses (gameProcessesFlag toy_settings)"
    using one_server_identity [OF s] unfolding client_run.case by blast
  ultimately show ?thesis using s by blast
qed

end
