(* ===== verification/TrayConns.thy ===== *)
theory TrayConns
  imports Pinning
begin

text \<open>
  cmd/tray/connections.go and the settings part of cmd/tray/ping.go: the saved connections, their file, the client's
  settings file, and the certificate check of the ping button. The encryption of keys (DPAPI,
  cmd/tray/dpapi.go) is the pair of arguments \<open>protect\<close> and \<open>unprotect\<close>. A file is what its JSON text
  decodes to, or a text that does not decode; the JSON codec itself is not modelled.
\<close>

section \<open>The data\<close>

record connection =
  c_name :: string
  VPNAddr :: string
  ClientKey :: string
  GameProcesses :: "string list"
  sealedKey :: string

record storedConnection =
  s_name :: string
  s_VPNAddr :: string
  ClientKeyDPAPI :: string
  s_ClientKey :: string
  s_GameProcesses :: "string list"

datatype json = JNull | JBool bool | JNum int | JString string | JArray "json list" | JObject "(string \<times> json) list"

text \<open>\<open>Settings\<close> is a JSON object, \<open>Null\<close> the text null; \<open>Text\<close> does not decode.\<close>

datatype content = Entries "storedConnection list" | Settings "(string, json) fmap" | Null | Text string

type_synonym disk = "(string, content) fmap"

definition configPath :: string where "configPath = ''client-config.json''"
definition connectionsPath :: string where "connectionsPath = ''connections.json''"

section \<open>Decoding and encoding the list\<close>

text \<open>One entry: the connection, whether it had a plain text key, and whether its key is unreadable.\<close>

definition decode_entry :: "(string \<Rightarrow> string option) \<Rightarrow> storedConnection \<Rightarrow> connection \<times> bool \<times> bool" where
  "decode_entry unprotect s =
     (let c = \<lparr>c_name = s_name s, VPNAddr = s_VPNAddr s, ClientKey = '''', GameProcesses = s_GameProcesses s, sealedKey = ''''\<rparr>;
          migrate = (s_ClientKey s \<noteq> '''')
      in if ClientKeyDPAPI s \<noteq> '''' then
           (case unprotect (ClientKeyDPAPI s) of
              Some key \<Rightarrow> (c\<lparr>ClientKey := key\<rparr>, migrate, False)
            | None \<Rightarrow>
                if s_ClientKey s \<noteq> '''' then (c\<lparr>ClientKey := s_ClientKey s\<rparr>, migrate, False)
                else (c\<lparr>sealedKey := ClientKeyDPAPI s\<rparr>, migrate, True))
         else (c\<lparr>ClientKey := s_ClientKey s\<rparr>, migrate, False))"

fun decodeConnections :: "(string \<Rightarrow> string option) \<Rightarrow> storedConnection list \<Rightarrow> connection list \<times> bool \<times> string list" where
  "decodeConnections unprotect [] = ([], False, [])"
| "decodeConnections unprotect (s # ss) =
     (case decode_entry unprotect s of
        (c, m, u) \<Rightarrow>
          (case decodeConnections unprotect ss of
             (cs, m2, us) \<Rightarrow> (c # cs, m \<or> m2, if u then s_name s # us else us)))"

definition encode_entry :: "(string \<Rightarrow> string option) \<Rightarrow> connection \<Rightarrow> storedConnection option" where
  "encode_entry protect c =
     (let s = \<lparr>s_name = c_name c, s_VPNAddr = VPNAddr c, ClientKeyDPAPI = sealedKey c, s_ClientKey = '''',
               s_GameProcesses = GameProcesses c\<rparr>
      in if ClientKey c \<noteq> '''' then
           (case protect (ClientKey c) of None \<Rightarrow> None | Some blob \<Rightarrow> Some (s\<lparr>ClientKeyDPAPI := blob\<rparr>))
         else Some s)"

text \<open>The error is the name of the connection whose key could not be encrypted.\<close>

fun encodeConnections :: "(string \<Rightarrow> string option) \<Rightarrow> connection list \<Rightarrow> string + storedConnection list" where
  "encodeConnections protect [] = Inr []"
| "encodeConnections protect (c # cs) =
     (case encode_entry protect c of
        None \<Rightarrow> Inl (c_name c)
      | Some s \<Rightarrow> (case encodeConnections protect cs of Inl e \<Rightarrow> Inl e | Inr ss \<Rightarrow> Inr (s # ss)))"

section \<open>Writing a file\<close>

text \<open>
  Where \<^verbatim>\<open>writeFileAtomic\<close> of the tray fails; a failed write leaves a partial text in the temporary file. The
  states are those after each system call, the deferred \<^verbatim>\<open>os.Remove\<close> being the last.
\<close>

datatype disk_fault = FailCreate | FailWrite string | FailSync | FailClose | FailRename

definition writeFileAtomic :: "disk \<Rightarrow> string \<Rightarrow> string \<Rightarrow> content \<Rightarrow> disk_fault option \<Rightarrow> disk list \<times> bool" where
  "writeFileAtomic fs tmp path data fault =
     (let s1 = fmupd tmp (Text '''') fs;
          s2 = fmupd tmp data s1
      in case fault of
           Some FailCreate \<Rightarrow> ([fs], False)
         | Some (FailWrite part) \<Rightarrow> ([fs, s1, fmupd tmp (Text part) s1, fmdrop tmp s1], False)
         | Some _ \<Rightarrow> ([fs, s1, s2, fmdrop tmp s2], False)
         | None \<Rightarrow> ([fs, s1, s2, fmupd path data (fmdrop tmp s2)], True))"

lemma disk_write_result:
  assumes "tmp \<noteq> path" "fmlookup fs tmp = None"
  shows "s \<in> set (fst (writeFileAtomic fs tmp path data fault)) \<Longrightarrow> fmlookup s path = fmlookup fs path \<or> fmlookup s path = Some data"
    and "last (fst (writeFileAtomic fs tmp path data fault)) =
      (if snd (writeFileAtomic fs tmp path data fault) then fmupd path data fs else fs)"
proof -
  have d: "fmdrop tmp (fmupd tmp x fs) = fs" for x
    using assms(2) by (simp add: fmdrop_fmupd_same fmdrop_absent)
  show "s \<in> set (fst (writeFileAtomic fs tmp path data fault)) \<Longrightarrow> fmlookup s path = fmlookup fs path \<or> fmlookup s path = Some data"
    using assms by (auto simp: writeFileAtomic_def Let_def split: option.splits disk_fault.splits)
  show "last (fst (writeFileAtomic fs tmp path data fault)) =
      (if snd (writeFileAtomic fs tmp path data fault) then fmupd path data fs else fs)"
    by (auto simp: writeFileAtomic_def Let_def d split: option.splits disk_fault.splits)
qed

text \<open>The outside world of a save: the name of the temporary file and the fault, if any.\<close>

type_synonym save_env = "string \<times> disk_fault option"

datatype save_error = EncryptKey string | WriteFailed

definition saveConnections :: "(string \<Rightarrow> string option) \<Rightarrow> disk \<Rightarrow> save_env \<Rightarrow> connection list \<Rightarrow> disk \<times> save_error option" where
  "saveConnections protect fs env cs =
     (case encodeConnections protect cs of
        Inl e \<Rightarrow> (fs, Some (EncryptKey e))
      | Inr out \<Rightarrow>
          (case writeFileAtomic fs (fst env) connectionsPath (Entries out) (snd env) of
             (states, ok) \<Rightarrow> (last states, if ok then None else Some WriteFailed)))"

section \<open>The client's settings file\<close>

definition default_settings :: "(string, json) fmap" where
  "default_settings = fmupd ''pin_file'' (JString ''known_server.pin'')
     (fmupd ''vpn_tun_mtu'' (JNum 1400) (fmupd ''mode'' (JString ''vpn'') fmempty))"

text \<open>\<open>None\<close> stands for the decoding error of a broken file.\<close>

definition clientConfigJSON :: "content option \<Rightarrow> connection \<Rightarrow> (string, json) fmap option" where
  "clientConfigJSON existing c =
     (case (case existing of
              None \<Rightarrow> Some fmempty
            | Some (Text t) \<Rightarrow> if t = '''' then Some fmempty else None
            | Some (Entries es) \<Rightarrow> None
            | Some Null \<Rightarrow> Some fmempty
            | Some (Settings m) \<Rightarrow> Some m) of
        None \<Rightarrow> None
      | Some m \<Rightarrow>
          let m1 = (if gosize m = 0 then default_settings else m);
              m2 = fmdrop ''client_key'' (fmupd ''vpn_addr'' (JString (VPNAddr c)) m1)
          in Some (if GameProcesses c = [] then fmdrop ''game_processes'' m2
                   else fmupd ''game_processes'' (JArray (map JString (GameProcesses c))) m2))"

datatype config_error = ReadConfig | BrokenConfig | WriteConfig

definition writeClientConfigFromConnection ::
  "disk \<Rightarrow> (string \<Rightarrow> bool) \<Rightarrow> save_env \<Rightarrow> connection \<Rightarrow> disk \<times> config_error option" where
  "writeClientConfigFromConnection fs unreadable env c =
     (if fmlookup fs configPath \<noteq> None \<and> unreadable configPath then (fs, Some ReadConfig)
      else case clientConfigJSON (fmlookup fs configPath) c of
             None \<Rightarrow> (fs, Some BrokenConfig)
           | Some m \<Rightarrow>
               (case writeFileAtomic fs (fst env) configPath (Settings m) (snd env) of
                  (states, ok) \<Rightarrow> (last states, if ok then None else Some WriteConfig)))"

section \<open>Loading\<close>

definition json_text :: "json option \<Rightarrow> string" where
  "json_text j = (case j of Some (JString s) \<Rightarrow> s | _ \<Rightarrow> '''')"

definition json_texts :: "json option \<Rightarrow> string list" where
  "json_texts j = (case j of Some (JArray js) \<Rightarrow> concat (map (\<lambda>x. case x of JString s \<Rightarrow> [s] | _ \<Rightarrow> []) js) | _ \<Rightarrow> [])"

text \<open>\<open>default_name\<close> is the Russian name of an imported connection.\<close>

definition importFromClientConfig ::
  "(string \<Rightarrow> string option) \<Rightarrow> string \<Rightarrow> disk \<Rightarrow> (string \<Rightarrow> bool) \<Rightarrow> save_env \<Rightarrow> save_env \<Rightarrow> connection list \<Rightarrow> disk \<times> connection list" where
  "importFromClientConfig protect default_name fs unreadable env1 env2 connections =
     (case (if unreadable configPath then None else fmlookup fs configPath) of
        Some (Settings m) \<Rightarrow>
          let addr = json_text (fmlookup m ''vpn_addr''); key = json_text (fmlookup m ''client_key'') in
          if addr = '''' \<or> key = '''' then (fs, connections)
          else
            let c = \<lparr>c_name = default_name, VPNAddr = addr, ClientKey = key,
                     GameProcesses = json_texts (fmlookup m ''game_processes''), sealedKey = ''''\<rparr> in
            (case saveConnections protect fs env1 [c] of
               (fs1, Some e) \<Rightarrow> (fs1, [c])
             | (fs1, None) \<Rightarrow> (fst (writeClientConfigFromConnection fs1 unreadable env2 c), [c]))
      | _ \<Rightarrow> (fs, connections))"

definition moveAside :: "disk \<Rightarrow> string \<Rightarrow> string \<Rightarrow> bool \<Rightarrow> disk \<times> bool" where
  "moveAside fs path now fails =
     (let moved = path @ ''.broken-'' @ now in
      case fmlookup fs path of
        None \<Rightarrow> (fs, False)
      | Some d \<Rightarrow> if fails then (fs, False) else (fmupd moved d (fmdrop path fs), True))"

datatype load_alert = BrokenMoved | BrokenStays | Undecryptable "string list"

record load_env =
  le_unreadable :: "string \<Rightarrow> bool"
  le_save1 :: save_env
  le_save2 :: save_env
  le_now :: string
  le_moveFails :: bool

definition loadConnections ::
  "(string \<Rightarrow> string option) \<Rightarrow> (string \<Rightarrow> string option) \<Rightarrow> string \<Rightarrow> disk \<Rightarrow> load_env \<Rightarrow> connection list \<Rightarrow>
     disk \<times> connection list \<times> load_alert list" where
  "loadConnections protect unprotect default_name fs env connections =
     (case (if le_unreadable env connectionsPath then None else fmlookup fs connectionsPath) of
        None \<Rightarrow>
          (case importFromClientConfig protect default_name fs (le_unreadable env) (le_save1 env) (le_save2 env) connections of
             (fs1, cs) \<Rightarrow> (fs1, cs, []))
      | Some (Entries stored) \<Rightarrow>
          (case decodeConnections unprotect stored of
             (cs, migrate, undecryptable) \<Rightarrow>
               (if migrate then fst (saveConnections protect fs (le_save1 env) cs) else fs, cs,
                if undecryptable \<noteq> [] then [Undecryptable undecryptable] else []))
      | Some Null \<Rightarrow> (fs, [], [])
      | Some _ \<Rightarrow>
          (case moveAside fs connectionsPath (le_now env) (le_moveFails env) of
             (fs1, ok) \<Rightarrow> (fs1, connections, [if ok then BrokenMoved else BrokenStays])))"

section \<open>Editing the list\<close>

text \<open>The text fields of the window.\<close>

record form =
  nameEdit :: string
  vpnAddrEdit :: string
  clientKeyEdit :: string
  gameProcEdit :: string

definition fillFieldsFrom :: "connection \<Rightarrow> form \<times> string" where
  "fillFieldsFrom c =
     (\<lparr>nameEdit = c_name c, vpnAddrEdit = VPNAddr c, clientKeyEdit = ClientKey c,
       gameProcEdit = join_with '', '' (GameProcesses c)\<rparr>, c_name c)"

definition currentFieldsAsConnection :: "form \<Rightarrow> connection" where
  "currentFieldsAsConnection f =
     (let procsText = trim_space (gameProcEdit f)
      in \<lparr>c_name = trim_space (nameEdit f), VPNAddr = trim_space (vpnAddrEdit f), ClientKey = trim_space (clientKeyEdit f),
          GameProcesses = (if procsText = '''' then [] else filter (\<lambda>p. p \<noteq> '''') (map trim_space (split_on CHR '','' procsText))),
          sealedKey = ''''\<rparr>)"

definition replace_at :: "connection list \<Rightarrow> nat \<Rightarrow> connection \<Rightarrow> connection list" where
  "replace_at cs i c = cs[i := (if ClientKey c = '''' then c\<lparr>sealedKey := sealedKey (cs ! i)\<rparr> else c)]"

text \<open>The first index with that name.\<close>

fun index_of :: "string \<Rightarrow> connection list \<Rightarrow> nat option" where
  "index_of n [] = None"
| "index_of n (c # cs) = (if c_name c = n then Some 0 else map_option Suc (index_of n cs))"

definition upsertConnection :: "connection list \<Rightarrow> connection \<Rightarrow> string \<Rightarrow> connection list" where
  "upsertConnection cs c originalName =
     (case (if originalName \<noteq> '''' then index_of originalName cs else None) of
        Some i \<Rightarrow> replace_at cs i c
      | None \<Rightarrow> (case index_of (c_name c) cs of Some i \<Rightarrow> replace_at cs i c | None \<Rightarrow> cs @ [c]))"

datatype save_alert = EmptyName | NotSaved save_error

text \<open>\<^verbatim>\<open>saveFields\<close> and \<^verbatim>\<open>onDeleteConnection\<close> (\<open>yes\<close> is the answer to the question), without the redrawing of the list.\<close>

definition saveFields ::
  "(string \<Rightarrow> string option) \<Rightarrow> disk \<Rightarrow> save_env \<Rightarrow> connection list \<Rightarrow> form \<Rightarrow> string \<Rightarrow> disk \<times> connection list \<times> save_alert option" where
  "saveFields protect fs env connections f loadedConnectionName =
     (let c = currentFieldsAsConnection f in
      if c_name c = '''' then (fs, connections, Some EmptyName)
      else
        let cs = upsertConnection connections c loadedConnectionName in
        (case saveConnections protect fs env cs of
           (fs1, Some e) \<Rightarrow> (fs1, cs, Some (NotSaved e))
         | (fs1, None) \<Rightarrow> (fs1, cs, None)))"

definition onDeleteConnection ::
  "(string \<Rightarrow> string option) \<Rightarrow> disk \<Rightarrow> save_env \<Rightarrow> connection list \<Rightarrow> int \<Rightarrow> bool \<Rightarrow> disk \<times> connection list \<times> save_alert option" where
  "onDeleteConnection protect fs env connections i yes =
     (if i < 0 \<or> int (length connections) \<le> i \<or> \<not> yes then (fs, connections, None)
      else
        let cs = take (nat i) connections @ drop (nat i + 1) connections in
        (case saveConnections protect fs env cs of (fs1, e) \<Rightarrow> (fs1, cs, map_option NotSaved e)))"

section \<open>The certificate check of the ping button\<close>

record clientTLSConfig =
  t_ServerPin :: string
  t_PinFile :: string
  t_ServerName :: string
  t_Insecure :: bool

text \<open>\<open>files\<close> are the texts of the readable files; the path of the pin file is already absolute.\<close>

definition pingDialConfig :: "clientTLSConfig \<Rightarrow> files \<Rightarrow> dialConfig \<times> bool" where
  "pingDialConfig cfg fs =
     (let dc = \<lparr>ServerName = t_ServerName cfg, Pin = None, Insecure = False\<rparr>;
          hexPin = (if t_ServerPin cfg = '''' \<and> t_PinFile cfg \<noteq> '''' then
                      (case fmlookup fs (t_PinFile cfg) of Some raw \<Rightarrow> raw | None \<Rightarrow> t_ServerPin cfg)
                    else t_ServerPin cfg)
      in case ParsePin hexPin of
           Inr pin \<Rightarrow> (dc\<lparr>Pin := Some pin\<rparr>, False)
         | Inl e \<Rightarrow>
             if t_PinFile cfg \<noteq> '''' then (dc\<lparr>Insecure := True\<rparr>, True)
             else if t_Insecure cfg then (dc\<lparr>Insecure := True\<rparr>, True)
             else (dc, False))"

section \<open>The keys are never lost\<close>

text \<open>What is known of an entry's key, and the entry without it.\<close>

datatype secret = Key string | Sealed string

definition secret_of :: "(string \<Rightarrow> string option) \<Rightarrow> storedConnection \<Rightarrow> secret" where
  "secret_of unprotect s =
     (if ClientKeyDPAPI s = '''' then Key (s_ClientKey s)
      else case unprotect (ClientKeyDPAPI s) of
             Some k \<Rightarrow> Key k
           | None \<Rightarrow> if s_ClientKey s \<noteq> '''' then Key (s_ClientKey s) else Sealed (ClientKeyDPAPI s))"

definition same_entry :: "(string \<Rightarrow> string option) \<Rightarrow> storedConnection \<Rightarrow> storedConnection \<Rightarrow> bool" where
  "same_entry unprotect s s' \<longleftrightarrow>
     s_name s' = s_name s \<and> s_VPNAddr s' = s_VPNAddr s \<and> s_GameProcesses s' = s_GameProcesses s \<and>
     secret_of unprotect s' = secret_of unprotect s \<and> s_ClientKey s' = ''''"

text \<open>What DPAPI promises: what was sealed can be opened by the same user, and a blob is not empty.\<close>

definition seals :: "(string \<Rightarrow> string option) \<Rightarrow> (string \<Rightarrow> string option) \<Rightarrow> bool" where
  "seals protect unprotect \<longleftrightarrow> (\<forall>k blob. protect k = Some blob \<longrightarrow> blob \<noteq> '''' \<and> unprotect blob = Some k)"

text \<open>A connection in memory: a sealed key is one that could not be opened, and then there is no other.\<close>

definition conn_ok :: "(string \<Rightarrow> string option) \<Rightarrow> connection \<Rightarrow> bool" where
  "conn_ok unprotect c \<longleftrightarrow> sealedKey c = '''' \<or> (ClientKey c = '''' \<and> unprotect (sealedKey c) = None)"

lemma decode_entry_ok: "conn_ok unprotect (fst (decode_entry unprotect s))"
  by (auto simp: decode_entry_def conn_ok_def Let_def split: option.splits)

lemma decode_ok: "decodeConnections unprotect ss = (cs, m, us) \<Longrightarrow> list_all (conn_ok unprotect) cs"
proof (induction ss arbitrary: cs m us)
  case (Cons s ss)
  then show ?case using decode_entry_ok [of unprotect s] by (auto split: prod.splits)
qed simp

lemma encode_decode_entry:
  assumes "seals protect unprotect" "encode_entry protect (fst (decode_entry unprotect s)) = Some s'"
  shows "same_entry unprotect s s'"
  using assms
  by (auto simp: decode_entry_def encode_entry_def same_entry_def secret_of_def seals_def Let_def split: option.splits if_splits)

lemma decode_encode_entry:
  assumes "seals protect unprotect" "conn_ok unprotect c" "encode_entry protect c = Some s"
  shows "decode_entry unprotect s = (c, False, sealedKey c \<noteq> '''')"
  using assms
  by (cases c) (auto simp: decode_entry_def encode_entry_def conn_ok_def seals_def Let_def split: option.splits if_splits)

lemma save_keeps_entries:
  assumes "seals protect unprotect" "decodeConnections unprotect ss = (cs, m, us)" "encodeConnections protect cs = Inr ss'"
  shows "list_all2 (same_entry unprotect) ss ss'"
  using assms(2,3)
proof (induction ss arbitrary: cs m us ss')
  case (Cons s ss)
  then show ?case using encode_decode_entry [OF assms(1), of s]
    by (auto split: prod.splits option.splits sum.splits)
qed simp

text \<open>C34. What the tray writes it reads back: the same connections, with the same keys, without plain
  text keys to migrate; keys that cannot be decrypted survive as they are and are reported.\<close>

theorem connections_roundtrip:
  assumes "seals protect unprotect" "list_all (conn_ok unprotect) cs" "encodeConnections protect cs = Inr ss"
  shows "decodeConnections unprotect ss = (cs, False, map c_name (filter (\<lambda>c. sealedKey c \<noteq> '''') cs))"
  using assms(2,3)
proof (induction cs arbitrary: ss)
  case (Cons c cs)
  then obtain s ss' where s: "encode_entry protect c = Some s" "encodeConnections protect cs = Inr ss'" "ss = s # ss'"
    by (auto split: option.splits sum.splits)
  have "s_name s = c_name c" using s(1) by (auto simp: encode_entry_def Let_def split: if_splits option.splits)
  then show ?case using Cons s decode_encode_entry [OF assms(1) _ s(1)] by simp
qed simp

lemma save_result:
  assumes "fst env \<noteq> connectionsPath" "fmlookup fs (fst env) = None"
  shows "saveConnections protect fs env cs =
    (case encodeConnections protect cs of
       Inl e \<Rightarrow> (fs, Some (EncryptKey e))
     | Inr out \<Rightarrow> if snd (writeFileAtomic fs (fst env) connectionsPath (Entries out) (snd env))
         then (fmupd connectionsPath (Entries out) fs, None) else (fs, Some WriteFailed))"
  using disk_write_result(2) [OF assms] by (auto simp: saveConnections_def split: sum.splits prod.splits)
    (metis fst_conv snd_conv)+

definition plain_keys :: "storedConnection list \<Rightarrow> bool" where
  "plain_keys ss \<longleftrightarrow> list_ex (\<lambda>s. s_ClientKey s \<noteq> '''') ss"

lemma decode_migrate: "decodeConnections unprotect ss = (cs, m, us) \<Longrightarrow> m \<longleftrightarrow> plain_keys ss"
proof (induction ss arbitrary: cs m us)
  case (Cons s ss)
  then show ?case by (auto simp: plain_keys_def decode_entry_def Let_def split: prod.splits option.splits if_splits)
qed (simp add: plain_keys_def)

lemma same_no_plain: "list_all2 (same_entry unprotect) ss ss' \<Longrightarrow> \<not> plain_keys ss'"
  by (induction rule: list_all2_induct) (auto simp: plain_keys_def same_entry_def)

text \<open>C33. Starting the tray never loses a key. If the file of saved connections can be read, it is afterwards
  either what it was, or the same list with every key kept and none in plain text; the list in
  memory is what was read. A broken file is not overwritten: it is renamed, or stays.\<close>

theorem load_keeps_keys:
  assumes "seals protect unprotect" "\<not> le_unreadable env connectionsPath" "fmlookup fs connectionsPath = Some d"
    and "fst (le_save1 env) \<noteq> connectionsPath" "fmlookup fs (fst (le_save1 env)) = None"
    and load: "loadConnections protect unprotect name fs env cs0 = (fs', cs, alerts)"
  shows "case d of
      Entries ss \<Rightarrow> \<exists>ss'. fmlookup fs' connectionsPath = Some (Entries ss') \<and>
        (ss' = ss \<or> list_all2 (same_entry unprotect) ss ss') \<and> (plain_keys ss' \<longrightarrow> plain_keys ss \<and> fs' = fs) \<and>
        cs = fst (decodeConnections unprotect ss) \<and> list_all (conn_ok unprotect) cs
    | Null \<Rightarrow> fs' = fs
    | _ \<Rightarrow> cs = cs0 \<and> (fs' = fs \<and> alerts = [BrokenStays] \<or>
        fmlookup fs' (connectionsPath @ ''.broken-'' @ le_now env) = Some d \<and> alerts = [BrokenMoved])"
proof (cases d)
  case (Entries ss)
  obtain cs1 m us where dec: "decodeConnections unprotect ss = (cs1, m, us)" by (metis prod.exhaust)
  have l: "cs = cs1" "fs' = (if m then fst (saveConnections protect fs (le_save1 env) cs1) else fs)"
    using load assms(2,3) Entries dec by (auto simp: loadConnections_def)
  note ok = decode_ok [OF dec] and mig = decode_migrate [OF dec] and save = save_result [OF assms(4,5), of protect cs1]
  have "\<exists>ss'. fmlookup fs' connectionsPath = Some (Entries ss') \<and>
        (ss' = ss \<or> list_all2 (same_entry unprotect) ss ss') \<and> (plain_keys ss' \<longrightarrow> plain_keys ss \<and> fs' = fs)"
  proof (cases "m \<and> (\<exists>out. encodeConnections protect cs1 = Inr out \<and>
      snd (writeFileAtomic fs (fst (le_save1 env)) connectionsPath (Entries out) (snd (le_save1 env))))")
    case True
    then obtain out where out: "encodeConnections protect cs1 = Inr out" "fs' = fmupd connectionsPath (Entries out) fs"
      using l(2) save by auto
    note same = save_keeps_entries [OF assms(1) dec out(1)]
    then show ?thesis using out(2) same_no_plain [OF same] by auto
  next
    case False
    then have "fs' = fs" using l(2) save by (auto split: sum.splits)
    then show ?thesis using assms(3) Entries by auto
  qed
  then show ?thesis using Entries l(1) dec ok by simp
next
  case Null
  then show ?thesis using load assms(2,3) by (auto simp: loadConnections_def)
qed (use load assms(2,3) in \<open>auto simp: loadConnections_def moveAside_def Let_def split: if_splits\<close>)

lemma config_result:
  assumes "fst env \<noteq> configPath" "fmlookup fs (fst env) = None"
  shows "fst (writeClientConfigFromConnection fs unreadable env c) = fs \<or>
    (\<exists>m. clientConfigJSON (fmlookup fs configPath) c = Some m \<and>
       writeClientConfigFromConnection fs unreadable env c = (fmupd configPath (Settings m) fs, None))"
proof (cases "clientConfigJSON (fmlookup fs configPath) c")
  case (Some m)
  obtain states ok where w: "writeFileAtomic fs (fst env) configPath (Settings m) (snd env) = (states, ok)" by force
  have "last states = (if ok then fmupd configPath (Settings m) fs else fs)"
    using disk_write_result(2) [OF assms, of "Settings m" "snd env"] w by simp
  then show ?thesis using Some w by (simp add: writeClientConfigFromConnection_def)
qed (simp add: writeClientConfigFromConnection_def)

text \<open>The reading error of an existing file is taken for a missing file: then an old key in the settings replaces
  the whole list.\<close>

lemma unreadable_list_is_replaced:
  assumes "fmlookup fs configPath = Some (Settings m)" "json_text (fmlookup m ''vpn_addr'') \<noteq> ''''"
    "json_text (fmlookup m ''client_key'') \<noteq> ''''" "le_unreadable env connectionsPath" "\<not> le_unreadable env configPath"
    and "fst (le_save1 env) \<noteq> connectionsPath" "fmlookup fs (fst (le_save1 env)) = None" "snd (le_save1 env) = None"
    and "protect (json_text (fmlookup m ''client_key'')) = Some blob"
    and "loadConnections protect unprotect name fs env cs0 = (fs', cs, alerts)"
    and "fst (le_save2 env) \<noteq> configPath" "fmlookup fs (fst (le_save2 env)) = None" "fst (le_save2 env) \<noteq> connectionsPath"
  shows "\<exists>s. fmlookup fs' connectionsPath = Some (Entries [s])"
proof -
  define c where "c = \<lparr>c_name = name, VPNAddr = json_text (fmlookup m ''vpn_addr''), ClientKey = json_text (fmlookup m ''client_key''),
       GameProcesses = json_texts (fmlookup m ''game_processes''), sealedKey = ''''\<rparr>"
  obtain s where "encode_entry protect c = Some s" using assms(3,9) by (simp add: encode_entry_def c_def Let_def)
  then have "saveConnections protect fs (le_save1 env) [c] = (fmupd connectionsPath (Entries [s]) fs, None)"
    using save_result [OF assms(6,7), of protect "[c]"] assms(8) by (simp add: writeFileAtomic_def Let_def)
  then have fs': "fs' = fst (writeClientConfigFromConnection (fmupd connectionsPath (Entries [s]) fs) (le_unreadable env) (le_save2 env) c)"
    using assms(1-5,10) by (simp add: loadConnections_def importFromClientConfig_def c_def Let_def)
  define g where "g = fmupd connectionsPath (Entries [s]) fs"
  have t: "fst (le_save2 env) \<noteq> configPath" "fmlookup g (fst (le_save2 env)) = None" using assms(11-13) by (simp_all add: g_def)
  have "configPath \<noteq> connectionsPath" by (simp add: configPath_def connectionsPath_def)
  then have "fmlookup fs' connectionsPath = Some (Entries [s])"
    using config_result [OF t, of "le_unreadable env" c] by (auto simp: fs' g_def)
  then show ?thesis by blast
qed

text \<open>An old key leaves the settings only after the list that holds it was written.\<close>

lemma import_keeps_key:
  assumes "seals protect unprotect" "fmlookup fs configPath = Some (Settings m)"
    and "fst env1 \<noteq> connectionsPath" "fmlookup fs (fst env1) = None"
    and "fst env2 \<noteq> configPath" "fmlookup fs (fst env2) = None" "fst env2 \<noteq> connectionsPath"
    and i: "importFromClientConfig protect name fs unreadable env1 env2 cs0 = (fs', cs)"
  shows "fmlookup fs' configPath = Some (Settings m) \<or>
    (\<exists>s. fmlookup fs' connectionsPath = Some (Entries [s]) \<and> secret_of unprotect s = Key (json_text (fmlookup m ''client_key'')) \<and>
       s_VPNAddr s = json_text (fmlookup m ''vpn_addr''))"
proof (cases "unreadable configPath \<or> json_text (fmlookup m ''vpn_addr'') = '''' \<or> json_text (fmlookup m ''client_key'') = ''''")
  case True
  then show ?thesis using i assms(2) by (auto simp: importFromClientConfig_def Let_def split: if_splits)
next
  case False
  define c where "c = \<lparr>c_name = name, VPNAddr = json_text (fmlookup m ''vpn_addr''), ClientKey = json_text (fmlookup m ''client_key''),
       GameProcesses = json_texts (fmlookup m ''game_processes''), sealedKey = ''''\<rparr>"
  have e: "(case saveConnections protect fs env1 [c] of
       (fs1, Some e) \<Rightarrow> (fs1, [c]) | (fs1, None) \<Rightarrow> (fst (writeClientConfigFromConnection fs1 unreadable env2 c), [c])) = (fs', cs)"
    using i False assms(2) by (simp add: importFromClientConfig_def Let_def flip: c_def)
  show ?thesis
  proof (cases "saveConnections protect fs env1 [c]")
    case (Pair fs1 err)
    have ne: "configPath \<noteq> connectionsPath" by (simp add: configPath_def connectionsPath_def)
    show ?thesis
    proof (cases err)
      case (Some x)
      then have "fs' = fs" using e Pair save_result [OF assms(3,4), of protect "[c]"] by (auto split: sum.splits if_splits)
      then show ?thesis using assms(2) by simp
    next
      case None
      then obtain out where out: "encodeConnections protect [c] = Inr out" "fs1 = fmupd connectionsPath (Entries out) fs"
        using Pair save_result [OF assms(3,4), of protect "[c]"] by (auto split: sum.splits if_splits)
      then obtain s where s: "out = [s]" "encode_entry protect c = Some s" by (auto split: option.splits)
      have sec: "secret_of unprotect s = Key (ClientKey c)" "s_VPNAddr s = VPNAddr c"
        using s(2) assms(1) False by (auto simp: encode_entry_def c_def secret_of_def seals_def Let_def split: option.splits if_splits)
      have t: "fmlookup fs1 (fst env2) = None" using out(2) assms(6,7) by simp
      have "fs' = fst (writeClientConfigFromConnection fs1 unreadable env2 c)" using e Pair None by simp
      then have "fmlookup fs' connectionsPath = Some (Entries [s])"
        using config_result [OF assms(5) t, of unreadable c] out(2) s(1) ne by auto
      then show ?thesis using sec by (auto simp: c_def)
    qed
  qed
qed

text \<open>The settings file the tray writes for the client differs from the old one only in the address, the
  game processes and the key, which is never in it; a file that does not decode is not replaced.\<close>

theorem settings_keep_other_fields:
  "(\<exists>m'. clientConfigJSON (Some (Settings m)) c = Some m' \<and>
      fmlookup m' k =
        (if k = ''vpn_addr'' then Some (JString (VPNAddr c))
         else if k = ''client_key'' then None
         else if k = ''game_processes'' then
           (if GameProcesses c = [] then None else Some (JArray (map JString (GameProcesses c))))
         else if gosize m = 0 then fmlookup default_settings k else fmlookup m k)) \<and>
   (t \<noteq> '''' \<longleftrightarrow> clientConfigJSON (Some (Text t)) c = None)"
  by (auto simp: clientConfigJSON_def Let_def)

section \<open>Saving from the fields\<close>

lemma index_of_Some: "index_of n cs = Some i \<Longrightarrow> i < length cs \<and> c_name (cs ! i) = n"
proof (induction cs arbitrary: i)
  case (Cons c cs)
  then show ?case by (auto split: if_splits)
qed simp

lemma index_of_None: "index_of n cs = None \<longleftrightarrow> n \<notin> c_name ` set cs"
  by (induction cs) auto

lemma upsert_cases:
  obtains (replaced) i where "upsertConnection cs c n = replace_at cs i c" "i < length cs" "c_name (cs ! i) = (if n \<noteq> '''' \<and> n \<in> c_name ` set cs then n else c_name c)"
  | (added) "upsertConnection cs c n = cs @ [c]" "n = '''' \<or> n \<notin> c_name ` set cs" "c_name c \<notin> c_name ` set cs"
proof (cases "if n \<noteq> '''' then index_of n cs else None")
  case None
  then have n: "n = '''' \<or> n \<notin> c_name ` set cs" by (auto simp: index_of_None split: if_splits)
  have u: "upsertConnection cs c n = (case index_of (c_name c) cs of Some i \<Rightarrow> replace_at cs i c | None \<Rightarrow> cs @ [c])"
    using None by (simp add: upsertConnection_def)
  show thesis
  proof (cases "index_of (c_name c) cs")
    case None
    then have "c_name c \<notin> c_name ` set cs" by (simp add: index_of_None)
    then show thesis using added n u None by simp
  next
    case (Some i)
    then show thesis using replaced [of i] n u index_of_Some [OF Some] by auto
  qed
next
  case (Some i)
  then have "n \<noteq> ''''" "index_of n cs = Some i" by (auto split: if_splits)
  then show thesis using replaced [of i] index_of_Some [of n cs i] by (auto simp: upsertConnection_def index_of_None)
qed

text \<open>Saving the fields changes one entry of the list, the one that was loaded or the one with the same
  name, or adds one; all others stay, and an unreadable key is kept unless a new key was typed in.\<close>

theorem upsert_changes_one:
  assumes "cs' = upsertConnection cs (currentFieldsAsConnection f) n"
  shows "((\<exists>i c'. i < length cs \<and> cs' = cs[i := c'] \<and> c_name (cs ! i) \<in> {n, c_name c'} \<and>
      c'\<lparr>sealedKey := ''''\<rparr> = currentFieldsAsConnection f \<and>
      sealedKey c' = (if ClientKey c' = '''' then sealedKey (cs ! i) else '''')) \<or>
    (cs' = cs @ [currentFieldsAsConnection f] \<and> c_name (currentFieldsAsConnection f) \<notin> c_name ` set cs)) \<and>
    (list_all (conn_ok unprotect) cs \<longrightarrow> list_all (conn_ok unprotect) cs')"
    (is "(?one \<or> ?new) \<and> (?ok \<longrightarrow> ?ok')")
proof (intro conjI impI)
  define c where "c = currentFieldsAsConnection f"
  have c0: "sealedKey c = ''''" by (simp add: c_def currentFieldsAsConnection_def Let_def)
  show "?one \<or> ?new"
  proof (cases rule: upsert_cases [of cs c n])
    case (replaced i)
    then have ?one using assms c0
      by (intro exI [of _ i] exI [of _ "if ClientKey c = '''' then c\<lparr>sealedKey := sealedKey (cs ! i)\<rparr> else c"])
        (auto simp: c_def [symmetric] replace_at_def)
    then show ?thesis ..
  next
    case added
    then show ?thesis using assms by (simp add: c_def)
  qed
  show ?ok' if ok: ?ok
  proof (cases rule: upsert_cases [of cs c n])
    case (replaced i)
    then have "conn_ok unprotect (cs ! i)" using ok by (simp add: list_all_length)
    then have "conn_ok unprotect (if ClientKey c = '''' then c\<lparr>sealedKey := sealedKey (cs ! i)\<rparr> else c)"
      using c0 by (auto simp: conn_ok_def)
    then show ?thesis using replaced ok assms
      by (auto simp: c_def [symmetric] replace_at_def list_all_iff dest!: set_update_subset_insert [THEN subsetD])
  next
    case added
    then show ?thesis using assms ok c0 by (simp add: c_def [symmetric] conn_ok_def)
  qed
qed

section \<open>Fields and list\<close>

definition tidy :: "string \<Rightarrow> bool" where
  "tidy w \<longleftrightarrow> (w = [] \<or> \<not> is_space (hd w) \<and> \<not> is_space (last w))"

lemma dropWhile_hd: "w \<noteq> [] \<Longrightarrow> \<not> P (hd w) \<Longrightarrow> dropWhile P w = w"
  by (cases w) simp_all

lemma trim_empty [simp]: "trim_space '''' = ''''"
  by (simp add: trim_space_def)

lemma trim_tidy: "tidy w \<Longrightarrow> trim_space w = w"
  using dropWhile_hd [of w is_space] dropWhile_hd [of "rev w" is_space]
  by (cases "w = []") (auto simp: trim_space_def tidy_def hd_rev)

lemma trim_skip: "is_space a \<Longrightarrow> trim_space (a # w) = trim_space w"
  by (simp add: trim_space_def)

lemma split_joined:
  "gs \<noteq> [] \<Longrightarrow> list_all (\<lambda>g. CHR '','' \<notin> set g) gs \<Longrightarrow>
     split_on CHR '','' (join_with '', '' gs) = hd gs # map ((#) CHR '' '') (tl gs)"
proof (induction gs)
  case (Cons g gs)
  show ?case
  proof (cases gs)
    case Nil
    then show ?thesis using Cons by (simp add: split_on_plain)
  next
    case (Cons g' gs')
    have "split_on CHR '','' (join_with '', '' gs) = g' # map ((#) CHR '' '') gs'" using Cons.IH Cons.prems Cons by simp
    then have "split_on CHR '','' (CHR '' '' # join_with '', '' gs) = (CHR '' '' # g') # map ((#) CHR '' '') gs'"
      by simp
    then show ?thesis using Cons Cons.prems split_on_append [of "CHR '',''" g] by simp
  qed
qed simp

lemma tidy_joined:
  "gs \<noteq> [] \<Longrightarrow> list_all (\<lambda>g. g \<noteq> [] \<and> tidy g) gs \<Longrightarrow> tidy (join_with '', '' gs) \<and> join_with '', '' gs \<noteq> []"
proof (induction gs)
  case (Cons g gs)
  then show ?case by (cases gs) (auto simp: tidy_def)
qed simp

text \<open>A connection whose texts are already trimmed.\<close>

definition tidy_conn :: "connection \<Rightarrow> bool" where
  "tidy_conn c \<longleftrightarrow> tidy (c_name c) \<and> tidy (VPNAddr c) \<and> tidy (ClientKey c) \<and>
     list_all (\<lambda>g. g \<noteq> [] \<and> tidy g \<and> CHR '','' \<notin> set g) (GameProcesses c)"

lemma games_read_back:
  assumes "list_all (\<lambda>g. g \<noteq> [] \<and> tidy g \<and> CHR '','' \<notin> set g) gs" "gs \<noteq> []"
  shows "filter (\<lambda>p. p \<noteq> '''') (map trim_space (split_on CHR '','' (join_with '', '' gs))) = gs"
proof -
  have s: "split_on CHR '','' (join_with '', '' gs) = hd gs # map ((#) CHR '' '') (tl gs)"
    using split_joined [OF assms(2)] assms(1) by (simp add: list_all_iff)
  have "map trim_space (hd gs # map ((#) CHR '' '') (tl gs)) = gs"
    using assms by (cases gs) (auto simp: trim_tidy trim_skip is_space_def list_all_iff comp_def intro!: map_idI)
  then show ?thesis using s assms(1) by (simp add: list_all_iff)
qed

lemma fields_read_back:
  assumes "tidy_conn c"
  shows "currentFieldsAsConnection (fst (fillFieldsFrom c)) = c\<lparr>sealedKey := ''''\<rparr>"
proof (cases "GameProcesses c = []")
  case True
  then show ?thesis using assms
    by (cases c) (simp add: currentFieldsAsConnection_def fillFieldsFrom_def tidy_conn_def trim_tidy)
next
  case False
  then have "tidy (join_with '', '' (GameProcesses c)) \<and> join_with '', '' (GameProcesses c) \<noteq> []"
    using tidy_joined assms by (auto simp: tidy_conn_def list_all_iff)
  then show ?thesis using assms False games_read_back [of "GameProcesses c"]
    by (cases c) (simp add: currentFieldsAsConnection_def fillFieldsFrom_def tidy_conn_def trim_tidy)
qed

text \<open>Opening a saved connection in the fields and saving it again without a change leaves the list as it
  was, also if its key could not be decrypted and the key field is empty.\<close>

theorem save_unchanged:
  assumes "index_of (c_name c) cs = Some i" "cs ! i = c" "c_name c \<noteq> ''''" "tidy_conn c" "conn_ok unprotect c"
  shows "(case fillFieldsFrom c of (f, n) \<Rightarrow> upsertConnection cs (currentFieldsAsConnection f) n) = cs"
proof -
  obtain f where f: "fillFieldsFrom c = (f, c_name c)" by (simp add: fillFieldsFrom_def)
  then have "currentFieldsAsConnection f = c\<lparr>sealedKey := ''''\<rparr>" using fields_read_back [OF assms(4)] by simp
  then have "(case fillFieldsFrom c of (f, n) \<Rightarrow> upsertConnection cs (currentFieldsAsConnection f) n) =
      replace_at cs i (c\<lparr>sealedKey := ''''\<rparr>)"
    using assms(1,3) f by (simp add: upsertConnection_def)
  also have "\<dots> = cs[i := c]" using assms(2,5) by (cases c) (auto simp: replace_at_def conn_ok_def)
  finally show ?thesis using assms(2) by (metis list_update_id)
qed

text \<open>The ping button checks the server as the client would: with a pin set or saved it accepts exactly
  the servers the client accepts; it accepts any certificate only if the client would too, and then it says so.\<close>

theorem ping_checks_like_client:
  assumes pin: "choose_pin sha256 fs False (t_ServerPin cfg) (t_PinFile cfg) tmp net fault = (fs', Inr p)"
    and "t_ServerPin cfg \<noteq> '''' \<or> t_PinFile cfg = '''' \<or> fmlookup fs (t_PinFile cfg) \<noteq> None"
  shows "Dial sha256 verify addr (fst (pingDialConfig cfg fs)) net2 =
      Dial sha256 verify addr \<lparr>ServerName = t_ServerName cfg, Pin = p, Insecure = t_Insecure cfg\<rparr> net2 \<and>
    (snd (pingDialConfig cfg fs) \<longleftrightarrow> p = None \<and> t_Insecure cfg)"
proof -
  have e: "ParsePin '''' = Inl (BadLength 0)" by (simp add: ParsePin_def trim_space_def sha256_Size_def)
  have "pingDialConfig cfg fs = (\<lparr>ServerName = t_ServerName cfg, Pin = p, Insecure = (p = None \<and> t_Insecure cfg)\<rparr>, p = None \<and> t_Insecure cfg)"
    using assms e
    by (auto simp: pingDialConfig_def choose_pin_def ResolvePin_def Let_def split: sum.splits option.splits if_splits prod.splits)
  then show ?thesis by (auto simp: Dial_def check_server_def sni_name_def split: sum.split option.split list.split)
qed

section \<open>Concrete cases\<close>

definition toy_protect :: "string \<Rightarrow> string option" where "toy_protect k = Some (CHR ''!'' # k)"

definition toy_unprotect :: "string \<Rightarrow> string option" where
  "toy_unprotect blob = (case blob of c # k \<Rightarrow> if c = CHR ''!'' then Some k else None | [] \<Rightarrow> None)"

lemma toy_seals: "seals toy_protect toy_unprotect"
  by (simp add: seals_def toy_protect_def toy_unprotect_def)

definition home :: connection where
  "home = \<lparr>c_name = ''home'', VPNAddr = ''1.2.3.4:587'', ClientKey = ''k'', GameProcesses = [''a.exe'', ''b.exe''], sealedKey = ''''\<rparr>"

definition foreign :: connection where
  "foreign = \<lparr>c_name = ''work'', VPNAddr = ''5.6.7.8:587'', ClientKey = '''', GameProcesses = [], sealedKey = ''AAAA''\<rparr>"

lemma toy_conns: "list_all (conn_ok toy_unprotect) [home, foreign]"
  by (simp add: conn_ok_def home_def foreign_def toy_unprotect_def)

theorem connections_roundtrip_witness:
  "\<exists>ss. encodeConnections toy_protect [home, foreign] = Inr ss \<and>
     decodeConnections toy_unprotect ss = ([home, foreign], False, [''work''])"
proof -
  obtain ss where ss: "encodeConnections toy_protect [home, foreign] = Inr ss"
    by (simp add: encode_entry_def toy_protect_def home_def foreign_def Let_def)
  then show ?thesis using connections_roundtrip [OF toy_seals toy_conns ss] by (simp add: home_def foreign_def)
qed

definition old_entry :: storedConnection where
  "old_entry = \<lparr>s_name = ''home'', s_VPNAddr = ''1.2.3.4:587'', ClientKeyDPAPI = '''', s_ClientKey = ''plain'', s_GameProcesses = []\<rparr>"

definition quiet_env :: load_env where
  "quiet_env = \<lparr>le_unreadable = (\<lambda>_. False), le_save1 = (''t1'', None), le_save2 = (''t2'', None), le_now = ''20260101-000000'',
     le_moveFails = False\<rparr>"

theorem load_keeps_keys_witness:
  "\<exists>fs' cs ss'. loadConnections toy_protect toy_unprotect ''new'' (fmupd connectionsPath (Entries [old_entry]) fmempty) quiet_env [] = (fs', cs, []) \<and>
     fmlookup fs' connectionsPath = Some (Entries ss') \<and> ClientKey (cs ! 0) = ''plain''"
proof -
  obtain fs' cs al where l: "loadConnections toy_protect toy_unprotect ''new'' (fmupd connectionsPath (Entries [old_entry]) fmempty) quiet_env [] =
      (fs', cs, al)" by (metis prod.exhaust)
  have "al = []" using l by (simp add: loadConnections_def quiet_env_def decode_entry_def old_entry_def Let_def)
  moreover have "\<not> le_unreadable quiet_env connectionsPath" "fst (le_save1 quiet_env) \<noteq> connectionsPath"
    "fmlookup (fmupd connectionsPath (Entries [old_entry]) fmempty) (fst (le_save1 quiet_env)) = None"
    by (simp_all add: quiet_env_def connectionsPath_def)
  ultimately show ?thesis
    using load_keeps_keys [OF toy_seals _ _ _ _ l, of "Entries [old_entry]"] l
    by (auto simp: decode_entry_def old_entry_def Let_def)
qed

theorem upsert_changes_one_witness:
  "(case upsertConnection [home, foreign] (currentFieldsAsConnection \<lparr>nameEdit = ''office'', vpnAddrEdit = ''9.9.9.9:1'', clientKeyEdit = '''', gameProcEdit = ''''\<rparr>) ''work'' of
      cs \<Rightarrow> list_all (conn_ok toy_unprotect) cs \<and> length cs = 2)"
proof -
  define cs where "cs = upsertConnection [home, foreign] (currentFieldsAsConnection \<lparr>nameEdit = ''office'', vpnAddrEdit = ''9.9.9.9:1'', clientKeyEdit = '''', gameProcEdit = ''''\<rparr>) ''work''"
  have "length cs = 2" by (simp add: cs_def upsertConnection_def replace_at_def home_def foreign_def)
  then show ?thesis using upsert_changes_one [OF cs_def, of toy_unprotect] toy_conns by (simp add: cs_def [symmetric])
qed

theorem save_unchanged_witness:
  "(case fillFieldsFrom foreign of (f, n) \<Rightarrow> upsertConnection [home, foreign] (currentFieldsAsConnection f) n) = [home, foreign]"
  by (rule save_unchanged [where i = 1 and unprotect = toy_unprotect])
    (simp_all add: home_def foreign_def tidy_conn_def tidy_def is_space_def conn_ok_def toy_unprotect_def)

theorem ping_checks_like_client_witness:
  "Dial (\<lambda>b. b) (\<lambda>_ _. False) ''a:1'' (fst (pingDialConfig \<lparr>t_ServerPin = '''', t_PinFile = ''pin'', t_ServerName = '''', t_Insecure = True\<rparr>
       (fmupd ''pin'' (hex_string (replicate 32 7)) fmempty))) (Inr [replicate 32 8]) = Some PinMismatch"
proof -
  let ?cfg = "\<lparr>t_ServerPin = '''', t_PinFile = ''pin'', t_ServerName = '''', t_Insecure = True\<rparr>"
  let ?fs = "fmupd ''pin'' (hex_string (replicate 32 7)) fmempty"
  have "choose_pin (\<lambda>b. b) ?fs False (t_ServerPin ?cfg) (t_PinFile ?cfg) ''t'' (Inr []) None = (?fs, Inr (Some (replicate 32 7)))"
    using ParsePin_hex [of "replicate 32 7"] by (simp add: choose_pin_def ResolvePin_def sha256_Size_def)
  from ping_checks_like_client [OF this, of "\<lambda>_ _. False" "''a:1''" "Inr [replicate 32 8]"] show ?thesis
    by (simp add: Dial_def check_server_def)
qed

end
