(* ===== verification/TrayRoutes.thy ===== *)
theory TrayRoutes
  imports Auth VpnSetup
begin

text \<open>
  cmd/tray/routes.go, the line scanner of cmd/tray/client.go and the table of fatal errors of cmd/tray/errors.go: the
  addresses of the tunnel, the server address in the client's log line, and the arguments of the
  PowerShell script. The script is an argument (its text is embedded by the build); runes are numbers.
\<close>

section \<open>The tunnel side\<close>

definition defaultTunName :: string where "defaultTunName = ''dormvpn0''"
definition defaultVPNSubnet :: string where "defaultVPNSubnet = ''10.66.0.0/24''"

record tunConfig =
  tc_Name :: string
  tc_IP :: ip
  tc_Gateway :: ip
  tc_PrefixLen :: nat

datatype tun_error = BadJSON | BadSubnet string | SubnetTooSmall string

text \<open>The argument is what the JSON text decodes to: the name and the subnet.\<close>

definition tunConfigFromJSON :: "(string \<times> string) option \<Rightarrow> tun_error + tunConfig" where
  "tunConfigFromJSON cfg =
     (case cfg of
        None \<Rightarrow> Inl BadJSON
      | Some (name, subnet) \<Rightarrow>
          let name = (if name = '''' then defaultTunName else name);
              subnet = (if subnet = '''' then defaultVPNSubnet else subnet)
          in case parse_prefix4 subnet of
               None \<Rightarrow> Inl (BadSubnet subnet)
             | Some (b, bits) \<Rightarrow>
                 if 30 < bits then Inl (SubnetTooSmall subnet)
                 else
                   let gw = next_v4 (net_ip (cidr b bits))
                   in Inr \<lparr>tc_Name = name, tc_IP = next_v4 gw, tc_Gateway = gw, tc_PrefixLen = bits\<rparr>)"

section \<open>The server in the client's log\<close>

definition connectedMarker :: string where "connectedMarker = ''connected to vpn channel''"

text \<open>The texts of the last two errors of the source (not an IP, not IPv4) are one here.\<close>

datatype line_error = NoMarker | NoServerAddr | BadServerAddr string | NotIPv4 string

definition serverIPFromLine :: "string \<Rightarrow> line_error + ip" where
  "serverIPFromLine line =
     (case cut line connectedMarker of
        None \<Rightarrow> Inl NoMarker
      | Some (_, rest) \<Rightarrow>
          (case text_fields rest of
             [] \<Rightarrow> Inl NoServerAddr
           | hp # _ \<Rightarrow>
               (case SplitHostPort hp of
                  None \<Rightarrow> Inl (BadServerAddr hp)
                | Some (host, _) \<Rightarrow>
                    if To4 (ParseIP host) = [] then Inl (NotIPv4 host) else Inr (To4 (ParseIP host)))))"

section \<open>The arguments of the script\<close>

definition ps_char :: "char \<Rightarrow> bool" where
  "ps_char c \<longleftrightarrow> is_digit c \<or> (65 \<le> (of_char c :: nat) \<and> of_char c \<le> (90 :: nat)) \<or> (97 \<le> (of_char c :: nat) \<and> of_char c \<le> (122 :: nat)) \<or>
     c \<in> {CHR ''.'', CHR ''_'', CHR '' '', CHR ''-''}"

definition psSafe :: "string \<Rightarrow> bool" where
  "psSafe s \<longleftrightarrow> 1 \<le> length s \<and> length s \<le> 64 \<and> list_all ps_char s"

definition psQuote :: "string \<Rightarrow> string option" where
  "psQuote s = (if psSafe s then Some (CHR 0x27 # s @ [CHR 0x27]) else None)"

text \<open>The error names the parameter.\<close>

fun quote_params :: "(string \<times> string) list \<Rightarrow> string + string list" where
  "quote_params [] = Inr []"
| "quote_params ((name, v) # ps) =
     (case psQuote v of
        None \<Rightarrow> Inl name
      | Some q \<Rightarrow> (case quote_params ps of Inl e \<Rightarrow> Inl e | Inr qs \<Rightarrow> Inr ((CHR ''-'' # name) # q # qs)))"

definition setupArgs :: "ip \<Rightarrow> tunConfig \<Rightarrow> string + string list" where
  "setupArgs server tc =
     (case quote_params [(''ServerIP'', ip_string server), (''TunName'', tc_Name tc), (''TunIP'', ip_string (tc_IP tc)),
          (''TunGateway'', ip_string (tc_Gateway tc))] of
        Inl e \<Rightarrow> Inl e
      | Inr qs \<Rightarrow> Inr (qs @ [''-TunPrefixLength'', itoa (tc_PrefixLen tc)]))"

section \<open>The encoded command\<close>

text \<open>\<^verbatim>\<open>utf16.Encode\<close>.\<close>

definition utf16_rune :: "nat \<Rightarrow> u16 list" where
  "utf16_rune r =
     (if r < 0xD800 \<or> (0xE000 \<le> r \<and> r < 0x10000) then [of_nat r]
      else if 0x10000 \<le> r \<and> r \<le> 0x10FFFF then
        [of_nat (0xD800 + (r - 0x10000) div 1024), of_nat (0xDC00 + (r - 0x10000) mod 1024)]
      else [0xFFFD])"

definition utf16_encode :: "nat list \<Rightarrow> u16 list" where
  "utf16_encode rs = concat (map utf16_rune rs)"

definition le16 :: "u16 \<Rightarrow> bytes" where
  "le16 c = [ucast c, ucast (drop_bit 8 c)]"

definition runes_of :: "string \<Rightarrow> nat list" where "runes_of s = map of_char s"

definition command_source :: "nat list \<Rightarrow> string list \<Rightarrow> nat list" where
  "command_source script qs =
     runes_of (''$ProgressPreference = '' @ [CHR 0x27] @ ''SilentlyContinue'' @ [CHR 0x27, CHR 0x0A] @ ''& {'' @ [CHR 0x0A]) @ script @
     runes_of (CHR 0x0A # ''} '' @ join_with '' '' qs @ '' *>&1'')"

definition encodedCommand :: "nat list \<Rightarrow> string list \<Rightarrow> string" where
  "encodedCommand script qs = b64_encode (concat (map le16 (utf16_encode (command_source script qs))))"

definition powershellArgs :: "nat list \<Rightarrow> string list \<Rightarrow> string list" where
  "powershellArgs script qs =
     [''-NoProfile'', ''-NonInteractive'', ''-ExecutionPolicy'', ''Bypass'', ''-EncodedCommand'', encodedCommand script qs]"

section \<open>The output of the client\<close>

datatype clientErrKind = errNone | errPinMismatch | errKeyRejected

definition noteClientLine :: "clientErrKind \<Rightarrow> string \<Rightarrow> clientErrKind" where
  "noteClientLine e s =
     (if contains s ''server certificate does not match pinned fingerprint'' then errPinMismatch
      else if contains s ''server rejected the client key'' then errKeyRejected
      else e)"

record scanner =
  sc_line :: string
  sc_seen :: bool

text \<open>What the scanner does with a line; a send to the full channel is lost (see \<^verbatim>\<open>select\<close>).\<close>

datatype scan_out = LogLine string | NoteLine string | SendLine string | TunnelLine string

definition trim_cr :: "string \<Rightarrow> string" where
  "trim_cr s = rev (dropWhile (\<lambda>c. c = CHR 0x0D) (rev s))"

definition scan_byte :: "scanner \<Rightarrow> char \<Rightarrow> scanner \<times> scan_out list" where
  "scan_byte sc b =
     (if b \<noteq> CHR 0x0A then (sc\<lparr>sc_line := sc_line sc @ [b]\<rparr>, [])
      else
        let s = trim_cr (sc_line sc); sc1 = sc\<lparr>sc_line := []\<rparr> in
        if \<not> sc_seen sc1 \<and> contains s connectedMarker then (sc1\<lparr>sc_seen := True\<rparr>, [LogLine s, NoteLine s, SendLine s])
        else (sc1, [LogLine s, NoteLine s] @ (if sc_seen sc1 then [TunnelLine s] else [])))"

fun scan_bytes :: "scanner \<Rightarrow> string \<Rightarrow> scanner \<times> scan_out list" where
  "scan_bytes sc [] = (sc, [])"
| "scan_bytes sc (b # bs) =
     (case scan_byte sc b of (sc1, o1) \<Rightarrow> case scan_bytes sc1 bs of (sc2, o2) \<Rightarrow> (sc2, o1 @ o2))"

definition scan_end :: "scanner \<Rightarrow> scan_out list" where
  "scan_end sc =
     (if sc_line sc \<noteq> [] then [LogLine (sc_line sc)] else []) @ (if \<not> sc_seen sc then [SendLine ''''] else [])"

text \<open>\<^verbatim>\<open>scanForConnected\<close> on the chunks the reads return until they fail.\<close>

fun scan_reads :: "scanner \<Rightarrow> string list \<Rightarrow> scan_out list" where
  "scan_reads sc [] = scan_end sc"
| "scan_reads sc (chunk # chunks) = (case scan_bytes sc chunk of (sc1, o1) \<Rightarrow> o1 @ scan_reads sc1 chunks)"

definition scanForConnected :: "string list \<Rightarrow> scan_out list" where
  "scanForConnected chunks = scan_reads \<lparr>sc_line = [], sc_seen = False\<rparr> chunks"

section \<open>The same addresses on all three sides\<close>

text \<open>C35. The tray, the client and the server compute the same tunnel addresses from the same setting: the tray
  sets up the routes with the address the client uses and the gateway the server has.\<close>

theorem tray_tunnel_agrees:
  assumes "tunConfigFromJSON (Some (name, subnet)) = Inr tc"
    and "s = (if subnet = '''' then defaultVPNSubnet else subnet)"
  shows "vpnAddresses s = Some (tc_IP tc, tc_Gateway tc) \<and> tc_PrefixLen tc \<le> 30 \<and>
    (\<forall>n. parseVPNSubnet s = Inr n \<longrightarrow> tc_IP tc = clientIP n \<and> tc_Gateway tc = serverIP n)"
proof -
  have v: "vpnAddresses s = Some (tc_IP tc, tc_Gateway tc)" "tc_PrefixLen tc \<le> 30"
    using assms by (auto simp: tunConfigFromJSON_def vpnAddresses_def Let_def split: option.splits if_splits)
  then show ?thesis using addresses_agree [of s] by auto
qed

lemma fields_one: "w \<noteq> [] \<Longrightarrow> \<forall>c\<in>set w. \<not> is_space c \<Longrightarrow> text_fields (CHR '' '' # w) = [w]"
proof -
  assume a: "w \<noteq> []" "\<forall>c\<in>set w. \<not> is_space c"
  have m: "map (\<lambda>c. if is_space c then CHR '' '' else c) w = w" using a(2) by (intro map_idI) auto
  have "CHR '' '' \<notin> set w" using a(2) by (auto simp: is_space_def)
  then show ?thesis using a(1) by (simp add: text_fields_def m split_on_plain)
qed

text \<open>The route around the tunnel is for exactly the address the client connected to: whatever time stamp the
  log line starts with, the tray reads the IPv4 address back that the client printed.\<close>

theorem server_ip_from_log:
  assumes "To4 a \<noteq> []" "list_all is_digit port" "CHR ''c'' \<notin> set stamp"
  shows "serverIPFromLine (stamp @ connectedMarker @ CHR '' '' # JoinHostPort (ip_string a) port) = Inr (To4 a)"
proof -
  have l: "length (To4 a) = 4" using length_To4 [of a] assms(1) by simp
  then obtain b0 b1 b2 b3 where b: "To4 a = [b0, b1, b2, b3]" by (auto simp: length_Suc_conv numeral_eq_Suc)
  have h: "ip_string a = v4_string (To4 a)" using assms(1) by (rule ip_string_v4)
  have host: "c \<in> set (ip_string a) \<Longrightarrow> is_digit c \<or> c = CHR ''.''" for c using v4_string_chars h by metis
  have port: "c \<in> set port \<Longrightarrow> is_digit c" for c using assms(2) by (auto simp: list_all_iff)
  have nb: "\<not> brackets (ip_string a)" "\<not> brackets port" "CHR '':'' \<notin> set port" "CHR '':'' \<notin> set (ip_string a)"
    using host [of "CHR 0x5B"] host [of "CHR 0x5D"] host [of "CHR '':''"] port [of "CHR 0x5B"] port [of "CHR 0x5D"] port [of "CHR '':''"]
    by (auto simp: brackets_def is_digit_def)
  define w where "w = JoinHostPort (ip_string a) port"
  have w: "w = ip_string a @ '':'' @ port" using nb(4) by (simp add: w_def JoinHostPort_def)
  have "\<not> is_space c" if "c \<in> set w" for c
    using that host [of c] port [of c] by (auto simp: w is_space_def is_digit_def)
  then have f: "text_fields (CHR '' '' # w) = [w]" by (intro fields_one) (auto simp: w)
  have "hd connectedMarker = CHR ''c''" "connectedMarker \<noteq> []" by (simp_all add: connectedMarker_def)
  then have c: "cut (stamp @ connectedMarker @ CHR '' '' # w) connectedMarker = Some (stamp, CHR '' '' # w)"
    using assms(3) by (intro cut_at) simp_all
  have "SplitHostPort w = Some (ip_string a, port)" unfolding w_def by (rule split_join_host [OF nb(1,2,3)])
  moreover have "ParseIP (ip_string a) = v4_prefix @ To4 a" by (simp add: h b ParseIP_v4_string)
  moreover have "To4 (v4_prefix @ To4 a) = To4 a" by (simp add: b To4_def v4_prefix_def)
  ultimately show ?thesis unfolding serverIPFromLine_def w_def [symmetric] using c f assms(1) by simp
qed

section \<open>Nothing gets into the script but the values\<close>

text \<open>
  How PowerShell splits such a command line: at spaces outside single quotes; a single quote opens or
  closes a literal text in which no character is special.
\<close>

fun ps_split :: "bool \<Rightarrow> string \<Rightarrow> string \<Rightarrow> string list" where
  "ps_split q w [] = [w]"
| "ps_split q w (c # cs) =
     (if c = CHR 0x27 then ps_split (\<not> q) w cs
      else if c = CHR '' '' \<and> \<not> q then w # ps_split q [] cs
      else ps_split q (w @ [c]) cs)"

lemma ps_plain:
  "list_all (\<lambda>c. c \<noteq> CHR 0x27 \<and> c \<noteq> CHR '' '') w \<Longrightarrow> ps_split False u (w @ r) = ps_split False (u @ w) r"
  by (induction w arbitrary: u) auto

lemma ps_literal: "CHR 0x27 \<notin> set w \<Longrightarrow> ps_split True u (w @ CHR 0x27 # r) = ps_split False (u @ w) r"
  by (induction w arbitrary: u) auto

lemma ps_char_not_quote: "ps_char c \<Longrightarrow> c \<noteq> CHR 0x27"
  by (auto simp: ps_char_def is_digit_def)

lemma ps_quoted: "psQuote v = Some q \<Longrightarrow> ps_split False [] (q @ r) = ps_split False v r"
proof -
  assume q: "psQuote v = Some q"
  then have "CHR 0x27 \<notin> set v" using ps_char_not_quote by (auto simp: psQuote_def psSafe_def list_all_iff split: if_splits)
  then show ?thesis using q ps_literal [of v "[]" r] by (auto simp: psQuote_def split: if_splits)
qed

lemma v4_safe: "length b = 4 \<Longrightarrow> psSafe (v4_string b)"
proof -
  assume l: "length b = 4"
  then obtain b0 b1 b2 b3 where b: "b = [b0, b1, b2, b3]" by (auto simp: length_Suc_conv numeral_eq_Suc)
  have len: "length (itoa (unat (x :: byte))) \<le> 4" for x
  proof -
    have "unat x < 256" using unsigned_less [of x] by simp
    then show ?thesis by (simp add: itoa.simps [of "unat x"] itoa.simps [of "unat x div 10"] itoa.simps [of "unat x div 10 div 10"])
  qed
  have "length (v4_string b) \<le> 64" "1 \<le> length (v4_string b)"
    using len [of b0] len [of b1] len [of b2] len [of b3] by (simp_all add: b v4_string_def)
  moreover have "list_all ps_char (v4_string b)" using v4_string_chars by (auto simp: list_all_iff ps_char_def)
  ultimately show ?thesis by (simp add: psSafe_def)
qed

definition plain_word :: "string \<Rightarrow> bool" where
  "plain_word w \<longleftrightarrow> list_all (\<lambda>c. c \<noteq> CHR 0x27 \<and> c \<noteq> CHR '' '') w"

lemma ps_words:
  "plain_word n \<Longrightarrow> ps_split False [] (n @ CHR '' '' # r) = n # ps_split False [] r"
  "psQuote v = Some q \<Longrightarrow> ps_split False [] (q @ CHR '' '' # r) = v # ps_split False [] r"
  "plain_word n \<Longrightarrow> ps_split False [] n = [n]"
  using ps_plain [of n "[]" "CHR '' '' # r"] ps_plain [of n "[]" "[]"] ps_quoted [of v q "CHR '' '' # r"]
  by (auto simp: plain_word_def)

lemma quote_params_words:
  "quote_params ps = Inr qs \<Longrightarrow> list_all (\<lambda>(n, v). plain_word n) ps \<Longrightarrow> plain_word l \<Longrightarrow> plain_word m \<Longrightarrow>
     ps_split False [] (join_with '' '' (qs @ [l, m])) = concat (map (\<lambda>(n, v). [CHR ''-'' # n, v]) ps) @ [l, m]"
proof (induction ps arbitrary: qs)
  case Nil
  then show ?case using ps_words(1) [of l m] ps_words(3) [of m] by simp
next
  case (Cons p ps)
  obtain n v where p: "p = (n, v)" by force
  from Cons.prems(1) obtain q qs1 where q: "psQuote v = Some q" "quote_params ps = Inr qs1" "qs = (CHR ''-'' # n) # q # qs1"
    by (auto simp: p split: option.splits sum.splits)
  have j: "join_with '' '' (qs @ [l, m]) = (CHR ''-'' # n) @ CHR '' '' # q @ CHR '' '' # join_with '' '' (qs1 @ [l, m])"
    by (cases qs1) (simp_all add: q(3))
  have "plain_word (CHR ''-'' # n)" using Cons.prems(2) by (simp add: p plain_word_def)
  then have "ps_split False [] (join_with '' '' (qs @ [l, m])) = (CHR ''-'' # n) # v # ps_split False [] (join_with '' '' (qs1 @ [l, m]))"
    by (simp only: j ps_words(1) ps_words(2) [OF q(1)])
  then show ?case using Cons.IH [OF q(2)] Cons.prems by (simp add: p)
qed

lemma join_chars: "c \<in> set (join_with sep ws) \<Longrightarrow> c \<in> set sep \<or> (\<exists>w\<in>set ws. c \<in> set w)"
  by (induction sep ws rule: join_with.induct) auto

lemma quote_params_chars:
  "quote_params ps = Inr qs \<Longrightarrow> list_all (\<lambda>(n, v). list_all ps_char n) ps \<Longrightarrow> q \<in> set qs \<Longrightarrow> c \<in> set q \<Longrightarrow> ps_char c \<or> c = CHR 0x27"
proof (induction ps arbitrary: qs)
  case (Cons p ps)
  obtain n v where p: "p = (n, v)" by force
  have m: "ps_char CHR ''-''" by (simp add: ps_char_def)
  from Cons.prems(1) obtain w qs1 where q: "psQuote v = Some w" "quote_params ps = Inr qs1" "qs = (CHR ''-'' # n) # w # qs1"
    by (auto simp: p split: option.splits sum.splits)
  have "list_all ps_char v" "w = CHR 0x27 # v @ [CHR 0x27]" using q(1) by (auto simp: psQuote_def psSafe_def split: if_splits)
  then show ?case using Cons.IH [OF q(2)] Cons.prems(2-4) m by (auto simp: p q(3) list_all_iff)
qed simp

lemma args_chars:
  assumes "quote_params ps = Inr qs" "list_all (\<lambda>(n, v). list_all ps_char n) ps" "list_all ps_char l" "list_all ps_char m"
    and c: "c \<in> set (join_with '' '' (qs @ [l, m]))"
  shows "ps_char c \<or> c = CHR 0x27"
proof -
  have "ps_char CHR '' ''" by (simp add: ps_char_def)
  moreover from join_chars [OF c] have "c = CHR '' '' \<or> (\<exists>w\<in>set qs. c \<in> set w) \<or> c \<in> set l \<or> c \<in> set m" by auto
  ultimately show ?thesis using quote_params_chars [OF assms(1,2)] assms(3,4) by (auto simp: list_all_iff)
qed

lemma itoa_plain_word: "plain_word (itoa n)"
proof -
  have "\<not> is_digit CHR 0x27" "\<not> is_digit CHR '' ''" by (simp_all add: is_digit_def)
  then show ?thesis using itoa_digits by (auto simp: plain_word_def list_all_iff)
qed


section \<open>The command that PowerShell decodes\<close>

definition valid_rune :: "nat \<Rightarrow> bool" where
  "valid_rune r \<longleftrightarrow> r < 0xD800 \<or> (0xE000 \<le> r \<and> r \<le> 0x10FFFF)"

text \<open>Reading UTF-16LE: pairs of bytes, then surrogate pairs.\<close>

fun le_units :: "bytes \<Rightarrow> nat list" where
  "le_units (a # b # bs) = (unat a + 256 * unat b) # le_units bs"
| "le_units _ = []"

fun utf16_decode :: "nat list \<Rightarrow> nat list" where
  "utf16_decode (u # us) =
     (if 0xD800 \<le> u \<and> u < 0xDC00 then
        (case us of [] \<Rightarrow> [0xFFFD] | v # vs \<Rightarrow> (0x10000 + (u - 0xD800) * 1024 + (v - 0xDC00)) # utf16_decode vs)
      else u # utf16_decode us)"
| "utf16_decode [] = []"

lemma unit_bytes: "unat (ucast c :: byte) + 256 * unat (ucast (drop_bit 8 (c :: u16)) :: byte) = unat c"
proof -
  have "unat (ucast c :: byte) = unat c mod 256" by (simp add: unsigned_ucast_eq take_bit_eq_mod)
  moreover have "unat c < 65536" using unsigned_less [of c] by simp
  then have "unat (ucast (drop_bit 8 c) :: byte) = unat c div 256"
    by (simp add: unsigned_ucast_eq take_bit_eq_mod unat_drop_bit_eq drop_bit_eq_div [of _ "unat c"])
  ultimately show ?thesis by simp
qed

lemma le_units_encode: "le_units (concat (map le16 us)) = map unat us"
  by (induction us) (simp_all add: le16_def unit_bytes)

lemma unat_u16: "n < 65536 \<Longrightarrow> unat (of_nat n :: u16) = n"
  by (simp add: unat_of_nat)

lemma utf16_decode_rune: "valid_rune r \<Longrightarrow> utf16_decode (map unat (utf16_rune r) @ us) = r # utf16_decode us"
proof (cases "r < 0x10000")
  case True
  assume "valid_rune r"
  then show ?thesis using True unat_u16 [of r] by (auto simp: utf16_rune_def valid_rune_def)
next
  case False
  assume v: "valid_rune r"
  define x where "x = r - 0x10000"
  have x: "x < 0x100000" "r = 0x10000 + x" "\<not> r < 0xD800" using False v by (auto simp: x_def valid_rune_def)
  have d: "x div 1024 < 1024" "x mod 1024 < 1024" using x(1) by simp_all
  have u: "unat (of_nat (0xD800 + x div 1024) :: u16) = 0xD800 + x div 1024" "unat (of_nat (0xDC00 + x mod 1024) :: u16) = 0xDC00 + x mod 1024"
    using d by (intro unat_u16; simp)+
  have "utf16_rune r = [of_nat (0xD800 + x div 1024), of_nat (0xDC00 + x mod 1024)]"
    using x by (simp add: utf16_rune_def)
  then show ?thesis using d x(2) by (simp add: u del: of_nat_add)
qed

lemma utf16_roundtrip: "list_all valid_rune rs \<Longrightarrow> utf16_decode (map unat (utf16_encode rs)) = rs"
proof (induction rs)
  case (Cons r rs)
  then show ?case using utf16_decode_rune [of r "map unat (utf16_encode rs)"] by (simp add: utf16_encode_def)
qed (simp add: utf16_encode_def)

lemma char_rune: "valid_rune (of_char c)"
  unfolding valid_rune_def by (rule disjI1, rule less_trans [OF nat_of_char_less_256]) simp

text \<open>What PowerShell decodes from the encoded command is the built-in script, whatever characters it has,
  followed by the arguments: base64, the byte order and the surrogate pairs cancel out.\<close>

theorem encoded_command_roundtrip:
  assumes "list_all valid_rune script"
  shows "map_option (\<lambda>b. utf16_decode (le_units b)) (b64_groups (encodedCommand script qs)) = Some (command_source script qs)"
proof -
  have "list_all valid_rune (runes_of s)" for s using char_rune by (simp add: runes_of_def list_all_iff)
  then have "list_all valid_rune (command_source script qs)"
    unfolding command_source_def list_all_append using assms by blast
  then show ?thesis by (simp add: encodedCommand_def b64_groups_encode le_units_encode utf16_roundtrip)
qed

section \<open>One line of the client decides\<close>

definition full_lines :: "string \<Rightarrow> string list" where
  "full_lines text = map trim_cr (butlast (split_on CHR 0x0A text))"

definition sends :: "scan_out list \<Rightarrow> string list" where
  "sends os = concat (map (\<lambda>x. case x of SendLine s \<Rightarrow> [s] | _ \<Rightarrow> []) os)"
definition noted :: "scan_out list \<Rightarrow> string list" where
  "noted os = concat (map (\<lambda>x. case x of NoteLine s \<Rightarrow> [s] | _ \<Rightarrow> []) os)"
definition tunnel_lines :: "scan_out list \<Rightarrow> string list" where
  "tunnel_lines os = concat (map (\<lambda>x. case x of TunnelLine s \<Rightarrow> [s] | _ \<Rightarrow> []) os)"

lemma out_simps [simp]:
  "sends (a @ b) = sends a @ sends b" "noted (a @ b) = noted a @ noted b" "tunnel_lines (a @ b) = tunnel_lines a @ tunnel_lines b"
  "sends [] = []" "noted [] = []" "tunnel_lines [] = []"
  by (simp_all add: sends_def noted_def tunnel_lines_def)

lemma scan_bytes_append:
  "scan_bytes sc (xs @ ys) = (case scan_bytes sc xs of (sc1, o1) \<Rightarrow> case scan_bytes sc1 ys of (sc2, o2) \<Rightarrow> (sc2, o1 @ o2))"
  by (induction xs arbitrary: sc) (auto split: prod.splits)

lemma scan_reads_concat:
  "scan_reads sc chunks = (case scan_bytes sc (concat chunks) of (sc1, o1) \<Rightarrow> o1 @ scan_end sc1)"
  by (induction chunks arbitrary: sc) (auto simp: scan_bytes_append split: prod.splits)

text \<open>The text read since the last line end, before \<open>text\<close>.\<close>

definition has_marker :: "string \<Rightarrow> bool" where "has_marker s = contains s connectedMarker"

lemma split_on_line: "split_on CHR 0x0A (CHR 0x0A # t) = [] # split_on CHR 0x0A t"
  by simp

lemma scan_text:
  assumes "CHR 0x0A \<notin> set l"
  shows "scan_bytes \<lparr>sc_line = l, sc_seen = seen\<rparr> t = (sc', outs) \<Longrightarrow>
    (let ls = full_lines (l @ t) in
     sc_seen sc' = (seen \<or> list_ex has_marker ls) \<and>
     sends outs = (if seen then [] else case find has_marker ls of Some s \<Rightarrow> [s] | None \<Rightarrow> []) \<and> noted outs = ls \<and>
     tunnel_lines outs = (if seen then ls else tl (dropWhile (\<lambda>s. \<not> has_marker s) ls)))"
  using assms
proof (induction t arbitrary: l seen outs)
  case Nil
  then show ?case by (auto simp: full_lines_def split_on_plain Let_def)
next
  case (Cons b t)
  show ?case
  proof (cases "b = CHR 0x0A")
    case False
    then have "scan_bytes \<lparr>sc_line = l @ [b], sc_seen = seen\<rparr> t = (sc', outs)" using Cons.prems(1)
      by (simp add: scan_byte_def split: prod.splits)
    from Cons.IH [OF this] show ?thesis using Cons.prems(2) False by simp
  next
    case True
    define s where "s = trim_cr l"
    obtain outs2 where o: "scan_bytes \<lparr>sc_line = [], sc_seen = seen \<or> has_marker s\<rparr> t = (sc', outs2)"
      "outs = [LogLine s, NoteLine s] @ (if \<not> seen \<and> has_marker s then [SendLine s] else if seen then [TunnelLine s] else []) @ outs2"
      using Cons.prems(1) True by (auto simp: scan_byte_def Let_def s_def has_marker_def split: prod.splits if_splits)
    have ls: "full_lines (l @ b # t) = s # full_lines t"
      using Cons.prems(2) True by (simp add: full_lines_def split_on_append s_def)
    from Cons.IH [OF o(1)] show ?thesis
      by (auto simp: Let_def ls o(2) sends_def noted_def tunnel_lines_def)
  qed
qed

text \<open>However the client's output is cut into reads, the scanner hands over exactly one line: the first complete
  line with the marker, without its carriage return, or the empty line if there is none. Every
  complete line is looked at for fatal errors, and those after the marker are passed on.\<close>

theorem scan_one_line:
  "let ls = full_lines (concat chunks); outs = scanForConnected chunks in
   sends outs = [case find (\<lambda>s. contains s connectedMarker) ls of Some s \<Rightarrow> s | None \<Rightarrow> ''''] \<and> noted outs = ls \<and>
   tunnel_lines outs = tl (dropWhile (\<lambda>s. \<not> contains s connectedMarker) ls)"
proof -
  obtain sc' outs where s: "scan_bytes \<lparr>sc_line = [], sc_seen = False\<rparr> (concat chunks) = (sc', outs)" by force
  have e: "sends (scan_end sc') = (if sc_seen sc' then [] else [''''])" "noted (scan_end sc') = []" "tunnel_lines (scan_end sc') = []"
    by (simp_all add: scan_end_def sends_def noted_def tunnel_lines_def)
  have f: "list_ex (\<lambda>s. contains s connectedMarker) ls \<longleftrightarrow> find (\<lambda>s. contains s connectedMarker) ls \<noteq> None" for ls
    by (induction ls) auto
  from scan_text [OF _ s] show ?thesis
    unfolding scanForConnected_def scan_reads_concat
    by (auto simp: s Let_def e f has_marker_def [abs_def] split: option.split)
qed

section \<open>Concrete cases\<close>

theorem tray_tunnel_agrees_witness:
  "\<exists>tc. tunConfigFromJSON (Some ('''', '''')) = Inr tc \<and> vpnAddresses ''10.66.0.0/24'' = Some (tc_IP tc, tc_Gateway tc) \<and> tc_PrefixLen tc \<le> 30"
proof -
  have "parse_prefix4 defaultVPNSubnet = Some ([10, 66, 0, 0], 24)" by code_simp
  then obtain tc where t: "tunConfigFromJSON (Some ('''', '''')) = Inr tc" by (simp add: tunConfigFromJSON_def Let_def)
  from tray_tunnel_agrees [OF t, of "''10.66.0.0/24''"] t show ?thesis by (auto simp: defaultVPNSubnet_def)
qed

theorem server_ip_from_log_witness:
  "serverIPFromLine (''2026/10/14 12:00:00 '' @ connectedMarker @ CHR '' '' # JoinHostPort (ip_string [1, 2, 3, 4]) ''587'') = Inr [1, 2, 3, 4]"
proof -
  have "To4 [1, 2, 3, 4] = [1, 2, 3, 4]" by (simp add: To4_def)
  then show ?thesis
    using server_ip_from_log [of "[1, 2, 3, 4]" "''587''" "''2026/10/14 12:00:00 ''"] by (simp add: is_digit_def)
qed


theorem encoded_command_roundtrip_witness:
  "map_option (\<lambda>b. utf16_decode (le_units b)) (b64_groups (encodedCommand [0x41, 0x1F600, 0xE9] [''-Teardown''])) =
     Some (command_source [0x41, 0x1F600, 0xE9] [''-Teardown''])"
  by (rule encoded_command_roundtrip) (simp add: valid_rune_def)

end
