(* ===== verification/TrayClient.thy ===== *)
theory TrayClient
  imports TrayRoutes
begin

text \<open>
  cmd/tray/client.go and the rest of cmd/tray/errors.go: connecting, the client process and its end, disconnecting.
  The goroutines are interleaved in atomic steps: a section under \<^verbatim>\<open>mu\<close>, an atomic variable, a system
  call. Processes are numbers; the outcome of a call and the moment the route script adds its
  IPv6 block are chosen by the environment. \<^verbatim>\<open>connGen\<close> is not bounded here (it has 64 bits).
\<close>

section \<open>The state\<close>

datatype tray_status =
    StOff | StBusy | StConnecting | StRoutes | StConnected | StReconnecting | StStopping | StError string

datatype tray_icon = Gray | Green | Red

text \<open>
  Where the goroutine of \<^verbatim>\<open>connect\<close> is; \<open>NoConnect\<close> means that \<^verbatim>\<open>connectMu\<close> is free. The argument of
  \<open>Stopping\<close> is whether the routes are torn down after the client is stopped.
\<close>

datatype connect_phase =
    NoConnect | Begin | LoadGen | Launching | Launched nat | Waiting | Scripting | ScriptDone bool | Finishing
  | Stopping bool | Tearing

record tray =
  phase :: connect_phase
  gen :: nat                \<comment> \<open>the local variable of the last \<^verbatim>\<open>connect\<close>\<close>
  connGen :: nat
  clientCmd :: "nat option"
  procs :: "nat fset"       \<comment> \<open>the client processes that run\<close>
  waiters :: "nat fset"     \<comment> \<open>processes with a goroutine in \<^verbatim>\<open>Wait\<close>\<close>
  exitTear :: "nat fset"    \<comment> \<open>such goroutines that found their process theirs: before the teardown\<close>
  exitReport :: "nat fset"  \<comment> \<open>and before the report\<close>
  discStop :: nat           \<comment> \<open>running \<^verbatim>\<open>disconnect\<close>s before \<^verbatim>\<open>stopClient\<close>\<close>
  discTear :: nat
  discEnd :: nat
  blocked :: bool           \<comment> \<open>the firewall rule of the route script\<close>
  tunnelUp :: bool
  lastClientErr :: clientErrKind
  shown :: tray_status
  icon :: tray_icon
  active :: bool            \<comment> \<open>only \<^verbatim>\<open>disconnect\<close> can be clicked\<close>

text \<open>At startup the leftover block is removed under \<^verbatim>\<open>connectMu\<close>.\<close>

definition tray_start :: "bool \<Rightarrow> tray" where
  "tray_start leftover =
     \<lparr>phase = Tearing, gen = 0, connGen = 0, clientCmd = None, procs = {||}, waiters = {||}, exitTear = {||}, exitReport = {||},
      discStop = 0, discTear = 0, discEnd = 0, blocked = leftover, tunnelUp = False, lastClientErr = errNone,
      shown = StOff, icon = Gray, active = False\<rparr>"

section \<open>The operations\<close>

definition fail_tray :: "string \<Rightarrow> tray \<Rightarrow> tray" where
  "fail_tray why s = s\<lparr>tunnelUp := False, shown := StError why, icon := Red, active := False\<rparr>"

definition stopClient :: "tray \<Rightarrow> tray" where
  "stopClient s =
     (case clientCmd s of
        None \<Rightarrow> s
      | Some p \<Rightarrow> s\<lparr>clientCmd := None, procs := procs s |-| {|p|}\<rparr>)"

definition teardownRoutes :: "tray \<Rightarrow> tray" where
  "teardownRoutes s = s\<lparr>blocked := False\<rparr>"

definition cancelled :: "tray \<Rightarrow> bool" where
  "cancelled s \<longleftrightarrow> connGen s \<noteq> gen s"

definition startConnect :: "bool \<Rightarrow> tray \<Rightarrow> tray" where
  "startConnect config_written s =
     (if phase s \<noteq> NoConnect then s\<lparr>shown := StBusy\<rparr>
      else if \<not> config_written then s
      else s\<lparr>phase := Begin\<rparr>)"

text \<open>What a step of \<^verbatim>\<open>connect\<close> learns from outside: the started process or why there is none, the line of the
  client or the timeout, the end of the script.\<close>

datatype connect_input = NoInput | Launch "string + nat" | Line string | Timeout | ScriptEnded bool

definition fail_to :: "string \<Rightarrow> bool \<Rightarrow> tray \<Rightarrow> tray" where
  "fail_to why teardown s = (fail_tray why s)\<lparr>phase := Stopping teardown\<rparr>"

definition connect_line :: "tunConfig \<Rightarrow> string \<Rightarrow> tray \<Rightarrow> tray" where
  "connect_line tc line s =
     (if line = '''' then s\<lparr>phase := NoConnect\<rparr>
      else if cancelled s then s\<lparr>phase := NoConnect\<rparr>
      else case serverIPFromLine line of
             Inl e \<Rightarrow> fail_to ''server IP'' False s
           | Inr server \<Rightarrow>
               (case setupArgs server tc of
                  Inl e \<Rightarrow> fail_to ''script parameters'' False s
                | Inr qs \<Rightarrow> s\<lparr>phase := Scripting, shown := StRoutes\<rparr>))"

definition connect_step :: "tunConfig \<Rightarrow> connect_input \<Rightarrow> tray \<Rightarrow> tray option" where
  "connect_step tc inp s =
     (case phase s of
        NoConnect \<Rightarrow> None
      | Begin \<Rightarrow> Some ((stopClient (s\<lparr>tunnelUp := False\<rparr>))\<lparr>phase := LoadGen\<rparr>)
      | LoadGen \<Rightarrow> Some (s\<lparr>lastClientErr := errNone, gen := connGen s, phase := Launching\<rparr>)
      | Launching \<Rightarrow>
          (case inp of
             Launch r \<Rightarrow>
               let s1 = s\<lparr>active := True, shown := StConnecting, icon := Gray\<rparr> in
               (case r of
                  Inl why \<Rightarrow> Some ((fail_tray why s1)\<lparr>phase := NoConnect\<rparr>)
                | Inr p \<Rightarrow>
                    if p |\<in>| procs s |\<union>| waiters s then None
                    else Some (s1\<lparr>procs := finsert p (procs s1), phase := Launched p\<rparr>))
           | _ \<Rightarrow> None)
      | Launched p \<Rightarrow>
          if cancelled s then Some (s\<lparr>procs := procs s |-| {|p|}, phase := NoConnect\<rparr>)
          else Some (s\<lparr>clientCmd := Some p, waiters := finsert p (waiters s), phase := Waiting\<rparr>)
      | Waiting \<Rightarrow>
          (case inp of
             Line line \<Rightarrow> Some (connect_line tc line s)
           | Timeout \<Rightarrow> Some (if cancelled s then s\<lparr>phase := NoConnect\<rparr> else fail_to ''timeout'' False s)
           | _ \<Rightarrow> None)
      | Scripting \<Rightarrow> (case inp of ScriptEnded ok \<Rightarrow> Some (s\<lparr>phase := ScriptDone ok\<rparr>) | _ \<Rightarrow> None)
      | ScriptDone ok \<Rightarrow>
          Some (if cancelled s then s\<lparr>phase := Tearing\<rparr>
                else if \<not> ok then fail_to ''routes'' True s
                else s\<lparr>phase := Finishing\<rparr>)
      | Finishing \<Rightarrow> Some (s\<lparr>shown := StConnected, icon := Green, tunnelUp := True, phase := NoConnect\<rparr>)
      | Stopping teardown \<Rightarrow> Some ((stopClient s)\<lparr>phase := (if teardown then Tearing else NoConnect)\<rparr>)
      | Tearing \<Rightarrow> Some ((teardownRoutes s)\<lparr>phase := NoConnect\<rparr>))"

text \<open>The goroutine that waits for the process \<open>p\<close>, after \<^verbatim>\<open>Wait\<close> returned, in three steps.\<close>

definition wait_returned :: "nat \<Rightarrow> tray \<Rightarrow> tray" where
  "wait_returned p s =
     (let s1 = s\<lparr>waiters := waiters s |-| {|p|}\<rparr>
      in if clientCmd s1 = Some p then s1\<lparr>clientCmd := None, exitTear := finsert p (exitTear s1)\<rparr> else s1)"

definition reportClientExit :: "tray \<Rightarrow> tray" where
  "reportClientExit s =
     fail_tray (case lastClientErr s of errPinMismatch \<Rightarrow> ''certificate changed'' | errKeyRejected \<Rightarrow> ''key rejected'' | errNone \<Rightarrow> ''client exited'') s"

definition exit_teardown :: "nat \<Rightarrow> tray \<Rightarrow> tray" where
  "exit_teardown p s = (teardownRoutes s)\<lparr>exitTear := exitTear s |-| {|p|}, exitReport := finsert p (exitReport s)\<rparr>"

definition exit_report :: "nat \<Rightarrow> tray \<Rightarrow> tray" where
  "exit_report p s = (reportClientExit s)\<lparr>exitReport := exitReport s |-| {|p|}\<rparr>"

text \<open>\<^verbatim>\<open>disconnect\<close>, in four steps.\<close>

definition disconnect_begin :: "tray \<Rightarrow> tray" where
  "disconnect_begin s = s\<lparr>connGen := connGen s + 1, tunnelUp := False, shown := StStopping, discStop := discStop s + 1\<rparr>"

definition disconnect_stop :: "tray \<Rightarrow> tray" where
  "disconnect_stop s = (stopClient s)\<lparr>discStop := discStop s - 1, discTear := discTear s + 1\<rparr>"

definition disconnect_tear :: "tray \<Rightarrow> tray" where
  "disconnect_tear s = (teardownRoutes s)\<lparr>discTear := discTear s - 1, discEnd := discEnd s + 1\<rparr>"

definition disconnect_end :: "tray \<Rightarrow> tray" where
  "disconnect_end s = s\<lparr>shown := StOff, icon := Gray, active := False, discEnd := discEnd s - 1\<rparr>"

definition onClientLine :: "string \<Rightarrow> tray \<Rightarrow> tray" where
  "onClientLine line s =
     (if \<not> tunnelUp s then s
      else if contains line ''vpn: connection lost'' then s\<lparr>shown := StReconnecting, icon := Gray\<rparr>
      else if contains line connectedMarker then s\<lparr>shown := StConnected, icon := Green\<rparr>
      else s)"

section \<open>All interleavings\<close>

inductive tray_step :: "tray \<Rightarrow> tray \<Rightarrow> bool" where
  click: "tray_step s (startConnect config_written s)"
| connect: "connect_step tc inp s = Some s' \<Longrightarrow> tray_step s s'"
| died: "p |\<in>| procs s \<Longrightarrow> tray_step s (s\<lparr>procs := procs s |-| {|p|}\<rparr>)"
| script_blocks: "phase s = Scripting \<Longrightarrow> tray_step s (s\<lparr>blocked := True\<rparr>)"
| reaped: "p |\<in>| waiters s \<Longrightarrow> p |\<notin>| procs s \<Longrightarrow> tray_step s (wait_returned p s)"
| exit1: "p |\<in>| exitTear s \<Longrightarrow> tray_step s (exit_teardown p s)"
| exit2: "p |\<in>| exitReport s \<Longrightarrow> tray_step s (exit_report p s)"
| disc0: "tray_step s (disconnect_begin s)"
| disc1: "0 < discStop s \<Longrightarrow> tray_step s (disconnect_stop s)"
| disc2: "0 < discTear s \<Longrightarrow> tray_step s (disconnect_tear s)"
| disc3: "0 < discEnd s \<Longrightarrow> tray_step s (disconnect_end s)"
| noted: "tray_step s (s\<lparr>lastClientErr := noteClientLine (lastClientErr s) line\<rparr>)"
| passed: "tray_step s (onClientLine line s)"

definition reachable_tray :: "tray \<Rightarrow> bool" where
  "reachable_tray s \<longleftrightarrow> (\<exists>leftover. tray_step\<^sup>*\<^sup>* (tray_start leftover) s)"

text \<open>What holds in every reachable state.\<close>

fun no_client :: "connect_phase \<Rightarrow> bool" where
  "no_client LoadGen = True" | "no_client Launching = True" | "no_client (Launched p) = True" | "no_client _ = False"

fun will_clear :: "connect_phase \<Rightarrow> bool" where
  "will_clear Scripting = True" | "will_clear (ScriptDone ok) = True" | "will_clear (Stopping t) = t" | "will_clear Tearing = True"
| "will_clear _ = False"

definition tray_inv :: "tray \<Rightarrow> bool" where
  "tray_inv s \<longleftrightarrow>
     (\<forall>p. p |\<in>| procs s \<longrightarrow> clientCmd s = Some p \<or> phase s = Launched p) \<and>
     (no_client (phase s) \<longrightarrow> clientCmd s = None) \<and>
     (clientCmd s \<noteq> None \<longrightarrow> connGen s = gen s \<or> 0 < discStop s \<or> phase s = Begin) \<and>
     (blocked s \<longrightarrow> connGen s = gen s \<or> 0 < discStop s \<or> 0 < discTear s \<or> will_clear (phase s))"

lemma tray_inv_start: "tray_inv (tray_start leftover)"
  by (simp add: tray_inv_def tray_start_def)

lemma stopClient_sel [simp]:
  "clientCmd (stopClient s) = None" "phase (stopClient s) = phase s" "gen (stopClient s) = gen s" "connGen (stopClient s) = connGen s"
  "blocked (stopClient s) = blocked s" "discStop (stopClient s) = discStop s" "discTear (stopClient s) = discTear s"
  "procs (stopClient s) = (case clientCmd s of None \<Rightarrow> procs s | Some p \<Rightarrow> procs s |-| {|p|})"
  by (simp_all add: stopClient_def split: option.split)

lemma fail_tray_sel [simp]:
  "clientCmd (fail_tray why s) = clientCmd s" "phase (fail_tray why s) = phase s" "gen (fail_tray why s) = gen s"
  "connGen (fail_tray why s) = connGen s" "blocked (fail_tray why s) = blocked s" "discStop (fail_tray why s) = discStop s"
  "discTear (fail_tray why s) = discTear s" "procs (fail_tray why s) = procs s"
  by (simp_all add: fail_tray_def)

lemma connect_line_cases:
  "connect_line tc line s = s\<lparr>phase := NoConnect\<rparr> \<or> (\<exists>why. connect_line tc line s = fail_to why False s \<and> \<not> cancelled s) \<or>
   connect_line tc line s = s\<lparr>phase := Scripting, shown := StRoutes\<rparr> \<and> \<not> cancelled s"
  by (auto simp: connect_line_def split: sum.split)

lemma connect_step_inv:
  assumes "tray_inv s" "connect_step tc inp s = Some s'"
  shows "tray_inv s'"
proof (cases "phase s")
  case Waiting
  show ?thesis
  proof (cases inp)
    case (Line line)
    then have "s' = connect_line tc line s" using assms(2) Waiting by (simp add: connect_step_def)
    with connect_line_cases [of tc line s] consider "s' = s\<lparr>phase := NoConnect\<rparr>" | why where "s' = fail_to why False s"
      | "s' = s\<lparr>phase := Scripting, shown := StRoutes\<rparr>" by metis
    then show ?thesis using assms(1) Waiting by cases (simp_all add: tray_inv_def fail_to_def)
  next
    case Timeout
    then show ?thesis using assms Waiting
      by (cases "cancelled s") (auto simp: tray_inv_def connect_step_def fail_to_def cancelled_def)
  qed (use assms(2) Waiting in \<open>simp_all add: connect_step_def\<close>)
next
  case Launching
  then obtain r where r: "inp = Launch r" using assms(2) by (cases inp) (simp_all add: connect_step_def)
  show ?thesis
  proof (cases r)
    case (Inl why)
    then show ?thesis using assms Launching r by (auto simp: connect_step_def tray_inv_def Let_def)
  next
    case (Inr p)
    then have "p |\<notin>| procs s \<and> s' = s\<lparr>active := True, shown := StConnecting, icon := Gray, procs := finsert p (procs s), phase := Launched p\<rparr>"
      using assms(2) Launching r by (simp add: connect_step_def Let_def split: if_splits)
    then show ?thesis using assms(1) Launching by (auto simp: tray_inv_def)
  qed
next
  case (Launched p)
  then show ?thesis using assms by (cases "cancelled s") (auto simp: connect_step_def tray_inv_def cancelled_def)
next
  case Scripting
  then obtain ok where "inp = ScriptEnded ok" using assms(2) by (cases inp) (simp_all add: connect_step_def)
  then show ?thesis using assms Scripting by (auto simp: connect_step_def tray_inv_def)
next
  case (ScriptDone ok)
  then show ?thesis using assms by (cases "cancelled s"; cases ok) (auto simp: connect_step_def tray_inv_def cancelled_def fail_to_def)
next
  case (Stopping t)
  then show ?thesis using assms by (auto simp: connect_step_def tray_inv_def split: option.splits)
next
  case Begin
  then show ?thesis using assms by (auto simp: connect_step_def tray_inv_def split: option.splits)
next
  case LoadGen
  then have "s' = s\<lparr>lastClientErr := errNone, gen := connGen s, phase := Launching\<rparr>" using assms(2) by (simp add: connect_step_def)
  then show ?thesis using assms(1) LoadGen by (auto simp: tray_inv_def)
next
  case Finishing
  then have "s' = s\<lparr>shown := StConnected, icon := Green, tunnelUp := True, phase := NoConnect\<rparr>" using assms(2) by (simp add: connect_step_def)
  then show ?thesis using assms(1) Finishing by (simp add: tray_inv_def)
next
  case Tearing
  then have "s' = (teardownRoutes s)\<lparr>phase := NoConnect\<rparr>" using assms(2) by (simp add: connect_step_def)
  then show ?thesis using assms(1) Tearing by (simp add: tray_inv_def teardownRoutes_def)
qed (use assms in \<open>simp add: connect_step_def\<close>)

lemma tray_step_inv: "tray_step s s' \<Longrightarrow> tray_inv s \<Longrightarrow> tray_inv s'"
proof (induction rule: tray_step.induct)
  case (connect tc inp s s')
  then show ?case using connect_step_inv by blast
next
  case (passed s line)
  then show ?case by (simp add: tray_inv_def onClientLine_def)
next
  case (click s config_written)
  then show ?case by (auto simp: tray_inv_def startConnect_def)
next
  case (disc1 s)
  then show ?case by (auto simp: tray_inv_def disconnect_stop_def split: option.splits)
next
  case (reaped p s)
  then show ?case by (auto simp: tray_inv_def wait_returned_def Let_def)
qed (auto simp: tray_inv_def teardownRoutes_def exit_teardown_def exit_report_def reportClientExit_def disconnect_begin_def
    disconnect_tear_def disconnect_end_def)

lemma reachable_inv: "reachable_tray s \<Longrightarrow> tray_inv s"
proof -
  have "tray_step\<^sup>*\<^sup>* s0 s \<Longrightarrow> tray_inv s0 \<Longrightarrow> tray_inv s" for s0
    by (induction rule: rtranclp_induct) (auto intro: tray_step_inv)
  then show "reachable_tray s \<Longrightarrow> tray_inv s" using tray_inv_start by (auto simp: reachable_tray_def)
qed

section \<open>What holds\<close>


section \<open>Runs\<close>

text \<open>A run as a list of events, each one step of the relation.\<close>

datatype tray_event =
    Click | Step connect_input | Died nat | Blocks | Reaped nat | Exit1 nat | Exit2 nat | Disc0 | Disc1 | Disc2 | Disc3

definition tray_next :: "tunConfig \<Rightarrow> tray_event \<Rightarrow> tray \<Rightarrow> tray option" where
  "tray_next tc e s =
     (case e of
        Click \<Rightarrow> Some (startConnect True s)
      | Step inp \<Rightarrow> connect_step tc inp s
      | Died p \<Rightarrow> if p |\<in>| procs s then Some (s\<lparr>procs := procs s |-| {|p|}\<rparr>) else None
      | Blocks \<Rightarrow> if phase s = Scripting then Some (s\<lparr>blocked := True\<rparr>) else None
      | Reaped p \<Rightarrow> if p |\<in>| waiters s \<and> p |\<notin>| procs s then Some (wait_returned p s) else None
      | Exit1 p \<Rightarrow> if p |\<in>| exitTear s then Some (exit_teardown p s) else None
      | Exit2 p \<Rightarrow> if p |\<in>| exitReport s then Some (exit_report p s) else None
      | Disc0 \<Rightarrow> Some (disconnect_begin s)
      | Disc1 \<Rightarrow> if 0 < discStop s then Some (disconnect_stop s) else None
      | Disc2 \<Rightarrow> if 0 < discTear s then Some (disconnect_tear s) else None
      | Disc3 \<Rightarrow> if 0 < discEnd s then Some (disconnect_end s) else None)"

fun tray_run :: "tunConfig \<Rightarrow> tray_event list \<Rightarrow> tray \<Rightarrow> tray option" where
  "tray_run tc [] s = Some s"
| "tray_run tc (e # es) s = (case tray_next tc e s of None \<Rightarrow> None | Some s1 \<Rightarrow> tray_run tc es s1)"

lemma tray_next_step: "tray_next tc e s = Some s' \<Longrightarrow> tray_step s s'"
  by (cases e) (auto simp: tray_next_def intro: tray_step.intros split: if_splits)

lemma tray_run_append: "tray_run tc (xs @ ys) s = (case tray_run tc xs s of None \<Rightarrow> None | Some s1 \<Rightarrow> tray_run tc ys s1)"
  by (induction xs arbitrary: s) (auto split: option.splits)

lemma tray_run_reach: "tray_run tc es s = Some s' \<Longrightarrow> tray_step\<^sup>*\<^sup>* s s'"
  by (induction es arbitrary: s)
    (auto dest: tray_next_step intro: converse_rtranclp_into_rtranclp split: option.splits)

lemma run_reachable: "tray_run tc es (tray_start b) = Some s \<Longrightarrow> reachable_tray s"
  using tray_run_reach unfolding reachable_tray_def by blast

definition home_tun :: tunConfig where
  "home_tun = \<lparr>tc_Name = ''dormvpn0'', tc_IP = [10, 66, 0, 2], tc_Gateway = [10, 66, 0, 1], tc_PrefixLen = 24\<rparr>"

definition good_line :: string where "good_line = ''connected to vpn channel 1.2.3.4:587''"

lemma good_line_accepted:
  "phase s = Waiting \<Longrightarrow> \<not> cancelled s \<Longrightarrow> connect_step home_tun (Line good_line) s = Some (s\<lparr>phase := Scripting, shown := StRoutes\<rparr>)"
proof -
  have "serverIPFromLine good_line = Inr [1, 2, 3, 4]" "good_line \<noteq> []" by code_simp+
  moreover have "\<not> isl (setupArgs [1, 2, 3, 4] home_tun)" by code_simp
  then obtain qs where "setupArgs [1, 2, 3, 4] home_tun = Inr qs" by (cases "setupArgs [1, 2, 3, 4] home_tun") auto
  ultimately show "phase s = Waiting \<Longrightarrow> \<not> cancelled s \<Longrightarrow> ?thesis" by (simp add: connect_step_def connect_line_def)
qed

text \<open>Connected through process 1; then a disconnect.\<close>

definition connect_run :: "tray_event list" where
  "connect_run = [Step NoInput, Click, Step NoInput, Step NoInput, Step (Launch (Inr 1)), Step NoInput, Step (Line good_line), Blocks,
     Step (ScriptEnded True), Step NoInput, Step NoInput]"

lemmas run_simps = tray_next_def tray_start_def startConnect_def connect_step_def cancelled_def good_line_accepted teardownRoutes_def
  stopClient_def fail_to_def fail_tray_def Let_def disconnect_begin_def disconnect_stop_def disconnect_tear_def disconnect_end_def
  wait_returned_def exit_teardown_def exit_report_def reportClientExit_def

lemma run_line:
  "phase s = Waiting \<Longrightarrow> connGen s = gen s \<Longrightarrow>
     tray_run home_tun (Step (Line good_line) # es) s = tray_run home_tun es (s\<lparr>phase := Scripting, shown := StRoutes\<rparr>)"
  by (simp add: tray_next_def good_line_accepted cancelled_def)

lemma run_other:
  "e \<noteq> Step (Line good_line) \<Longrightarrow>
     tray_run tc (e # es) s = (case tray_next tc e s of None \<Rightarrow> None | Some s1 \<Rightarrow> tray_run tc es s1)"
  by simp

definition connected_tray :: tray where
  "connected_tray =
     \<lparr>phase = NoConnect, gen = 0, connGen = 0, clientCmd = Some 1, procs = {|1|}, waiters = {|1|}, exitTear = {||}, exitReport = {||},
      discStop = 0, discTear = 0, discEnd = 0, blocked = True, tunnelUp = True, lastClientErr = errNone,
      shown = StConnected, icon = Green, active = True\<rparr>"

lemma connected_run: "tray_run home_tun connect_run (tray_start False) = Some connected_tray"
  unfolding connect_run_def
  by (simp add: run_simps run_other run_line connected_tray_def del: tray_run.simps(2))


section \<open>What does not hold\<close>

text \<open>
  A second connect while connected (a double click on the list) stops the first client; if the new one does not
  connect, the failure does not tear down the routes: IPv6 stays blocked without a tunnel, and the
  buttons for disconnecting are disabled.
\<close>

lemma reconnect_leaves_block:
  "\<exists>s. tray_run home_tun (connect_run @ [Click, Step NoInput, Step NoInput, Step (Launch (Inr 2)), Step NoInput, Step Timeout, Step NoInput,
       Reaped 1, Reaped 2]) (tray_start False) = Some s \<and>
     phase s = NoConnect \<and> procs s = {||} \<and> waiters s = {||} \<and> exitTear s = {||} \<and> clientCmd s = None \<and> blocked s \<and> \<not> active s"
  unfolding tray_run_append connected_run option.case
  by (simp add: run_simps run_other connected_tray_def del: tray_run.simps(2)) auto

text \<open>
  The client ends while the route script runs: its end is reported and the routes are torn down, then the script
  adds the block and \<^verbatim>\<open>connect\<close>, which looks only at \<^verbatim>\<open>connGen\<close>, shows a connection.
\<close>

lemma exit_during_script_shows_connected:
  "\<exists>s. tray_run home_tun [Step NoInput, Click, Step NoInput, Step NoInput, Step (Launch (Inr 1)), Step NoInput, Step (Line good_line),
       Died 1, Reaped 1, Exit1 1, Exit2 1, Blocks, Step (ScriptEnded True), Step NoInput, Step NoInput] (tray_start False) = Some s \<and>
     phase s = NoConnect \<and> procs s = {||} \<and> clientCmd s = None \<and> tunnelUp s \<and> shown s = StConnected \<and> blocked s \<and> \<not> active s"
  by (simp add: run_simps run_other run_line del: tray_run.simps(2))

end
