(* ===== verification/TrayWindow.thy ===== *)
theory TrayWindow
  imports TrayConns Startup
begin

text \<open>
  The buttons of the tray's window (the handlers of cmd/tray/connections.go) and the question about a changed
  certificate (cmd/tray/errors.go), on the state they share: the files, the saved connections, the
  selected row, the text fields and the name of the loaded connection. What the widgets do is an
  argument: which row is selected after the list is filled again, and whether selecting a row calls
  its handler. At the end, a key made here is followed to the server.
\<close>

section \<open>The window\<close>

record window =
  w_disk :: disk
  w_conns :: "connection list"
  w_index :: int
  w_form :: form
  w_loaded :: string

record ui_env =
  u_save :: save_env
  u_save2 :: save_env       \<comment> \<open>for the settings file\<close>
  u_unreadable :: "string \<Rightarrow> bool"
  u_redrawn :: int
  u_event :: bool
  u_yes :: bool

datatype ui_out =
    NoName | NoKey | FillIn | SaveError save_error | Saved string | Deleted string
  | KeyError string | NotCopied | KeyCopied string bytes | ConnectTo connection | ConfigError config_error

definition selected :: "window \<Rightarrow> connection option" where
  "selected w = (if w_index w < 0 \<or> int (length (w_conns w)) \<le> w_index w then None else Some (w_conns w ! nat (w_index w)))"

definition onListSelectionChanged :: "window \<Rightarrow> window" where
  "onListSelectionChanged w =
     (case selected w of
        None \<Rightarrow> w
      | Some c \<Rightarrow> (case fillFieldsFrom c of (f, n) \<Rightarrow> w\<lparr>w_form := f, w_loaded := n\<rparr>))"

definition onListActivated :: "window \<Rightarrow> window \<times> ui_out option" where
  "onListActivated w =
     (case selected w of
        None \<Rightarrow> (w, None)
      | Some c \<Rightarrow>
          (case fillFieldsFrom c of
             (f, n) \<Rightarrow> (w\<lparr>w_form := f, w_loaded := n\<rparr>, Some (if ClientKey c = '''' then NoKey else ConnectTo c))))"

definition onNew :: "window \<Rightarrow> window" where
  "onNew w =
     w\<lparr>w_index := -1, w_form := \<lparr>nameEdit = '''', vpnAddrEdit = '''', clientKeyEdit = '''', gameProcEdit = ''''\<rparr>, w_loaded := ''''\<rparr>"

text \<open>\<^verbatim>\<open>refreshConnList\<close> and \<^verbatim>\<open>selectConnectionByName\<close>.\<close>

definition select_row :: "ui_env \<Rightarrow> string \<Rightarrow> window \<Rightarrow> window" where
  "select_row env name w =
     (case index_of name (w_conns w) of
        None \<Rightarrow> w\<lparr>w_index := u_redrawn env\<rparr>
      | Some i \<Rightarrow>
          let w1 = w\<lparr>w_index := int i\<rparr> in
          if u_event env then onListSelectionChanged w1 else w1)"

definition save_fields :: "(string \<Rightarrow> string option) \<Rightarrow> ui_env \<Rightarrow> window \<Rightarrow> window \<times> ui_out option" where
  "save_fields protect env w =
     (case saveFields protect (w_disk w) (u_save env) (w_conns w) (w_form w) (w_loaded w) of
        (fs, cs, r) \<Rightarrow>
          let w1 = w\<lparr>w_disk := fs, w_conns := cs\<rparr> in
          (case r of
             Some EmptyName \<Rightarrow> (w1, Some NoName)
           | Some (NotSaved e) \<Rightarrow> (w1, Some (SaveError e))
           | None \<Rightarrow> (select_row env (c_name (currentFieldsAsConnection (w_form w))) w1, None)))"

definition onSaveConnection :: "(string \<Rightarrow> string option) \<Rightarrow> ui_env \<Rightarrow> window \<Rightarrow> window \<times> ui_out option" where
  "onSaveConnection protect env w =
     (case save_fields protect env w of
        (w1, Some e) \<Rightarrow> (w1, Some e)
      | (w1, None) \<Rightarrow> (w1, Some (Saved (trim_space (nameEdit (w_form w1))))))"

definition delete_selected :: "(string \<Rightarrow> string option) \<Rightarrow> ui_env \<Rightarrow> window \<Rightarrow> window \<times> ui_out option" where
  "delete_selected protect env w =
     (case selected w of
        None \<Rightarrow> (w, None)
      | Some c \<Rightarrow>
          if \<not> u_yes env then (w, None)
          else
            (case onDeleteConnection protect (w_disk w) (u_save env) (w_conns w) (w_index w) True of
               (fs, cs, r) \<Rightarrow>
                 let w1 = w\<lparr>w_disk := fs, w_conns := cs\<rparr> in
                 (case r of
                    Some EmptyName \<Rightarrow> (w1, Some NoName)
                  | Some (NotSaved e) \<Rightarrow> (w1, Some (SaveError e))
                  | None \<Rightarrow> (onNew w1, Some (Deleted (c_name c))))))"

text \<open>\<open>keypair\<close> is what \<^verbatim>\<open>GenerateKeypair\<close> gave (public key and seed), \<open>copied\<close> whether the clipboard took the line.\<close>

definition onNewKey :: "(string \<Rightarrow> string option) \<Rightarrow> ui_env \<Rightarrow> string + bytes \<times> bytes \<Rightarrow> bool \<Rightarrow> window \<Rightarrow> window \<times> ui_out option" where
  "onNewKey protect env keypair copied w =
     (let name = trim_space (nameEdit (w_form w)) in
      if name = '''' then (w, Some NoName)
      else if trim_space (clientKeyEdit (w_form w)) \<noteq> '''' \<and> \<not> u_yes env then (w, None)
      else
        (case keypair of
           Inl e \<Rightarrow> (w, Some (KeyError e))
         | Inr (pub, seed) \<Rightarrow>
             (case save_fields protect env (w\<lparr>w_form := (w_form w)\<lparr>clientKeyEdit := EncodeKey seed\<rparr>\<rparr>) of
                (w1, Some e) \<Rightarrow> (w1, Some e)
              | (w1, None) \<Rightarrow> (w1, Some (if copied then KeyCopied name pub else NotCopied)))))"

text \<open>The entry for the server's key file that the clipboard gets.\<close>

definition authorizedKeyLine :: "string \<Rightarrow> bytes \<Rightarrow> AuthorizedEntry" where
  "authorizedKeyLine name pub = \<lparr>ae_Name = name, ae_PublicKey = EncodeKey pub\<rparr>"

definition onWindowConnect :: "(string \<Rightarrow> string option) \<Rightarrow> ui_env \<Rightarrow> window \<Rightarrow> window \<times> ui_out option" where
  "onWindowConnect protect env w =
     (let c = currentFieldsAsConnection (w_form w) in
      if c_name c = '''' \<or> VPNAddr c = '''' \<or> ClientKey c = '''' then (w, Some FillIn)
      else (case save_fields protect env w of (w1, Some e) \<Rightarrow> (w1, Some e) | (w1, None) \<Rightarrow> (w1, Some (ConnectTo c))))"

text \<open>The part of \<^verbatim>\<open>startConnect\<close> that touches the files: the settings for the client, without its key.\<close>

definition write_settings :: "ui_env \<Rightarrow> connection \<Rightarrow> window \<Rightarrow> window \<times> ui_out option" where
  "write_settings env c w =
     (case writeClientConfigFromConnection (w_disk w) (u_unreadable env) (u_save2 env) c of
        (fs, Some e) \<Rightarrow> (w\<lparr>w_disk := fs\<rparr>, Some (ConfigError e))
      | (fs, None) \<Rightarrow> (w\<lparr>w_disk := fs\<rparr>, None))"

section \<open>A changed certificate\<close>

datatype reset_out = SetNewPin | NoPinFile | Kept | RemoveFailed string | PinReset

text \<open>\<open>remove\<close> is the error of removing the file, if there is one other than that it does not exist.\<close>

definition askResetPin :: "clientTLSConfig \<Rightarrow> bool \<Rightarrow> string option \<Rightarrow> files \<Rightarrow> files \<times> reset_out" where
  "askResetPin cfg yes remove fs =
     (if t_ServerPin cfg \<noteq> '''' then (fs, SetNewPin)
      else if t_PinFile cfg = '''' then (fs, NoPinFile)
      else if \<not> yes then (fs, Kept)
      else
        (case remove of
           Some e \<Rightarrow> (fs, RemoveFailed e)
         | None \<Rightarrow> (fmdrop (t_PinFile cfg) fs, PinReset)))"

text \<open>Only a yes forgets a pin, and then the next start trusts the server it meets; otherwise the pin stays.\<close>

lemma reset_pin:
  "case askResetPin cfg yes remove fs of
     (fs', PinReset) \<Rightarrow> yes \<and> t_ServerPin cfg = '''' \<and> fmlookup fs' (t_PinFile cfg) = None
   | (fs', _) \<Rightarrow> fs' = fs"
  by (auto simp: askResetPin_def split: option.splits)

section \<open>Every action keeps the list sound\<close>

text \<open>Names that are not empty, and a sealed key only where no key is known.\<close>

definition window_ok :: "(string \<Rightarrow> string option) \<Rightarrow> window \<Rightarrow> bool" where
  "window_ok unprotect w \<longleftrightarrow> list_all (conn_ok unprotect) (w_conns w)"

lemma current_ok: "conn_ok unprotect (currentFieldsAsConnection f)"
  by (simp add: conn_ok_def currentFieldsAsConnection_def Let_def)

lemma upsert_ok:
  assumes "list_all (conn_ok unprotect) cs" "conn_ok unprotect c" "sealedKey c = ''''"
  shows "list_all (conn_ok unprotect) (upsertConnection cs c n)"
proof (cases rule: upsert_cases [of cs c n])
  case (replaced i)
  have "conn_ok unprotect (cs ! i)" using assms(1) replaced(2) by (simp add: list_all_length)
  then have "conn_ok unprotect (if ClientKey c = '''' then c\<lparr>sealedKey := sealedKey (cs ! i)\<rparr> else c)"
    using assms(2) by (auto simp: conn_ok_def)
  then show ?thesis using assms(1) replaced by (auto simp: replace_at_def list_all_length nth_list_update)
next
  case added
  then show ?thesis using assms by simp
qed

lemma select_row_sel [simp]:
  "w_conns (select_row env n w) = w_conns w" "w_disk (select_row env n w) = w_disk w"
  by (simp_all add: select_row_def onListSelectionChanged_def selected_def Let_def split: option.splits prod.splits)

lemma save_fields_result:
  assumes "save_fields protect env w = (w1, r)"
  shows "let c = currentFieldsAsConnection (w_form w); cs = upsertConnection (w_conns w) c (w_loaded w) in
    if c_name c = '''' then r = Some NoName \<and> w_conns w1 = w_conns w \<and> w_disk w1 = w_disk w
    else w_conns w1 = cs \<and>
      (case saveConnections protect (w_disk w) (u_save env) cs of
         (fs, Some e) \<Rightarrow> r = Some (SaveError e) \<and> w_disk w1 = fs
       | (fs, None) \<Rightarrow> r = None \<and> w_disk w1 = fs)"
  using assms by (auto simp: save_fields_def saveFields_def Let_def split: if_splits prod.splits option.splits)


text \<open>Every button of the window keeps \<open>window_ok\<close>.\<close>

lemma window_actions_ok:
  assumes "window_ok unprotect w"
  shows "window_ok unprotect (fst (onSaveConnection protect env w))"
    and "window_ok unprotect (fst (delete_selected protect env w))"
    and "window_ok unprotect (fst (onNewKey protect env keypair copied w))"
    and "window_ok unprotect (fst (onWindowConnect protect env w))"
proof -
  have sf: "window_ok unprotect w1" if s: "save_fields protect env w2 = (w1, r)" and o: "w_conns w2 = w_conns w" for w1 w2 r
  proof -
    let ?c = "currentFieldsAsConnection (w_form w2)"
    have "sealedKey ?c = ''''" by (simp add: currentFieldsAsConnection_def Let_def)
    then have "list_all (conn_ok unprotect) (upsertConnection (w_conns w2) ?c (w_loaded w2))"
      using upsert_ok [OF _ current_ok] assms o by (simp add: window_ok_def)
    then show ?thesis using save_fields_result [OF s] assms o by (auto simp: window_ok_def Let_def split: if_splits)
  qed
  show "window_ok unprotect (fst (onSaveConnection protect env w))"
    using sf by (auto simp: onSaveConnection_def split: prod.split option.split)
  show "window_ok unprotect (fst (onNewKey protect env keypair copied w))"
    using sf assms by (auto simp: onNewKey_def Let_def split: prod.split option.split sum.split)
  show "window_ok unprotect (fst (onWindowConnect protect env w))"
    using sf assms by (auto simp: onWindowConnect_def Let_def split: prod.split option.split)
  show "window_ok unprotect (fst (delete_selected protect env w))"
    using assms by (auto simp: delete_selected_def onDeleteConnection_def onNew_def window_ok_def Let_def list_all_iff
      split: prod.split option.split save_alert.split dest: in_set_takeD in_set_dropD)
qed

section \<open>A new key gets in\<close>

lemma encode_member:
  "encodeConnections protect cs = Inr ss \<Longrightarrow> c \<in> set cs \<Longrightarrow> \<exists>s. s \<in> set ss \<and> encode_entry protect c = Some s"
proof (induction cs arbitrary: ss)
  case (Cons c' cs)
  then show ?case by (auto split: option.splits sum.splits)
qed simp

lemma encode_no_plain: "encodeConnections protect cs = Inr ss \<Longrightarrow> \<not> plain_keys ss"
proof (induction cs arbitrary: ss)
  case (Cons c cs)
  then show ?case
    by (auto simp: plain_keys_def encode_entry_def Let_def split: option.splits sum.splits if_splits)
qed (simp add: plain_keys_def)

lemma decode_member: "s \<in> set ss \<Longrightarrow> fst (decode_entry unprotect s) \<in> set (fst (decodeConnections unprotect ss))"
  by (induction ss) (auto split: prod.split)

lemma upsert_adds: "ClientKey c \<noteq> '''' \<Longrightarrow> c \<in> set (upsertConnection cs c n)"
  by (cases rule: upsert_cases [of cs c n]) (auto simp: replace_at_def set_update_memI)

lemma add_entries_append:
  "add_entries (xs @ ys) m = (case add_entries xs m of Inl e \<Rightarrow> Inl e | Inr m1 \<Rightarrow> add_entries ys m1)"
  by (induction xs arbitrary: m) (auto split: option.split)

lemma add_entries_other:
  "add_entries es m = Inr m' \<Longrightarrow> list_all (\<lambda>e. DecodeKey (ae_PublicKey e) \<noteq> Some p) es \<Longrightarrow> fmlookup m' p = fmlookup m p"
  by (induction es arbitrary: m) (auto split: option.splits if_splits)

lemma last_entry_counts:
  assumes "LoadAuthorizedKeys (Inr (Inr (pre @ [authorizedKeyLine n p] @ post))) = Inr keys"
    and "list_all (\<lambda>e. DecodeKey (ae_PublicKey e) \<noteq> Some p) post"
  shows "fmlookup keys p = Some n"
  using assms add_entries_other [of post _ keys p]
  by (auto simp: LoadAuthorizedKeys_def add_entries_append authorizedKeyLine_def split: sum.splits if_splits)

lemma EncodeKey_trim [simp]: "trim_space (EncodeKey b) = EncodeKey b"
  by (simp add: EncodeKey_def trim_plain b64_encode_plain)

lemma EncodeKey_nonempty: "b \<noteq> [] \<Longrightarrow> EncodeKey b \<noteq> ''''"
  by (cases b rule: b64_encode.cases) (simp_all add: EncodeKey_def)

lemma save_fields_never_copies: "save_fields protect env w \<noteq> (w1, Some (KeyCopied n pub))"
  by (auto simp: save_fields_def Let_def split: prod.split option.split save_alert.split)

text \<open>After a new key was made, the file holds it sealed under the connection's name, and what the tray reads
  back from the file gives the client this key.\<close>

lemma new_key_saved:
  assumes "onNewKey protect env (Inr (pub, seed)) copied w = (w1, Some (KeyCopied n pub'))"
    and "seals protect unprotect" "fst (u_save env) \<noteq> connectionsPath" "fmlookup (w_disk w) (fst (u_save env)) = None"
    and "length seed = SeedSize"
  shows "pub' = pub \<and> copied \<and> n = trim_space (nameEdit (w_form w)) \<and>
    (\<exists>ss c. fmlookup (w_disk w1) connectionsPath = Some (Entries ss) \<and> \<not> plain_keys ss \<and>
       c \<in> set (fst (decodeConnections unprotect ss)) \<and> c_name c = n \<and> ClientKey c = EncodeKey seed)"
proof -
  define w2 where "w2 = w\<lparr>w_form := (w_form w)\<lparr>clientKeyEdit := EncodeKey seed\<rparr>\<rparr>"
  define c where "c = currentFieldsAsConnection (w_form w2)"
  define cs where "cs = upsertConnection (w_conns w2) c (w_loaded w2)"
  have k: "save_fields protect env w2 = (w1, None)" "pub' = pub" "copied" "n = trim_space (nameEdit (w_form w))"
    using assms(1) by (auto simp: onNewKey_def w2_def save_fields_never_copies Let_def split: if_splits prod.splits option.splits)
  have c: "c_name c = n" "ClientKey c = EncodeKey seed" "sealedKey c = ''''"
    by (simp_all add: c_def w2_def currentFieldsAsConnection_def Let_def k(4))
  have "w_disk w2 = w_disk w" by (simp add: w2_def)
  then obtain out where o: "encodeConnections protect cs = Inr out" "w_disk w1 = fmupd connectionsPath (Entries out) (w_disk w)"
    using save_fields_result [OF k(1)] save_result [OF assms(3,4), of protect cs]
    by (auto simp: c_def [symmetric] cs_def [symmetric] Let_def split: if_splits prod.splits option.splits sum.splits)
  have "EncodeKey seed \<noteq> ''''" using assms(5) by (intro EncodeKey_nonempty) (auto simp: SeedSize_def)
  then obtain s where s: "s \<in> set out" "encode_entry protect c = Some s"
    using encode_member [OF o(1)] upsert_adds c(2) unfolding cs_def by metis
  have "conn_ok unprotect c" by (simp add: conn_ok_def c)
  then have "fst (decode_entry unprotect s) = c" using decode_encode_entry [OF assms(2) _ s(2)] by simp
  then have "c \<in> set (fst (decodeConnections unprotect out))" using decode_member [OF s(1), of unprotect] by simp
  then show ?thesis using k o(2) c encode_no_plain [OF o(1)] by auto
qed

text \<open>C37. A key made in the tray's window lets its owner in. Once the window says the line is on the clipboard,
  the settings file holds the secret key only encrypted; the connection read back from it gives the client
  exactly the new seed; and with the copied line in the server's key file, and no later line for the
  same key, the handshake succeeds on both sides and the server knows the peer by the connection's name.\<close>

theorem new_key_gets_in:
  assumes made: "onNewKey protect env (Inr (cr_public cr seed, seed)) copied w = (w1, Some (KeyCopied n pub))"
    and disk: "seals protect unprotect" "fst (u_save env) \<noteq> connectionsPath" "fmlookup (w_disk w) (fst (u_save env)) = None"
    and listed: "LoadAuthorizedKeys (Inr (Inr (pre @ [authorizedKeyLine n pub] @ post))) = Inr keys"
      "list_all (\<lambda>e. DecodeKey (ae_PublicKey e) \<noteq> Some pub) post"
    and verify: "\<And>m. cr_verify cr (cr_public cr seed) m (cr_sign cr seed m)"
    and sizes: "length seed = SeedSize" "length (cr_public cr seed) = PublicKeySize" "\<And>m. length (cr_sign cr seed m) = SignatureSize"
    and tls: "is_tls ts" "tls_error ts = None" "is_tls tc" "tls_error tc = None"
      "tls_export ts exporterLabel exporterLen = Inr ex" "tls_export tc exporterLabel exporterLen = Inr ex"
    and ch: "length ch = challengeSize"
  shows "\<exists>ss c key resp. fmlookup (w_disk w1) connectionsPath = Some (Entries ss) \<and> \<not> plain_keys ss \<and>
     c \<in> set (fst (decodeConnections unprotect ss)) \<and> c_name c = n \<and>
     loadClientKey (ClientKey c) file inline read = Inr key \<and>
     ServerHandshake cr ts keys (Inr ch) (good_conn (resp @ rest1, e1) []) =
       (good_conn (rest1, e1) (ch @ [authOK]), Inr \<lparr>KeyID = EncodeKey pub, PeerName = n\<rparr>) \<and>
     ClientHandshake cr tc key (good_conn (ch @ [authOK] @ rest2, e2) []) = (good_conn (rest2, e2) resp, None)"
proof -
  note saved = new_key_saved [OF made disk sizes(1)]
  then have p: "pub = cr_public cr seed" by simp
  from saved obtain ss c where s: "fmlookup (w_disk w1) connectionsPath = Some (Entries ss)" "\<not> plain_keys ss"
    "c \<in> set (fst (decodeConnections unprotect ss))" "c_name c = n" "ClientKey c = EncodeKey seed" by blast
  have "EncodeKey seed \<noteq> ''''" using sizes(1) by (intro EncodeKey_nonempty) (auto simp: SeedSize_def)
  then have l: "loadClientKey (ClientKey c) file inline read = Inr seed"
    using s(5) sizes(1) by (simp add: loadClientKey_def Let_def)
  have "fmlookup keys (cr_public cr seed) = Some n" using last_entry_counts [OF listed] by (simp add: p)
  from handshake_in_sync [OF verify sizes tls this ch, of rest1 e1 rest2 e2] obtain resp where
    "ServerHandshake cr ts keys (Inr ch) (good_conn (resp @ rest1, e1) []) =
       (good_conn (rest1, e1) (ch @ [authOK]), Inr \<lparr>KeyID = EncodeKey (cr_public cr seed), PeerName = n\<rparr>)"
    "ClientHandshake cr tc seed (good_conn (ch @ [authOK] @ rest2, e2) []) = (good_conn (rest2, e2) resp, None)" by blast
  then show ?thesis using s l unfolding p by blast
qed

definition toy_window :: window where
  "toy_window = \<lparr>w_disk = fmempty, w_conns = [], w_index = -1,
     w_form = \<lparr>nameEdit = '' friend '', vpnAddrEdit = ''1.2.3.4:587'', clientKeyEdit = '''', gameProcEdit = ''''\<rparr>, w_loaded = ''''\<rparr>"

definition toy_env :: ui_env where
  "toy_env = \<lparr>u_save = (''t1'', None), u_save2 = (''t2'', None), u_unreadable = (\<lambda>_. False), u_redrawn = -1, u_event = True, u_yes = True\<rparr>"

theorem new_key_gets_in_witness:
  "\<exists>w1 resp. onNewKey toy_protect toy_env (Inr (replicate 32 7, replicate 32 7)) True toy_window = (w1, Some (KeyCopied ''friend'' (replicate 32 7))) \<and>
     ServerHandshake toy_crypto toy_tls toy_keys (Inr (replicate 32 9)) (good_conn (resp @ [], EOF) []) =
       (good_conn ([], EOF) (replicate 32 9 @ [authOK]), Inr \<lparr>KeyID = EncodeKey (replicate 32 7), PeerName = ''friend''\<rparr>)"
proof -
  obtain w1 r where m: "onNewKey toy_protect toy_env (Inr (replicate 32 7, replicate 32 7)) True toy_window = (w1, r)"
    by (metis prod.exhaust)
  have t: "trim_space '' friend '' = ''friend''" by code_simp
  have "EncodeKey (replicate 32 7) \<noteq> ''''" by (intro EncodeKey_nonempty) simp
  then have r: "r = Some (KeyCopied ''friend'' (replicate 32 7))"
    using m by (auto simp: onNewKey_def save_fields_def saveFields_def saveConnections_def encode_entry_def toy_protect_def
      currentFieldsAsConnection_def upsertConnection_def writeFileAtomic_def toy_window_def toy_env_def t Let_def
      split: prod.splits if_splits option.splits)
  have made: "onNewKey toy_protect toy_env (Inr (cr_public toy_crypto (replicate 32 7), replicate 32 7)) True toy_window =
      (w1, Some (KeyCopied ''friend'' (replicate 32 7)))"
    using m r by (simp add: toy_crypto_def)
  have listed: "LoadAuthorizedKeys (Inr (Inr ([] @ [authorizedKeyLine ''friend'' (replicate 32 7)] @ []))) = Inr toy_keys"
    by (simp add: LoadAuthorizedKeys_def authorizedKeyLine_def toy_keys_def PublicKeySize_def)
  have f: "fst (u_save toy_env) \<noteq> connectionsPath" "fmlookup (w_disk toy_window) (fst (u_save toy_env)) = None"
    by (simp_all add: toy_env_def connectionsPath_def toy_window_def)
  have tls: "is_tls toy_tls" "tls_error toy_tls = None" "tls_export toy_tls exporterLabel exporterLen = Inr [1, 2, 3]"
    by (simp_all add: toy_tls_def)
  have c: "cr_verify toy_crypto (cr_public toy_crypto (replicate 32 7)) x (cr_sign toy_crypto (replicate 32 7) x)"
    "length (cr_public toy_crypto (replicate 32 7)) = PublicKeySize" "length (cr_sign toy_crypto (replicate 32 7) x) = SignatureSize"
    "length (replicate 32 (7::byte)) = SeedSize" "length (replicate 32 (9::byte)) = challengeSize" for x
    by (simp_all add: toy_crypto_def SeedSize_def PublicKeySize_def SignatureSize_def challengeSize_def)
  note new_key_gets_in [OF made toy_seals f listed _ c(1,4,2,3) tls(1,2) tls(1,2) tls(3) tls(3) c(5), of "''''" "''''" "\<lambda>_. Inr ''''" "[]" EOF "[]" EOF]
  then show ?thesis using m r by auto
qed

end
