(* ===== verification/Portprobe.thy ===== *)
theory Portprobe
  imports NetText Quota "HOL-Library.List_Lexorder" "HOL-Library.Char_ord" "HOL-Library.Product_Lexorder"
begin

text \<open>
  cmd/portprobe/main.go: the tokens and the port lists, the answers of the server, the verdicts of the client and
  the endurance test. Connections and their outcomes are arguments; bytes are characters. The text
  of a wrong reply is kept as it came (the source quotes it).
\<close>

section \<open>Tokens\<close>

definition token :: "nat \<Rightarrow> string \<Rightarrow> string" where
  "token port proto = ''PORTPROBE-OK '' @ proto @ ''/'' @ itoa port @ [CHR 0x0A]"

definition probeMagic :: string where "probeMagic = ''PORTPROBE-REQ''"
definition probeRequestLen :: nat where "probeRequestLen = 64"

definition validUDPRequest :: "string \<Rightarrow> bool" where
  "validUDPRequest b \<longleftrightarrow> probeRequestLen \<le> length b \<and> has_prefix b probeMagic"

definition udpRequest :: string where
  "udpRequest = take probeRequestLen (probeMagic @ replicate probeRequestLen (CHR 0x00))"

section \<open>Port lists\<close>

text \<open>\<^verbatim>\<open>strconv.Atoi\<close>.\<close>

definition atoi :: "string \<Rightarrow> int option" where
  "atoi s =
     (let digits = (if s \<noteq> [] \<and> (hd s = CHR ''-'' \<or> hd s = CHR ''+'') then tl s else s);
          v = (if s \<noteq> [] \<and> hd s = CHR ''-'' then - int (dec_value digits) else int (dec_value digits))
      in if digits = [] \<or> \<not> list_all is_digit digits \<or> v < - (2 ^ 63) \<or> 2 ^ 63 \<le> v then None else Some v)"

datatype port_fatal = BadPortNumber int | BadRange string | BadPort string

text \<open>The set \<^verbatim>\<open>seen\<close> is the set of \<^verbatim>\<open>out\<close>.\<close>

definition add_port :: "int \<Rightarrow> int list \<Rightarrow> port_fatal + int list" where
  "add_port p out =
     (if p < 1 \<or> 65535 < p then Inl (BadPortNumber p)
      else Inr (if p \<in> set out then out else out @ [p]))"

fun add_ports :: "int list \<Rightarrow> int list \<Rightarrow> port_fatal + int list" where
  "add_ports [] out = Inr out"
| "add_ports (p # ps) out = (case add_port p out of Inl e \<Rightarrow> Inl e | Inr out' \<Rightarrow> add_ports ps out')"

text \<open>One entry; the dash of a range is not at the start.\<close>

definition parse_field :: "string \<Rightarrow> int list \<Rightarrow> port_fatal + int list" where
  "parse_field f out =
     (if f = [] then Inr out
      else if CHR ''-'' \<in> set f \<and> hd f \<noteq> CHR ''-'' then
        (case (atoi (takeWhile (\<lambda>c. c \<noteq> CHR ''-'') f), atoi (tl (dropWhile (\<lambda>c. c \<noteq> CHR ''-'') f))) of
           (Some lo, Some hi) \<Rightarrow> if hi < lo then Inl (BadRange f) else add_ports [lo..hi] out
         | _ \<Rightarrow> Inl (BadRange f))
      else (case atoi f of None \<Rightarrow> Inl (BadPort f) | Some p \<Rightarrow> add_port p out))"

fun parse_fields :: "string list \<Rightarrow> int list \<Rightarrow> port_fatal + int list" where
  "parse_fields [] out = Inr out"
| "parse_fields (f # fs) out = (case parse_field (trim_space f) out of Inl e \<Rightarrow> Inl e | Inr out' \<Rightarrow> parse_fields fs out')"

definition parsePorts :: "string \<Rightarrow> port_fatal + int list" where
  "parsePorts s =
     (if trim_space s \<in> {'''', ''none'', ''-''} then Inr []
      else case parse_fields (split_on CHR '','' s) [] of Inl e \<Rightarrow> Inl e | Inr out \<Rightarrow> Inr (sort out))"

section \<open>The server\<close>

definition udp_answer :: "nat \<Rightarrow> string \<Rightarrow> string option" where
  "udp_answer port b = (if validUDPRequest b then Some (token port ''udp'') else None)"

text \<open>The connections of one TCP port share 32 slots.\<close>

interpretation port_slots: quota "take_slot 32" free_slot "\<lambda>n u. n" "\<lambda>n. n" 32 32 "\<lambda>_. True" 0
  by unfold_locales (auto simp: take_slot_def free_slot_def split: if_splits)

text \<open>What one accepted connection writes, given what it reads until an error.\<close>

definition tcp_answers :: "nat \<Rightarrow> string list \<Rightarrow> string list" where
  "tcp_answers port chunks = token port ''tcp'' # chunks"

section \<open>The client\<close>

definition classify_error :: "string \<Rightarrow> string" where
  "classify_error s =
     (if contains s ''timeout'' \<or> contains s ''deadline'' then ''blocked (timeout)''
      else if contains s ''refused'' then ''refused (reached the host, nothing listening)''
      else if contains s ''reset'' then ''reset (something actively killed it)''
      else s)"

datatype status = IsOpen | WrongReply string | NoReply string | Failed string | Blocked

text \<open>An outcome of a system call is an error text or what was read.\<close>

definition verdict :: "string \<Rightarrow> nat \<Rightarrow> string \<Rightarrow> status" where
  "verdict proto port got = (if got = token port proto then IsOpen else WrongReply (trim_space got))"

definition probeTCP :: "nat \<Rightarrow> string option \<Rightarrow> string + string \<Rightarrow> status" where
  "probeTCP port dial_error reading =
     (case dial_error of
        Some e \<Rightarrow> Failed (classify_error e)
      | None \<Rightarrow> (case reading of Inl e \<Rightarrow> NoReply (classify_error e) | Inr got \<Rightarrow> verdict ''tcp'' port got))"

datatype attempt = WriteFailed string | ReadFailed | Got string

fun probe_attempts :: "nat \<Rightarrow> attempt list \<Rightarrow> status" where
  "probe_attempts port [] = Blocked"
| "probe_attempts port (a # as) =
     (case a of
        WriteFailed e \<Rightarrow> Failed (classify_error e)
      | ReadFailed \<Rightarrow> probe_attempts port as
      | Got got \<Rightarrow> verdict ''udp'' port got)"

definition probeUDP :: "nat \<Rightarrow> string option \<Rightarrow> (nat \<Rightarrow> attempt) \<Rightarrow> status" where
  "probeUDP port dial_error attempts =
     (case dial_error of Some e \<Rightarrow> Failed (classify_error e) | None \<Rightarrow> probe_attempts port (map attempts [0..<3]))"

record result =
  r_proto :: string
  r_port :: int
  r_status :: status

definition result_key :: "result \<Rightarrow> string \<times> int" where "result_key r = (r_proto r, r_port r)"

text \<open>\<^verbatim>\<open>runClient\<close> on the results in the order the probes finished: the report, and the open ports.\<close>

definition runClient :: "result list \<Rightarrow> result list \<times> (string \<times> int) list" where
  "runClient finished =
     (let rs = sort_key result_key finished
      in (rs, map result_key (filter (\<lambda>r. r_status r = IsOpen) rs)))"

section \<open>The endurance test\<close>

datatype sustain_step = SWriteFail string | SReadFail string | SReadOk

datatype sustain_end = DiedWriting nat string | DiedSilent nat | DiedReading nat string | Survived nat

text \<open>One step per message until the deadline.\<close>

fun sustain_loop :: "string \<Rightarrow> nat \<Rightarrow> nat \<Rightarrow> sustain_step list \<Rightarrow> sustain_end" where
  "sustain_loop proto sent lost [] = Survived sent"
| "sustain_loop proto sent lost (x # xs) =
     (case x of
        SWriteFail e \<Rightarrow> DiedWriting sent (classify_error e)
      | SReadFail e \<Rightarrow>
          (let sent1 = sent + 1 in
           if proto = ''udp'' then
             (if 10 < lost + 1 then DiedSilent sent1 else sustain_loop proto sent1 (lost + 1) xs)
           else DiedReading sent1 (classify_error e))
      | SReadOk \<Rightarrow> sustain_loop proto (sent + 1) 0 xs)"

definition sustain_payload :: string where
  "sustain_payload = take 256 (probeMagic @ replicate 256 (CHR 0x00))"

datatype sustain_result = DiedAtOnce string | NoGreeting string | Ended sustain_end

definition sustain :: "string \<Rightarrow> string option \<Rightarrow> string option \<Rightarrow> sustain_step list \<Rightarrow> sustain_result" where
  "sustain proto dial_error greeting_error steps =
     (case dial_error of
        Some e \<Rightarrow> DiedAtOnce (classify_error e)
      | None \<Rightarrow>
          (case (if proto = ''tcp'' then greeting_error else None) of
             Some e \<Rightarrow> NoGreeting (classify_error e)
           | None \<Rightarrow> Ended (sustain_loop proto 0 0 steps)))"

section \<open>The port list\<close>

text \<open>What an entry stands for.\<close>

definition denotes :: "string \<Rightarrow> int \<Rightarrow> bool" where
  "denotes f p \<longleftrightarrow>
     (if CHR ''-'' \<in> set f \<and> hd f \<noteq> CHR ''-'' then
        (\<exists>lo hi. atoi (takeWhile (\<lambda>c. c \<noteq> CHR ''-'') f) = Some lo \<and> atoi (tl (dropWhile (\<lambda>c. c \<noteq> CHR ''-'') f)) = Some hi \<and>
           lo \<le> p \<and> p \<le> hi)
      else atoi f = Some p)"

definition is_port :: "int \<Rightarrow> bool" where "is_port p \<longleftrightarrow> 1 \<le> p \<and> p \<le> 65535"

definition ports_ok :: "int list \<Rightarrow> bool" where
  "ports_ok out \<longleftrightarrow> distinct out \<and> list_all is_port out"

lemma add_port_Inr: "add_port p out = Inr out' \<Longrightarrow> set out' = insert p (set out) \<and> is_port p \<and> (distinct out \<longrightarrow> distinct out')"
  by (auto simp: add_port_def is_port_def split: if_splits)

lemma add_ports_Inr:
  "add_ports ps out = Inr out' \<Longrightarrow> set out' = set ps \<union> set out \<and> list_all is_port ps \<and> (distinct out \<longrightarrow> distinct out')"
proof (induction ps arbitrary: out)
  case (Cons p ps)
  then obtain out1 where a: "add_port p out = Inr out1" "add_ports ps out1 = Inr out'" by (auto split: sum.splits)
  show ?case using add_port_Inr [OF a(1)] Cons.IH [OF a(2)] by auto
qed simp

lemma add_ports_Inl: "add_ports ps out = Inl e \<Longrightarrow> \<exists>p\<in>set ps. \<not> is_port p"
proof (induction ps arbitrary: out)
  case (Cons p ps)
  then show ?case by (cases "add_port p out") (auto simp: add_port_def is_port_def split: if_splits)
qed simp

text \<open>An entry that can be used: it denotes something, and only ports.\<close>

definition usable :: "string \<Rightarrow> bool" where
  "usable f \<longleftrightarrow> f = [] \<or> (\<exists>p. denotes f p) \<and> (\<forall>p. denotes f p \<longrightarrow> is_port p)"

lemma parse_field_result:
  "(case parse_field f out of
      Inl e \<Rightarrow> \<not> usable f
    | Inr out' \<Rightarrow> usable f \<and> set out' = set out \<union> (if f = [] then {} else {p. denotes f p}) \<and> (distinct out \<longrightarrow> distinct out'))"
proof (cases "f = [] \<or> \<not> (CHR ''-'' \<in> set f \<and> hd f \<noteq> CHR ''-'')")
  case True
  then show ?thesis
    by (auto simp: parse_field_def add_port_def usable_def denotes_def is_port_def split: option.split)
next
  case False
  define a b where "a = atoi (takeWhile (\<lambda>c. c \<noteq> CHR ''-'') f)" and "b = atoi (tl (dropWhile (\<lambda>c. c \<noteq> CHR ''-'') f))"
  have d: "denotes f p \<longleftrightarrow> (\<exists>lo hi. a = Some lo \<and> b = Some hi \<and> lo \<le> p \<and> p \<le> hi)" for p
    using False by (simp add: denotes_def a_def b_def)
  have pf: "parse_field f out = (case (a, b) of (Some lo, Some hi) \<Rightarrow> if hi < lo then Inl (BadRange f) else add_ports [lo..hi] out
      | _ \<Rightarrow> Inl (BadRange f))"
    using False by (simp add: parse_field_def a_def b_def)
  show ?thesis
  proof (cases "\<exists>lo hi. a = Some lo \<and> b = Some hi \<and> lo \<le> hi")
    case True
    then obtain lo hi where l: "a = Some lo" "b = Some hi" "lo \<le> hi" by blast
    show ?thesis
    proof (cases "add_ports [lo..hi] out")
      case (Inl e)
      then show ?thesis using add_ports_Inl [OF Inl] l False by (auto simp: pf usable_def d)
    next
      case (Inr out')
      then show ?thesis using add_ports_Inr [OF Inr] l False by (auto simp: pf usable_def d list_all_iff)
    qed
  next
    case none: False
    then have "parse_field f out = Inl (BadRange f)" by (auto simp: pf split: option.splits)
    moreover have "\<not> usable f" using none False by (auto simp: usable_def d)
    ultimately show ?thesis by simp
  qed
qed

lemma parse_fields_result:
  "(case parse_fields fs out of
      Inl e \<Rightarrow> \<not> list_all (\<lambda>f. usable (trim_space f)) fs
    | Inr out' \<Rightarrow> list_all (\<lambda>f. usable (trim_space f)) fs \<and>
        set out' = set out \<union> {p. \<exists>f\<in>set fs. trim_space f \<noteq> [] \<and> denotes (trim_space f) p} \<and> (distinct out \<longrightarrow> distinct out'))"
proof (induction fs arbitrary: out)
  case (Cons f fs)
  show ?case
  proof (cases "parse_field (trim_space f) out")
    case (Inl e)
    then show ?thesis using parse_field_result [of "trim_space f" out] by simp
  next
    case (Inr out1)
    note r = parse_field_result [of "trim_space f" out, unfolded Inr sum.case]
    show ?thesis
    proof (cases "parse_fields fs out1")
      case (Inl e)
      then show ?thesis using Cons.IH [of out1] Inr by simp
    next
      case inr2: (Inr out2)
      then show ?thesis using Cons.IH [of out1] r Inr by (cases "trim_space f = []") auto
    qed
  qed
qed simp

text \<open>The port list is accepted exactly if every non-empty entry is a number or a range of ports, and then the
  result is the ports the entries stand for, each once, in order.\<close>

theorem parse_ports_correct:
  assumes "trim_space s \<notin> {'''', ''none'', ''-''}"
  shows "(case parsePorts s of
      Inl e \<Rightarrow> \<not> list_all (\<lambda>f. usable (trim_space f)) (split_on CHR '','' s)
    | Inr ps \<Rightarrow> list_all (\<lambda>f. usable (trim_space f)) (split_on CHR '','' s) \<and> sorted ps \<and> distinct ps \<and>
        set ps = {p. \<exists>f\<in>set (split_on CHR '','' s). trim_space f \<noteq> [] \<and> denotes (trim_space f) p} \<and> list_all is_port ps)"
proof -
  have out: "p \<in> {p. \<exists>f\<in>set fs. trim_space f \<noteq> [] \<and> denotes (trim_space f) p} \<Longrightarrow> list_all (\<lambda>f. usable (trim_space f)) fs \<Longrightarrow> is_port p" for fs p
    by (auto simp: usable_def list_all_iff)
  show ?thesis using parse_fields_result [of "split_on CHR '','' s" "[]"] out [of _ "split_on CHR '','' s"] assms
    by (cases "parse_fields (split_on CHR '','' s) []") (auto simp: parsePorts_def list_all_iff)
qed

section \<open>What a reply proves\<close>

lemma token_inj:
  assumes "token p a = token q b" "CHR ''/'' \<notin> set a" "CHR ''/'' \<notin> set b"
  shows "p = q \<and> a = b"
proof -
  have t: "takeWhile (\<lambda>c. c \<noteq> CHR ''/'') (a @ ''/'' @ r) = a" if "CHR ''/'' \<notin> set a" for a r
    using that by (subst takeWhile_append2) auto
  have e: "a @ ''/'' @ itoa p @ [CHR 0x0A] = b @ ''/'' @ itoa q @ [CHR 0x0A]" using assms(1) by (simp add: token_def)
  then have "a = b" using t [OF assms(2)] t [OF assms(3)] by metis
  then show ?thesis using e itoa_inj by simp
qed

lemma requests_valid: "validUDPRequest udpRequest" "validUDPRequest sustain_payload"
  by (simp_all add: validUDPRequest_def udpRequest_def sustain_payload_def probeRequestLen_def probeMagic_def has_prefix_def)

lemma first_shift:
  "(\<exists>i<length (a # as). (a # as) ! i = g \<and> (\<forall>j<i. (a # as) ! j = r)) \<longleftrightarrow>
     a = g \<or> (a = r \<and> (\<exists>i<length as. as ! i = g \<and> (\<forall>j<i. as ! j = r)))"
  by (simp add: Ex_less_Suc2 All_less_Suc2 conj_left_commute)

lemma attempts_open:
  "probe_attempts port as = IsOpen \<longleftrightarrow> (\<exists>i<length as. as ! i = Got (token port ''udp'') \<and> (\<forall>j<i. as ! j = ReadFailed))"
proof (induction as)
  case (Cons a as)
  then show ?case unfolding first_shift by (cases a) (simp_all add: verdict_def)
qed simp

text \<open>A port is reported open exactly if, within three tries, the first reply is the token of that very port;
  the server's own answer to a request is such a reply only on the right port and protocol; and an
  answer is never longer than the request it answers, so the server cannot be used to amplify traffic.\<close>

theorem probe_protocol:
  assumes "port \<le> 65535"
  shows "(probeUDP port None attempts = IsOpen \<longleftrightarrow>
      (\<exists>i<3. attempts i = Got (token port ''udp'') \<and> (\<forall>j<i. attempts j = ReadFailed))) \<and>
    udp_answer port udpRequest = Some (token port ''udp'') \<and>
    (udp_answer port b = Some t \<longrightarrow> length t \<le> length b \<and> (verdict ''udp'' port2 t = IsOpen \<longleftrightarrow> port2 = port) \<and> verdict ''tcp'' port2 t \<noteq> IsOpen)"
proof -
  have l: "length (token port ''udp'') \<le> probeRequestLen"
    using itoa_length [of port 4] assms by (simp add: token_def probeRequestLen_def)
  have v: "verdict ''udp'' port2 (token port ''udp'') = IsOpen \<longleftrightarrow> port2 = port" "verdict ''tcp'' port2 (token port ''udp'') \<noteq> IsOpen"
    using token_inj [of port "''udp''" port2 "''udp''"] token_inj [of port "''udp''" port2 "''tcp''"] by (auto simp: verdict_def)
  have "probeUDP port None attempts = IsOpen \<longleftrightarrow>
      (\<exists>i<3. attempts i = Got (token port ''udp'') \<and> (\<forall>j<i. attempts j = ReadFailed))"
    by (auto simp: probeUDP_def attempts_open simp del: upt_rec_numeral)
  then show ?thesis using l v requests_valid by (auto simp: udp_answer_def validUDPRequest_def split: if_splits)
qed

section \<open>Silence\<close>

text \<open>A udp flow dies of silence exactly at the eleventh reply missed in a row (the printed text says 10).\<close>

lemma silent_after_eleven:
  "sustain_loop ''udp'' sent lost (replicate n (SReadFail e) @ SReadOk # xs) =
     (if 10 < lost + n then DiedSilent (sent + (11 - lost)) else sustain_loop ''udp'' (sent + n + 1) 0 xs)" if "lost \<le> 10"
  using that
proof (induction n arbitrary: sent lost)
  case (Suc n)
  show ?case
  proof (cases "lost = 10")
    case False
    then show ?thesis using Suc.IH [of "lost + 1" "sent + 1"] Suc.prems by (auto simp: Let_def)
  qed (simp add: Let_def)
qed simp

text \<open>The report does not depend on the order in which the probes finish.\<close>

lemma filter_key: "distinct (map f xs) \<Longrightarrow> k \<in> set xs \<Longrightarrow> filter (\<lambda>x. f k = f x) xs = [k]"
proof (induction xs)
  case (Cons x xs)
  show ?case
  proof (cases "k = x")
    case True
    then have "filter (\<lambda>y. f k = f y) xs = []" using Cons.prems(1) by (auto simp: filter_empty_conv)
    then show ?thesis using True by simp
  next
    case False
    then have "f k \<noteq> f x" using Cons.prems by (auto simp: image_iff)
    then show ?thesis using Cons False by simp
  qed
qed simp

lemma report_deterministic:
  assumes "mset rs = mset rs'" "distinct (map result_key rs)"
  shows "runClient rs = runClient rs'"
proof -
  have d: "distinct (map result_key (sort_key result_key rs'))" "distinct (map result_key rs)"
    using assms by (metis distinct_map distinct_sort mset_eq_imp_distinct_iff set_mset_mset mset_sort)+
  have "sort_key result_key rs = sort_key result_key rs'"
    using assms(1) filter_key [OF d(1)] filter_key [OF d(2)] by (intro properties_for_sort_key) (auto dest: mset_eq_setD)
  then show ?thesis by (simp add: runClient_def)
qed

section \<open>Concrete cases\<close>

theorem parse_ports_correct_witness:
  "parsePorts ''443, 80-82,80'' = Inr [80, 81, 82, 443] \<and> sorted [80, 81, 82, 443 :: int]"
proof -
  have "parsePorts ''443, 80-82,80'' = Inr [80, 81, 82, 443]" "trim_space ''443, 80-82,80'' \<notin> {'''', ''none'', ''-''}"
    by code_simp+
  then show ?thesis using parse_ports_correct [of "''443, 80-82,80''"] by simp
qed

theorem probe_protocol_witness:
  "probeUDP 443 None (\<lambda>i. if i = 0 then ReadFailed else Got (token 443 ''udp'')) = IsOpen \<and>
   udp_answer 443 udpRequest = Some (token 443 ''udp'')"
proof -
  have e: "(\<exists>i<(3::nat). (if i = 0 then ReadFailed else Got (token 443 ''udp'')) = Got (token 443 ''udp'') \<and>
      (\<forall>j<i. (if j = 0 then ReadFailed else Got (token 443 ''udp'')) = ReadFailed))"
    by (rule exI [of _ "1 :: nat"]) simp
  show ?thesis using probe_protocol [of 443 "\<lambda>i. if i = 0 then ReadFailed else Got (token 443 ''udp'')" "''''" "''''" 0] e by simp
qed

end
