(* ===== verification/ProbeRuns.thy ===== *)
theory ProbeRuns
  imports Portprobe "HOL-Library.Multiset"
begin

text \<open>
  The runs of cmd/portprobe/main.go: the goroutines that share \<^verbatim>\<open>parallel\<close> slots (\<^verbatim>\<open>runClient\<close>, \<^verbatim>\<open>runTargets\<close>) as a
  step relation, the probe of a public target, the ports the server binds, the endurance test of all open ports
  and the choice of \<^verbatim>\<open>main\<close>. What a probe finds is a function of its port or target.
\<close>

section \<open>Probes side by side\<close>

text \<open>One goroutine per task; it waits for a slot, probes and appends its result. \<open>par\<close> is the capacity of the channel.\<close>

record ('t, 'r) pool =
  waiting :: "'t list"
  working :: "'t list"
  finished :: "'r list"

definition new_pool :: "'t list \<Rightarrow> ('t, 'r) pool" where
  "new_pool ts = \<lparr>waiting = ts, working = [], finished = []\<rparr>"

inductive pool_step :: "nat \<Rightarrow> ('t \<Rightarrow> 'r) \<Rightarrow> ('t, 'r) pool \<Rightarrow> ('t, 'r) pool \<Rightarrow> bool" for par job where
  take_slot: "t \<in> set (waiting s) \<Longrightarrow> length (working s) < par \<Longrightarrow>
     pool_step par job s (s\<lparr>waiting := remove1 t (waiting s), working := t # working s\<rparr>)"
| finish: "t \<in> set (working s) \<Longrightarrow>
     pool_step par job s (s\<lparr>working := remove1 t (working s), finished := finished s @ [job t]\<rparr>)"

inductive_simps pool_step_iff: "pool_step par job s s'"

inductive pool_run :: "nat \<Rightarrow> ('t \<Rightarrow> 'r) \<Rightarrow> ('t, 'r) pool \<Rightarrow> ('t, 'r) pool \<Rightarrow> bool" for par job where
  run_refl: "pool_run par job s s"
| run_step: "pool_run par job s s' \<Longrightarrow> pool_step par job s' s'' \<Longrightarrow> pool_run par job s s''"

definition stuck :: "nat \<Rightarrow> ('t \<Rightarrow> 'r) \<Rightarrow> ('t, 'r) pool \<Rightarrow> bool" where
  "stuck par job s \<longleftrightarrow> (\<nexists>s'. pool_step par job s s')"

definition pool_done :: "('t, 'r) pool \<Rightarrow> bool" where
  "pool_done s \<longleftrightarrow> waiting s = [] \<and> working s = []"

text \<open>Work left: a task takes two steps.\<close>

definition work_left :: "('t, 'r) pool \<Rightarrow> nat" where
  "work_left s = 2 * length (waiting s) + length (working s)"

lemma remove1_split:
  assumes "t \<in> set xs"
  obtains ys where "remove1 t xs = ys" "mset xs = add_mset t (mset ys)" "length xs = Suc (length ys)"
  using assms length_pos_if_in_set [OF assms] by (simp add: length_remove1)

lemma step_works: "pool_step par job s s' \<Longrightarrow> work_left s' < work_left s"
proof (induction rule: pool_step.induct)
  case (take_slot t s)
  from take_slot(1) show ?case by (rule remove1_split) (simp add: work_left_def)
next
  case (finish t s)
  from finish show ?case by (rule remove1_split) (simp add: work_left_def)
qed

definition pool_inv :: "nat \<Rightarrow> ('t \<Rightarrow> 'r) \<Rightarrow> 't list \<Rightarrow> ('t, 'r) pool \<Rightarrow> bool" where
  "pool_inv par job ts s \<longleftrightarrow> length (working s) \<le> par \<and>
     image_mset job (mset ts) = image_mset job (mset (waiting s) + mset (working s)) + mset (finished s)"

lemma step_inv: "pool_step par job s s' \<Longrightarrow> pool_inv par job ts s \<Longrightarrow> pool_inv par job ts s'"
proof (induction rule: pool_step.induct)
  case (take_slot t s)
  from take_slot(1) show ?case by (rule remove1_split) (use take_slot in \<open>simp add: pool_inv_def\<close>)
next
  case (finish t s)
  from finish(1) show ?case by (rule remove1_split) (use finish in \<open>simp add: pool_inv_def\<close>)
qed

lemma pool_run_inv: "pool_run par job s s' \<Longrightarrow> pool_inv par job ts s \<Longrightarrow> pool_inv par job ts s'"
  by (induction rule: pool_run.induct) (auto intro: step_inv)

lemma new_pool_inv: "pool_inv par job ts (new_pool ts)"
  by (simp add: pool_inv_def new_pool_def)

text \<open>With at least one slot a pool only stops when all is done; without one it never starts.\<close>

lemma stuck_done: "0 < par \<Longrightarrow> stuck par job s \<longleftrightarrow> pool_done s"
  by (cases "waiting s"; cases "working s") (auto simp: stuck_def pool_done_def pool_step_iff)

lemma no_slot_stuck: "stuck 0 job (new_pool ts)"
  by (simp add: stuck_def new_pool_def pool_step_iff)

section \<open>The report of a scan\<close>

datatype probe_task = ProbeTCP int | ProbeUDP int

definition probe_tasks :: "int list \<Rightarrow> int list \<Rightarrow> probe_task list" where
  "probe_tasks tcpPorts udpPorts = map ProbeTCP tcpPorts @ map ProbeUDP udpPorts"

text \<open>The network as the probes meet it: what a dial and the reads give, per port.\<close>

record probe_net =
  n_tcp_dial :: "int \<Rightarrow> string option"
  n_tcp_read :: "int \<Rightarrow> string + string"
  n_udp_dial :: "int \<Rightarrow> string option"
  n_udp_tries :: "int \<Rightarrow> nat \<Rightarrow> attempt"

definition run_probe :: "probe_net \<Rightarrow> probe_task \<Rightarrow> result" where
  "run_probe net t =
     (case t of
        ProbeTCP p \<Rightarrow> \<lparr>r_proto = ''tcp'', r_port = p, r_status = probeTCP (nat p) (n_tcp_dial net p) (n_tcp_read net p)\<rparr>
      | ProbeUDP p \<Rightarrow> \<lparr>r_proto = ''udp'', r_port = p, r_status = probeUDP (nat p) (n_udp_dial net p) (n_udp_tries net p)\<rparr>)"

lemma filter_single: "distinct zs \<Longrightarrow> k \<in> set zs \<Longrightarrow> filter (\<lambda>x. x = k) zs = [k]"
  by (induction zs) (auto simp: filter_empty_conv)

lemma sort_key_unique:
  assumes "mset xs = mset ys" "distinct (map f xs)"
  shows "sort_key f xs = sort_key f ys"
proof (rule properties_for_sort_key)
  show "mset (sort_key f ys) = mset xs" by (simp only: mset_sort assms(1))
  have i: "inj_on f (set xs)" using assms(2) by (simp add: distinct_map)
  have x: "distinct xs" using assms(2) by (simp add: distinct_map)
  then have d: "distinct (sort_key f ys)" using mset_eq_imp_distinct_iff [OF assms(1)] by simp
  have s: "set (sort_key f ys) = set xs" using mset_eq_setD [OF assms(1)] by simp
  fix k
  assume k: "k \<in> set (sort_key f ys)"
  have "filter (\<lambda>x. f k = f x) zs = [k]" if "set zs = set xs" "distinct zs" for zs
  proof -
    have "filter (\<lambda>x. f k = f x) zs = filter (\<lambda>x. x = k) zs"
      using i k s that(1) by (intro filter_cong) (auto dest: inj_onD)
    then show ?thesis using filter_single [OF that(2)] that(1) k s by simp
  qed
  then show "filter (\<lambda>x. f k = f x) (sort_key f ys) = filter (\<lambda>x. f k = f x) xs" using d s x by simp
qed simp

lemma keys_distinct:
  assumes "distinct tcp" "distinct udp"
  shows "distinct (map (result_key \<circ> run_probe net) (probe_tasks tcp udp))"
  using assms by (auto simp: probe_tasks_def run_probe_def result_key_def comp_def distinct_map inj_on_def)


lemma run_all_done:
  assumes "pool_run par job (new_pool ts) s" "pool_done s"
  shows "mset (finished s) = image_mset job (mset ts)"
  using pool_run_inv [OF assms(1) new_pool_inv] assms(2) by (simp add: pool_inv_def pool_done_def)

lemma run_length: "pool_run par job s s' \<Longrightarrow> work_left s' \<le> work_left s"
  by (induction rule: pool_run.induct) (auto dest: step_works)

text \<open>From every state of a run the pool can be worked off.\<close>

lemma run_finishes:
  assumes "0 < par" "pool_run par job s0 s"
  shows "\<exists>s'. pool_run par job s0 s' \<and> pool_done s'"
  using assms(2)
proof (induction "work_left s" arbitrary: s rule: less_induct)
  case less
  show ?case
  proof (cases "pool_done s")
    case False
    then obtain s' where "pool_step par job s s'" using stuck_done [OF assms(1)] by (auto simp: stuck_def)
    then show ?thesis using less.hyps [OF step_works] less.prems run_step by metis
  qed (use less.prems in blast)
qed


section \<open>Public targets\<close>

definition banner_text :: "string \<Rightarrow> string" where
  "banner_text got = (let b = trim_space got in if 40 < length b then take 40 b @ ''...'' else b)"

text \<open>\<open>got\<close> is what the first read gave, if anything.\<close>

definition probeTarget :: "string option \<Rightarrow> string option \<Rightarrow> string" where
  "probeTarget dial_error got =
     (case dial_error of
        Some e \<Rightarrow> classify_error e
      | None \<Rightarrow>
          (case got of
             None \<Rightarrow> ''reachable''
           | Some b \<Rightarrow> if b = '''' then ''reachable'' else ''reachable ('' @ banner_text b @ '')''))"

text \<open>\<^verbatim>\<open>runTargets\<close> on the results in the order they came; the lines are sorted by target.\<close>

definition runTargets :: "(string \<times> string) list \<Rightarrow> (bool \<times> string \<times> string) list \<times> string list" where
  "runTargets out =
     (let rs = sort_key fst out
      in (map (\<lambda>r. (has_prefix (snd r) ''reachable'', r)) rs, map fst (filter (\<lambda>r. has_prefix (snd r) ''reachable'') rs)))"

lemma reached: "dial_error = None \<Longrightarrow> has_prefix (probeTarget dial_error got) ''reachable''"
  by (auto simp: probeTarget_def has_prefix_def split: option.split)

section \<open>The server's ports\<close>

text \<open>\<open>listen\<close> gives the error of binding a port, if any: the ports that are served and those that are skipped.\<close>

fun bind_ports :: "string \<Rightarrow> (int \<Rightarrow> string option) \<Rightarrow> int list \<Rightarrow> (string \<times> int) list \<times> (string \<times> int \<times> string) list" where
  "bind_ports proto listen [] = ([], [])"
| "bind_ports proto listen (p # ps) =
     (case bind_ports proto listen ps of
        (bound, skipped) \<Rightarrow>
          (case listen p of None \<Rightarrow> ((proto, p) # bound, skipped) | Some e \<Rightarrow> (bound, (proto, p, e) # skipped)))"

definition runServer :: "(int \<Rightarrow> string option) \<Rightarrow> (int \<Rightarrow> string option) \<Rightarrow> int list \<Rightarrow> int list \<Rightarrow>
    (string \<times> int) list \<times> (string \<times> int \<times> string) list" where
  "runServer tcp_listen udp_listen tcpPorts udpPorts =
     (case bind_ports ''tcp'' tcp_listen tcpPorts of
        (b1, s1) \<Rightarrow> (case bind_ports ''udp'' udp_listen udpPorts of (b2, s2) \<Rightarrow> (b1 @ b2, s1 @ s2)))"

lemma bind_ports_split:
  "bind_ports proto listen ps =
     (map (Pair proto) (filter (\<lambda>p. listen p = None) ps),
      map (\<lambda>p. (proto, p, the (listen p))) (filter (\<lambda>p. listen p \<noteq> None) ps))"
  by (induction ps) (auto split: option.split)

section \<open>The endurance test of all open ports\<close>

definition proto_key :: "result \<Rightarrow> string" where
  "proto_key r = r_proto r @ ''/'' @ itoa (nat (r_port r))"

text \<open>\<open>test\<close> is what \<^verbatim>\<open>sustain\<close> finds for a port; the map \<^verbatim>\<open>lines\<close> is read in the order of its keys.\<close>

definition runSustain :: "(result \<Rightarrow> sustain_result) \<Rightarrow> result list \<Rightarrow> (string \<times> sustain_result) list" where
  "runSustain test results =
     (let openOnes = filter (\<lambda>r. r_status r = IsOpen) results;
          lines = map_of (map (\<lambda>r. (proto_key r, test r)) (rev openOnes))
      in map (\<lambda>k. (k, the (lines k))) (sort (remdups (map proto_key openOnes))))"

section \<open>What is run\<close>

datatype probe_run =
    Targets "string list" | Server "int list" "int list" | Client string "int list" "int list" bool
  | NoHost | UnknownMode string | BadPorts port_fatal

definition defaultTCP :: string where
  "defaultTCP = ''80,443,8080,8443,2053,2083,2087,2096,53,123,143,465,587,993,995,1194,3478,5349,5222,3389''"
definition defaultUDP :: string where "defaultUDP = ''443,53,123,500,1194,3478,4500,51820,8443''"

definition defaultTargets :: string where
  "defaultTargets =
     ''www.google.com:80,www.google.com:443,github.com:22,8.8.8.8:53,'' @
     ''smtp.gmail.com:25,smtp.gmail.com:465,smtp.gmail.com:587,imap.gmail.com:993,'' @
     ''pop.gmail.com:995,ftp.gnu.org:21,irc.libera.chat:6667,irc.libera.chat:6697''"

definition probe_main :: "string \<Rightarrow> string \<Rightarrow> string \<Rightarrow> string \<Rightarrow> string \<Rightarrow> duration \<Rightarrow> probe_run" where
  "probe_main mode host tcpList udpList targets sustainFor =
     (if targets \<noteq> '''' then Targets (split_on CHR '','' (if targets = ''default'' then defaultTargets else targets))
      else
        (case parsePorts tcpList of
           Inl e \<Rightarrow> BadPorts e
         | Inr tcp \<Rightarrow>
             (case parsePorts udpList of
                Inl e \<Rightarrow> BadPorts e
              | Inr udp \<Rightarrow>
                  if mode = ''server'' then Server tcp udp
                  else if mode = ''client'' then (if host = '''' then NoHost else Client host tcp udp (0 < sustainFor))
                  else UnknownMode mode)))"

text \<open>The ports of a run are distinct ports in order, so the report of a scan is determined.\<close>

lemma parsePorts_ok: "parsePorts s = Inr ps \<Longrightarrow> distinct ps \<and> list_all is_port ps"
proof (cases "trim_space s \<in> {'''', ''none'', ''-''}")
  case False
  moreover assume "parsePorts s = Inr ps"
  ultimately obtain out where "parse_fields (split_on CHR '','' s) [] = Inr out" "ps = sort out"
    by (auto simp: parsePorts_def split: sum.splits)
  then show ?thesis using parse_fields_result [of "split_on CHR '','' s" "[]"] by (auto simp: usable_def list_all_iff)
qed (auto simp: parsePorts_def)

lemma probe_main_ports:
  "(case probe_main mode host tcpList udpList targets sustainFor of
      Client h tcp udp held \<Rightarrow> distinct tcp \<and> distinct udp \<and> h = host \<and> h \<noteq> ''''
    | Server tcp udp \<Rightarrow> distinct tcp \<and> distinct udp
    | _ \<Rightarrow> True)"
  by (auto simp: probe_main_def split: sum.split dest: parsePorts_ok)

section \<open>Concrete cases\<close>

definition toy_net :: probe_net where
  "toy_net = \<lparr>n_tcp_dial = (\<lambda>p. if p = 80 then None else Some ''connection refused''), n_tcp_read = (\<lambda>p. Inr (token (nat p) ''tcp'')),
     n_udp_dial = (\<lambda>_. None), n_udp_tries = (\<lambda>p i. ReadFailed)\<rparr>"

text \<open>Two slots, the second probe finishing first.\<close>

definition toy_end :: "(probe_task, result) pool" where
  "toy_end = \<lparr>waiting = [], working = [], finished = [run_probe toy_net (ProbeTCP 443), run_probe toy_net (ProbeTCP 80)]\<rparr>"

lemma toy_run: "pool_run 2 (run_probe toy_net) (new_pool (probe_tasks [80, 443] [])) toy_end"
proof -
  let ?j = "run_probe toy_net"
  let ?s1 = "\<lparr>waiting = [ProbeTCP 443], working = [ProbeTCP 80], finished = []\<rparr> :: (probe_task, result) pool"
  let ?s2 = "\<lparr>waiting = [], working = [ProbeTCP 443, ProbeTCP 80], finished = []\<rparr> :: (probe_task, result) pool"
  let ?s3 = "\<lparr>waiting = [], working = [ProbeTCP 80], finished = [?j (ProbeTCP 443)]\<rparr> :: (probe_task, result) pool"
  let ?s0 = "new_pool (probe_tasks [80, 443] []) :: (probe_task, result) pool"
  have a: "pool_step 2 ?j ?s0 ?s1"
    using pool_step.take_slot [of "ProbeTCP 80" ?s0 2 ?j] by (simp add: new_pool_def probe_tasks_def)
  have b: "pool_step 2 ?j ?s1 ?s2" using pool_step.take_slot [of "ProbeTCP 443" ?s1 2 ?j] by simp
  have c: "pool_step 2 ?j ?s2 ?s3" using pool_step.finish [of "ProbeTCP 443" ?s2 2 ?j] by simp
  have d: "pool_step 2 ?j ?s3 toy_end" using pool_step.finish [of "ProbeTCP 80" ?s3 2 ?j] by (simp add: toy_end_def)
  show ?thesis by (rule run_step [OF run_step [OF run_step [OF run_step [OF run_refl a] b] c] d])
qed


end
