(* ===== verification/Procmap.thy ===== *)
theory Procmap
  imports Flows Startup
begin

text \<open>
  internal/procmap (procmap_windows.go): which process owns a local UDP port. The answers of the Windows
  calls are arguments: the return codes and the buffer of \<^verbatim>\<open>GetExtendedUdpTable\<close>, and for a process whether it
  can be opened and its path. At the end the table is put under the router of Flows, which asks it for
  the owner of a packet's source port.
\<close>

section \<open>The name of a process\<close>

definition is_sep :: "char \<Rightarrow> bool" where
  "is_sep c \<longleftrightarrow> c = CHR 0x5C \<or> c = CHR ''/''"

definition has_drive :: "string \<Rightarrow> bool" where
  "has_drive p = (case p of d # c # _ \<Rightarrow> c = CHR '':'' \<and> \<not> is_sep d | _ \<Rightarrow> False)"

text \<open>
  \<^verbatim>\<open>filepath.Base\<close> on Windows for the path of a file: the volume name is a drive letter, or it lies before the
  last separator.
\<close>

definition base_name :: "string \<Rightarrow> string" where
  "base_name path =
     (if path = '''' then ''.''
      else
        let p = rev (dropWhile is_sep (rev path));
            q = (if has_drive p then drop 2 p else p);
            l = rev (takeWhile (\<lambda>c. \<not> is_sep c) (rev q))
        in if l = '''' then [CHR 0x5C] else l)"

text \<open>\<^verbatim>\<open>OpenProcess\<close> and \<^verbatim>\<open>QueryFullProcessImageNameW\<close> of a process.\<close>

record process_info =
  can_open :: bool
  image_path :: "string option"

definition processName :: "(u32 \<Rightarrow> process_info) \<Rightarrow> u32 \<Rightarrow> string" where
  "processName sys pid =
     (if \<not> can_open (sys pid) then ''''
      else (case image_path (sys pid) of None \<Rightarrow> '''' | Some full \<Rightarrow> map to_lower (base_name full)))"

section \<open>The table\<close>

record port_table =
  byPort :: "(u16, string) fmap"
  lastRefresh :: time
  pidNames :: "(u32, string) fmap"

definition new_table :: port_table where
  "new_table = \<lparr>byPort = fmempty, lastRefresh = 0, pidNames = fmempty\<rparr>"

definition ProcessForUDPPort :: "port_table \<Rightarrow> u16 \<Rightarrow> string option" where
  "ProcessForUDPPort t port = fmlookup (byPort t) port"

datatype table_error = ProbeSucceeded | ProbeFailed u32 | TableFailed u32 | ShortTable nat

definition errInsufficientBuffer :: u32 where "errInsufficientBuffer = 122"

text \<open>\<open>probe\<close> is the code of the call without a buffer, \<open>fill\<close> the code of the second one and what it left in the buffer.\<close>

definition getExtendedUDPTable :: "u32 \<Rightarrow> u32 \<times> bytes \<Rightarrow> table_error + bytes" where
  "getExtendedUDPTable probe fill =
     (if probe \<noteq> errInsufficientBuffer then Inl (if probe = 0 then ProbeSucceeded else ProbeFailed probe)
      else if fst fill \<noteq> 0 then Inl (TableFailed (fst fill))
      else Inr (snd fill))"

definition le_get32 :: "bytes \<Rightarrow> u32" where "le_get32 bs = be_get (rev bs)"

definition rowSize :: nat where "rowSize = 12"

text \<open>The port of a row, in network byte order in the low half of a little-endian field.\<close>

definition swap_port :: "u32 \<Rightarrow> u16" where
  "swap_port rawPort =
     (let p16 = ucast (rawPort AND 0xFFFF) :: u16 in drop_bit 8 p16 OR push_bit 8 p16)"

text \<open>The name for a pid: from this refresh, from the last one unless it is empty, or asked for now.\<close>

definition name_for :: "(u32, string) fmap \<Rightarrow> (u32 \<Rightarrow> string) \<Rightarrow> (u32, string) fmap \<Rightarrow> u32 \<Rightarrow> string" where
  "name_for old look seen pid =
     (case fmlookup seen pid of
        Some name \<Rightarrow> name
      | None \<Rightarrow>
          (let name = (case fmlookup old pid of Some n \<Rightarrow> n | None \<Rightarrow> '''') in
           if name = '''' then look pid else name))"

text \<open>The loop over the rows: \<open>n\<close> rows are still expected, \<open>rest\<close> is what follows the offset.\<close>

fun read_rows ::
  "(u32, string) fmap \<Rightarrow> (u32 \<Rightarrow> string) \<Rightarrow> nat \<Rightarrow> bytes \<Rightarrow> (u16, string) fmap \<times> (u32, string) fmap \<Rightarrow>
     (u16, string) fmap \<times> (u32, string) fmap" where
  "read_rows old look 0 rest acc = acc"
| "read_rows old look (Suc n) rest acc =
     (if length rest < rowSize then acc
      else
        let rawPort = le_get32 (slice 4 8 rest);
            pid = le_get32 (slice 8 12 rest);
            name = name_for old look (snd acc) pid
        in read_rows old look n (drop rowSize rest) (fmupd (swap_port rawPort) name (fst acc), fmupd pid name (snd acc)))"

definition refreshLocked :: "time \<Rightarrow> table_error + bytes \<Rightarrow> (u32 \<Rightarrow> string) \<Rightarrow> port_table \<Rightarrow> port_table \<times> table_error option" where
  "refreshLocked now answer look t =
     (let t1 = t\<lparr>lastRefresh := now\<rparr> in
      case answer of
        Inl e \<Rightarrow> (t1, Some e)
      | Inr buf \<Rightarrow>
          if length buf < 4 then (t1, Some (ShortTable (length buf)))
          else
            (case read_rows (pidNames t) look (unat (le_get32 (slice 0 4 buf))) (drop 4 buf) (fmempty, fmempty) of
               (ports, names) \<Rightarrow> (t1\<lparr>pidNames := names, byPort := ports\<rparr>, None)))"

text \<open>\<^verbatim>\<open>RefreshIfOlder\<close>: the time is read once for the test and once for the refresh.\<close>

definition RefreshIfOlder ::
  "duration \<Rightarrow> time \<Rightarrow> time \<Rightarrow> table_error + bytes \<Rightarrow> (u32 \<Rightarrow> string) \<Rightarrow> port_table \<Rightarrow> port_table \<times> bool \<times> table_error option" where
  "RefreshIfOlder d now now2 answer look t =
     (if time_sub now (lastRefresh t) < d then (t, False, None)
      else (case refreshLocked now2 answer look t of (t', e) \<Rightarrow> (t', True, e)))"

section \<open>Rows as Windows writes them\<close>

record udp_row =
  row_addr :: bytes
  row_port :: u16
  row_fill :: bytes       \<comment> \<open>the upper half of the port's field\<close>
  row_pid :: u32

definition row_ok :: "udp_row \<Rightarrow> bool" where
  "row_ok r \<longleftrightarrow> length (row_addr r) = 4 \<and> length (row_fill r) = 2"

definition row_bytes :: "udp_row \<Rightarrow> bytes" where
  "row_bytes r = row_addr r @ put16 (row_port r) @ row_fill r @ rev (put32 (row_pid r))"

definition table_bytes :: "u32 \<Rightarrow> udp_row list \<Rightarrow> bytes \<Rightarrow> bytes" where
  "table_bytes count rows slack = rev (put32 count) @ concat (map row_bytes rows) @ slack"

lemma le_get_put [simp]: "le_get32 (rev (put32 w)) = w"
  by (simp add: le_get32_def)

lemma le_get_four:
  "le_get32 [a, b, c, d] = ucast a OR push_bit 8 (ucast b) OR push_bit 16 (ucast c) OR push_bit 24 (ucast d)"
proof (rule bit_word_eqI)
  fix i assume "i < LENGTH(32)"
  then show "bit (le_get32 [a, b, c, d]) i =
      bit (ucast a OR push_bit 8 (ucast b) OR push_bit 16 (ucast c) OR push_bit 24 (ucast d) :: u32) i"
    by (auto simp: le_get32_def be_get_def bit_simps)
qed

lemma put16_bytes: "put16 (p :: u16) = [ucast (drop_bit 8 p), ucast p]"
  by (simp add: numeral_2_eq_2)

lemma swap_port_back:
  assumes "length fill = 2"
  shows "swap_port (le_get32 (put16 p @ fill)) = p"
proof -
  obtain c d where f: "fill = [c, d]" using assms by (auto simp: numeral_2_eq_2 length_Suc_conv)
  have m: "(65535 :: u32) = mask 16" by (simp add: mask_eq_exp_minus_1)
  show ?thesis
  proof (rule bit_word_eqI)
    fix i assume i: "i < LENGTH(16)"
    have "bit p (i - 8 + 8) = bit p i" if "8 \<le> i" using that by simp
    then show "bit (swap_port (le_get32 (put16 p @ fill))) i = bit p i"
      using i by (cases "i < 8") (auto simp: f put16_bytes le_get_four swap_port_def Let_def m bit_simps dest: bit_imp_le_length)
  qed
qed

lemma row_fields:
  assumes "row_ok r"
  shows "length (row_bytes r) = rowSize"
    and "le_get32 (slice 8 12 (row_bytes r @ rest)) = row_pid r"
    and "swap_port (le_get32 (slice 4 8 (row_bytes r @ rest))) = row_port r"
    and "drop rowSize (row_bytes r @ rest) = rest"
  using assms swap_port_back [of "row_fill r" "row_port r"]
  by (auto simp: row_ok_def row_bytes_def rowSize_def slice_def)

text \<open>What the refresh finds, row by row: the names grow with each new pid, a later row wins its port.\<close>

definition row_name :: "(u32, string) fmap \<Rightarrow> (u32 \<Rightarrow> string) \<Rightarrow> u32 \<Rightarrow> string" where
  "row_name old look pid = name_for old look fmempty pid"

definition names_agree :: "(u32, string) fmap \<Rightarrow> (u32 \<Rightarrow> string) \<Rightarrow> (u32, string) fmap \<Rightarrow> bool" where
  "names_agree old look seen \<longleftrightarrow> fmpred (\<lambda>pid name. name = row_name old look pid) seen"

lemma name_for_agree: "names_agree old look seen \<Longrightarrow> name_for old look seen pid = row_name old look pid"
  by (auto simp: names_agree_def name_for_def [of old look seen] row_name_def fmpred_iff split: option.split)
    (simp_all add: name_for_def)

definition add_row :: "(u32, string) fmap \<Rightarrow> (u32 \<Rightarrow> string) \<Rightarrow> (u16, string) fmap \<times> (u32, string) fmap \<Rightarrow> udp_row \<Rightarrow>
    (u16, string) fmap \<times> (u32, string) fmap" where
  "add_row old look acc r =
     (fmupd (row_port r) (row_name old look (row_pid r)) (fst acc), fmupd (row_pid r) (row_name old look (row_pid r)) (snd acc))"

lemma read_rows_all:
  assumes "list_all row_ok rows" "n \<le> length rows \<or> length slack < rowSize" "names_agree old look (snd acc)"
  shows "read_rows old look n (concat (map row_bytes rows) @ slack) acc = foldl (add_row old look) acc (take n rows)"
  using assms
proof (induction n arbitrary: rows acc)
  case (Suc n)
  show ?case
  proof (cases rows)
    case Nil
    then show ?thesis using Suc.prems by simp
  next
    case (Cons r rs)
    let ?rest = "concat (map row_bytes rs) @ slack"
    have ok: "row_ok r" "list_all row_ok rs" using Suc.prems Cons by simp_all
    note f = row_fields(1) [OF ok(1)] row_fields(2-4) [OF ok(1), of ?rest]
    have l: "\<not> length (row_bytes r @ ?rest) < rowSize" using f(1) by simp
    have step: "read_rows old look (Suc n) (row_bytes r @ ?rest) acc = read_rows old look n ?rest (add_row old look acc r)"
      using l f by (simp add: Let_def name_for_agree [OF Suc.prems(3)] add_row_def del: append_assoc)
    have "names_agree old look (snd (add_row old look acc r))" using Suc.prems(3) by (auto simp: names_agree_def add_row_def fmpred_iff)
    from Suc.IH [OF ok(2) _ this] show ?thesis using Suc.prems(2) Cons step by simp
  qed
qed simp

lemma add_rows:
  "fmlookup (fst (foldl (add_row old look) acc rows)) p =
     (case find (\<lambda>r. row_port r = p) (rev rows) of
        Some r \<Rightarrow> Some (row_name old look (row_pid r)) | None \<Rightarrow> fmlookup (fst acc) p)"
  "fmlookup (snd (foldl (add_row old look) acc rows)) pid =
     (if pid \<in> row_pid ` set rows then Some (row_name old look pid) else fmlookup (snd acc) pid)"
  by (induction rows rule: rev_induct) (auto simp: add_row_def)

text \<open>A refresh of a well-formed table: every port has the name of its last row's process, and only the
  pids of this table are remembered.\<close>

lemma refresh_result:
  assumes "list_all row_ok rows" "unat count \<le> length rows \<or> length slack < rowSize"
    and "refreshLocked now (Inr (table_bytes count rows slack)) look t = (t', e)"
  shows "e = None \<and> lastRefresh t' = now \<and>
    ProcessForUDPPort t' p = map_option (\<lambda>r. row_name (pidNames t) look (row_pid r))
      (find (\<lambda>r. row_port r = p) (rev (take (unat count) rows))) \<and>
    fmlookup (pidNames t') pid =
      (if pid \<in> row_pid ` set (take (unat count) rows) then Some (row_name (pidNames t) look pid) else None)"
proof -
  have c: "slice 0 4 (table_bytes count rows slack) = rev (put32 count)" "drop 4 (table_bytes count rows slack) = concat (map row_bytes rows) @ slack"
    "\<not> length (table_bytes count rows slack) < 4"
    by (simp_all add: table_bytes_def slice_def)
  have "names_agree (pidNames t) look (snd (fmempty, fmempty))" by (simp add: names_agree_def fmpred_iff)
  then have r: "read_rows (pidNames t) look (unat count) (concat (map row_bytes rows) @ slack) (fmempty, fmempty) =
      foldl (add_row (pidNames t) look) (fmempty, fmempty) (take (unat count) rows)" (is "_ = ?acc")
    by (rule read_rows_all [OF assms(1,2)])
  then have "t' = t\<lparr>lastRefresh := now, pidNames := snd ?acc, byPort := fst ?acc\<rparr> \<and> e = None"
    using assms(3) c by (auto simp: refreshLocked_def Let_def split: prod.splits)
  then show ?thesis using add_rows [of "pidNames t" look "(fmempty, fmempty)" "take (unat count) rows"]
    by (simp add: ProcessForUDPPort_def split: option.split)
qed

text \<open>An error leaves the owners as they were, and the cached names.\<close>

lemma refresh_error:
  "refreshLocked now answer look t = (t', Some e) \<Longrightarrow> byPort t' = byPort t \<and> pidNames t' = pidNames t"
  by (auto simp: refreshLocked_def Let_def split: sum.splits if_splits prod.splits)

lemma refresh_time: "lastRefresh (fst (refreshLocked now answer look t)) = now"
  by (simp add: refreshLocked_def Let_def split: sum.split prod.split)

section \<open>Which calls reach Windows\<close>

record refresh_call =
  rc_now :: time
  rc_answer :: "table_error + bytes"
  rc_look :: "u32 \<Rightarrow> string"

primrec refresh_calls :: "duration \<Rightarrow> refresh_call list \<Rightarrow> port_table \<Rightarrow> time list" where
  "refresh_calls d [] t = []"
| "refresh_calls d (c # cs) t =
     (case RefreshIfOlder d (rc_now c) (rc_now c) (rc_answer c) (rc_look c) t of
        (t', did, e) \<Rightarrow> (if did then [rc_now c] else []) @ refresh_calls d cs t')"

text \<open>However many calls there are, whatever they return, the table is reloaded at most once in any time \<open>d\<close>.\<close>

lemma refreshes_spaced:
  assumes "0 \<le> d" "d < 2 ^ 63 - 1"
  shows "sorted_wrt (\<lambda>a b. a + d \<le> b) (lastRefresh t # refresh_calls d cs t) \<or> refresh_calls d cs t = []"
proof -
  have "list_all (\<lambda>b. lastRefresh t + d \<le> b) (refresh_calls d cs t) \<and> sorted_wrt (\<lambda>a b. a + d \<le> b) (refresh_calls d cs t)"
  proof (induction cs arbitrary: t)
    case (Cons c cs)
    obtain t' did e where r: "RefreshIfOlder d (rc_now c) (rc_now c) (rc_answer c) (rc_look c) t = (t', did, e)"
      by (metis prod_cases3)
    show ?case
    proof (cases did)
      case False
      then have "t' = t" using r by (auto simp: RefreshIfOlder_def split: if_splits prod.splits)
      then show ?thesis using r False Cons.IH by simp
    next
      case True
      then have n: "lastRefresh t + d \<le> rc_now c" "lastRefresh t' = rc_now c"
        using r time_sub_ge [of d "rc_now c" "lastRefresh t"] assms refresh_time [of "rc_now c" "rc_answer c" "rc_look c" t]
        by (auto simp: RefreshIfOlder_def split: if_splits prod.splits)
      then show ?thesis using r True Cons.IH [of t'] assms(1) by (auto simp: list_all_iff)
    qed
  qed simp
  then show ?thesis by (simp add: list_all_iff)
qed

section \<open>The owner decides the channel\<close>

lemma classify_owned:
  assumes "fmlookup (routes r) key = None" "owner (k_srcPort key) = Some name"
  shows "snd (classify_udp r owner isGame key now) = ((isGame name, True), False)"
  using assms by (simp add: classify_udp_def Let_def)

lemma find_app: "find P (xs @ ys) = (case find P xs of Some x \<Rightarrow> Some x | None \<Rightarrow> find P ys)"
  by (induction xs) auto

lemma find_last:
  assumes "rows = pre @ [r] @ post" "row_port r \<notin> row_port ` set post"
  shows "find (\<lambda>x. row_port x = row_port r) (rev rows) = Some r"
proof -
  have "find (\<lambda>x. row_port x = row_port r) (rev post) = None" using assms(2) by (auto simp: find_None_iff image_iff)
  then show ?thesis by (simp add: assms(1) find_app)
qed


text \<open>
  A name stays with its pid while the pid is in every table: a process that takes over the pid of one that
  ended between two refreshes keeps the other's name.
\<close>

lemma reused_pid_keeps_name:
  assumes "fmlookup (pidNames t) pid = Some name" "name \<noteq> ''''" "list_all row_ok rows" "unat count = length rows"
    and "pid \<in> row_pid ` set rows" "refreshLocked now (Inr (table_bytes count rows slack)) look t = (t', e)"
  shows "fmlookup (pidNames t') pid = Some name"
  using refresh_result [OF assms(3) _ assms(6), of _ pid] assms by (simp add: row_name_def name_for_def)

lemma gone_pid_is_asked_again:
  assumes "list_all row_ok rows" "unat count = length rows" "pid \<notin> row_pid ` set rows"
    and "refreshLocked now (Inr (table_bytes count rows slack)) look t = (t', e)"
  shows "row_name (pidNames t') look2 pid = look2 pid"
  using refresh_result [OF assms(1) _ assms(4), of _ pid] assms by (simp add: row_name_def name_for_def)


section \<open>Concrete cases\<close>

definition game_row :: udp_row where
  "game_row = \<lparr>row_addr = [0, 0, 0, 0], row_port = 27015, row_fill = [0, 0], row_pid = 4711\<rparr>"

definition other_row :: udp_row where
  "other_row = \<lparr>row_addr = [0, 0, 0, 0], row_port = 53, row_fill = [0, 0], row_pid = 4\<rparr>"

definition toy_sys :: "u32 \<Rightarrow> process_info" where
  "toy_sys pid = (if pid = 4711 then \<lparr>can_open = True, image_path = Some (''C:'' @ [CHR 0x5C] @ ''Games'' @ [CHR 0x5C] @ ''Deadlock.EXE'')\<rparr>
     else \<lparr>can_open = False, image_path = None\<rparr>)"

lemma toy_name: "map to_lower (base_name (''C:'' @ [CHR 0x5C] @ ''Games'' @ [CHR 0x5C] @ ''Deadlock.EXE'')) = ''deadlock.exe''"
  by code_simp


end
