(* ===== verification/VpnPeer.thy ===== *)
theory VpnPeer
  imports VpnServer VpnClient Senders "HOL-Library.Sublist"
begin

text \<open>
  The two goroutines that drain a scheduler into the vpn connection: \<^verbatim>\<open>writeLoop\<close> of a peer on the server
  (cmd/server/vpn.go) and the writer of \<^verbatim>\<open>runVPNMode\<close> on the client (cmd/client/vpn.go), on the models of the
  scheduler, the shaper and the reconnecting link; and the rest of \<^verbatim>\<open>handleVPNConn\<close> around the shared state
  of VpnServer. A round of a writer is one step: whatever else enqueues between the dequeue and the write does
  not touch the batch.
\<close>

section \<open>The writers\<close>

definition vpnWriteBatch :: int where "vpnWriteBatch = 16 * 1024"
definition vpnBatchBytes :: int where "vpnBatchBytes = 16 * 1024"

definition no_config :: config where
  "no_config = \<lparr>quantum = 0, limit_bytes = 0, target = 0, interval = 0\<rparr>"

text \<open>The outcome of \<^verbatim>\<open>conn.Write\<close>: all of it, or an error after some bytes.\<close>

datatype written = Wrote | CutAfter nat

record peer_writer =
  pq :: scheduler
  pshaper :: "shaper option"
  pwire :: bytes             \<comment> \<open>what was written into the connection\<close>
  popen :: bool
  prunning :: bool

definition new_peer :: "real \<Rightarrow> peer_writer" where
  "new_peer vpnDownRate = \<lparr>pq = Sched.New no_config, pshaper = NewShaper vpnDownRate, pwire = [], popen = True, prunning = True\<rparr>"

definition write_round :: "(nat \<Rightarrow> nat \<Rightarrow> time) \<Rightarrow> time \<Rightarrow> written \<Rightarrow> peer_writer \<Rightarrow> peer_writer option" where
  "write_round clocks now res p =
     (if \<not> prunning p then Some p
      else
        (case DequeueBatch clocks (pq p) vpnWriteBatch of
           None \<Rightarrow> None
         | Some Closed \<Rightarrow> Some (p\<lparr>prunning := False\<rparr>)
         | Some (Wait s) \<Rightarrow> Some (p\<lparr>pq := s\<rparr>)
         | Some (Got s batch) \<Rightarrow>
             let buf = batch_bytes batch;
                 p1 = p\<lparr>pq := s, pshaper := fst (shaper_wait_opt (pshaper p) (length buf) now)\<rparr>
             in if popen p
                then (case res of
                        Wrote \<Rightarrow> Some (p1\<lparr>pwire := pwire p @ buf\<rparr>)
                      | CutAfter n \<Rightarrow> Some (p1\<lparr>pwire := pwire p @ take n buf, popen := False, prunning := False\<rparr>))
                else Some (p1\<lparr>prunning := False\<rparr>)))"

datatype peer_event =
    QueueFrame flowkey frame time
  | WriteRound "nat \<Rightarrow> nat \<Rightarrow> time" time written
  | ConnClosed                \<comment> \<open>by another goroutine: the client was replaced, or the TUN failed\<close>
  | QueueClosed               \<comment> \<open>the end of \<^verbatim>\<open>handleVPNConn\<close>\<close>

definition enqueue_frame ::
  "(bytes \<Rightarrow> u64) \<Rightarrow> ((u32, flow) fmap \<Rightarrow> u32 list) \<Rightarrow> flowkey \<Rightarrow> frame \<Rightarrow> time \<Rightarrow> scheduler \<Rightarrow> scheduler" where
  "enqueue_frame hash ord k f now s = (case Enqueue hash ord s k (marshal f) now of Some s' \<Rightarrow> s' | None \<Rightarrow> s)"

definition peer_step :: "(bytes \<Rightarrow> u64) \<Rightarrow> ((u32, flow) fmap \<Rightarrow> u32 list) \<Rightarrow> peer_writer \<Rightarrow> peer_event \<Rightarrow> peer_writer" where
  "peer_step hash ord p e =
     (case e of
        QueueFrame k f now \<Rightarrow> p\<lparr>pq := enqueue_frame hash ord k f now (pq p)\<rparr>
      | WriteRound clocks now res \<Rightarrow> (case write_round clocks now res p of Some p' \<Rightarrow> p' | None \<Rightarrow> p)
      | ConnClosed \<Rightarrow> p\<lparr>popen := False\<rparr>
      | QueueClosed \<Rightarrow> p\<lparr>pq := Close (pq p), popen := False\<rparr>)"

text \<open>The client's writer: the batch goes to the link, which drops it when there is no connection.\<close>

record client_writer =
  cq :: scheduler
  cshaper :: "shaper option"
  clink :: vpnLink
  csent :: "(nat \<times> bytes) list"

definition new_client :: "real \<Rightarrow> nat \<Rightarrow> client_writer" where
  "new_client upMbps conn = \<lparr>cq = Sched.New no_config, cshaper = NewShaper upMbps, clink = new_link conn, csent = []\<rparr>"

definition client_round :: "(nat \<Rightarrow> nat \<Rightarrow> time) \<Rightarrow> time \<Rightarrow> bool \<Rightarrow> client_writer \<Rightarrow> client_writer option" where
  "client_round clocks now ok c =
     (case DequeueBatch clocks (cq c) vpnBatchBytes of
        None \<Rightarrow> None
      | Some Closed \<Rightarrow> Some c
      | Some (Wait s) \<Rightarrow> Some (c\<lparr>cq := s\<rparr>)
      | Some (Got s batch) \<Rightarrow>
          let buf = batch_bytes batch in
          (case link_write (clink c) buf ok of
             (l, outs) \<Rightarrow>
               Some (c\<lparr>cq := s, cshaper := fst (shaper_wait_opt (cshaper c) (length buf) now), clink := l,
                       csent := csent c @ concat (map (\<lambda>x. case x of WriteTo d w \<Rightarrow> [(d, w)] | _ \<Rightarrow> []) outs)\<rparr>)))"

datatype client_event =
    QueueUp flowkey frame time
  | ClientRound "nat \<Rightarrow> nat \<Rightarrow> time" time bool
  | LinkRuns "frame option" "dial_error + nat"
  | StopLink
  | CloseUp

definition client_step :: "(bytes \<Rightarrow> u64) \<Rightarrow> ((u32, flow) fmap \<Rightarrow> u32 list) \<Rightarrow> client_writer \<Rightarrow> client_event \<Rightarrow> client_writer" where
  "client_step hash ord c e =
     (case e of
        QueueUp k f now \<Rightarrow> c\<lparr>cq := enqueue_frame hash ord k f now (cq c)\<rparr>
      | ClientRound clocks now ok \<Rightarrow> (case client_round clocks now ok c of Some c' \<Rightarrow> c' | None \<Rightarrow> c)
      | LinkRuns rd dl \<Rightarrow> c\<lparr>clink := fst (run_step (clink c) rd dl)\<rparr>
      | StopLink \<Rightarrow> c\<lparr>clink := link_close (clink c)\<rparr>
      | CloseUp \<Rightarrow> c\<lparr>cq := Close (cq c)\<rparr>)"

section \<open>What leaves a scheduler, queue by queue\<close>

text \<open>\<open>takes q ds q'\<close>: the packets \<open>ds\<close>, each with its queue, are taken one after the other; those ahead of one are dropped.\<close>

inductive takes :: "(u32 \<Rightarrow> packet list) \<Rightarrow> (u32 \<times> bytes) list \<Rightarrow> (u32 \<Rightarrow> packet list) \<Rightarrow> bool" where
  takes_nil: "takes q [] q"
| takes_one: "k < length (q b) \<Longrightarrow> takes (q(b := drop (Suc k) (q b))) ds q' \<Longrightarrow> takes q ((b, p_data (q b ! k)) # ds) q'"

inductive_cases takes_NilE: "takes q [] q'"

definition from_queue :: "u32 \<Rightarrow> (u32 \<times> 'a) list \<Rightarrow> 'a list" where
  "from_queue b ds = map snd (filter (\<lambda>x. fst x = b) ds)"

lemma from_queue_simps [simp]:
  "from_queue b [] = []" "from_queue b ((c, d) # ds) = (if c = b then d # from_queue b ds else from_queue b ds)"
  "from_queue b (ds @ es) = from_queue b ds @ from_queue b es"
  by (simp_all add: from_queue_def)

lemma takes_delivers: "delivers s s' b d \<Longrightarrow> takes (queue_of s') ds q \<Longrightarrow> takes (queue_of s) ((b, d) # ds) q"
  by (auto simp: delivers_def intro: takes_one)

lemma takes_subseq: "takes q ds q' \<Longrightarrow> subseq (from_queue b ds @ map p_data (q' b)) (map p_data (q b))"
proof (induction rule: takes.induct)
  case (takes_one k q c ds q')
  have s: "map p_data (q c) = map p_data (take k (q c)) @ p_data (q c ! k) # map p_data (drop (Suc k) (q c))"
    using takes_one.hyps(1) by (metis id_take_nth_drop list.simps(9) map_append)
  show ?case
  proof (cases "c = b")
    case True
    then have "subseq (from_queue b ds @ map p_data (q' b)) (map p_data (drop (Suc k) (q b)))" using takes_one.IH by simp
    then show ?thesis using True s by (simp add: subseq_drop_many)
  qed (use takes_one.IH in simp)
qed simp

lemma fill_batch_takes:
  "sched_inv s \<Longrightarrow> fill_batch clocks m sz s batch = Some (s', batch') \<Longrightarrow>
     sched_inv s' \<and> scheduler.closed s' = scheduler.closed s \<and> (\<exists>ds. batch' = batch @ map snd ds \<and> takes (queue_of s) ds (queue_of s'))"
proof (induction "queued s" arbitrary: s clocks sz batch rule: less_induct)
  case less
  show ?case
  proof (cases "sz < m")
    case True
    obtain s1 r where r: "dequeueLocked (clocks 0) s = Some (s1, r)" "dequeue_result s (s1, r)"
      using dequeueLocked_result [OF less.prems(1), of "clocks 0"] by auto
    show ?thesis
    proof (cases r)
      case None
      then have "s' = s1" "batch' = batch" using less.prems(2) True r(1) by (simp_all add: fill_batch.simps [of clocks])
      then show ?thesis using r(2) None
        by (auto simp: dequeue_result_def same_queues_def intro!: exI [of _ "[]"] takes_nil)
    next
      case (Some d)
      with r(2) obtain b where b: "sched_inv s1" "delivers s s1 b d" by (auto simp: dequeue_result_def)
      have f: "fill_batch (\<lambda>i. clocks (Suc i)) m (sz + int (length d)) s1 (batch @ [d]) = Some (s', batch')"
        using less.prems(2) True r(1) Some by (simp add: fill_batch.simps [of clocks])
      from less.hyps [OF delivers_queued [OF b(2)] b(1) f] obtain ds where
        ds: "sched_inv s'" "scheduler.closed s' = scheduler.closed s1" "batch' = (batch @ [d]) @ map snd ds" "takes (queue_of s1) ds (queue_of s')" by blast
      then show ?thesis using b(2) takes_delivers [OF b(2) ds(4)]
        by (auto simp: delivers_def intro!: exI [of _ "(b, d) # ds"])
    qed
  next
    case False
    then show ?thesis using less.prems by (auto simp: fill_batch.simps [of clocks] intro!: exI [of _ "[]"] takes_nil)
  qed
qed

text \<open>The outcomes of a batch call on a scheduler in use.\<close>

lemma batch_cases:
  assumes "sched_inv s"
  obtains (shut) "scheduler.closed s" "DequeueBatch clocks s m = Some Closed"
  | (idle) s' where "DequeueBatch clocks s m = Some (Wait s')" "sched_inv s'" "queue_of s' = queue_of s"
  | (batch) s' ds where "DequeueBatch clocks s m = Some (Got s' (map snd ds))" "sched_inv s'" "takes (queue_of s) ds (queue_of s')"
proof (cases "scheduler.closed s")
  case True
  then show ?thesis using shut by (simp add: DequeueBatch_def Dequeue_def)
next
  case False
  show ?thesis
  proof (cases "\<exists>s'. Dequeue (clocks 0) s = Some (Wait s') \<and> queued s = 0 \<and> sched_inv s' \<and> same_queues s s'")
    case True
    then show ?thesis using idle by (auto simp: DequeueBatch_def same_queues_def)
  next
    case no: False
    then obtain s1 b d where d: "Dequeue (clocks 0) s = Some (Got s1 d)" "sched_inv s1" "delivers s s1 b d"
      using Dequeue_result [OF assms False, of "clocks 0"] by blast
    from fill_batch_result [OF d(2)] obtain s2 xs where
      x: "fill_batch (\<lambda>i. clocks (Suc i)) m (int (length d)) s1 [d] = Some (s2, xs)" by blast
    from fill_batch_takes [OF d(2) x] obtain ds where
      f: "fill_batch (\<lambda>i. clocks (Suc i)) m (int (length d)) s1 [d] = Some (s2, [d] @ map snd ds)"
      "sched_inv s2" "takes (queue_of s1) ds (queue_of s2)" using x by blast
    then have "DequeueBatch clocks s m = Some (Got s2 (map snd ((b, d) # ds)))" using d(1) by (simp add: DequeueBatch_def)
    then show ?thesis using batch [of s2 "(b, d) # ds"] f(2) takes_delivers [OF d(3) f(3)] by blast
  qed
qed

text \<open>Every queue still holds, and has given, its frames in the order they came in.\<close>

definition in_order :: "(u32 \<times> bytes) list \<Rightarrow> (u32 \<times> bytes) list \<Rightarrow> scheduler \<Rightarrow> bool" where
  "in_order enq ds s \<longleftrightarrow> sched_inv s \<and> (\<forall>b. subseq (from_queue b ds @ map p_data (queue_of s b)) (from_queue b enq))"

lemma in_order_new: "in_order [] [] (Sched.New c)"
proof -
  have "queue_of (Sched.New c) b = []" for b by (simp add: queue_of_def Sched.New_def Let_def)
  then show ?thesis using sched_inv_New by (simp add: in_order_def)
qed

lemma in_order_fewer: "in_order enq (ds @ es) s \<Longrightarrow> in_order enq ds s"
  unfolding in_order_def
proof (elim conjE, intro conjI allI)
  fix b
  assume "\<forall>b. subseq (from_queue b (ds @ es) @ map p_data (queue_of s b)) (from_queue b enq)"
  moreover have "subseq (from_queue b ds @ map p_data (queue_of s b)) (from_queue b (ds @ es) @ map p_data (queue_of s b))"
    by (simp add: subseq_append' subseq_drop_many)
  ultimately show "subseq (from_queue b ds @ map p_data (queue_of s b)) (from_queue b enq)"
    using subseq_order.order_trans by blast
qed

lemma in_order_takes:
  assumes "in_order enq ds s" "takes (queue_of s) es (queue_of s')" "sched_inv s'"
  shows "in_order enq (ds @ es) s'"
  unfolding in_order_def
proof (intro conjI allI)
  fix b
  have "subseq (from_queue b ds @ from_queue b es @ map p_data (queue_of s' b)) (from_queue b ds @ map p_data (queue_of s b))"
    using takes_subseq [OF assms(2), of b] by (intro list_emb_append_mono) simp_all
  then show "subseq (from_queue b (ds @ es) @ map p_data (queue_of s' b)) (from_queue b enq)"
    using assms(1) subseq_order.order_trans by (fastforce simp: in_order_def)
qed (rule assms(3))

lemma in_order_enqueue:
  assumes "in_order enq ds s"
  shows "in_order (enq @ [(bucketOf hash k, marshal f)]) ds (enqueue_frame hash ord k f now s)"
proof -
  have i: "sched_inv s" using assms by (simp add: in_order_def)
  obtain s' where e: "Enqueue hash ord s k (marshal f) now = Some s'" "sched_inv s'"
    "if scheduler.closed s then s' = s else trimmed (pushed hash s k (marshal f) now) s'"
    using Enqueue_result [OF i, of hash ord k "marshal f" now] by (auto split: if_splits)
  let ?b = "bucketOf hash k"
  have "subseq (from_queue b ds @ map p_data (queue_of s' b)) (from_queue b (enq @ [(?b, marshal f)]))" for b
  proof -
    have o: "subseq (from_queue b ds @ map p_data (queue_of s b)) (from_queue b enq)" using assms by (simp add: in_order_def)
    show ?thesis
    proof (cases "scheduler.closed s")
      case True
      then show ?thesis using e(3) o by (auto intro: subseq_order.order_trans list_emb_prefix)
    next
      case False
      let ?q = "queue_of s b @ (if b = ?b then [\<lparr>p_data = marshal f, p_enq = now\<rparr>] else [])"
      have "queue_of (pushed hash s k (marshal f) now) b = ?q" by (simp add: pushed_inv(2) [OF i])
      moreover have "\<exists>n. queue_of s' b = drop n (queue_of (pushed hash s k (marshal f) now) b)" using e(3) False by (simp add: trimmed_def)
      ultimately obtain n where "queue_of s' b = drop n ?q" by metis
      moreover have "subseq (drop n ?q) ?q" by (simp only: suffix_imp_subseq suffix_drop)
      ultimately have "subseq (map p_data (queue_of s' b)) (map p_data ?q)" by (simp only: subseq_map)
      then have "subseq (from_queue b ds @ map p_data (queue_of s' b)) (from_queue b ds @ map p_data ?q)"
        by (intro list_emb_append_mono) simp_all
      moreover have "subseq (from_queue b ds @ map p_data ?q) (from_queue b (enq @ [(?b, marshal f)]))"
        using o list_emb_append_mono [OF o, of "[marshal f]" "[marshal f]"] by (cases "b = ?b") (simp_all del: subseq_append)
      ultimately show ?thesis by (rule subseq_order.order_trans)
    qed
  qed
  then show ?thesis using e(1,2) by (simp add: in_order_def enqueue_frame_def)
qed

lemma in_order_close: "in_order enq ds s \<Longrightarrow> in_order enq ds (Close s)"
  by (simp add: in_order_def Close_inv) (simp add: Close_def queue_of_def)


section \<open>Back to frames\<close>

definition frame_of :: "bytes \<Rightarrow> frame option" where
  "frame_of w = (case read_frame (w, EOF) of Inr (f, _) \<Rightarrow> Some f | Inl _ \<Rightarrow> None)"

lemma frame_of_marshal: "fits f \<Longrightarrow> frame_of (marshal f) = Some f"
  using read_frame_marshal [of f "[]" EOF] by (simp add: frame_of_def)

definition wires :: "(u32 \<times> frame) list \<Rightarrow> (u32 \<times> bytes) list" where
  "wires fs = map (\<lambda>x. (fst x, marshal (snd x))) fs"

lemma from_queue_wires: "from_queue b (wires fs) = map marshal (from_queue b fs)"
  by (simp add: from_queue_def wires_def filter_map comp_def)

lemma subseq_members: "subseq xs ys \<Longrightarrow> x \<in> set xs \<Longrightarrow> x \<in> set ys"
  by (auto elim: list_emb_set)

lemma in_from_queue: "x \<in> set ds \<Longrightarrow> snd x \<in> set (from_queue (fst x) ds)"
  by (force simp: from_queue_def)

text \<open>What was taken, queue by queue, out of queued frames is a sequence of these frames.\<close>

lemma taken_frames:
  assumes "\<And>b. subseq (from_queue b ds) (from_queue b (wires fs))" "list_all (\<lambda>x. fits (snd x)) fs"
  obtains gs where "wires gs = ds" "list_all (\<lambda>x. fits (snd x)) gs" "\<And>b. subseq (from_queue b gs) (from_queue b fs)"
proof -
  have fits: "\<exists>f. snd x = marshal f \<and> fits f" if "x \<in> set ds" for x
  proof -
    have "snd x \<in> set (from_queue (fst x) (wires fs))"
      using in_from_queue [OF that] subseq_members [OF assms(1)] by blast
    then obtain f where "(fst x, f) \<in> set fs" "snd x = marshal f" by (auto simp: from_queue_def wires_def)
    moreover from this(1) have "fits f" using assms(2) by (fastforce simp: list_all_iff)
    ultimately show ?thesis by blast
  qed
  define gs where "gs = map (\<lambda>x. (fst x, the (frame_of (snd x)))) ds"
  have g: "wires gs = ds" "list_all (\<lambda>x. fits (snd x)) gs"
    using fits by (force simp: gs_def wires_def list_all_iff frame_of_marshal intro!: map_idI)+
  have "map marshal (from_queue b fs) = from_queue b (wires fs)" for b by (simp add: from_queue_wires)
  then have "subseq (map marshal (from_queue b gs)) (map marshal (from_queue b fs))" for b
    using assms(1) [of b] g(1) from_queue_wires [of b gs] by simp
  then have s: "subseq (map (the \<circ> frame_of) (map marshal (from_queue b gs))) (map (the \<circ> frame_of) (map marshal (from_queue b fs)))" for b
    by (rule subseq_map)
  have same: "map (the \<circ> frame_of) (map marshal (from_queue b hs)) = from_queue b hs" if "list_all (\<lambda>x. fits (snd x)) hs" for b hs
    using that by (auto simp: from_queue_def list_all_iff frame_of_marshal intro!: map_idI)
  have "subseq (from_queue b gs) (from_queue b fs)" for b using s [of b] same [OF g(2)] same [OF assms(2)] by metis
  with g show ?thesis by (rule that)
qed

lemma read_wires:
  assumes "list_all (\<lambda>x. fits (snd x)) gs"
  shows "read_many read_frame (length gs) (concat (map snd (wires gs)) @ rest, e) = Inr (map snd gs, (rest, e))"
  using batch_read_back [of "map snd gs" rest e] assms
  by (simp add: batch_concat wires_def comp_def list_all_iff)

section \<open>Downlink\<close>

definition offered :: "(bytes \<Rightarrow> u64) \<Rightarrow> peer_event list \<Rightarrow> (u32 \<times> frame) list" where
  "offered hash es = concat (map (\<lambda>e. case e of QueueFrame k f now \<Rightarrow> [(bucketOf hash k, f)] | _ \<Rightarrow> []) es)"

definition peer_ok :: "(u32 \<times> bytes) list \<Rightarrow> (u32 \<times> bytes) list \<Rightarrow> peer_writer \<Rightarrow> bool" where
  "peer_ok enq ds p \<longleftrightarrow> in_order enq ds (pq p) \<and> prefix (pwire p) (concat (map snd ds)) \<and>
     (popen p \<longrightarrow> pwire p = concat (map snd ds))"

lemma write_round_ok:
  assumes "peer_ok enq ds p"
  shows "\<exists>p' es. write_round clocks now res p = Some p' \<and> peer_ok enq (ds @ es) p'"
proof (cases "prunning p")
  case False
  then show ?thesis using assms by (intro exI [of _ p] exI [of _ "[]"]) (simp add: write_round_def)
next
  case True
  have i: "in_order enq ds (pq p)" "sched_inv (pq p)" using assms by (simp_all add: peer_ok_def in_order_def)
  from i(2) show ?thesis
  proof (cases rule: batch_cases [where clocks = clocks and m = vpnWriteBatch])
    case shut
    then show ?thesis using assms True by (intro exI [of _ "p\<lparr>prunning := False\<rparr>"] exI [of _ "[]"]) (simp add: write_round_def peer_ok_def)
  next
    case (idle s')
    then show ?thesis using assms True i
      by (intro exI [of _ "p\<lparr>pq := s'\<rparr>"] exI [of _ "[]"]) (simp add: write_round_def peer_ok_def in_order_def)
  next
    case (batch s' es)
    have o: "in_order enq (ds @ es) s'" using in_order_takes [OF i(1) batch(3,2)] .
    obtain p' where p': "write_round clocks now res p = Some p'" 
      by (cases "popen p"; cases res) (auto simp: write_round_def batch(1) True Let_def)
    have "pq p' = s'" "popen p' \<longrightarrow> popen p \<and> res = Wrote"
      "if \<not> popen p then pwire p' = pwire p else pwire p' = pwire p @ (case res of Wrote \<Rightarrow> concat (map snd es) | CutAfter n \<Rightarrow> take n (concat (map snd es)))"
      using p' by (auto simp: write_round_def batch(1) True Let_def batch_concat split: if_splits written.splits)
    then have "peer_ok enq (ds @ es) p'"
      using o assms by (auto simp: peer_ok_def take_is_prefix split: if_splits written.splits intro: prefix_order.order_trans)
    then show ?thesis using p' by blast
  qed
qed

lemma peer_step_ok:
  assumes "peer_ok enq ds p"
  shows "\<exists>es. peer_ok (enq @ wires (offered hash [e])) (ds @ es) (peer_step hash ord p e)"
proof (cases e)
  case (QueueFrame k f now)
  then show ?thesis using assms in_order_enqueue [of enq ds "pq p" hash k f ord now]
    by (intro exI [of _ "[]"]) (simp add: peer_ok_def peer_step_def offered_def wires_def)
next
  case (WriteRound clocks now res)
  then show ?thesis using write_round_ok [OF assms, of clocks now res] by (auto simp: peer_step_def offered_def wires_def)
next
  case ConnClosed
  then show ?thesis using assms by (intro exI [of _ "[]"]) (simp add: peer_ok_def peer_step_def offered_def wires_def)
next
  case QueueClosed
  then show ?thesis using assms by (intro exI [of _ "[]"]) (simp add: peer_ok_def peer_step_def offered_def wires_def in_order_close)
qed

lemma offered_snoc: "wires (offered hash (es @ [e])) = wires (offered hash es) @ wires (offered hash [e])"
  by (simp add: offered_def wires_def)

lemma peer_run:
  "\<exists>ds. peer_ok (wires (offered hash es)) ds (foldl (peer_step hash ord) (new_peer rate) es)"
proof (induction es rule: rev_induct)
  case Nil
  show ?case using in_order_new by (intro exI [of _ "[]"]) (simp add: peer_ok_def new_peer_def offered_def wires_def)
next
  case (snoc e es)
  then obtain ds where ds: "peer_ok (wires (offered hash es)) ds (foldl (peer_step hash ord) (new_peer rate) es)" by blast
  from peer_step_ok [OF ds, of hash e ord] show ?case unfolding offered_snoc by auto
qed

text \<open>C16. What a vpn client receives, whatever the timing of the server's TUN reader, its writer and the connection:
  the bytes on the connection are whole frames that were queued for this client, none of them twice, and
  the frames of one queue (so the packets of one flow) are in the order they were queued; only a
  connection that broke ends within a frame.\<close>

theorem downlink_in_order:
  assumes "list_all (\<lambda>x. fits (snd x)) (offered hash es)" "p = foldl (peer_step hash ord) (new_peer rate) es"
  shows "\<exists>gs. (\<forall>b. subseq (from_queue b gs) (from_queue b (offered hash es))) \<and>
     prefix (pwire p) (concat (map (marshal \<circ> snd) gs)) \<and>
     (popen p \<longrightarrow> read_many read_frame (length gs) (pwire p @ rest, e) = Inr (map snd gs, (rest, e)))"
proof -
  obtain ds where ds: "peer_ok (wires (offered hash es)) ds p" using peer_run assms(2) by blast
  have "subseq (from_queue b ds) (from_queue b (wires (offered hash es)))" for b
  proof -
    have "subseq (from_queue b ds) (from_queue b ds @ map p_data (queue_of (pq p) b))" by (simp add: prefix_imp_subseq)
    then show ?thesis using ds subseq_order.order_trans unfolding peer_ok_def in_order_def by blast
  qed
  then obtain gs where g: "wires gs = ds" "list_all (\<lambda>x. fits (snd x)) gs" "\<And>b. subseq (from_queue b gs) (from_queue b (offered hash es))"
    using taken_frames [OF _ assms(1)] by blast
  have "concat (map snd ds) = concat (map (marshal \<circ> snd) gs)" by (simp add: wires_def comp_def flip: g(1))
  then show ?thesis using ds g(3) read_wires [OF g(2), of rest e] unfolding g(1) peer_ok_def by auto
qed


section \<open>Uplink\<close>

definition offered_up :: "(bytes \<Rightarrow> u64) \<Rightarrow> client_event list \<Rightarrow> (u32 \<times> frame) list" where
  "offered_up hash es = concat (map (\<lambda>e. case e of QueueUp k f now \<Rightarrow> [(bucketOf hash k, f)] | _ \<Rightarrow> []) es)"

text \<open>\<open>bs\<close> are the batches that were written, each with its connection.\<close>

definition client_ok :: "(u32 \<times> bytes) list \<Rightarrow> (nat \<times> (u32 \<times> bytes) list) list \<Rightarrow> client_writer \<Rightarrow> bool" where
  "client_ok enq bs c \<longleftrightarrow> in_order enq (concat (map snd bs)) (cq c) \<and>
     csent c = map (\<lambda>x. (fst x, concat (map snd (snd x)))) bs"

lemma client_round_ok:
  assumes "client_ok enq bs c"
  shows "\<exists>c' new. client_round clocks now ok c = Some c' \<and> client_ok enq (bs @ new) c'"
proof -
  have i: "in_order enq (concat (map snd bs)) (cq c)" "sched_inv (cq c)" using assms by (simp_all add: client_ok_def in_order_def)
  from i(2) show ?thesis
  proof (cases rule: batch_cases [where clocks = clocks and m = vpnBatchBytes])
    case shut
    then show ?thesis using assms by (intro exI [of _ c] exI [of _ "[]"]) (simp add: client_round_def)
  next
    case (idle s')
    then show ?thesis using assms i
      by (intro exI [of _ "c\<lparr>cq := s'\<rparr>"] exI [of _ "[]"]) (simp add: client_round_def client_ok_def in_order_def)
  next
    case (batch s' es)
    have o: "in_order enq (concat (map snd bs) @ es) s'" using in_order_takes [OF i(1) batch(3,2)] .
    obtain l outs where w: "link_write (clink c) (batch_bytes (map snd es)) ok = (l, outs)" by force
    then consider "outs = []" | d where "outs = [WriteTo d (concat (map snd es))]"
      by (auto simp: link_write_def batch_concat split: option.splits if_splits)
    then obtain new where n: "concat (map (\<lambda>x. case x of WriteTo d w \<Rightarrow> [(d, w)] | _ \<Rightarrow> []) outs) = map (\<lambda>x. (fst x, concat (map snd (snd x)))) new"
      "concat (map snd new) = [] \<or> concat (map snd new) = es"
    proof cases
      case 1
      then show ?thesis using that [of "[]"] by simp
    next
      case (2 d)
      then show ?thesis using that [of "[(d, es)]"] by simp
    qed
    from n(2) have "in_order enq (concat (map snd bs) @ concat (map snd new)) s'"
    proof
      assume "concat (map snd new) = []"
      then show ?thesis using in_order_fewer [OF o] by (simp only: append_Nil2)
    qed (simp only: o)
    then show ?thesis using assms n(1) w batch(1) by (auto simp: client_round_def client_ok_def Let_def)
  qed
qed

lemma client_step_ok:
  assumes "client_ok enq bs c"
  shows "\<exists>new. client_ok (enq @ wires (offered_up hash [e])) (bs @ new) (client_step hash ord c e)"
proof (cases e)
  case (QueueUp k f now)
  then show ?thesis using assms in_order_enqueue [of enq "concat (map snd bs)" "cq c" hash k f ord now]
    by (intro exI [of _ "[]"]) (simp add: client_ok_def client_step_def offered_up_def wires_def)
next
  case (ClientRound clocks now ok)
  then show ?thesis using client_round_ok [OF assms, of clocks now ok] by (auto simp: client_step_def offered_up_def wires_def)
qed (use assms in \<open>auto intro!: exI [of _ "[]"] simp: client_ok_def client_step_def offered_up_def wires_def in_order_close\<close>)

lemma client_run:
  "\<exists>bs. client_ok (wires (offered_up hash es)) bs (foldl (client_step hash ord) (new_client rate d) es)"
proof (induction es rule: rev_induct)
  case Nil
  show ?case using in_order_new by (intro exI [of _ "[]"]) (simp add: client_ok_def new_client_def offered_up_def wires_def)
next
  case (snoc e es)
  then obtain bs where bs: "client_ok (wires (offered_up hash es)) bs (foldl (client_step hash ord) (new_client rate d) es)" by blast
  have "wires (offered_up hash (es @ [e])) = wires (offered_up hash es) @ wires (offered_up hash [e])"
    by (simp add: offered_up_def wires_def)
  then show ?case using client_step_ok [OF bs, of hash e ord] by auto
qed

definition sent_on :: "nat \<Rightarrow> client_writer \<Rightarrow> bytes" where
  "sent_on d c = concat (map snd (filter (\<lambda>x. fst x = d) (csent c)))"

lemma sent_wires:
  "concat (map snd (filter (\<lambda>x. fst x = d) (map (\<lambda>x. (fst x, concat (map snd (wires (snd x))))) hs))) =
     concat (map snd (wires (concat (map snd (filter (\<lambda>x. fst x = d) hs)))))"
  by (induction hs) (auto simp: wires_def)



section \<open>The handler of a connection\<close>

text \<open>Its start, with what \<^verbatim>\<open>checkAuth\<close> gave.\<close>

definition vpn_accept :: "vpn \<Rightarrow> nat \<Rightarrow> peer option \<Rightarrow> vpn \<times> vpn_out list" where
  "vpn_accept v c auth = (case auth of None \<Rightarrow> (v, [CloseConn c]) | Some p \<Rightarrow> vpn_connect v c p)"

text \<open>The flag \<^verbatim>\<open>spoofLogged\<close> after a frame, and whether the frame was reported.\<close>

definition spoof_report :: "ip \<Rightarrow> bool \<Rightarrow> frame \<Rightarrow> bool \<times> bool" where
  "spoof_report clientIP spoofLogged f =
     (if f_payload f = [] \<or> fromClient (f_payload f) clientIP then (spoofLogged, False) else (True, \<not> spoofLogged))"

fun vpn_frames :: "ip \<Rightarrow> nat \<Rightarrow> vpn \<Rightarrow> bool \<Rightarrow> (frame \<times> time \<times> bytes) list \<Rightarrow> vpn \<times> vpn_out list \<times> nat" where
  "vpn_frames clientIP c v logged [] = (v, [], 0)"
| "vpn_frames clientIP c v logged ((f, now, buf) # fs) =
     (case vpn_frame clientIP v c f now buf of
        (v1, outs1) \<Rightarrow>
          (case spoof_report clientIP logged f of
             (logged1, report) \<Rightarrow>
               (case vpn_frames clientIP c v1 logged1 fs of
                  (v2, outs2, n) \<Rightarrow> (v2, outs1 @ outs2, (if report then 1 else 0) + n))))"

text \<open>A whole connection, when nothing else happens meanwhile: \<open>fs\<close> is read until an error. The last component counts the reports.\<close>

definition handleVPNConn :: "ip \<Rightarrow> vpn \<Rightarrow> nat \<Rightarrow> peer option \<Rightarrow> (frame \<times> time \<times> bytes) list \<Rightarrow> vpn \<times> vpn_out list \<times> nat" where
  "handleVPNConn clientIP v c auth fs =
     (case vpn_accept v c auth of
        (v1, outs1) \<Rightarrow>
          if fmlookup (peers v1) c = None then (v1, outs1, 0)
          else
            (case vpn_frames clientIP c v1 False fs of
               (v2, outs2, n) \<Rightarrow> (case vpn_disconnect v2 c of (v3, outs3) \<Rightarrow> (v3, outs1 @ outs2 @ outs3, n))))"

lemma vpn_frames_state:
  "vpn_frames clientIP c v logged fs = (v', outs, n) \<Longrightarrow>
     peers v' = peers v \<and> currentVPN v' = currentVPN v \<and> vpnStopped v' = vpnStopped v \<and> n \<le> (if logged then 0 else 1)"
proof (induction fs arbitrary: v logged v' outs n)
  case (Cons x fs)
  obtain f now buf where x: "x = (f, now, buf)" by (metis prod_cases3)
  obtain v1 outs1 where f: "vpn_frame clientIP v c f now buf = (v1, outs1)" by force
  obtain logged1 report where l: "spoof_report clientIP logged f = (logged1, report)" by force
  obtain v2 outs2 n2 where r: "vpn_frames clientIP c v1 logged1 fs = (v2, outs2, n2)" by (metis prod_cases3)
  have "peers v1 = peers v" "currentVPN v1 = currentVPN v" "vpnStopped v1 = vpnStopped v"
    using f by (auto simp: vpn_frame_def nextVPNSeq_def split: if_splits)
  moreover have "(if report then 1 else 0) + (if logged1 then 0 else 1) \<le> (if logged then 0 else (1::nat))"
    using l by (auto simp: spoof_report_def split: if_splits)
  moreover have "v' = v2" "n = (if report then 1 else 0) + n2" using Cons.prems by (auto simp: x f l r)
  ultimately show ?case using Cons.IH [OF r] by auto
qed simp

text \<open>A connection leaves nothing behind, refused or served: it is closed, it is not the current one, and at most one
  message spoke of foreign source addresses.\<close>

lemma handler_cleans_up:
  assumes "handleVPNConn clientIP v c auth fs = (v', outs, n)" "fmlookup (peers v) c = None" "currentVPN v \<noteq> Some c"
  shows "fmlookup (peers v') c = None \<and> currentVPN v' \<noteq> Some c \<and> CloseConn c \<in> set outs \<and> n \<le> 1"
proof -
  obtain v1 outs1 where a: "vpn_accept v c auth = (v1, outs1)" by force
  show ?thesis
  proof (cases "fmlookup (peers v1) c = None")
    case True
    then show ?thesis using assms a
      by (auto simp: handleVPNConn_def vpn_accept_def vpn_connect_def claimVPN_def split: option.splits if_splits)
  next
    case False
    obtain v2 outs2 n2 where r: "vpn_frames clientIP c v1 False fs = (v2, outs2, n2)" by (metis prod_cases3)
    note st = vpn_frames_state [OF r]
    then show ?thesis using assms(1) a r False by (auto simp: handleVPNConn_def vpn_disconnect_def split: if_splits)
  qed
qed

section \<open>The log of queue drops\<close>

definition queue_drops :: "stats \<Rightarrow> stats \<Rightarrow> (u64 \<times> u64) option" where
  "queue_drops before st =
     (let codel = codel_drops st - codel_drops before; overflow = overflow_drops st - overflow_drops before
      in if codel + overflow > 0 then Some (codel, overflow) else None)"

text \<open>\<^verbatim>\<open>logQueueDrops\<close>: the messages of a sequence of ticks.\<close>

fun logQueueDrops :: "stats \<Rightarrow> stats list \<Rightarrow> (u64 \<times> u64) list" where
  "logQueueDrops before [] = []"
| "logQueueDrops before (st # sts) = (case queue_drops before st of None \<Rightarrow> [] | Some m \<Rightarrow> [m]) @ logQueueDrops st sts"

text \<open>The messages add up to all drops until the last tick: none is missed or reported twice.\<close>

lemma logged_drops_add_up:
  "(\<Sum>m\<leftarrow>logQueueDrops before sts. fst m + snd m) =
     codel_drops (last (before # sts)) + overflow_drops (last (before # sts)) - codel_drops before - overflow_drops before"
proof (induction sts arbitrary: before)
  case (Cons st sts)
  have "(\<Sum>m\<leftarrow>(case queue_drops before st of None \<Rightarrow> [] | Some m \<Rightarrow> [m]). fst m + snd m) =
      codel_drops st - codel_drops before + (overflow_drops st - overflow_drops before)"
    by (auto simp: queue_drops_def Let_def word_gt_0)
  moreover have "last (before # st # sts) = last (st # sts)" by simp
  ultimately show ?case using Cons.IH [of st] by (simp only: logQueueDrops.simps map_append sum_list_append) simp
qed simp

section \<open>Concrete cases\<close>

theorem downlink_in_order_witness:
  "\<exists>gs. (\<forall>b. subseq (from_queue b gs) (from_queue b (offered (\<lambda>_. 7) [QueueFrame zero_key (frame_new 1 5 [1, 2]) 5, WriteRound (\<lambda>_ _. 6) 6 (CutAfter 3)]))) \<and>
     prefix (pwire (foldl (peer_step (\<lambda>_. 7) sorted_order) (new_peer 0) [QueueFrame zero_key (frame_new 1 5 [1, 2]) 5, WriteRound (\<lambda>_ _. 6) 6 (CutAfter 3)]))
       (concat (map (marshal \<circ> snd) gs))"
proof -
  have "list_all (\<lambda>x. fits (snd x)) (offered (\<lambda>_. 7) [QueueFrame zero_key (frame_new 1 5 [1, 2]) 5, WriteRound (\<lambda>_ _. 6) 6 (CutAfter 3)])"
    by (simp add: offered_def fits_def frame_new_def MaxPayload_def)
  from downlink_in_order [OF this refl] show ?thesis by blast
qed


end
