(* ===== verification/GluePeer.thy ===== *)
theory GluePeer
  imports GlueServer Senders
begin

text \<open>
  cmd/server/glue.go, the goroutines of \<^verbatim>\<open>handleGlueConn\<close>: all path connections of a server at once, with
  their handlers, their path writers, the flow readers and the janitor interleaved in any way. The
  theory shows that what the handlers keep locally and the session table keep in step.
\<close>

definition gluePathDepth :: int where "gluePathDepth = 32"
definition glueStaleAfter :: duration where "glueStaleAfter = 150 * ms"

text \<open>Where the handler of a connection is: attached with the accept message still to be written, accepted without a
  writer, in the read loop, past it (with the writer closed, if there is one), or returned.\<close>

datatype phase = Joining string bytes | Accepted string | Serving string | Leaving string | Gone

text \<open>A connection that never reached the handler has no phase. \<open>hwire c\<close> is what was written to the connection \<open>c\<close>
  after \<^verbatim>\<open>checkAuth\<close>, one entry per call of \<^verbatim>\<open>Write\<close>; the writer of a path has the number of its connection.\<close>

record glue_host =
  srv :: server
  phases :: "(nat, phase) fmap"
  hwire :: "nat \<Rightarrow> bytes list"
  pwriters :: "(nat, pathWriter) fmap"
  calls :: nat                        \<comment> \<open>calls of \<^verbatim>\<open>Send\<close> so far\<close>
  datagrams :: "(nat \<times> bytes) list"   \<comment> \<open>written to UDP sockets\<close>
  drop_log :: "(nat \<times> nat) list"

definition new_host :: glue_host where
  "new_host = \<lparr>srv = empty_server, phases = fmempty, hwire = (\<lambda>_. []), pwriters = fmempty, calls = 0, datagrams = [], drop_log = []\<rparr>"

definition write_conn :: "nat \<Rightarrow> bytes list \<Rightarrow> glue_host \<Rightarrow> glue_host" where
  "write_conn c bs h = h\<lparr>hwire := (hwire h)(c := hwire h c @ bs)\<rparr>"

definition set_phase :: "nat \<Rightarrow> phase \<Rightarrow> glue_host \<Rightarrow> glue_host" where
  "set_phase c ph h = h\<lparr>phases := fmupd c ph (phases h)\<rparr>"

section \<open>The steps of a handler\<close>

text \<open>Up to \<^verbatim>\<open>attachGluePath\<close>: \<open>auth\<close> is the result of \<^verbatim>\<open>checkAuth\<close>, \<open>ins\<close> what follows on the connection.\<close>

definition open_path :: "orders \<Rightarrow> nat \<Rightarrow> peer option \<Rightarrow> instream \<Rightarrow> (nat \<Rightarrow> u64) \<Rightarrow> glue_host \<Rightarrow> glue_host" where
  "open_path os c auth ins rnd h =
     (case auth of
        None \<Rightarrow> set_phase c Gone h
      | Some p \<Rightarrow>
          (case read_full HelloSize ins of
             Inl err \<Rightarrow> set_phase c Gone h
           | Inr (hello, rest) \<Rightarrow>
               (case glue_setup os rnd (srv h) p c hello of
                  None \<Rightarrow> h
                | Some (g, reply, None) \<Rightarrow> set_phase c Gone (write_conn c [reply] (h\<lparr>srv := g\<rparr>))
                | Some (g, reply, Some sid) \<Rightarrow> set_phase c (Joining sid reply) (h\<lparr>srv := g\<rparr>))))"

text \<open>The accept message: when its write fails the handler returns, and what is left is to detach the path.\<close>

definition write_accept :: "nat \<Rightarrow> bool \<Rightarrow> glue_host \<Rightarrow> glue_host" where
  "write_accept c ok h =
     (case fmlookup (phases h) c of
        Some (Joining sid reply) \<Rightarrow>
          if ok then set_phase c (Accepted sid) (write_conn c [reply] h) else set_phase c (Leaving sid) h
      | _ \<Rightarrow> h)"

definition start_writer :: "nat \<Rightarrow> glue_host \<Rightarrow> glue_host" where
  "start_writer c h =
     (case fmlookup (phases h) c of
        Some (Accepted sid) \<Rightarrow>
          set_phase c (Serving sid)
            (h\<lparr>pwriters := fmupd c (NewPathWriter gluePathDepth glueStaleAfter) (pwriters h), srv := setWriter (srv h) sid c c\<rparr>)
      | _ \<Rightarrow> h)"

text \<open>Handing a message to path writers starts a call of \<^verbatim>\<open>Send\<close> at each of them. The calls run on their own
  here, so that every order in which the code can finish them is covered.\<close>

definition send_to :: "nat fset \<Rightarrow> bytes \<Rightarrow> time \<Rightarrow> glue_host \<Rightarrow> glue_host" where
  "send_to ws b now h =
     h\<lparr>pwriters := fmmap_keys (\<lambda>w p. if w |\<in>| ws then pw_step p (Send (calls h) b now) else p) (pwriters h), calls := Suc (calls h)\<rparr>"

definition do_out :: "time \<Rightarrow> glue_host \<Rightarrow> glue_out \<Rightarrow> glue_host" where
  "do_out now h out =
     (case out of
        SendPaths ws b \<Rightarrow> send_to ws b now h
      | UdpWrite s b \<Rightarrow> h\<lparr>datagrams := datagrams h @ [(s, b)]\<rparr>)"

text \<open>One turn of the read loop. On a read error the deferred calls begin: the writer is closed and its drops are logged.\<close>

definition close_writer :: "nat \<Rightarrow> glue_host \<Rightarrow> glue_host" where
  "close_writer c h =
     (case fmlookup (pwriters h) c of
        None \<Rightarrow> h
      | Some p \<Rightarrow>
          h\<lparr>pwriters := fmupd c (pw_step p CloseWriter) (pwriters h),
            drop_log := drop_log h @ (if 0 < pw_drops p then [(c, pw_drops p)] else [])\<rparr>)"

definition read_path :: "policy \<Rightarrow> nat \<Rightarrow> instream \<Rightarrow> time \<Rightarrow> string option \<Rightarrow> glue_host \<Rightarrow> glue_host" where
  "read_path pol c ins now dial_err h =
     (case fmlookup (phases h) c of
        Some (Serving sid) \<Rightarrow>
          (case read_frame ins of
             Inl err \<Rightarrow> set_phase c (Leaving sid) (close_writer c h)
           | Inr (f, rest) \<Rightarrow>
               (case handle_glue_frame pol (srv h) sid c f now dial_err of
                  (g, outs) \<Rightarrow> foldl (do_out now) (h\<lparr>srv := g\<rparr>) outs))
      | _ \<Rightarrow> h)"

definition leave_path :: "nat \<Rightarrow> time \<Rightarrow> glue_host \<Rightarrow> glue_host" where
  "leave_path c now h =
     (case fmlookup (phases h) c of
        Some (Leaving sid) \<Rightarrow> set_phase c Gone (h\<lparr>srv := detachPath (srv h) sid c now\<rparr>)
      | _ \<Rightarrow> h)"

text \<open>A step of the writer of \<open>c\<close> or of a call of its \<^verbatim>\<open>Send\<close>; a write succeeds only while the connection is open.\<close>

datatype writer_event = InSend nat bool | InRun time bool | RunEnds

definition writer_event :: "pathWriter \<Rightarrow> writer_event \<Rightarrow> pw_event" where
  "writer_event p e =
     (case e of
        InSend i see_done \<Rightarrow> SendStep i see_done
      | InRun now ok \<Rightarrow> Take now (ok \<and> \<not> pw_done p)
      | RunEnds \<Rightarrow> Stop)"

definition run_writer :: "nat \<Rightarrow> writer_event \<Rightarrow> glue_host \<Rightarrow> glue_host" where
  "run_writer c e h =
     (case fmlookup (pwriters h) c of
        None \<Rightarrow> h
      | Some p \<Rightarrow>
          let p' = pw_step p (writer_event p e)
          in write_conn c (drop (length (wire p)) (wire p')) (h\<lparr>pwriters := fmupd c p' (pwriters h)\<rparr>))"

definition read_flow :: "nat \<Rightarrow> read_result \<Rightarrow> time \<Rightarrow> glue_host \<Rightarrow> glue_host" where
  "read_flow s res now h =
     (case readFlow (srv h) s res now of
        (g, None) \<Rightarrow> h\<lparr>srv := g\<rparr>
      | (g, Some (ws, b)) \<Rightarrow> send_to ws b now (h\<lparr>srv := g\<rparr>))"

datatype host_event =
    OpenPath nat "peer option" instream "nat \<Rightarrow> u64"
  | WriteAccept nat bool
  | StartWriter nat
  | ReadPath nat instream time "string option"
  | LeavePath nat time
  | RunWriter nat writer_event
  | ReadFlow nat read_result time
  | Janitor time

definition host_step :: "policy \<Rightarrow> orders \<Rightarrow> glue_host \<Rightarrow> host_event \<Rightarrow> glue_host" where
  "host_step pol os h e =
     (case e of
        OpenPath c auth ins rnd \<Rightarrow> if fmlookup (phases h) c = None then open_path os c auth ins rnd h else h
      | WriteAccept c ok \<Rightarrow> write_accept c ok h
      | StartWriter c \<Rightarrow> start_writer c h
      | ReadPath c ins now dial_err \<Rightarrow> read_path pol c ins now dial_err h
      | LeavePath c now \<Rightarrow> leave_path c now h
      | RunWriter c we \<Rightarrow> run_writer c we h
      | ReadFlow s res now \<Rightarrow> read_flow s res now h
      | Janitor now \<Rightarrow> h\<lparr>srv := cleanupGlue os (srv h) now\<rparr>)"

section \<open>The entry of a path in the session table\<close>

text \<open>The entry of a connection in a session, with the session's epoch.\<close>

definition path_at :: "server \<Rightarrow> string \<Rightarrow> nat \<Rightarrow> (u64 \<times> nat option) option" where
  "path_at g sid c =
     (case fmlookup (sessions g) sid of
        None \<Rightarrow> None
      | Some s \<Rightarrow> map_option (Pair (epoch s)) (fmlookup (gpaths s) c))"

lemma path_at_same:
  assumes "fmlookup (sessions g) sid = Some s" "epoch s' = epoch s" "gpaths s' = gpaths s"
  shows "path_at (put_session sid s' g) = path_at g"
  using assms by (auto simp: path_at_def fun_eq_iff)

lemma path_at_sessions: "sessions g' = sessions g \<Longrightarrow> path_at g' = path_at g"
  by (simp add: path_at_def fun_eq_iff)

lemma path_at_no_paths: "fmlookup (sessions g) sid = Some s \<Longrightarrow> gosize (gpaths s) = 0 \<Longrightarrow> path_at g sid c = None"
proof -
  assume s: "fmlookup (sessions g) sid = Some s" "gosize (gpaths s) = 0"
  have "fmlookup (gpaths s) c = None" using s(2) gosize_pos [of "gpaths s" c] by (cases "fmlookup (gpaths s) c") auto
  then show ?thesis using s(1) by (simp add: path_at_def)
qed

text \<open>Frames, replies of game servers and the janitor never touch the paths of a session.\<close>

lemma open_flow_path:
  assumes "fmlookup (sessions g) sid = Some s0" "epoch s = epoch s0" "gpaths s = gpaths s0"
  shows "path_at (fst (open_flow g sid s j key now err)) = path_at g"
proof -
  have p: "path_at (put_session sid s' g') = path_at g" if "sessions g' = sessions g" "epoch s' = epoch s0" "gpaths s' = gpaths s0" for s' g'
    using path_at_same [of g' sid s0 s'] path_at_sessions [OF that(1)] that assms(1) by simp
  show ?thesis using assms(2,3) by (auto simp: open_flow_def reserve_cases Let_def intro!: p split: option.split)
qed

lemma flow_socket_path:
  assumes "flow_socket g sid j dst port now err = Some (g', r)"
  shows "path_at g' = path_at g"
proof -
  obtain s where s: "fmlookup (sessions g) sid = Some s" using assms by (auto simp: flow_socket_def split: option.splits)
  have k: "path_at (fst (open_flow g sid s j key now err)) = path_at g" for key by (rule open_flow_path [OF s refl refl])
  have c: "path_at (fst (open_flow g1 sid s1 j key now err)) = path_at g" if "closeFlow g s j x = (g1, s1)" for g1 s1 x key
  proof -
    have g1: "sessions g1 = sessions g" "epoch s1 = epoch s" "gpaths s1 = gpaths s"
      using that by (auto simp: closeFlow_def Let_def split: option.splits if_splits)
    then have "path_at (fst (open_flow g1 sid s1 j key now err)) = path_at g1" using s by (intro open_flow_path [of _ _ s]) simp_all
    then show ?thesis using path_at_sessions [OF g1(1)] by simp
  qed
  show ?thesis
  proof (cases "fmlookup (udpFlows s) j")
    case None
    then have "g' = fst (open_flow g sid s j (canon dst, port) now err)" using assms s by (simp add: flow_socket_def Let_def)
    then show ?thesis by (simp only: k)
  next
    case (Some f)
    obtain g1 s1 where cl: "closeFlow g s j (u_conn f) = (g1, s1)" by force
    show ?thesis
    proof (cases "u_dst f = (canon dst, port)")
      case True
      then have "g' = put_session sid (s\<lparr>udpFlows := fmupd j (f\<lparr>u_lastSeen := now\<rparr>) (udpFlows s)\<rparr>) g"
        using assms s Some by (simp add: flow_socket_def Let_def)
      then show ?thesis using path_at_same [OF s] by simp
    next
      case False
      then have "g' = fst (open_flow g1 sid s1 j (canon dst, port) now err)"
        using assms s Some cl by (simp add: flow_socket_def Let_def)
      then show ?thesis by (simp only: c [OF cl])
    qed
  qed
qed

lemma broadcast_path: "path_at (fst (broadcast g sid build)) = path_at g"
  by (auto simp: broadcast_def path_at_same split: option.split)

lemma broadcastPing_path: "path_at (fst (broadcastPing g sid n now)) = path_at g"
  unfolding broadcastPing_def by (rule broadcast_path)

lemma with_recv_path: "fmlookup (sessions g) sid = Some s \<Longrightarrow> path_at (with_recv g sid s r) = path_at g"
  unfolding with_recv_def by (rule path_at_same) simp_all

lemma handle_frame_path:
  assumes "handle_glue_frame pol g sid w f now err = (g', outs)"
  shows "path_at g' = path_at g"
  using assms
proof (cases rule: handle_frame_cases)
  case (pong s r n ws wire)
  show ?thesis using broadcastPing_path [of "with_recv g sid s r" sid n now] with_recv_path [OF pong(1)] pong(4) by simp
next
  case (pong_none s r n)
  show ?thesis using broadcastPing_path [of "with_recv g sid s r" sid n now] with_recv_path [OF pong_none(1)] pong_none(2) by simp
next
  case (no_flow s r j dst port e)
  show ?thesis using flow_socket_path [OF no_flow(2)] with_recv_path [OF no_flow(1)] by simp
next
  case (relayed s r j dst port payload c)
  show ?thesis using flow_socket_path [OF relayed(7)] with_recv_path [OF relayed(1)] by simp
qed (simp_all add: with_recv_path)

lemma readFlow_path: "path_at (fst (readFlow g c res now)) = path_at g"
proof (cases "fmlookup (readers g) c")
  case None
  then show ?thesis by (simp add: readFlow_def)
next
  case (Some r)
  obtain sid sref j where r: "r = (sid, sref, j)" by (metis prod_cases3)
  show ?thesis
  proof (cases "\<exists>s. fmlookup (sessions g) sid = Some s \<and> ref s = sref")
    case False
    then have "(case fmlookup (sessions g) sid of Some s \<Rightarrow> if ref s = sref then Some s else None | None \<Rightarrow> None) = None"
      by (auto split: option.split)
    then have "sessions (fst (readFlow g c res now)) = sessions g"
      using Some r by (cases res) (simp_all add: readFlow_def Let_def)
    then show ?thesis by (rule path_at_sessions)
  next
    case True
    then obtain s where s: "fmlookup (sessions g) sid = Some s" "ref s = sref" by blast
    show ?thesis
    proof (cases res)
      case (ReadData payload)
      have "path_at (put_session sid (touch_flow s j c now) g) = path_at g"
        by (rule path_at_same [OF s(1)]) (auto simp: touch_flow_def split: option.split)
      then show ?thesis using Some r s ReadData broadcast_path
        by (simp add: readFlow_def broadcastReply_def Let_def)
    next
      case ReadFailed
      obtain g1 s1 where cl: "closeFlow (g\<lparr>readers := fmdrop c (readers g)\<rparr>) s j c = (g1, s1)" by force
      have g1: "sessions g1 = sessions g" "epoch s1 = epoch s" "gpaths s1 = gpaths s"
        using cl by (auto simp: closeFlow_def Let_def split: option.splits if_splits)
      then have "path_at (put_session sid s1 g1) = path_at g1" using s by (intro path_at_same [of _ _ s]) simp_all
      then show ?thesis using Some r s ReadFailed cl path_at_sessions [OF g1(1)] by (simp add: readFlow_def Let_def)
    qed (use Some r in \<open>simp add: readFlow_def Let_def\<close>)
  qed
qed

lemma cleanup_path:
  assumes "srv_inv g" "orders_ok os"
  shows "path_at (cleanupGlue os g now) = path_at g"
proof (intro ext)
  fix sid c
  let ?ids = "ord_sessions os (sessions g)"
  have ro: "range_order (ord_sessions os)" using assms(2) by (simp add: orders_ok_def)
  have l: "if sid \<in> set ?ids then cleaned now (fmlookup (sessions g) sid) (fmlookup (sessions (cleanupGlue os g now)) sid)
     else fmlookup (sessions (cleanupGlue os g now)) sid = fmlookup (sessions g) sid"
    using clean_fold [OF assms range_order_distinct [OF ro, of "sessions g"], of now] by (simp add: cleanupGlue_def)
  show "path_at (cleanupGlue os g now) sid c = path_at g sid c"
  proof (cases "fmlookup (sessions g) sid")
    case None
    then show ?thesis using l by (auto simp: path_at_def cleaned_def split: if_splits)
  next
    case (Some s)
    then have cl: "cleaned now (Some s) (fmlookup (sessions (cleanupGlue os g now)) sid)"
      using l range_order_set [OF ro, of sid "sessions g"] by simp
    show ?thesis
    proof (cases "session_gone s now")
      case True
      then have "path_at g sid c = None" using path_at_no_paths [OF Some] by (simp add: session_gone_def)
      then show ?thesis using cl True by (simp add: path_at_def cleaned_def)
    next
      case False
      then obtain s' where s': "fmlookup (sessions (cleanupGlue os g now)) sid = Some s'" "meta s' = meta s"
        using cl by (auto simp: cleaned_def)
      show ?thesis using Some s'(1) metaD(2,4) [OF s'(2)] by (simp add: path_at_def)
    qed
  qed
qed

text \<open>Joining and leaving change the entry of this connection in this session only.\<close>

definition with_path :: "string \<Rightarrow> nat \<Rightarrow> 'a option \<Rightarrow> (string \<Rightarrow> nat \<Rightarrow> 'a option) \<Rightarrow> string \<Rightarrow> nat \<Rightarrow> 'a option" where
  "with_path sid c v m = m(sid := (m sid)(c := v))"

lemma with_path_apply: "with_path sid c v m sid' c' = (if sid' = sid \<and> c' = c then v else m sid' c')"
  by (simp add: with_path_def)

lemma join_path:
  assumes "join_session g sid s p c = (g', n, st)" "fmlookup (sessions g) sid = Some s"
  shows "path_at g' = (if st = StatusOK then with_path sid c (Some (epoch s, None)) (path_at g) else path_at g)"
    and "st = StatusOK \<Longrightarrow> \<exists>s'. fmlookup (sessions g') sid = Some s' \<and> epoch s' = epoch s"
  using assms
  by (auto simp: join_session_def Let_def path_at_def with_path_def fun_eq_iff StatusOK_def StatusBusy_def Glue.StatusRefused_def
      split: if_splits)

lemma makeRoom_path:
  assumes "srv_inv g" "orders_ok os" "makeRoomForSession os g k = (g', ok)"
  shows "path_at g' = path_at g"
proof -
  from makeRoom_result [OF assms(1,2), of k, unfolded assms(3) prod.case]
  consider "g' = g" | sid s where "fmlookup (sessions g) sid = Some s" "gosize (gpaths s) = 0" "sessions g' = fmdrop sid (sessions g)"
    by blast
  then show ?thesis
  proof cases
    case 2
    then show ?thesis using path_at_no_paths [OF 2(1,2)] by (auto simp: path_at_def fun_eq_iff)
  qed simp
qed

lemma attach_path:
  assumes i: "srv_inv g" "orders_ok os" and a: "attachGluePath os rnd g sid p c = Some (g', n, st)"
  shows "if st = StatusOK
     then \<exists>s. fmlookup (sessions g') sid = Some s \<and> path_at g' = with_path sid c (Some (epoch s, None)) (path_at g)
     else path_at g' = path_at g"
proof (cases "fmlookup (sessions g) sid")
  case (Some s)
  then have j: "join_session g sid s p c = (g', n, st)" using a by (simp add: attachGluePath_def)
  show ?thesis using join_path [OF j Some] by auto
next
  case None
  obtain g1 ok where m: "makeRoomForSession os g (KeyID p) = (g1, ok)" by force
  have p1: "path_at g1 = path_at g" by (rule makeRoom_path [OF i m])
  have n1: "fmlookup (sessions g1) sid = None"
    using makeRoom_result [OF i, of "KeyID p", unfolded m prod.case] None by (auto split: if_splits)
  show ?thesis
  proof (cases "ok \<and> gosize (sessions g1) < maxGlueSessions")
    case False
    then show ?thesis using a None m p1 by (cases ok) (auto simp: attachGluePath_def StatusOK_def StatusBusy_def)
  next
    case True
    then obtain e where e: "newEpoch rnd = Some e"
      using a None m by (cases "newEpoch rnd") (auto simp: attachGluePath_def)
    let ?s = "new_session g1 p e"
    let ?g2 = "(put_session sid ?s g1)\<lparr>nextSock := Suc (nextSock g1)\<rparr>"
    have j: "join_session ?g2 sid ?s p c = (g', n, st)" using a None m True e by (simp add: attachGluePath_def Let_def)
    have "path_at ?g2 = path_at g" using n1 p1 [symmetric] by (auto simp: path_at_def fun_eq_iff new_session_def)
    then show ?thesis using join_path [OF j] by auto
  qed
qed

lemma setup_path:
  assumes i: "srv_inv g" "orders_ok os" and g: "glue_setup os rnd g p c hello = Some (g', reply, r)"
  shows "case r of
     None \<Rightarrow> path_at g' = path_at g \<and> (\<exists>st. st \<noteq> StatusOK \<and> reply = EncodeAccept st 0)
   | Some sid \<Rightarrow> \<exists>e. path_at g' = with_path sid c (Some (e, None)) (path_at g) \<and> reply = EncodeAccept StatusOK e"
proof -
  have u: "StatusUnsupported \<noteq> StatusOK" by (simp add: StatusUnsupported_def StatusOK_def)
  show ?thesis
    using g attach_path [OF i] u
    by (auto simp: glue_setup_def Let_def split: option.splits prod.splits if_splits) (metis option.inject)+
qed

lemma setWriter_path:
  assumes "path_at g sid c = Some (e, w)"
  shows "path_at (setWriter g sid c v) = with_path sid c (Some (e, Some v)) (path_at g)"
  using assms by (auto simp: path_at_def setWriter_def with_path_def fun_eq_iff split: option.splits)

lemma detach_path: "path_at (detachPath g sid c now) = with_path sid c None (path_at g)"
  by (auto simp: path_at_def detachPath_def with_path_def fun_eq_iff Let_def split: option.split)

section \<open>What the writers hold\<close>

definition frame_bytes :: "bytes \<Rightarrow> bool" where
  "frame_bytes b \<longleftrightarrow> (\<exists>f. fits f \<and> b = marshal f)"

definition frames_only :: "pathWriter \<Rightarrow> bool" where
  "frames_only p \<longleftrightarrow> list_all frame_bytes (wire p) \<and> list_all (\<lambda>q. frame_bytes (q_data q)) (pw_chan p) \<and>
     fmpred (\<lambda>_ s. frame_bytes (q_data (s_frame s))) (senders p)"

lemma frames_only_new: "frames_only (NewPathWriter d a)"
  by (simp add: frames_only_def NewPathWriter_def)

lemma send_step_frames:
  assumes "frames_only p" "fmlookup (senders p) i = Some s"
  shows "frames_only (send_step p i s b)" "wire (send_step p i s b) = wire p" "pw_done (send_step p i s b) = pw_done p"
proof -
  have "frame_bytes (q_data (s_frame s))" using assms by (auto simp: frames_only_def)
  then show "frames_only (send_step p i s b)"
    using assms(1) by (cases "s_phase s"; cases "pw_chan p") (auto simp: send_step_def end_send_def Let_def frames_only_def)
  show "wire (send_step p i s b) = wire p" "pw_done (send_step p i s b) = pw_done p"
    by (cases "s_phase s"; cases "pw_chan p"; simp add: send_step_def end_send_def Let_def)+
qed

lemma send_frames:
  assumes "frames_only p" "frame_bytes b"
  shows "frames_only (pw_step p (Send i b now))" "wire (pw_step p (Send i b now)) = wire p" "pw_done (pw_step p (Send i b now)) = pw_done p"
  using assms by (auto simp: pw_step_def frames_only_def)

lemma run_frames:
  assumes "frames_only p" and p': "p' = pw_step p (writer_event p e)"
  shows "frames_only p'" "wire p' = wire p @ drop (length (wire p)) (wire p')" "pw_done p \<Longrightarrow> pw_done p' \<and> wire p' = wire p"
proof -
  have "frames_only p' \<and> wire p' = wire p @ drop (length (wire p)) (wire p') \<and> (pw_done p \<longrightarrow> pw_done p' \<and> wire p' = wire p)"
  proof (cases e)
    case (InSend i b)
    then show ?thesis using assms(1) send_step_frames [OF assms(1)]
      by (cases "fmlookup (senders p) i") (simp_all add: p' writer_event_def pw_step_def)
  next
    case (InRun now ok)
    then show ?thesis using assms(1)
      by (cases "pw_chan p") (auto simp: p' writer_event_def pw_step_def frames_only_def)
  qed (use assms(1) in \<open>simp add: p' writer_event_def pw_step_def frames_only_def\<close>)
  then show "frames_only p'" "wire p' = wire p @ drop (length (wire p)) (wire p')" "pw_done p \<Longrightarrow> pw_done p' \<and> wire p' = wire p"
    by blast+
qed

text \<open>What the handlers and the flow readers give to the writers are whole frames.\<close>

lemma fits_small [simp]: "fits (frame_new n now p) \<longleftrightarrow> length p \<le> MaxPayload"
  by (simp add: fits_def frame_new_def)

lemma ping_bytes: "frame_bytes (marshal (frame_new seq now (EncodePing n)))"
proof -
  have "fits (frame_new seq now (EncodePing n))" by (simp add: EncodePing_def MaxPayload_def)
  then show ?thesis unfolding frame_bytes_def by blast
qed

lemma read_frame_fits: "read_frame ins = Inr (f, rest) \<Longrightarrow> fits f"
proof -
  assume r: "read_frame ins = Inr (f, rest)"
  obtain n r1 r2 where n: "read_full (unat (n::u16)) r1 = Inr (f_payload f, r2)"
    using r by (auto simp: read_frame_def Let_def split: sum.splits)
  have "unat n < 2 ^ 16" using unsigned_less [of n] by simp
  then show "fits f" using read_full_InrD [OF n] by (simp add: fits_def MaxPayload_def)
qed

lemma handled_bytes:
  assumes "handle_glue_frame pol g sid w f now err = (g', outs)" "fits f" "SendPaths ws b \<in> set outs"
  shows "frame_bytes b"
  using assms(1)
proof (cases rule: handle_frame_cases)
  case (pong s r n ws' wire)
  then have "b = marshal (frame_new (replySeq (s\<lparr>g_recv := r\<rparr>)) now (EncodePing n))"
    using assms(3) by (auto simp: broadcastPing_def broadcast_def with_recv_def)
  then show ?thesis by (simp add: ping_bytes)
qed (use assms(2,3) in \<open>auto simp: frame_bytes_def\<close>)

lemma flow_read_bytes:
  assumes "readFlow g c res now = (g', Some (ws, b))"
  shows "frame_bytes b"
proof -
  obtain seq j payload where b: "b = marshal (frame_new seq now (EncodeInbound j payload))" "length payload \<le> MaxInboundPayload"
    using assms by (auto simp: readFlow_def broadcastReply_def broadcast_def Let_def split: option.splits read_result.splits prod.splits if_splits)
  then have "fits (frame_new seq now (EncodeInbound j payload))"
    by (simp add: EncodeInbound_def MaxInboundPayload_def MaxPayload_def)
  then show ?thesis using b(1) unfolding frame_bytes_def by blast
qed

section \<open>Handlers and sessions in step\<close>

text \<open>The connection has the entry \<open>v\<close> in the session \<open>sid\<close> and none elsewhere.\<close>

definition only_at :: "glue_host \<Rightarrow> nat \<Rightarrow> string \<Rightarrow> (u64 \<times> nat option) option \<Rightarrow> bool" where
  "only_at h c sid v \<longleftrightarrow> (\<forall>sid'. path_at (srv h) sid' c = (if sid' = sid then v else None))"

definition nowhere :: "glue_host \<Rightarrow> nat \<Rightarrow> bool" where
  "nowhere h c \<longleftrightarrow> (\<forall>sid. path_at (srv h) sid c = None)"

text \<open>What a connection with a writer has on the wire: the accept message, then what the writer wrote.\<close>

definition served :: "glue_host \<Rightarrow> nat \<Rightarrow> u64 \<Rightarrow> pathWriter \<Rightarrow> bool" where
  "served h c e p \<longleftrightarrow> fmlookup (pwriters h) c = Some p \<and> hwire h c = EncodeAccept StatusOK e # wire p \<and> frames_only p"

definition not_served :: "glue_host \<Rightarrow> nat \<Rightarrow> bytes list \<Rightarrow> bool" where
  "not_served h c bs \<longleftrightarrow> fmlookup (pwriters h) c = None \<and> hwire h c = bs"

definition path_ok :: "glue_host \<Rightarrow> nat \<Rightarrow> bool" where
  "path_ok h c =
     (case fmlookup (phases h) c of
        None \<Rightarrow> nowhere h c \<and> not_served h c []
      | Some (Joining sid reply) \<Rightarrow> (\<exists>e. only_at h c sid (Some (e, None)) \<and> reply = EncodeAccept StatusOK e) \<and> not_served h c []
      | Some (Accepted sid) \<Rightarrow> (\<exists>e. only_at h c sid (Some (e, None)) \<and> not_served h c [EncodeAccept StatusOK e])
      | Some (Serving sid) \<Rightarrow> (\<exists>e p. only_at h c sid (Some (e, Some c)) \<and> served h c e p)
      | Some (Leaving sid) \<Rightarrow> (\<exists>e. only_at h c sid (Some (e, None))) \<and> not_served h c [] \<or>
          (\<exists>e p. only_at h c sid (Some (e, Some c)) \<and> served h c e p \<and> pw_done p)
      | Some Gone \<Rightarrow> nowhere h c \<and>
          (not_served h c [] \<or> (\<exists>st. st \<noteq> StatusOK \<and> not_served h c [EncodeAccept st 0]) \<or> (\<exists>e p. served h c e p \<and> pw_done p)))"

definition host_inv :: "glue_host \<Rightarrow> bool" where
  "host_inv h \<longleftrightarrow> srv_inv (srv h) \<and> (\<forall>c. path_ok h c)"

lemmas path_views = only_at_def nowhere_def served_def not_served_def

text \<open>A connection is affected only through its phase, its table entries, its writer and its wire.\<close>

definition same_view :: "nat \<Rightarrow> glue_host \<Rightarrow> glue_host \<Rightarrow> bool" where
  "same_view c h h' \<longleftrightarrow> (\<forall>sid. path_at (srv h') sid c = path_at (srv h) sid c) \<and> fmlookup (phases h') c = fmlookup (phases h) c \<and>
     hwire h' c = hwire h c \<and> fmlookup (pwriters h') c = fmlookup (pwriters h) c"

lemma path_ok_cong: "same_view c h h' \<Longrightarrow> path_ok h' c = path_ok h c"
proof -
  assume v: "same_view c h h'"
  have e: "only_at h' c = only_at h c" "nowhere h' c = nowhere h c" "served h' c = served h c" "not_served h' c = not_served h c"
    using v by (simp_all add: path_views same_view_def fun_eq_iff)
  have "fmlookup (phases h') c = fmlookup (phases h) c" using v by (simp add: same_view_def)
  then show ?thesis unfolding path_ok_def e by (rule arg_cong)
qed

lemma set_phase_sel [simp]:
  "srv (set_phase c ph h) = srv h" "hwire (set_phase c ph h) = hwire h" "pwriters (set_phase c ph h) = pwriters h"
  "phases (set_phase c ph h) = fmupd c ph (phases h)" "calls (set_phase c ph h) = calls h"
  by (simp_all add: set_phase_def)

lemma write_conn_sel [simp]:
  "srv (write_conn c bs h) = srv h" "hwire (write_conn c bs h) = (hwire h)(c := hwire h c @ bs)"
  "pwriters (write_conn c bs h) = pwriters h" "phases (write_conn c bs h) = phases h" "calls (write_conn c bs h) = calls h"
  by (simp_all add: write_conn_def)

text \<open>Handing frames to writers keeps what is on the wire.\<close>

lemma served_send:
  assumes "served h c e p" "frame_bytes b"
  shows "\<exists>p'. served (send_to ws b now h) c e p' \<and> pw_done p' = pw_done p"
  using assms send_frames [of p b "calls h" now] by (auto simp: served_def send_to_def)

lemma not_served_send: "not_served (send_to ws b now h) c bs = not_served h c bs"
  by (simp add: not_served_def send_to_def)

lemma send_to_sel [simp]: "srv (send_to ws b now h) = srv h" "phases (send_to ws b now h) = phases h"
  by (simp_all add: send_to_def)

lemma path_ok_writer:
  assumes "path_ok h c" "\<And>sid. path_at (srv h') sid c = path_at (srv h) sid c" "fmlookup (phases h') c = fmlookup (phases h) c"
    and "\<And>e p. served h c e p \<Longrightarrow> \<exists>p'. served h' c e p' \<and> (pw_done p \<longrightarrow> pw_done p')"
    and "\<And>bs. not_served h c bs \<Longrightarrow> not_served h' c bs"
  shows "path_ok h' c"
proof -
  have o: "only_at h' c sid v = only_at h c sid v" "nowhere h' c = nowhere h c" for sid v
    using assms(2) by (simp_all add: only_at_def nowhere_def)
  show ?thesis
    using assms(1) assms(4,5) unfolding path_ok_def assms(3) o
    by (auto split: option.splits phase.splits) meson+
qed

lemma send_to_ok:
  assumes "path_ok h c" "frame_bytes b"
  shows "path_ok (send_to ws b now h) c"
  using assms(1)
proof (rule path_ok_writer)
  show "\<exists>p'. served (send_to ws b now h) c e p' \<and> (pw_done p \<longrightarrow> pw_done p')" if "served h c e p" for e p
    using served_send [OF that assms(2), of ws now] by auto
qed (simp_all add: not_served_send)

lemma do_outs_ok:
  assumes "path_ok h c" "\<And>ws b. SendPaths ws b \<in> set outs \<Longrightarrow> frame_bytes b"
  shows "path_ok (foldl (do_out now) h outs) c"
  using assms
proof (induction outs arbitrary: h)
  case (Cons out outs)
  have "path_ok (do_out now h out) c"
  proof (cases out)
    case (SendPaths ws b)
    then show ?thesis using Cons.prems(2) [of ws b] send_to_ok [OF Cons.prems(1)] by (simp add: do_out_def)
  next
    case (UdpWrite s b)
    then show ?thesis using Cons.prems(1) path_ok_cong [of c h "do_out now h out"] by (simp add: do_out_def same_view_def)
  qed
  then have "path_ok (foldl (do_out now) (do_out now h out) outs) c" by (rule Cons.IH) (auto intro: Cons.prems(2))
  then show ?case by simp
qed simp

lemma do_outs_srv: "srv (foldl (do_out now) h outs) = srv h"
  by (induction outs arbitrary: h) (simp_all add: do_out_def split: glue_out.split)

lemma host_invI: "srv_inv (srv h) \<Longrightarrow> (\<And>c. path_ok h c) \<Longrightarrow> host_inv h"
  by (simp add: host_inv_def)

text \<open>A step of the connection \<open>c\<close> changes nothing that another connection sees.\<close>

lemma host_inv_step:
  assumes "host_inv h" "srv_inv (srv h')" "path_ok h' c"
    and "\<And>c'. c' \<noteq> c \<Longrightarrow> same_view c' h h'"
  shows "host_inv h'"
proof (rule host_invI [OF assms(2)])
  fix c'
  show "path_ok h' c'"
    using assms(1,3) path_ok_cong [OF assms(4)] by (cases "c' = c") (simp_all add: host_inv_def)
qed

lemma open_path_inv:
  assumes i: "host_inv h" and os: "orders_ok os" and n: "fmlookup (phases h) c = None"
  shows "host_inv (open_path os c auth ins rnd h)"
proof -
  have s: "srv_inv (srv h)" and p: "nowhere h c" "not_served h c []"
    using i n by (auto simp: host_inv_def path_ok_def dest!: spec [of _ c])
  have g: "host_inv (set_phase c Gone h)"
    by (rule host_inv_step [OF i, of _ c]) (use s p in \<open>simp_all add: path_ok_def same_view_def path_views\<close>)
  show ?thesis
  proof (cases "\<exists>pr hello rest g reply r. auth = Some pr \<and> read_full HelloSize ins = Inr (hello, rest) \<and>
      glue_setup os rnd (srv h) pr c hello = Some (g, reply, r)")
    case False
    then show ?thesis using i g by (auto simp: open_path_def split: option.splits sum.splits prod.splits)
  next
    case True
    then obtain pr hello rest g reply r where a: "auth = Some pr" "read_full HelloSize ins = Inr (hello, rest)"
        "glue_setup os rnd (srv h) pr c hello = Some (g, reply, r)" by blast
    note sp = setup_path [OF s os a(3)]
    have gi: "srv_inv g" by (rule glue_setup_inv [OF s os a(3)])
    show ?thesis
    proof (cases r)
      case None
      then show ?thesis using a sp
        by (intro host_inv_step [OF i, of _ c])
          (use gi p in \<open>auto simp: open_path_def path_ok_def same_view_def path_views\<close>)
    next
      case (Some sid)
      then obtain e where e: "path_at g = with_path sid c (Some (e, None)) (path_at (srv h))" "reply = EncodeAccept StatusOK e"
        using sp by auto
      show ?thesis using a Some
        by (intro host_inv_step [OF i, of _ c])
          (use gi p e in \<open>auto simp: open_path_def path_ok_def same_view_def path_views with_path_apply\<close>)
    qed
  qed
qed

lemma write_accept_inv:
  assumes i: "host_inv h"
  shows "host_inv (write_accept c ok h)"
proof (cases "\<exists>sid reply. fmlookup (phases h) c = Some (Joining sid reply)")
  case False
  then have "write_accept c ok h = h" by (auto simp: write_accept_def split: option.split phase.split)
  then show ?thesis using i by simp
next
  case True
  then obtain sid reply where ph: "fmlookup (phases h) c = Some (Joining sid reply)" by blast
  have s: "srv_inv (srv h)" and k: "path_ok h c" using i by (simp_all add: host_inv_def)
  show ?thesis
    by (rule host_inv_step [OF i, of _ c])
      (use s k ph in \<open>auto simp: write_accept_def path_ok_def same_view_def path_views\<close>)
qed

lemma start_writer_inv:
  assumes i: "host_inv h"
  shows "host_inv (start_writer c h)"
proof (cases "\<exists>sid. fmlookup (phases h) c = Some (Accepted sid)")
  case False
  then have "start_writer c h = h" by (auto simp: start_writer_def split: option.split phase.split)
  then show ?thesis using i by simp
next
  case True
  then obtain sid where ph: "fmlookup (phases h) c = Some (Accepted sid)" by blast
  have s: "srv_inv (srv h)" and k: "path_ok h c" using i by (simp_all add: host_inv_def)
  obtain e where e: "only_at h c sid (Some (e, None))" "not_served h c [EncodeAccept StatusOK e]"
    using k ph by (auto simp: path_ok_def)
  then have at: "path_at (srv h) sid c = Some (e, None)" by (simp add: only_at_def)
  have "srv_inv (setWriter (srv h) sid c c)" by (rule setWriter_inv [OF s])
  moreover have "wire (NewPathWriter gluePathDepth glueStaleAfter) = []" by (simp add: NewPathWriter_def)
  ultimately show ?thesis
    by (intro host_inv_step [OF i, of _ c])
      (use ph e frames_only_new in \<open>auto simp: start_writer_def path_ok_def same_view_def path_views setWriter_path [OF at] with_path_apply\<close>)
qed

lemma leave_path_inv:
  assumes i: "host_inv h"
  shows "host_inv (leave_path c now h)"
proof (cases "\<exists>sid. fmlookup (phases h) c = Some (Leaving sid)")
  case False
  then have "leave_path c now h = h" by (auto simp: leave_path_def split: option.split phase.split)
  then show ?thesis using i by simp
next
  case True
  then obtain sid where ph: "fmlookup (phases h) c = Some (Leaving sid)" by blast
  have s: "srv_inv (srv h)" and k: "path_ok h c" using i by (simp_all add: host_inv_def)
  have "srv_inv (detachPath (srv h) sid c now)" by (rule detachPath_inv [OF s])
  then show ?thesis
    by (intro host_inv_step [OF i, of _ c])
      (use ph k in \<open>auto simp: leave_path_def path_ok_def same_view_def path_views detach_path with_path_apply\<close>)
qed

lemma path_ok_srv:
  assumes "path_ok h c" "path_at g = path_at (srv h)"
  shows "path_ok (h\<lparr>srv := g\<rparr>) c"
  using assms path_ok_cong [of c h "h\<lparr>srv := g\<rparr>"] by (simp add: same_view_def)

lemma read_path_inv:
  assumes i: "host_inv h"
  shows "host_inv (read_path pol c ins now err h)"
proof (cases "\<exists>sid. fmlookup (phases h) c = Some (Serving sid)")
  case False
  then have "read_path pol c ins now err h = h" by (auto simp: read_path_def split: option.split phase.split)
  then show ?thesis using i by simp
next
  case True
  then obtain sid where ph: "fmlookup (phases h) c = Some (Serving sid)" by blast
  have s: "srv_inv (srv h)" and k: "\<And>c. path_ok h c" using i by (simp_all add: host_inv_def)
  show ?thesis
  proof (cases "read_frame ins")
    case (Inl e)
    obtain e p where e: "only_at h c sid (Some (e, Some c))" "served h c e p" using k [of c] ph by (auto simp: path_ok_def)
    have "wire (pw_step p CloseWriter) = wire p" "pw_done (pw_step p CloseWriter)" "frames_only p \<Longrightarrow> frames_only (pw_step p CloseWriter)"
      by (simp_all add: pw_step_def frames_only_def)
    then show ?thesis
      by (intro host_inv_step [OF i, of _ c])
        (use ph e s Inl in \<open>auto simp: read_path_def close_writer_def path_ok_def same_view_def path_views\<close>)
  next
    case (Inr r)
    obtain f rest where r: "r = (f, rest)" by (cases r)
    obtain g outs where g: "handle_glue_frame pol (srv h) sid c f now err = (g, outs)" by force
    have e: "read_path pol c ins now err h = foldl (do_out now) (h\<lparr>srv := g\<rparr>) outs" using ph Inr r g by (simp add: read_path_def)
    have "srv_inv g" using handle_frame_inv [OF s, of pol sid c f now err] g by simp
    moreover have "path_ok (foldl (do_out now) (h\<lparr>srv := g\<rparr>) outs) c'" for c'
      using handled_bytes [OF g read_frame_fits [OF Inr [unfolded r]]]
      by (intro do_outs_ok path_ok_srv k handle_frame_path [OF g]) simp_all
    ultimately show ?thesis unfolding e by (intro host_invI) (simp_all add: do_outs_srv)
  qed
qed

lemma run_writer_inv:
  assumes i: "host_inv h"
  shows "host_inv (run_writer c e h)"
proof (cases "fmlookup (pwriters h) c")
  case None
  then show ?thesis using i by (simp add: run_writer_def)
next
  case (Some p)
  have s: "srv_inv (srv h)" and k: "path_ok h c" using i by (simp_all add: host_inv_def)
  have "path_ok (run_writer c e h) c"
    using k
  proof (rule path_ok_writer)
    show "\<exists>p'. served (run_writer c e h) c ep p' \<and> (pw_done q \<longrightarrow> pw_done p')" if q: "served h c ep q" for ep q
    proof -
      define p' where "p' = pw_step p (writer_event p e)"
      have f: "frames_only p" "q = p" "hwire h c = EncodeAccept StatusOK ep # wire p" using q Some by (simp_all add: served_def)
      note r = run_frames [OF f(1) p'_def]
      have "served (run_writer c e h) c ep p'"
        using Some f r(1) r(2) [symmetric] by (simp add: run_writer_def served_def Let_def p'_def [symmetric])
      then show ?thesis using r(3) f(2) by blast
    qed
  qed (use Some in \<open>simp_all add: run_writer_def Let_def not_served_def\<close>)
  then show ?thesis
    by (intro host_inv_step [OF i, of _ c]) (use s Some in \<open>auto simp: run_writer_def Let_def same_view_def\<close>)
qed

lemma read_flow_inv:
  assumes i: "host_inv h"
  shows "host_inv (read_flow s res now h)"
proof -
  have si: "srv_inv (srv h)" and k: "\<And>c. path_ok h c" using i by (simp_all add: host_inv_def)
  obtain g r where g: "readFlow (srv h) s res now = (g, r)" by force
  have gi: "srv_inv g" using readFlow_inv [OF si, of s res now] g by simp
  have ok: "path_ok (h\<lparr>srv := g\<rparr>) c" for c using readFlow_path [of "srv h" s res now] g by (intro path_ok_srv k) simp
  show ?thesis
  proof (cases r)
    case None
    then show ?thesis using gi ok g by (intro host_invI) (simp_all add: read_flow_def)
  next
    case (Some x)
    obtain ws b where x: "x = (ws, b)" by force
    have "frame_bytes b" using flow_read_bytes g Some x by simp
    then show ?thesis using gi send_to_ok [OF ok] g Some x by (intro host_invI) (simp_all add: read_flow_def)
  qed
qed

lemma janitor_host_inv:
  assumes i: "host_inv h" and os: "orders_ok os"
  shows "host_inv (h\<lparr>srv := cleanupGlue os (srv h) now\<rparr>)"
proof -
  have s: "srv_inv (srv h)" using i by (simp add: host_inv_def)
  have "path_ok (h\<lparr>srv := cleanupGlue os (srv h) now\<rparr>) c" for c
    using i cleanup_path [OF s os] by (intro path_ok_srv) (simp_all add: host_inv_def)
  then show ?thesis using cleanup_inv [OF s os] by (intro host_invI) simp_all
qed

lemma host_step_inv: "host_inv h \<Longrightarrow> orders_ok os \<Longrightarrow> host_inv (host_step pol os h e)"
  by (cases e)
    (simp_all add: host_step_def open_path_inv write_accept_inv start_writer_inv read_path_inv leave_path_inv run_writer_inv
      read_flow_inv janitor_host_inv)

lemma new_host_inv: "host_inv new_host"
  by (rule host_invI) (simp_all add: new_host_def empty_server_inv path_ok_def path_views path_at_def, simp add: empty_server_def)

interpretation glue_paths: guarded_system "host_step pol os" "\<lambda>h. orders_ok os \<longrightarrow> host_inv h" new_host for pol os
  by unfold_locales (auto simp: new_host_inv host_step_inv)

text \<open>The session whose path the connection is, as its handler sees it: from attaching to detaching.\<close>

definition attached :: "glue_host \<Rightarrow> nat \<Rightarrow> string option" where
  "attached h c =
     (case fmlookup (phases h) c of
        Some (Joining sid reply) \<Rightarrow> Some sid
      | Some (Accepted sid) \<Rightarrow> Some sid
      | Some (Serving sid) \<Rightarrow> Some sid
      | Some (Leaving sid) \<Rightarrow> Some sid
      | _ \<Rightarrow> None)"

lemma only_atD: "only_at h c s v \<Longrightarrow> path_at (srv h) sid c = (if sid = s then v else None)"
  by (simp add: only_at_def)

lemma path_ok_attached:
  assumes "path_ok h c"
  shows "path_at (srv h) sid c \<noteq> None \<longleftrightarrow> attached h c = Some sid"
  using assms by (auto simp: path_ok_def attached_def nowhere_def dest!: only_atD [where sid = sid] split: option.splits phase.splits if_splits)

lemma frames_of_bytes: "list_all frame_bytes bs \<Longrightarrow> \<exists>fs. list_all fits fs \<and> bs = map marshal fs"
proof (induction bs)
  case (Cons b bs)
  obtain f where f: "fits f" "b = marshal f" using Cons.prems by (auto simp: frame_bytes_def)
  have "list_all frame_bytes bs" using Cons.prems by simp
  then obtain fs where fs: "list_all fits fs" "bs = map marshal fs" using Cons.IH by blast
  show ?case using f fs by (intro exI [of _ "f # fs"]) simp
qed simp

lemma served_wire: "served h c e p \<Longrightarrow> \<exists>fs. list_all fits fs \<and> hwire h c = EncodeAccept StatusOK e # map marshal fs"
  using frames_of_bytes [of "wire p"] by (auto simp: served_def frames_only_def)

lemma path_ok_wire:
  assumes "path_ok h c"
  shows "hwire h c = [] \<or> (\<exists>st. st \<noteq> StatusOK \<and> hwire h c = [EncodeAccept st 0]) \<or>
     (\<exists>e fs. list_all fits fs \<and> hwire h c = EncodeAccept StatusOK e # map marshal fs)"
proof (cases "\<exists>e p. served h c e p")
  case True
  then show ?thesis using served_wire by blast
next
  case False
  then show ?thesis using assms by (auto simp: path_ok_def not_served_def split: option.splits phase.splits)
qed

lemma path_ok_answers:
  assumes "path_ok h c" "path_at (srv h) sid c = Some (e, Some w)"
  shows "w = c \<and> (\<exists>fs. list_all fits fs \<and> hwire h c = EncodeAccept StatusOK e # map marshal fs)"
proof -
  have "w = c \<and> (\<exists>p. served h c e p)"
    using assms by (auto simp: path_ok_def nowhere_def dest!: only_atD [where sid = sid] split: option.splits phase.splits if_splits)
  then show ?thesis using served_wire by blast
qed

text \<open>C29. However the connections of a server interleave: the session table has exactly the paths whose handler is
  between attaching and detaching, so that none is left behind however a handler ends; what a client
  reads on a connection is nothing, or a refusal, or the accept message followed by whole frames;
  and a path that gets replies has its accept message, with the epoch of its session, in front.\<close>

theorem paths_in_step:
  assumes "orders_ok os"
  shows "let h = foldl (host_step pol os) new_host es in
     (path_at (srv h) sid c \<noteq> None \<longleftrightarrow> attached h c = Some sid) \<and>
     (hwire h c = [] \<or> (\<exists>st. st \<noteq> StatusOK \<and> hwire h c = [EncodeAccept st 0]) \<or>
       (\<exists>e fs. list_all fits fs \<and> hwire h c = EncodeAccept StatusOK e # map marshal fs)) \<and>
     (path_at (srv h) sid c = Some (e, Some w) \<longrightarrow>
       w = c \<and> (\<exists>fs. list_all fits fs \<and> hwire h c = EncodeAccept StatusOK e # map marshal fs))"
proof -
  define h where "h = foldl (host_step pol os) new_host es"
  have "host_inv h" using glue_paths.run_inv [of os pol es] assms by (simp add: h_def)
  then have k: "path_ok h c" by (simp add: host_inv_def)
  show ?thesis
    unfolding h_def [symmetric] Let_def
    using path_ok_attached [OF k] path_ok_wire [OF k] path_ok_answers [OF k] by blast
qed

section \<open>A concrete run\<close>

text \<open>A path joins, its keepalive comes in and is written back.\<close>

definition path_ping :: frame where "path_ping = \<lparr>f_seq = 0, f_ts = 0, f_payload = [msgPathPing]\<rparr>"

definition one_path :: "host_event list" where
  "one_path = [OpenPath 7 (Some alice) (EncodeHello (replicate SessionIDSize 0), EOF) (\<lambda>_. 1), WriteAccept 7 True, StartWriter 7,
     ReadPath 7 (marshal path_ping, EOF) sec None, RunWriter 7 (InSend 0 False), RunWriter 7 (InRun sec True)]"

lemma alice_setup:
  "glue_setup sorted_orders (\<lambda>_. 1) empty_server alice 7 (EncodeHello (replicate SessionIDSize 0)) =
     Some (joined_server, EncodeAccept StatusOK 1, Some sid0)"
proof -
  have "DecodeHello (EncodeHello (replicate SessionIDSize 0)) = Some (ProtocolVersion, replicate SessionIDSize 0)"
    by (rule hello_roundtrip) simp
  then show ?thesis
    unfolding joined_server_eq glue_setup_def by (simp add: sid0_bytes attach_empty Let_def new_session_def)
qed

lemma ping_read: "read_frame (marshal path_ping, EOF) = Inr (path_ping, ([], EOF))"
  using read_frame_marshal [of path_ping "[]" EOF] by (simp add: path_ping_def fits_def MaxPayload_def)

lemma ping_echoed:
  "fmlookup (sessions g) sid = Some s \<Longrightarrow> handle_glue_frame pol g sid w path_ping now err = (g, [SendPaths {|w|} (marshal path_ping)])"
  by (simp add: handle_glue_frame_def IsPathPing_def path_ping_def)

definition three_steps :: glue_host where
  "three_steps = foldl (host_step open_pol sorted_orders) new_host (take 3 one_path)"

lemma three_steps_eq:
  "srv three_steps = setWriter joined_server sid0 7 7" "fmlookup (phases three_steps) 7 = Some (Serving sid0)"
  "hwire three_steps 7 = [EncodeAccept StatusOK 1]" "calls three_steps = 0"
  "fmlookup (pwriters three_steps) 7 = Some (NewPathWriter gluePathDepth glueStaleAfter)"
  by (simp_all add: three_steps_def one_path_def host_step_def open_path_def alice_setup length_EncodeHello new_host_def write_accept_def
      start_writer_def)

definition served_path :: glue_host where
  "served_path = foldl (host_step open_pol sorted_orders) new_host one_path"

lemma served_path_eq:
  "srv served_path = setWriter joined_server sid0 7 7" "fmlookup (phases served_path) 7 = Some (Serving sid0)"
  "hwire served_path 7 = [EncodeAccept StatusOK 1, marshal path_ping]"
proof -
  obtain s where s: "fmlookup (sessions (setWriter joined_server sid0 7 7)) sid0 = Some s"
    by (simp add: setWriter_def joined_server_eq)
  have b: "served_path = foldl (host_step open_pol sorted_orders) three_steps
      [ReadPath 7 (marshal path_ping, EOF) sec None, RunWriter 7 (InSend 0 False), RunWriter 7 (InRun sec True)]"
    by (simp add: served_path_def three_steps_def one_path_def)
  show "srv served_path = setWriter joined_server sid0 7 7" "fmlookup (phases served_path) 7 = Some (Serving sid0)"
  "hwire served_path 7 = [EncodeAccept StatusOK 1, marshal path_ping]"
    unfolding b using three_steps_eq s
    by (simp_all add: host_step_def read_path_def ping_read ping_echoed do_out_def send_to_def run_writer_def Let_def writer_event_def
        pw_step_def NewPathWriter_def send_step_def end_send_def gluePathDepth_def glueStaleAfter_def time_sub_def write_conn_def)
qed

theorem paths_in_step_witness:
  "attached served_path 7 = Some sid0 \<and> path_at (srv served_path) sid0 7 = Some (1, Some 7) \<and>
     hwire served_path 7 = [EncodeAccept StatusOK 1, marshal path_ping]"
proof -
  have a: "attached served_path 7 = Some sid0" by (simp add: attached_def served_path_eq)
  have "path_at (srv served_path) sid0 7 = Some (1, Some 7)"
    using paths_in_step [OF sorted_orders_ok, of open_pol one_path sid0 7]
    unfolding served_path_def [symmetric] Let_def
    by (auto simp: a served_path_eq path_at_def setWriter_def joined_server_eq new_session_def)
  then show ?thesis using a served_path_eq by simp
qed

end
