(* ===== verification/ClientModes.thy ===== *)
theory ClientModes
  imports VpnPeer ClientMain
begin

text \<open>
  The frames of the client's modes: what \<^verbatim>\<open>runVPNMode\<close> (cmd/client/vpn.go), \<^verbatim>\<open>runTunMode\<close> (cmd/client/tun.go) and
  \<^verbatim>\<open>runSocksMode\<close> (cmd/client/socks.go) open, in which order they give up, and what is closed again when they
  return. The outcome of each step that can fail is an argument; \<open>reports\<close> are the errors the goroutines report, in
  order. A mode whose goroutines report nothing does not return.
\<close>

section \<open>Resources\<close>

datatype resource = TunDevice | VpnLinkConn | UplinkQueue | GlueChannel nat | SocksConn | SocksListener

datatype action = Acquire resource | Release resource | SayConnected

datatype mode_error =
    CreateTun string | DialVPNFailed dial_failure | DialGlueFailed dial_failure | DialServerFailed dial_failure
  | ListenFailed string | Reported dial_failure | TunReadFailed string

text \<open>What has happened so far, and how it ended, if it did.\<close>

type_synonym outcome_of_mode = "action list \<times> mode_error option"

text \<open>The deferred calls, in reverse order; not every resource has one.\<close>

definition deferred :: "resource list \<Rightarrow> action list" where
  "deferred rs = map Release (rev rs)"

definition first_report :: "mode_error list \<Rightarrow> mode_error option" where
  "first_report reports = foldl report_error None reports"

section \<open>The vpn mode\<close>

record vpn_outside =
  vo_tun :: "string option"              \<comment> \<open>the error of creating the TUN device\<close>
  vo_dial :: "dial_failure option"
  vo_glue :: "dial_failure option"

definition runVPNMode :: "vpn_outside \<Rightarrow> string list \<Rightarrow> nat \<Rightarrow> mode_error list \<Rightarrow> outcome_of_mode" where
  "runVPNMode out gameProcesses n reports =
     (case vo_tun out of
        Some e \<Rightarrow> ([], Some (CreateTun e))
      | None \<Rightarrow>
          (case vo_dial out of
             Some e \<Rightarrow> (Acquire TunDevice # deferred [TunDevice], Some (DialVPNFailed e))
           | None \<Rightarrow>
               let opened = [TunDevice, VpnLinkConn, UplinkQueue];
                   acts = [Acquire TunDevice, Acquire VpnLinkConn, SayConnected, Acquire UplinkQueue]
               in (case (if gameProcesses \<noteq> [] then vo_glue out else None) of
                     Some e \<Rightarrow> (acts @ deferred opened, Some (DialGlueFailed e))
                   | None \<Rightarrow>
                       let acts1 = acts @ (if gameProcesses \<noteq> [] then [Acquire (GlueChannel n)] else []) in
                       (case first_report reports of
                          None \<Rightarrow> (acts1, None)
                        | Some e \<Rightarrow> (acts1 @ deferred opened, Some e)))))"

section \<open>The tun mode\<close>

definition runTunMode :: "string option \<Rightarrow> dial_failure option \<Rightarrow> int \<Rightarrow> mode_error list \<Rightarrow> outcome_of_mode" where
  "runTunMode tun_error glue_error paths reports =
     (case tun_error of
        Some e \<Rightarrow> ([], Some (CreateTun e))
      | None \<Rightarrow>
          (case glue_error of
             Some e \<Rightarrow> (Acquire TunDevice # deferred [TunDevice], Some (DialGlueFailed e))
           | None \<Rightarrow>
               let acts = [Acquire TunDevice, Acquire (GlueChannel (nat (max 1 paths)))] in
               (case first_report reports of None \<Rightarrow> (acts, None) | Some e \<Rightarrow> (acts @ deferred [TunDevice], Some e))))"

section \<open>The socks mode\<close>

definition runSocksMode :: "dial_failure option \<Rightarrow> string option \<Rightarrow> mode_error list \<Rightarrow> outcome_of_mode" where
  "runSocksMode dial_error listen_error reports =
     (case dial_error of
        Some e \<Rightarrow> ([], Some (DialServerFailed e))
      | None \<Rightarrow>
          (case listen_error of
             Some e \<Rightarrow> (Acquire SocksConn # deferred [SocksConn], Some (ListenFailed e))
           | None \<Rightarrow>
               let acts = [Acquire SocksConn, Acquire SocksListener] in
               (case first_report reports of
                  None \<Rightarrow> (acts, None)
                | Some e \<Rightarrow> (acts @ deferred [SocksConn, SocksListener], Some e))))"

text \<open>The accept loop: a closed listener ends it, any other error is only logged.\<close>

datatype accepted_app = Accepted nat | AcceptClosed | AcceptError string

fun socks_accept :: "accepted_app list \<Rightarrow> nat list" where
  "socks_accept [] = []"
| "socks_accept (a # as) =
     (case a of
        Accepted c \<Rightarrow> c # socks_accept as
      | AcceptClosed \<Rightarrow> []
      | AcceptError e \<Rightarrow> socks_accept as)"

section \<open>Nothing stays open\<close>

text \<open>The resources held after some actions; releasing one that is not held does nothing.\<close>

fun holding :: "action list \<Rightarrow> resource list \<Rightarrow> resource list" where
  "holding [] hs = hs"
| "holding (Acquire r # as) hs = holding as (hs @ [r])"
| "holding (Release r # as) hs = holding as (remove1 r hs)"
| "holding (SayConnected # as) hs = holding as hs"

lemma first_report_hd: "first_report reports = (case reports of [] \<Rightarrow> None | e # es \<Rightarrow> Some e)"
proof -
  have "foldl report_error (Some e) es = Some e" for e and es :: "mode_error list"
    by (induction es) (simp_all add: report_error_def)
  then show ?thesis by (cases reports) (simp_all add: first_report_def report_error_def)
qed

text \<open>The glue channel has no close: its goroutines end with the process.\<close>

definition closable :: "resource \<Rightarrow> bool" where
  "closable r \<longleftrightarrow> (case r of GlueChannel n \<Rightarrow> False | _ \<Rightarrow> True)"

text \<open>A mode of the client that returns leaves no device, connection, queue or listener behind, whichever step failed,
  and returns the first error that was reported; a mode that is not told to stop keeps everything open. The
  glue channel is opened only if games are configured, and the line the tray waits for is printed only once
  the vpn connection stands.\<close>

lemma modes_leave_nothing:
  "(\<forall>acts e. runVPNMode out games paths reports = (acts, Some e) \<longrightarrow> filter closable (holding acts []) = []) \<and>
   (\<forall>acts e. runTunMode tun_error glue_error n reports = (acts, Some e) \<longrightarrow> filter closable (holding acts []) = []) \<and>
   (\<forall>acts e. runSocksMode dial_error listen_error reports = (acts, Some e) \<longrightarrow> filter closable (holding acts []) = []) \<and>
   (let acts = fst (runVPNMode out games paths reports) in
      (\<forall>k. Acquire (GlueChannel k) \<in> set acts \<longrightarrow> games \<noteq> [] \<and> k = paths) \<and>
      (SayConnected \<in> set acts \<longleftrightarrow> vo_tun out = None \<and> vo_dial out = None) \<and>
      (SayConnected \<in> set acts \<longrightarrow> takeWhile (\<lambda>a. a \<noteq> SayConnected) acts = [Acquire TunDevice, Acquire VpnLinkConn])) \<and>
   (vo_tun out = None \<and> vo_dial out = None \<and> (games = [] \<or> vo_glue out = None) \<longrightarrow>
      snd (runVPNMode out games paths reports) = (case reports of [] \<Rightarrow> None | e # es \<Rightarrow> Some e))"
proof -
  have v: "filter closable (holding acts []) = []" if "runVPNMode out games paths reports = (acts, Some e)" for acts e
    using that by (auto simp: runVPNMode_def deferred_def Let_def closable_def split: option.splits if_splits)
  have t: "filter closable (holding acts []) = []" if "runTunMode tun_error glue_error n reports = (acts, Some e)" for acts e
    using that by (auto simp: runTunMode_def deferred_def Let_def closable_def split: option.splits if_splits)
  have s: "filter closable (holding acts []) = []" if "runSocksMode dial_error listen_error reports = (acts, Some e)" for acts e
    using that by (auto simp: runSocksMode_def deferred_def Let_def closable_def split: option.splits if_splits)
  have c: "let acts = fst (runVPNMode out games paths reports) in
      (\<forall>k. Acquire (GlueChannel k) \<in> set acts \<longrightarrow> games \<noteq> [] \<and> k = paths) \<and>
      (SayConnected \<in> set acts \<longleftrightarrow> vo_tun out = None \<and> vo_dial out = None) \<and>
      (SayConnected \<in> set acts \<longrightarrow> takeWhile (\<lambda>a. a \<noteq> SayConnected) acts = [Acquire TunDevice, Acquire VpnLinkConn])"
    by (auto simp: runVPNMode_def deferred_def Let_def split: option.splits)
  have f: "vo_tun out = None \<and> vo_dial out = None \<and> (games = [] \<or> vo_glue out = None) \<longrightarrow>
      snd (runVPNMode out games paths reports) = (case reports of [] \<Rightarrow> None | e # es \<Rightarrow> Some e)"
    by (auto simp: runVPNMode_def Let_def first_report_hd split: list.splits)
  show ?thesis using v t s c f by blast
qed

end
