(* ===== verification/DropClient.thy ===== *)
theory DropClient
  imports DropChannel NetText
begin

text \<open>
  cmd/client/droptest.go: the client of the droppable test channel, against the server's side of it (DropChannel).
  \<open>over i\<close> is how much later than planned frame \<open>i\<close> is written (a sleep that takes longer, a slow system call) and
  reaches the server beyond the shortest delay, \<open>pause i\<close> what else the loop takes for it; the sleeps themselves
  are those of the source.
\<close>

section \<open>The frames and when they are written\<close>

definition drop_frame :: "nat \<Rightarrow> time \<Rightarrow> frame" where
  "drop_frame i now = frame_new (of_nat i) now (str_bytes (''frame #'' @ itoa i))"

definition drop_delays :: "duration list" where
  "drop_delays = [0, 0, 300 * ms, 0, 400 * ms, 0]"

text \<open>For each frame, the instants of \<^verbatim>\<open>frame.New\<close> and of the write; 20 ms after a write the next frame is made.\<close>

fun test_times :: "(nat \<Rightarrow> duration) \<Rightarrow> (nat \<Rightarrow> duration) \<Rightarrow> duration list \<Rightarrow> nat \<Rightarrow> time \<Rightarrow> (nat \<times> time \<times> time) list" where
  "test_times over pause [] i t = []"
| "test_times over pause (d # ds) i t =
     (let w = t + d + over i in (i, t, w) # test_times over pause ds (Suc i) (w + 20 * ms + pause i))"

datatype drop_setup = DropDial | DropAuth | DropSessionID | DropReady

text \<open>What is written, with the instants, until a write fails.\<close>

definition runDropTest ::
  "drop_setup \<Rightarrow> (nat \<Rightarrow> bool) \<Rightarrow> (nat \<Rightarrow> duration) \<Rightarrow> (nat \<Rightarrow> duration) \<Rightarrow> time \<Rightarrow> (time \<times> frame) list" where
  "runDropTest start ok over pause t0 =
     (if start \<noteq> DropReady then []
      else map (\<lambda>(i, c, w). (w, drop_frame i c)) (takeWhile (\<lambda>x. ok (fst x)) (test_times over pause drop_delays 0 t0)))"

text \<open>\<^verbatim>\<open>runDropStress\<close>: frame \<open>i\<close> is made at \<open>made i\<close> and written at once; the number written is what it reports.\<close>

definition runDropStress :: "drop_setup \<Rightarrow> (nat \<Rightarrow> bool) \<Rightarrow> nat \<Rightarrow> (nat \<Rightarrow> time) \<Rightarrow> (time \<times> frame) list \<times> nat" where
  "runDropStress start ok frames made =
     (if start \<noteq> DropReady then ([], 0)
      else let sent = takeWhile ok [0..<frames] in (map (\<lambda>i. (made i, drop_frame i (made i))) sent, length sent))"

text \<open>\<^verbatim>\<open>runDropMultipath\<close>: the wire bytes of each frame on every path whose write works; the error of one path stops nothing.\<close>

definition runDropMultipath :: "(nat \<Rightarrow> nat \<Rightarrow> bool) \<Rightarrow> nat \<Rightarrow> nat \<Rightarrow> (nat \<Rightarrow> time) \<Rightarrow> (nat \<times> bytes) list" where
  "runDropMultipath ok frames paths made =
     concat (map (\<lambda>i. map (\<lambda>k. (k, marshal (drop_frame i (made i)))) (filter (ok i) [0..<paths])) [0..<frames])"

lemma drop_frame_fits: "i < 10 ^ 10 \<Longrightarrow> fits (drop_frame i now)"
  using itoa_length [of i 9] by (simp add: drop_frame_def fits_def frame_new_def str_bytes_def MaxPayload_def)

section \<open>A receiver in a steady stream\<close>

text \<open>
  The receiver has seen frames up to \<open>n\<close>; the smallest difference of clocks it has seen in each of its two windows is between
  the delay \<open>L\<close> and \<open>L + J\<close>, and the current window began at \<open>w\<close>.
\<close>

definition in_stream :: "receiver \<Rightarrow> nat \<Rightarrow> duration \<Rightarrow> duration \<Rightarrow> time \<Rightarrow> bool" where
  "in_stream r n L J w \<longleftrightarrow> haveTop r \<and> rtop r = of_nat n \<and> haveOffset r \<and> maxAge r = 150 * ms \<and> windowStart r = w \<and>
     L \<le> prevMinOffset r \<and> prevMinOffset r < L + J \<and> L \<le> curMinOffset r \<and> curMinOffset r < L + J"

lemma sint64_word_of_int:
  assumes "- (2 ^ 63) \<le> k" "k < 2 ^ 63"
  shows "sint (word_of_int k :: u64) = k"
proof -
  have "sint (word_of_int k :: u64) = signed_take_bit 63 k" by (simp only: sint_sbintrunc') simp
  also have "\<dots> = k" using assms by (intro signed_take_bit_int_eq_self) auto
  finally show ?thesis .
qed

text \<open>The timestamp of a frame is its instant rounded down to a millisecond.\<close>

lemma sent_stamp:
  assumes "unix_epoch \<le> c" "c < unix_epoch + 2 ^ 62"
  shows "unix_milli (sint (f_ts (drop_frame i c))) \<le> c \<and> c < unix_milli (sint (f_ts (drop_frame i c))) + ms"
proof -
  define m where "m = to_unix_milli c"
  have m: "m * 1000000 \<le> c - unix_epoch" "c - unix_epoch < (m + 1) * 1000000" "0 \<le> m"
    using assms(1) by (simp_all add: m_def to_unix_milli_def)
  then have "m < 2 ^ 63" using assms(2) by simp
  then have "sint (f_ts (drop_frame i c)) = m"
    using sint64_word_of_int [of m] m(3) by (simp add: drop_frame_def frame_new_def m_def)
  then show ?thesis using m by (simp add: unix_milli_def ms_def)
qed


lemma raw_range:
  assumes "unix_epoch \<le> c" "c < unix_epoch + 2 ^ 61" "c + L \<le> a" "a < c + L + D" "0 \<le> L" "L < 2 ^ 61" "0 \<le> D" "D < 2 ^ 60"
  shows "L \<le> time_sub a (unix_milli (sint (f_ts (drop_frame i c)))) \<and>
    time_sub a (unix_milli (sint (f_ts (drop_frame i c)))) < L + D + ms"
proof -
  let ?u = "unix_milli (sint (f_ts (drop_frame i c)))"
  have u: "?u \<le> c" "c < ?u + ms" using sent_stamp [of c i] assms(1,2) by simp_all
  then have "time_sub a ?u = a - ?u" using assms by (intro time_sub_exact) (simp add: ms_def)
  then show ?thesis using u assms by simp
qed

text \<open>The first frame, a frame in time, and one that is late.\<close>

lemma first_in_stream:
  assumes "L \<le> raw" "raw < L + J" "J \<le> 150 * ms" "raw = time_sub a (unix_milli (sint (f_ts f)))" "f_seq f = of_nat n" "0 \<le> J"
  shows "\<exists>r'. accept (NewReceiver (150 * ms)) a f = (r', True, '''') \<and> lateSince r' = 0 \<and> in_stream r' n L J a"
  using assms by (simp add: accept_def NewReceiver_def track_offset_def offsetWindow_def sec_def accept_seq_def Let_def in_stream_def dur_wrap_def ms_def)

lemma ahead: "n < m \<Longrightarrow> m \<le> maxDropSeen \<Longrightarrow> 0 < sint (of_nat m - of_nat n :: u32)"
proof -
  assume "n < m" "m \<le> maxDropSeen"
  then have b: "0 < int m - int n" "int m - int n < 2 ^ 31" by (simp_all add: maxDropSeen_def)
  have "(of_nat m - of_nat n :: u32) = word_of_int (int m - int n)" by simp
  then show ?thesis using sint32_word_of_int [of "int m - int n"] b by simp
qed

lemma next_in_stream:
  assumes r: "in_stream r n L J w" and raw: "L \<le> raw" "raw < L + J" "J \<le> 150 * ms" "raw = time_sub a (unix_milli (sint (f_ts f)))"
    and f: "f_seq f = of_nat m" "n < m" "m \<le> maxDropSeen"
  shows "\<exists>r'. accept r a f = (r', True, '''') \<and> lateSince r' = 0 \<and> in_stream r' m L J (if offsetWindow \<le> time_sub a w then a else w)"
proof -
  let ?t = "track_offset r a raw"
  have t: "in_stream ?t n L J (if offsetWindow \<le> time_sub a w then a else w)"
    using r raw(1,2) by (auto simp: in_stream_def track_offset_def Let_def)
  define b where "b = min (prevMinOffset ?t) (curMinOffset ?t)"
  have b: "L \<le> b" "b \<le> raw" "maxAge ?t = 150 * ms" using t r
    by (auto simp: b_def in_stream_def) (auto simp: track_offset_def Let_def)
  have "dur_wrap (raw - b) = raw - b" by (rule dur_wrap_exact) (use b raw(1-3) in \<open>simp_all add: ms_def\<close>)
  then have "accept r a f = accept_seq (?t\<lparr>lateSince := 0\<rparr>) f"
    using b raw(1-3) by (simp add: accept_def Let_def raw(4) [symmetric] b_def [symmetric])
  moreover have "0 < sint (f_seq f - rtop (?t\<lparr>lateSince := 0\<rparr>))" "haveTop (?t\<lparr>lateSince := 0\<rparr>)"
    using t f ahead by (simp_all add: in_stream_def)
  ultimately show ?thesis using t f by (simp add: accept_seq_def Let_def in_stream_def)
qed

lemma late_in_stream:
  assumes r: "in_stream r n L J w" and raw: "L + J + 150 * ms \<le> raw" "raw < L + 2 ^ 62" "raw = time_sub a (unix_milli (sint (f_ts f)))"
    and w: "\<not> offsetWindow \<le> time_sub a w" and J: "0 \<le> J" "J < 2 ^ 60" and late: "lateSince r = 0"
  shows "\<exists>r'. accept r a f = (r', False, ''ttl exceeded'') \<and> in_stream r' n L J w"
proof -
  have t: "track_offset r a raw = r" using r raw(1) w J by (auto simp: in_stream_def track_offset_def Let_def ms_def)
  define b where "b = min (prevMinOffset r) (curMinOffset r)"
  have b: "L \<le> b" "b < L + J" "maxAge r = 150 * ms" using r by (auto simp: b_def in_stream_def)
  have "dur_wrap (raw - b) = raw - b" by (rule dur_wrap_exact) (use b raw(1,2) J in \<open>simp_all add: ms_def\<close>)
  then have "accept r a f = (r\<lparr>lateSince := a\<rparr>, False, ''ttl exceeded'')"
    using b raw(1,2) t late by (simp add: accept_def Let_def raw(3) [symmetric] b_def [symmetric] rebaselineAfter_def sec_def)
  then show ?thesis using r by (simp add: in_stream_def)
qed


section \<open>The server's counters\<close>

text \<open>Frames \<open>0\<close> to \<open>k - 1\<close> were recorded, \<open>a\<close> of them accepted, the others late.\<close>

definition counted_to :: "dropSession \<Rightarrow> nat \<Rightarrow> nat \<Rightarrow> bool" where
  "counted_to s k a \<longleftrightarrow> fset (d_seen s) = of_nat ` {..<k} \<and> accepted s = a \<and> ttlDropped s + a = k \<and> duplicates s = 0"

lemma counted_fresh:
  assumes "counted_to s k a" "k \<le> maxDropSeen"
  shows "of_nat k |\<notin>| d_seen s" "fcard (d_seen s) = k"
proof -
  have inj: "i = j" if "i \<le> maxDropSeen" "j \<le> maxDropSeen" "(of_nat i :: u32) = of_nat j" for i j
  proof (rule of_nat_u32_inj [of "{..maxDropSeen}"])
    show "close_set {..maxDropSeen}" unfolding close_set_def
    proof (intro ballI)
      fix i j assume "i \<in> {..maxDropSeen}" "j \<in> {..maxDropSeen}"
      then have "int i \<le> 100000" "int j \<le> 100000" by (simp_all add: maxDropSeen_def)
      then have "\<bar>int i - int j\<bar> \<le> 100000" by linarith
      then show "\<bar>int i - int j\<bar> < 2 ^ 31" by simp
    qed
  qed (rule that(3) | use that(1,2) in simp)+
  have "(of_nat k :: u32) \<notin> of_nat ` {..<k}"
  proof
    assume "(of_nat k :: u32) \<in> of_nat ` {..<k}"
    then obtain i where "(of_nat k :: u32) = of_nat i" "i < k" by blast
    then show False using inj [of k i] assms(2) by simp
  qed
  then show "of_nat k |\<notin>| d_seen s" using assms(1) by (simp only: counted_to_def not_False_eq_True)
  have "inj_on (of_nat :: nat \<Rightarrow> u32) {..<k}" using inj assms(2) by (auto simp: inj_on_def)
  then show "fcard (d_seen s) = k" using assms(1) by (simp add: counted_to_def fcard.rep_eq card_image)
qed

lemma record_ok:
  assumes "counted_to s k a" "k < maxDropSeen" "accept (d_recv s) now f = (r', True, '''')" "f_seq f = of_nat k"
  shows "counted_to (fst (record_frame s now f)) (Suc k) (Suc a) \<and> d_recv (fst (record_frame s now f)) = r'"
  using assms counted_fresh [of s k a] by (auto simp: record_frame_def counted_to_def lessThan_Suc Let_def)

lemma record_late:
  assumes "counted_to s k a" "k < maxDropSeen" "accept (d_recv s) now f = (r', False, ''ttl exceeded'')" "f_seq f = of_nat k"
  shows "counted_to (fst (record_frame s now f)) (Suc k) a \<and> d_recv (fst (record_frame s now f)) = r'"
  using assms counted_fresh [of s k a] by (auto simp: record_frame_def counted_to_def lessThan_Suc Let_def)

lemma drop_frame_seq [simp]: "f_seq (drop_frame i now) = of_nat i"
  by (simp add: drop_frame_def frame_new_def)

lemma new_counted: "counted_to new_drop_session 0 0"
  by (simp add: counted_to_def new_drop_session_def)

lemma lost_of_counted: "counted_to s k a \<Longrightarrow> k \<le> maxDropSeen \<Longrightarrow> sm_lost (summary s) = int (ttlDropped s)"
  using counted_fresh(2) [of s k a] by (simp add: sm_lost_eq) (simp add: counted_to_def)

lemma takeWhile_True: "takeWhile (\<lambda>_. True) xs = xs"
  by (induction xs) simp_all

text \<open>A stress test loses nothing on a network whose delays differ by less than 149 ms: whatever the clocks of client and
  server, however long it runs (up to the number of frames the server remembers), every frame that was
  written is accepted, and the summary reports no loss, no late frame and no duplicate.\<close>

theorem stress_loses_nothing:
  assumes "frames \<le> maxDropSeen" "0 \<le> L" "L < 2 ^ 61"
    and "\<And>i. unix_epoch \<le> made i \<and> made i < unix_epoch + 2 ^ 61"
    and "\<And>i. made i + L \<le> arrives i \<and> arrives i < made i + L + 149 * ms"
    and "runDropStress DropReady (\<lambda>_. True) frames made = (sent, n)"
    and "s = record_all new_drop_session (map (\<lambda>i. (arrives i, snd (sent ! i))) [0..<n])"
  shows "n = frames \<and> accepted s = n \<and> sm_lost (summary s) = 0 \<and> ttlDropped s = 0 \<and> duplicates s = 0"
proof -
  have sent: "sent = map (\<lambda>i. (made i, drop_frame i (made i))) [0..<frames]" "n = frames"
    using assms(6) takeWhile_True [of "[0..<frames]"] by (auto simp: runDropStress_def Let_def simp del: takeWhile_eq_all_conv)
  have raw: "L \<le> time_sub (arrives i) (unix_milli (sint (f_ts (drop_frame i (made i))))) \<and>
      time_sub (arrives i) (unix_milli (sint (f_ts (drop_frame i (made i))))) < L + 150 * ms" for i
    using raw_range [of "made i" L "arrives i" "149 * ms" i] assms(2-5) by (simp add: ms_def)
  have "k \<le> frames \<Longrightarrow> (let s = record_all new_drop_session (map (\<lambda>i. (arrives i, drop_frame i (made i))) [0..<k]) in
      counted_to s k k \<and> (if k = 0 then d_recv s = NewReceiver (150 * ms) else \<exists>w. in_stream (d_recv s) (k - 1) L (150 * ms) w))" for k
  proof (induction k)
    case 0
    show ?case using new_counted by (simp add: new_drop_session_def)
  next
    case (Suc k)
    let ?f = "drop_frame k (made k)"
    define s where "s = record_all new_drop_session (map (\<lambda>i. (arrives i, drop_frame i (made i))) [0..<k])"
    have s: "counted_to s k k" "k < maxDropSeen" using Suc assms(1) by (simp_all add: s_def Let_def)
    have "\<exists>r' w. accept (d_recv s) (arrives k) ?f = (r', True, '''') \<and> in_stream r' k L (150 * ms) w"
    proof (cases k)
      case 0
      then have "d_recv s = NewReceiver (150 * ms)" using Suc by (simp add: s_def Let_def)
      then show ?thesis using first_in_stream [OF _ _ _ refl, of L "arrives k" ?f "150 * ms" k] raw [of k] by (auto simp: ms_def)
    next
      case (Suc j)
      then obtain w where "in_stream (d_recv s) j L (150 * ms) w" using Suc.IH Suc.prems by (auto simp: s_def Let_def)
      from next_in_stream [OF this _ _ _ refl, of "arrives k" ?f k] raw [of k] Suc s(2) show ?thesis by auto
    qed
    then obtain r' w where r: "accept (d_recv s) (arrives k) ?f = (r', True, '''')" "in_stream r' k L (150 * ms) w" by blast
    have "record_all new_drop_session (map (\<lambda>i. (arrives i, drop_frame i (made i))) [0..<Suc k]) = fst (record_frame s (arrives k) ?f)"
      by (simp add: record_all_def s_def)
    then show ?case using record_ok [OF s r(1) drop_frame_seq] r(2) by (auto simp: Let_def)
  qed
  moreover have "map (\<lambda>i. (arrives i, snd (sent ! i))) [0..<n] = map (\<lambda>i. (arrives i, drop_frame i (made i))) [0..<frames]"
    unfolding sent(2) by (intro map_cong refl) (simp add: sent(1))
  ultimately have "counted_to s frames frames" using assms(7) by (auto simp: Let_def)
  then show ?thesis using lost_of_counted [of s frames frames] assms(1) sent(2) by (simp add: counted_to_def)
qed


section \<open>The test with delays\<close>

lemma step_in_time:
  assumes "counted_to s k a" "k < maxDropSeen" "in_stream (d_recv s) n L J w" "n < k" "J \<le> 150 * ms"
    and "L \<le> time_sub now (unix_milli (sint (f_ts f)))" "time_sub now (unix_milli (sint (f_ts f))) < L + J" "f_seq f = of_nat k"
    and "\<not> offsetWindow \<le> time_sub now w"
  shows "let s' = fst (record_frame s now f) in counted_to s' (Suc k) (Suc a) \<and> in_stream (d_recv s') k L J w \<and> lateSince (d_recv s') = 0"
proof -
  from next_in_stream [OF assms(3,6,7,5) refl assms(8,4)] obtain r' where
    r: "accept (d_recv s) now f = (r', True, '''')" "lateSince r' = 0" "in_stream r' k L J w" using assms(2,9) by auto
  show ?thesis using record_ok [OF assms(1,2) r(1) assms(8)] r(2,3) unfolding Let_def by metis
qed

lemma step_late:
  assumes "counted_to s k a" "k < maxDropSeen" "in_stream (d_recv s) n L J w" "0 \<le> J" "J < 2 ^ 60" "lateSince (d_recv s) = 0"
    and "L + J + 150 * ms \<le> time_sub now (unix_milli (sint (f_ts f)))" "time_sub now (unix_milli (sint (f_ts f))) < L + 2 ^ 62" "f_seq f = of_nat k"
    and "\<not> offsetWindow \<le> time_sub now w"
  shows "let s' = fst (record_frame s now f) in counted_to s' (Suc k) a \<and> in_stream (d_recv s') n L J w"
proof -
  from late_in_stream [OF assms(3,7,8) refl assms(10,4,5,6)] obtain r' where
    r: "accept (d_recv s) now f = (r', False, ''ttl exceeded'')" "in_stream r' n L J w" by (elim exE conjE)
  show ?thesis using record_late [OF assms(1,2) r(1) assms(9)] r(2) unfolding Let_def by metis
qed


text \<open>A frame of the test arrives \<open>L\<close> after it was written, in time or after a sleep of \<open>d\<close> that was not over before.\<close>

lemma test_frame_raw:
  assumes "unix_epoch \<le> c" "c < unix_epoch + 2 ^ 61" "0 \<le> L" "L < 2 ^ 60" "0 \<le> d" "d < 2 ^ 60" "0 \<le> x" "x < 100 * ms"
  shows "L + d \<le> time_sub (c + d + x + L) (unix_milli (sint (f_ts (drop_frame i c)))) \<and>
    time_sub (c + d + x + L) (unix_milli (sint (f_ts (drop_frame i c)))) < L + d + 101 * ms"
  using raw_range [of c "L + d" "c + d + x + L" "100 * ms" i] assms by (simp add: ms_def)

lemma test_times_list:
  "map (\<lambda>(w, f). (w + L, f)) (runDropTest DropReady (\<lambda>_. True) over pause c0) =
     (let w0 = c0 + 0 + over 0; c1 = w0 + 20 * ms + pause 0; w1 = c1 + 0 + over 1; c2 = w1 + 20 * ms + pause 1;
          w2 = c2 + 300 * ms + over 2; c3 = w2 + 20 * ms + pause 2; w3 = c3 + 0 + over 3; c4 = w3 + 20 * ms + pause 3;
          w4 = c4 + 400 * ms + over 4; c5 = w4 + 20 * ms + pause 4; w5 = c5 + 0 + over 5
      in [(w0 + L, drop_frame 0 c0), (w1 + L, drop_frame 1 c1), (w2 + L, drop_frame 2 c2), (w3 + L, drop_frame 3 c3),
          (w4 + L, drop_frame 4 c4), (w5 + L, drop_frame 5 c5)])"
  by (simp add: runDropTest_def drop_delays_def Let_def takeWhile_True numeral_eq_Suc del: takeWhile_eq_all_conv)

definition clock_diff :: "time \<Rightarrow> frame \<Rightarrow> duration" where
  "clock_diff a f = time_sub a (unix_milli (sint (f_ts f)))"

definition in_time :: "duration \<Rightarrow> time \<Rightarrow> time \<Rightarrow> frame \<Rightarrow> bool" where
  "in_time L w a f \<longleftrightarrow> L \<le> clock_diff a f \<and> clock_diff a f < L + 101 * ms \<and> \<not> offsetWindow \<le> time_sub a w"

definition held_back :: "duration \<Rightarrow> time \<Rightarrow> time \<Rightarrow> frame \<Rightarrow> bool" where
  "held_back L w a f \<longleftrightarrow> L + 300 * ms \<le> clock_diff a f \<and> clock_diff a f < L + 501 * ms \<and> \<not> offsetWindow \<le> time_sub a w"

text \<open>Six frames, the third and the fifth held back.\<close>

lemma six_frames:
  assumes "in_time L a0 a0 f0" "in_time L a0 a1 f1" "held_back L a0 a2 f2" "in_time L a0 a3 f3" "held_back L a0 a4 f4" "in_time L a0 a5 f5"
    and q: "f_seq f0 = of_nat 0" "f_seq f1 = of_nat 1" "f_seq f2 = of_nat 2" "f_seq f3 = of_nat 3" "f_seq f4 = of_nat 4" "f_seq f5 = of_nat 5"
    and s: "s = record_all new_drop_session [(a0, f0), (a1, f1), (a2, f2), (a3, f3), (a4, f4), (a5, f5)]"
  shows "counted_to s 6 4"
proof -
  note d = in_time_def held_back_def clock_diff_def maxDropSeen_def ms_def Let_def
  define s1 where "s1 = fst (record_frame new_drop_session a0 f0)"
  define s2 where "s2 = fst (record_frame s1 a1 f1)"
  define s3 where "s3 = fst (record_frame s2 a2 f2)"
  define s4 where "s4 = fst (record_frame s3 a3 f3)"
  define s5 where "s5 = fst (record_frame s4 a4 f4)"
  have s6: "s = fst (record_frame s5 a5 f5)" by (simp add: s s1_def s2_def s3_def s4_def s5_def)
  obtain r where r: "accept (NewReceiver (150 * ms)) a0 f0 = (r, True, '''')" "in_stream r 0 L (101 * ms) a0"
    using first_in_stream [OF _ _ _ refl, of L a0 f0 "101 * ms" 0] assms(1) q(1) by (auto simp: d)
  have "d_recv new_drop_session = NewReceiver (150 * ms)" by (simp add: new_drop_session_def)
  then have 1: "counted_to s1 1 1" "in_stream (d_recv s1) 0 L (101 * ms) a0"
    using record_ok [OF new_counted, of a0 f0 r] r q(1) by (simp_all add: s1_def maxDropSeen_def)
  have 2: "counted_to s2 2 2" "in_stream (d_recv s2) 1 L (101 * ms) a0" "lateSince (d_recv s2) = 0"
    using step_in_time [OF 1(1), of 0 L "101 * ms" a0 a1 f1] 1(2) assms(2) q(2) by (simp_all add: s2_def d numeral_2_eq_2)
  have 3: "counted_to s3 3 2" "in_stream (d_recv s3) 1 L (101 * ms) a0"
    using step_late [OF 2(1), of 1 L "101 * ms" a0 a2 f2] 2(2,3) assms(3) q(3) by (simp_all add: s3_def d numeral_3_eq_3)
  have 4: "counted_to s4 4 3" "in_stream (d_recv s4) 3 L (101 * ms) a0" "lateSince (d_recv s4) = 0"
    using step_in_time [OF 3(1), of 1 L "101 * ms" a0 a3 f3] 3(2) assms(4) q(4) by (simp_all add: s4_def d)
  have 5: "counted_to s5 5 3" "in_stream (d_recv s5) 3 L (101 * ms) a0"
    using step_late [OF 4(1), of 3 L "101 * ms" a0 a4 f4] 4(2,3) assms(5) q(5) by (simp_all add: s5_def d)
  show ?thesis
    using step_in_time [OF 5(1), of 3 L "101 * ms" a0 a5 f5] 5(2) assms(6) q(6) by (simp_all add: s6 d)
qed

lemma test_arrivals:
  assumes "0 \<le> L" "L < 2 ^ 60" "unix_epoch \<le> t0" "t0 < unix_epoch + 2 ^ 60"
    and over: "\<And>i. 0 \<le> over i \<and> over i < 100 * ms" and pause: "\<And>i. 0 \<le> pause i \<and> pause i \<le> 500 * ms"
  shows "\<exists>a0 a1 a2 a3 a4 a5 c0 c1 c2 c3 c4 c5.
    map (\<lambda>(w, f). (w + L, f)) (runDropTest DropReady (\<lambda>_. True) over pause t0) =
      [(a0, drop_frame 0 c0), (a1, drop_frame 1 c1), (a2, drop_frame 2 c2), (a3, drop_frame 3 c3), (a4, drop_frame 4 c4), (a5, drop_frame 5 c5)] \<and>
    in_time L a0 a0 (drop_frame 0 c0) \<and> in_time L a0 a1 (drop_frame 1 c1) \<and> held_back L a0 a2 (drop_frame 2 c2) \<and>
    in_time L a0 a3 (drop_frame 3 c3) \<and> held_back L a0 a4 (drop_frame 4 c4) \<and> in_time L a0 a5 (drop_frame 5 c5)"
proof -
  note o = over [of 0] over [of 1] over [of 2] over [of 3] over [of 4] over [of 5]
  note p = pause [of 0] pause [of 1] pause [of 2] pause [of 3] pause [of 4]
  define w0 where "w0 = t0 + 0 + over 0"
  define c1 where "c1 = w0 + 20 * ms + pause 0"
  define w1 where "w1 = c1 + 0 + over 1"
  define c2 where "c2 = w1 + 20 * ms + pause 1"
  define w2 where "w2 = c2 + 300 * ms + over 2"
  define c3 where "c3 = w2 + 20 * ms + pause 2"
  define w3 where "w3 = c3 + 0 + over 3"
  define c4 where "c4 = w3 + 20 * ms + pause 3"
  define w4 where "w4 = c4 + 400 * ms + over 4"
  define c5 where "c5 = w4 + 20 * ms + pause 4"
  define w5 where "w5 = c5 + 0 + over 5"
  note defs = w0_def c1_def w1_def c2_def w2_def c3_def w3_def c4_def w4_def c5_def w5_def
  have eq: "map (\<lambda>(w, f). (w + L, f)) (runDropTest DropReady (\<lambda>_. True) over pause t0) =
      [(w0 + L, drop_frame 0 t0), (w1 + L, drop_frame 1 c1), (w2 + L, drop_frame 2 c2),
       (w3 + L, drop_frame 3 c3), (w4 + L, drop_frame 4 c4), (w5 + L, drop_frame 5 c5)]"
    unfolding test_times_list by (simp only: Let_def defs)
  have le: "t0 \<le> w0" "w0 \<le> c1" "c1 \<le> w1" "w1 \<le> c2" "c2 \<le> w2" "w2 \<le> c3" "c3 \<le> w3" "w3 \<le> c4" "c4 \<le> w4" "w4 \<le> c5" "c5 \<le> w5"
    using o p by (simp_all add: defs ms_def)
  have fin: "w5 < w0 + 4 * sec" "w0 < t0 + sec" using o p by (simp_all add: defs ms_def sec_def)
  have c: "unix_epoch \<le> x" "x < unix_epoch + 2 ^ 61" if "x \<in> {t0, c1, c2, c3, c4, c5}" for x
    using that le fin assms(3,4) by (auto simp: sec_def)
  have win: "\<not> offsetWindow \<le> time_sub (x + L) (w0 + L)" if "w0 \<le> x" "x \<le> w5" for x
    using that fin time_sub_exact [of "x + L" "w0 + L"] by (simp add: offsetWindow_def sec_def)
  have raw: "L + d \<le> time_sub (x + d + over i + L) (unix_milli (sint (f_ts (drop_frame i x)))) \<and>
      time_sub (x + d + over i + L) (unix_milli (sint (f_ts (drop_frame i x)))) < L + d + 101 * ms"
    if "x \<in> {t0, c1, c2, c3, c4, c5}" "0 \<le> d" "d < 2 ^ 60" for x d i
    using test_frame_raw [OF c [OF that(1)] assms(1,2) that(2,3), of "over i" i] over [of i] by simp
  have late: "held_back L (w0 + L) (x + d + over i + L) (drop_frame i x)"
    if "x \<in> {t0, c1, c2, c3, c4, c5}" "d \<in> {300 * ms, 400 * ms}" "w0 \<le> x + d + over i" "x + d + over i \<le> w5" for x d i
    using raw [OF that(1), of d i] win [OF that(3,4)] that(2) by (auto simp: held_back_def clock_diff_def ms_def)
  have soon: "in_time L (w0 + L) (x + 0 + over i + L) (drop_frame i x)"
    if "x \<in> {t0, c1, c2, c3, c4, c5}" "w0 \<le> x + 0 + over i" "x + 0 + over i \<le> w5" for x i
    using raw [OF that(1), of 0 i] win [OF that(2,3)] by (auto simp: in_time_def clock_diff_def)
  have "in_time L (w0 + L) (w0 + L) (drop_frame 0 t0)" "in_time L (w0 + L) (w1 + L) (drop_frame 1 c1)"
    "held_back L (w0 + L) (w2 + L) (drop_frame 2 c2)" "in_time L (w0 + L) (w3 + L) (drop_frame 3 c3)"
    "held_back L (w0 + L) (w4 + L) (drop_frame 4 c4)" "in_time L (w0 + L) (w5 + L) (drop_frame 5 c5)"
    using soon [of t0 0] soon [of c1 1] late [of c2 "300 * ms" 2] soon [of c3 3] late [of c4 "400 * ms" 4] soon [of c5 5] le
    unfolding w0_def [symmetric] w1_def [symmetric] w2_def [symmetric] w3_def [symmetric] w4_def [symmetric] w5_def [symmetric] by simp_all
  note timed = this
  show ?thesis by (intro exI conjI) (fact eq timed)+
qed


section \<open>Concrete cases\<close>

theorem stress_loses_nothing_witness:
  "accepted (record_all new_drop_session
     (map (\<lambda>i. (unix_epoch + int i * ms + 5 * ms, snd (fst (runDropStress DropReady (\<lambda>_. True) 3 (\<lambda>i. unix_epoch + int (min i 3) * ms)) ! i))) [0..<3])) = 3"
proof -
  let ?made = "\<lambda>i. unix_epoch + int (min i 3) * ms"
  obtain sent n where r: "runDropStress DropReady (\<lambda>_. True) 3 ?made = (sent, n)" by force
  have m: "unix_epoch \<le> ?made i \<and> ?made i < unix_epoch + 2 ^ 61" for i by (auto simp: ms_def min_def)
  have a: "?made i + 5 * ms \<le> ?made i + 5 * ms \<and> ?made i + 5 * ms < ?made i + 5 * ms + 149 * ms" for i by (simp add: ms_def)
  have b: "3 \<le> maxDropSeen" "0 \<le> ms" "ms < 2 ^ 61" "0 \<le> 5 * ms" "5 * ms < 2 ^ 61" by (simp_all add: maxDropSeen_def ms_def)
  note st = stress_loses_nothing [OF b(1,4,5) m a r refl]
  have "n = 3" "accepted (record_all new_drop_session (map (\<lambda>i. (?made i + 5 * ms, snd (sent ! i))) [0..<3])) = 3"
    using conjunct1 [OF st] conjunct1 [OF conjunct2 [OF st]] by simp_all
  moreover have "map (\<lambda>i. (?made i + 5 * ms, snd (sent ! i))) [0..<3] = map (\<lambda>i. (unix_epoch + int i * ms + 5 * ms, snd (sent ! i))) [0..<3]"
    by (intro map_cong refl) simp
  ultimately show ?thesis using r by simp
qed


end
