(* ===== verification/TrayHost.thy ===== *)
theory TrayHost
  imports TrayWindow TrayClient Streams
begin

text \<open>
  cmd/tray/winapi.go, dpapi.go, job.go, main.go and the rest of client.go and ping.go: what the tray asks of Windows and of its
  window, and its start. The outcomes of system and GUI calls are arguments. Text that can hold any
  character (paths, status lines) is a list of runes.
\<close>

section \<open>Paths\<close>

definition backslash :: nat where "backslash = 92"

definition sep_rune :: "nat \<Rightarrow> bool" where
  "sep_rune r \<longleftrightarrow> r = backslash \<or> r = 47"

text \<open>The elements of a path as the loop of \<^verbatim>\<open>filepath.Clean\<close> finds them; empty ones are skipped.\<close>

fun path_elems :: "nat list \<Rightarrow> nat list \<Rightarrow> nat list list" where
  "path_elems cur [] = (if cur = [] then [] else [rev cur])"
| "path_elems cur (r # rs) =
     (if sep_rune r then (if cur = [] then [] else [rev cur]) @ path_elems [] rs else path_elems (r # cur) rs)"

text \<open>What it writes for a rooted path, as a stack: \<^verbatim>\<open>.\<close> is dropped, \<^verbatim>\<open>..\<close> takes the last element away.\<close>

fun clean_elems :: "nat list list \<Rightarrow> nat list list \<Rightarrow> nat list list" where
  "clean_elems out [] = rev out"
| "clean_elems out (e # es) =
     (if e = [46] then clean_elems out es
      else if e = [46, 46] then clean_elems (tl out) es
      else clean_elems (e # out) es)"

fun join_elems :: "nat list list \<Rightarrow> nat list" where
  "join_elems [] = []"
| "join_elems [e] = e"
| "join_elems (e # es) = e @ backslash # join_elems es"

text \<open>An absolute path on a drive: the drive letter and what follows its colon.\<close>

fun on_drive :: "nat list \<Rightarrow> (nat \<times> nat list) option" where
  "on_drive (d # c # s # rs) = (if c = 58 \<and> sep_rune s \<and> \<not> sep_rune d then Some (d, s # rs) else None)"
| "on_drive _ = None"

definition drive_elems :: "nat list \<Rightarrow> nat list list" where
  "drive_elems rest = clean_elems [] (path_elems [] rest)"

text \<open>\<^verbatim>\<open>filepath.Clean\<close>: \<open>other\<close> is what it does with a path that is not absolute on a drive.\<close>

definition Clean :: "(nat list \<Rightarrow> nat list) \<Rightarrow> nat list \<Rightarrow> nat list" where
  "Clean other p =
     (case on_drive p of
        Some (d, rest) \<Rightarrow> [d, 58, backslash] @ join_elems (drive_elems rest)
      | None \<Rightarrow> other p)"

text \<open>\<^verbatim>\<open>filepath.Join\<close> of two elements that are not empty.\<close>

definition Join :: "(nat list \<Rightarrow> nat list) \<Rightarrow> nat list \<Rightarrow> nat list \<Rightarrow> nat list" where
  "Join other dir n = Clean other (dir @ backslash # n)"

text \<open>\<open>lower\<close> is \<^verbatim>\<open>unicode.ToLower\<close>, which \<^verbatim>\<open>strings.ToLower\<close> applies to every rune.\<close>

definition isUnderDir :: "(nat list \<Rightarrow> nat list) \<Rightarrow> (nat \<Rightarrow> nat) \<Rightarrow> nat list \<Rightarrow> nat list \<Rightarrow> bool" where
  "isUnderDir other lower path folder =
     (if folder = [] then False
      else
        let p = map lower (Clean other path) @ [backslash];
            r = map lower (rev (dropWhile (\<lambda>c. c = backslash) (rev (Clean other folder)))) @ [backslash]
        in take (length r) p = r)"

text \<open>No other character becomes a backslash in lower case, and a backslash stays one.\<close>

definition lower_ok :: "(nat \<Rightarrow> nat) \<Rightarrow> bool" where
  "lower_ok lower \<longleftrightarrow> (\<forall>r. lower r = backslash \<longleftrightarrow> r = backslash)"

lemma path_elems_plain:
  "list_all (\<lambda>r. \<not> sep_rune r) cur \<Longrightarrow> e \<in> set (path_elems cur rs) \<Longrightarrow> e \<noteq> [] \<and> list_all (\<lambda>r. \<not> sep_rune r) e"
proof (induction cur rs rule: path_elems.induct)
  case (1 cur)
  then show ?case by (auto simp: list_all_iff split: if_splits)
next
  case (2 cur r rs)
  show ?case
  proof (cases "sep_rune r")
    case True
    then consider "e = rev cur" "cur \<noteq> []" | "e \<in> set (path_elems [] rs)" using 2(4) by (auto split: if_splits)
    then show ?thesis using 2(1) [OF True] 2(3) by cases (simp_all add: list_all_iff)
  next
    case False
    then show ?thesis using 2(2) [OF False] 2(3,4) by simp
  qed
qed

lemma clean_elems_subset: "set (clean_elems out es) \<subseteq> set out \<union> set es"
proof (induction out es rule: clean_elems.induct)
  case (2 out e es)
  have "set (tl out) \<subseteq> set out" by (cases out) auto
  then show ?case using 2 by (auto split: if_splits)
qed simp

lemma drive_elems_plain: "e \<in> set (drive_elems rest) \<Longrightarrow> e \<noteq> [] \<and> backslash \<notin> set e"
  using clean_elems_subset [of "[]" "path_elems [] rest"] path_elems_plain [of "[]" e rest]
  by (auto simp: drive_elems_def list_all_iff sep_rune_def)

text \<open>A path is compared with a separator after each element.\<close>

definition flat :: "nat list list \<Rightarrow> nat list" where
  "flat es = concat (map (\<lambda>e. e @ [backslash]) es)"

lemma flat_simps [simp]: "flat [] = []" "flat (e # es) = e @ backslash # flat es"
  by (simp_all add: flat_def)

lemma join_flat: "es \<noteq> [] \<Longrightarrow> join_elems es @ [backslash] = flat es"
  by (induction es rule: join_elems.induct) simp_all

lemma take_append_eq: "backslash \<notin> set a \<Longrightarrow> backslash \<notin> set b \<Longrightarrow> a @ backslash # xs = b @ backslash # ys \<longleftrightarrow> a = b \<and> xs = ys"
proof (induction a arbitrary: b)
  case Nil
  then show ?case by (cases b) auto
next
  case (Cons x a)
  then show ?case by (cases b) auto
qed

lemma flat_prefix:
  assumes "\<And>e. e \<in> set es \<union> set fs \<Longrightarrow> backslash \<notin> set e"
  shows "prefix (flat fs) (flat es) \<longleftrightarrow> prefix fs es"
  using assms
proof (induction fs arbitrary: es)
  case (Cons f fs)
  show ?case
  proof (cases es)
    case (Cons e es')
    have "prefix (flat (f # fs)) (flat (e # es')) \<longleftrightarrow> e = f \<and> prefix (flat fs) (flat es')"
      using Cons.prems [of e] Cons.prems [of f] Cons take_append_eq [of e f]
      by (auto simp: prefix_def)
    then show ?thesis using Cons.IH [of es'] Cons.prems Cons by auto
  qed simp
qed simp

lemma lower_elems: "lower_ok lower \<Longrightarrow> backslash \<notin> set (map lower e) \<longleftrightarrow> backslash \<notin> set e"
  unfolding lower_ok_def by (induction e) (simp_all, metis)

lemma map_flat: "lower_ok lower \<Longrightarrow> map lower (flat es) = flat (map (map lower) es)"
  by (induction es) (simp_all add: lower_ok_def)

lemma clean_drive: "on_drive p = Some (d, rest) \<Longrightarrow> Clean other p = [d, 58, backslash] @ join_elems (drive_elems rest)"
  by (simp add: Clean_def)

lemma trim_drive:
  assumes "on_drive p = Some (d, rest)"
  shows "rev (dropWhile (\<lambda>c. c = backslash) (rev (Clean other p))) @ [backslash] = [d, 58, backslash] @ flat (drive_elems rest)"
proof (cases "drive_elems rest" rule: rev_cases)
  case Nil
  then show ?thesis by (simp add: clean_drive [OF assms] backslash_def)
next
  case (snoc es e)
  have e: "e \<noteq> []" "backslash \<notin> set e" using drive_elems_plain [of e rest] snoc by auto
  have "join_elems (es @ [e]) = flat es @ e" by (induction es rule: join_elems.induct) simp_all
  moreover have "dropWhile (\<lambda>c. c = backslash) (rev e @ xs) = rev e @ xs" for xs
    using e by (cases "rev e") auto
  ultimately show ?thesis by (simp add: clean_drive [OF assms] snoc flat_def)
qed

text \<open>The check for Program Files compares whole path elements, after resolving \<^verbatim>\<open>.\<close> and \<^verbatim>\<open>..\<close>, without case: a path is taken to be
  under a folder exactly if it is on the same drive and the elements of the folder are the first
  elements of the path.\<close>

lemma under_dir_by_elements:
  assumes "lower_ok lower" "on_drive path = Some (d, rest)" "on_drive folder = Some (d', rest')"
  shows "isUnderDir other lower path folder \<longleftrightarrow>
     lower d = lower d' \<and> prefix (map (map lower) (drive_elems rest')) (map (map lower) (drive_elems rest))"
proof -
  let ?es = "map (map lower) (drive_elems rest)" and ?fs = "map (map lower) (drive_elems rest')"
  have l: "lower backslash = backslash" using assms(1) by (simp add: lower_ok_def)
  have r: "map lower (rev (dropWhile (\<lambda>c. c = backslash) (rev (Clean other folder)))) @ [backslash] =
      [lower d', lower 58, backslash] @ flat ?fs"
    using arg_cong [OF trim_drive [OF assms(3), of other], of "map lower"] by (simp add: l map_flat [OF assms(1)])
  have p: "map lower (Clean other path) @ [backslash] =
      [lower d, lower 58, backslash] @ (if ?es = [] then [backslash] else flat ?es)"
    using arg_cong [OF join_flat [of "drive_elems rest"], of "map lower"]
    by (auto simp: clean_drive [OF assms(2)] l map_flat [OF assms(1)])
  have plain: "e \<noteq> [] \<and> backslash \<notin> set e" if e: "e \<in> set ?es \<union> set ?fs" for e
  proof -
    obtain e0 where "e = map lower e0" "e0 \<in> set (drive_elems rest) \<union> set (drive_elems rest')" using e by auto
    then show ?thesis using drive_elems_plain [of e0 rest] drive_elems_plain [of e0 rest'] lower_elems [OF assms(1), of e0] by auto
  qed
  have "prefix (flat ?fs) (if ?es = [] then [backslash] else flat ?es) \<longleftrightarrow> prefix ?fs ?es"
  proof (cases "?es = []")
    case True
    show ?thesis
    proof (cases ?fs)
      case (Cons f fs)
      then have "f \<noteq> [] \<and> backslash \<notin> set f" using plain [of f] by auto
      then show ?thesis using True Cons by (cases f) (auto simp: prefix_def)
    qed (use True in simp)
  next
    case False
    have "prefix (flat ?fs) (flat ?es) \<longleftrightarrow> prefix ?fs ?es" by (rule flat_prefix) (use plain in blast)
    then show ?thesis by (simp only: False if_False)
  qed
  moreover have "folder \<noteq> []" using assms(3) by auto
  moreover have "take (length b) a = b \<longleftrightarrow> prefix b a" for a b :: "nat list" by (metis append_take_drop_id prefixI take_is_prefix prefix_def append_eq_conv_conj)
  ultimately show ?thesis unfolding isUnderDir_def Let_def r p by simp
qed

text \<open>The cases of the code's own test: a sibling with a longer name, and a path that climbs out again.\<close>

definition ascii_lower :: "nat \<Rightarrow> nat" where
  "ascii_lower r = (if 65 \<le> r \<and> r \<le> 90 then r + 32 else r)"

lemma under_dir_cases:
  "isUnderDir id ascii_lower (runes_of ''c:/program files/splicertc'') (runes_of ''C:/Program Files/'')"
  "\<not> isUnderDir id ascii_lower (runes_of ''C:/Program Files Evil/x'') (runes_of ''C:/Program Files'')"
  "\<not> isUnderDir id ascii_lower (runes_of ''C:/Program Files/../Users/me'') (runes_of ''C:/Program Files'')"
  by code_simp+

section \<open>The folder of the program\<close>

definition installWarnedFile :: "nat list" where "installWarnedFile = runes_of ''tray-folder-warning-shown''"

datatype folder_check = Installed | AlreadyWarned | Warned

text \<open>\<open>folders\<close> are the answers for the two Program Files folders, \<open>files\<close> the paths that exist; \<open>writable\<close>: the mark could be written.\<close>

definition warnIfNotInstalled ::
  "(nat list \<Rightarrow> nat list) \<Rightarrow> (nat \<Rightarrow> nat) \<Rightarrow> nat list option list \<Rightarrow> nat list \<Rightarrow> bool \<Rightarrow> nat list fset \<Rightarrow> nat list fset \<times> folder_check" where
  "warnIfNotInstalled other lower folders exeDir writable files =
     (if list_ex (\<lambda>f. case f of Some dir \<Rightarrow> isUnderDir other lower exeDir dir | None \<Rightarrow> False) folders then (files, Installed)
      else
        let mark = Join other exeDir installWarnedFile in
        if mark |\<in>| files then (files, AlreadyWarned)
        else (if writable then finsert mark files else files, Warned))"

text \<open>Outside Program Files the warning is shown on the first start, and on no later one if the mark could be written.\<close>

lemma warned_once:
  assumes "warnIfNotInstalled other lower folders exeDir True files = (files', r)" "files' |\<subseteq>| later"
    and "warnIfNotInstalled other lower folders' exeDir w later = (later', r')"
  shows "r \<noteq> Installed \<longrightarrow> r' \<noteq> Warned"
  using assms by (auto simp: warnIfNotInstalled_def Let_def split: if_splits)

section \<open>The log file\<close>

definition maxLogSize :: nat where "maxLogSize = 5 * 2 ^ 20"

text \<open>The sizes of the files; the result is the file that is logged to, or nothing.\<close>

definition setupLogger ::
  "(nat list \<Rightarrow> nat list) \<Rightarrow> nat list \<Rightarrow> bool \<Rightarrow> bool \<Rightarrow> (nat list, nat) fmap \<Rightarrow> (nat list, nat) fmap \<times> nat list option" where
  "setupLogger other exeDir can_rename can_open sizes =
     (let path = Join other exeDir (runes_of ''tray.log'');
          sizes1 = (case fmlookup sizes path of
                      Some n \<Rightarrow> if n > maxLogSize \<and> can_rename then fmupd (path @ runes_of ''.old'') n (fmdrop path sizes) else sizes
                    | None \<Rightarrow> sizes)
      in if \<not> can_open then (sizes1, None)
         else (if fmlookup sizes1 path = None then fmupd path 0 sizes1 else sizes1, Some path))"

text \<open>The log a start goes on with is not longer than the limit, unless the old one could not be moved; nothing but the
  log and its old copy changes.\<close>

lemma log_is_bounded:
  assumes "setupLogger other exeDir can_rename can_open sizes = (sizes', Some path)"
  shows "(\<exists>n. fmlookup sizes' path = Some n \<and> (n \<le> maxLogSize \<or> \<not> can_rename)) \<and>
     (\<forall>p. p \<noteq> path \<and> p \<noteq> path @ runes_of ''.old'' \<longrightarrow> fmlookup sizes' p = fmlookup sizes p)"
proof -
  have "path @ runes_of ''.old'' \<noteq> path" by (simp add: runes_of_def)
  then show ?thesis using assms by (auto simp: setupLogger_def Let_def split: option.splits if_splits)
qed

section \<open>Programs of Windows\<close>

definition systemExe :: "(nat list \<Rightarrow> nat list) \<Rightarrow> nat list option \<Rightarrow> nat list \<Rightarrow> nat list" where
  "systemExe other dir rel = Join other (case dir of Some d \<Rightarrow> d | None \<Rightarrow> runes_of (''C:'' @ CHR 0x5C # ''Windows'' @ CHR 0x5C # ''System32'')) rel"

definition windowsExe :: "(nat list \<Rightarrow> nat list) \<Rightarrow> nat list option \<Rightarrow> nat list \<Rightarrow> nat list" where
  "windowsExe other dir name = Join other (case dir of Some d \<Rightarrow> d | None \<Rightarrow> runes_of (''C:'' @ CHR 0x5C # ''Windows'')) name"

text \<open>\<open>ret\<close> is the result of \<^verbatim>\<open>ShellExecuteW\<close>; a path with a NUL character is refused before the call.\<close>

datatype elevate_error = NulInPath | Denied | ShellCode nat

definition relaunchElevated :: "nat list \<Rightarrow> nat \<Rightarrow> elevate_error option" where
  "relaunchElevated exe ret =
     (if 0 \<in> set exe then Some NulInPath
      else if ret \<le> 32 then Some (if ret = 5 then Denied else ShellCode ret)
      else None)"

section \<open>Keys sealed by Windows\<close>

text \<open>A \<^verbatim>\<open>DataBlob\<close>: its size and its data, or no data.\<close>

type_synonym blob = "u32 \<times> bytes option"

definition blobOf :: "bytes \<Rightarrow> blob" where
  "blobOf b = (if b = [] then (0, None) else (of_nat (length b), Some b))"

definition takeBlob :: "blob \<Rightarrow> bytes" where
  "takeBlob b = (case snd b of None \<Rightarrow> [] | Some d \<Rightarrow> take (unat (fst b)) d)"

definition dpapiEntropy :: bytes where "dpapiEntropy = str_bytes ''splicertc client_key''"

text \<open>\<^verbatim>\<open>CryptProtectData\<close> and \<^verbatim>\<open>CryptUnprotectData\<close>: data and entropy to the sealed or opened data, or no result.\<close>

record dpapi =
  CryptProtectData :: "blob \<Rightarrow> blob \<Rightarrow> blob option"
  CryptUnprotectData :: "blob \<Rightarrow> blob \<Rightarrow> blob option"

definition protectString :: "dpapi \<Rightarrow> string \<Rightarrow> string option" where
  "protectString d plain =
     (case CryptProtectData d (blobOf (str_bytes plain)) (blobOf dpapiEntropy) of
        None \<Rightarrow> None
      | Some out \<Rightarrow> Some (b64_encode (takeBlob out)))"

definition unprotectString :: "dpapi \<Rightarrow> string \<Rightarrow> string option" where
  "unprotectString d sealed =
     (case b64_decode sealed of
        None \<Rightarrow> None
      | Some raw \<Rightarrow>
          (case CryptUnprotectData d (blobOf raw) (blobOf dpapiEntropy) of
             None \<Rightarrow> None
           | Some out \<Rightarrow> Some (bytes_str (takeBlob out))))"

text \<open>What Windows promises: sealed data is not empty and not longer than its size field can say, and opening it
  with the same entropy, from a copy, gives the data back.\<close>

definition dpapi_ok :: "dpapi \<Rightarrow> bool" where
  "dpapi_ok d \<longleftrightarrow>
     (\<forall>b e out. CryptProtectData d b e = Some out \<longrightarrow>
        takeBlob out \<noteq> [] \<and> (\<exists>opened_blob. CryptUnprotectData d (blobOf (takeBlob out)) e = Some opened_blob \<and> takeBlob opened_blob = takeBlob b))"

lemma take_blobOf: "length b < 2 ^ 32 \<Longrightarrow> takeBlob (blobOf b) = b"
  by (simp add: takeBlob_def blobOf_def unat_of_nat)

lemma b64_roundtrip: "b64_decode (b64_encode b) = Some b"
proof -
  have "filter (\<lambda>c. c \<noteq> CHR 0x0A \<and> c \<noteq> CHR 0x0D) (b64_encode b) = b64_encode b"
    using b64_encode_plain [of _ b] by (auto simp: filter_id_conv is_space_def)
  then show ?thesis by (simp add: b64_decode_def b64_groups_encode)
qed

text \<open>So the tray's sealing is one in the sense of the theory of saved connections, for every key that fits a blob.\<close>

lemma dpapi_seals:
  assumes "dpapi_ok d" "protectString d k = Some sealed" "length k < 2 ^ 32"
  shows "sealed \<noteq> '''' \<and> unprotectString d sealed = Some k"
proof -
  obtain out where o: "CryptProtectData d (blobOf (str_bytes k)) (blobOf dpapiEntropy) = Some out" "sealed = b64_encode (takeBlob out)"
    using assms(2) by (auto simp: protectString_def split: option.splits)
  obtain opened_blob where b: "takeBlob out \<noteq> []" "CryptUnprotectData d (blobOf (takeBlob out)) (blobOf dpapiEntropy) = Some opened_blob"
      "takeBlob opened_blob = takeBlob (blobOf (str_bytes k))"
    using assms(1) o(1) unfolding dpapi_ok_def by blast
  have "takeBlob opened_blob = str_bytes k" using b(3) take_blobOf [of "str_bytes k"] assms(3) by simp
  moreover have "b64_encode (takeBlob out) \<noteq> ''''" using b(1) b64_roundtrip [of "takeBlob out"] by (cases "takeBlob out") (auto simp: b64_decode_def)
  ultimately show ?thesis using o(2) b(2) by (simp add: unprotectString_def b64_roundtrip)
qed

section \<open>The job object\<close>

text \<open>The open handles of the tray, the job that kills its processes when its last handle is closed, and the processes in it.\<close>

record job_state =
  handles :: "nat fset"
  clientJob :: "nat option"
  kills :: "nat fset"        \<comment> \<open>jobs with \<^verbatim>\<open>KILL_ON_JOB_CLOSE\<close>\<close>
  in_job :: "nat fset"       \<comment> \<open>processes\<close>

definition no_job :: job_state where
  "no_job = \<lparr>handles = {||}, clientJob = None, kills = {||}, in_job = {||}\<rparr>"

text \<open>\<open>created\<close> is the handle of \<^verbatim>\<open>CreateJobObject\<close>, if it gave one; \<open>limited\<close>: setting the limit succeeded.\<close>

definition createClientJob :: "nat option \<Rightarrow> bool \<Rightarrow> job_state \<Rightarrow> job_state \<times> bool" where
  "createClientJob created limited s =
     (case created of
        None \<Rightarrow> (s, False)
      | Some job \<Rightarrow>
          let s1 = s\<lparr>handles := finsert job (handles s)\<rparr> in
          if \<not> limited then (s1\<lparr>handles := handles s1 |-| {|job|}\<rparr>, False)
          else (s1\<lparr>kills := finsert job (kills s1), clientJob := Some job\<rparr>, True))"

definition addToClientJob :: "nat option \<Rightarrow> bool \<Rightarrow> nat \<Rightarrow> job_state \<Rightarrow> job_state \<times> bool" where
  "addToClientJob opened assigned pid s =
     (case clientJob s of
        None \<Rightarrow> (s, False)
      | Some job \<Rightarrow>
          (case opened of
             None \<Rightarrow> (s, False)
           | Some h \<Rightarrow>
               let s1 = s\<lparr>handles := finsert h (handles s)\<rparr>;
                   s2 = (if assigned then s1\<lparr>in_job := finsert pid (in_job s1)\<rparr> else s1)
               in (s2\<lparr>handles := handles s2 |-| {|h|}\<rparr>, assigned)))"

text \<open>The end of the tray, whatever ends it: its handles are closed, and what runs in a job that kills is gone.\<close>

definition tray_dies :: "job_state \<Rightarrow> nat fset \<Rightarrow> nat fset" where
  "tray_dies s running =
     (case clientJob s of
        Some job \<Rightarrow> if job |\<in>| handles s \<and> job |\<in>| kills s then running |-| in_job s else running
      | None \<Rightarrow> running)"

text \<open>No handle but the job's stays open, and a client that was added does not outlive the tray.\<close>

lemma job_kills_client:
  assumes "createClientJob created limited no_job = (s, made)" "addToClientJob opened assigned pid s = (s', added)"
    and "opened \<noteq> None \<longrightarrow> opened \<noteq> created"
  shows "handles s' = (if made then {|the created|} else {||}) \<and> (added \<longrightarrow> made \<and> pid |\<notin>| tray_dies s' running)"
  using assms
  by (auto simp: createClientJob_def addToClientJob_def no_job_def tray_dies_def Let_def split: option.splits if_splits)

section \<open>What the tray shows\<close>

text \<open>The widgets, each of them possibly not there yet, and the updates queued for the GUI thread. The four flags say whether
  the menu entries and the buttons for connecting and disconnecting can be clicked.\<close>

datatype gui_update = ShowStatus "nat list" | ShowIcon tray_icon | ShowActive bool

record gui =
  g_window :: bool
  g_status :: "nat list option"
  g_notify :: "(tray_icon \<times> nat list) option"
  g_connectAction :: "bool option"
  g_disconnectAction :: "bool option"
  g_connectBtn :: "bool option"
  g_disconnectBtn :: "bool option"
  g_queue :: "gui_update list"

text \<open>The word for status and a colon, in Russian.\<close>

definition status_prefix :: "nat list" where "status_prefix = [1057, 1090, 1072, 1090, 1091, 1089, 58, 32]"

definition tip_of :: "nat list \<Rightarrow> nat list" where
  "tip_of t = (let tip = runes_of ''splicertc - '' @ t in if length tip > 127 then take 127 tip else tip)"

fun apply_update :: "gui_update \<Rightarrow> gui \<Rightarrow> gui" where
  "apply_update (ShowStatus t) g =
     g\<lparr>g_status := map_option (\<lambda>_. status_prefix @ t) (g_status g), g_notify := map_option (\<lambda>n. (fst n, tip_of t)) (g_notify g)\<rparr>"
| "apply_update (ShowIcon i) g = g\<lparr>g_notify := map_option (\<lambda>n. (i, snd n)) (g_notify g)\<rparr>"
| "apply_update (ShowActive a) g =
     g\<lparr>g_connectAction := map_option (\<lambda>_. \<not> a) (g_connectAction g), g_disconnectAction := map_option (\<lambda>_. a) (g_disconnectAction g),
       g_connectBtn := map_option (\<lambda>_. \<not> a) (g_connectBtn g), g_disconnectBtn := map_option (\<lambda>_. a) (g_disconnectBtn g)\<rparr>"

text \<open>\<^verbatim>\<open>ui\<close>: from any goroutine an update is queued, before the window exists it is made at once.\<close>

definition ui :: "gui_update \<Rightarrow> gui \<Rightarrow> gui" where
  "ui u g = (if g_window g then g\<lparr>g_queue := g_queue g @ [u]\<rparr> else apply_update u g)"

definition setStatus :: "nat list \<Rightarrow> gui \<Rightarrow> gui" where "setStatus t = ui (ShowStatus t)"
definition setIcon :: "tray_icon \<Rightarrow> gui \<Rightarrow> gui" where "setIcon i = ui (ShowIcon i)"
definition setActive :: "bool \<Rightarrow> gui \<Rightarrow> gui" where "setActive a = ui (ShowActive a)"

definition gui_fail :: "nat list \<Rightarrow> gui \<Rightarrow> gui" where
  "gui_fail t g = setActive False (setIcon Red (setStatus t g))"

text \<open>One turn of the GUI thread, and what is on the screen when it has caught up.\<close>

definition gui_turn :: "gui \<Rightarrow> gui" where
  "gui_turn g = (case g_queue g of [] \<Rightarrow> g | u # us \<Rightarrow> apply_update u (g\<lparr>g_queue := us\<rparr>))"

definition settled :: "gui \<Rightarrow> gui" where
  "settled g = fold apply_update (g_queue g) (g\<lparr>g_queue := []\<rparr>)"

lemma update_queue: "apply_update u (g\<lparr>g_queue := q\<rparr>) = (apply_update u g)\<lparr>g_queue := q\<rparr>"
  by (cases u) simp_all

lemma update_keeps [simp]: "g_queue (apply_update u g) = g_queue g" "g_window (apply_update u g) = g_window g"
  by (cases u; simp)+

lemma turn_settled: "settled (gui_turn g) = settled g"
  by (cases "g_queue g") (simp_all add: gui_turn_def settled_def update_queue)

lemma ui_settled: "g_window g \<or> g_queue g = [] \<Longrightarrow> settled (ui u g) = apply_update u (settled g) \<and> (g_window (ui u g) \<or> g_queue (ui u g) = [])"
  by (auto simp: ui_def settled_def update_queue)

text \<open>The screen agrees with the state the theory of connecting keeps (where a status is shown at once): the status with its
  text, the icon, and which of connect and disconnect can be clicked.\<close>

definition on_screen :: "(tray_status \<Rightarrow> nat list) \<Rightarrow> tray \<Rightarrow> gui \<Rightarrow> bool" where
  "on_screen txt s g \<longleftrightarrow> g_status g = Some (status_prefix @ txt (shown s)) \<and> g_notify g = Some (icon s, tip_of (txt (shown s))) \<and>
     g_connectAction g = Some (\<not> active s) \<and> g_disconnectAction g = Some (active s) \<and>
     g_connectBtn g = Some (\<not> active s) \<and> g_disconnectBtn g = Some (active s)"

lemma status_shown: "on_screen txt s g \<Longrightarrow> on_screen txt (s\<lparr>shown := st\<rparr>) (apply_update (ShowStatus (txt st)) g)"
  by (simp add: on_screen_def)

lemma icon_shown: "on_screen txt s g \<Longrightarrow> on_screen txt (s\<lparr>icon := i\<rparr>) (apply_update (ShowIcon i) g)"
  by (simp add: on_screen_def)

lemma active_shown: "on_screen txt s g \<Longrightarrow> on_screen txt (s\<lparr>active := a\<rparr>) (apply_update (ShowActive a) g)"
  by (simp add: on_screen_def)

text \<open>A failure is on the screen once the GUI thread has caught up, with the buttons back to connect; the tooltip fits Windows' limit.\<close>

lemma failure_shown:
  assumes "on_screen txt s (settled g)" "g_window g \<or> g_queue g = []"
  shows "on_screen txt (fail_tray why s) (settled (gui_fail (txt (StError why)) g))"
proof -
  let ?g1 = "setStatus (txt (StError why)) g"
  have 1: "settled ?g1 = apply_update (ShowStatus (txt (StError why))) (settled g)" "g_window ?g1 \<or> g_queue ?g1 = []"
    using ui_settled [OF assms(2)] by (simp_all add: setStatus_def)
  have 2: "settled (setIcon Red ?g1) = apply_update (ShowIcon Red) (settled ?g1)" "g_window (setIcon Red ?g1) \<or> g_queue (setIcon Red ?g1) = []"
    using ui_settled [OF 1(2)] by (simp_all add: setIcon_def)
  have "settled (gui_fail (txt (StError why)) g) = apply_update (ShowActive False) (settled (setIcon Red ?g1))"
    using ui_settled [OF 2(2)] by (simp add: gui_fail_def setActive_def)
  then show ?thesis using assms(1) 1(1) 2(1) by (simp add: on_screen_def fail_tray_def)
qed

lemma tip_fits: "length (tip_of t) \<le> 127"
  by (simp add: tip_of_def Let_def runes_of_def)

section \<open>The ping button\<close>

datatype ping_result =
    TcpFailed string
  | TlsFailed int tls_error
  | KeyRefused int auth_error
  | KeyAccepted int int bool     \<comment> \<open>the last: the certificate was not checked\<close>
  | NoAnswer

text \<open>\<open>tcp\<close> is the outcome of the plain connect with its duration, \<open>login\<close> the duration of the rest. Durations are not negative.\<close>

definition milliseconds :: "duration \<Rightarrow> int" where "milliseconds d = d div 1000000"

definition ping ::
  "(bytes \<Rightarrow> bytes) \<Rightarrow> (string \<Rightarrow> bytes list \<Rightarrow> bool) \<Rightarrow> crypto \<Rightarrow> tls \<Rightarrow> string \<Rightarrow> dialConfig \<Rightarrow> bytes \<Rightarrow> bool \<Rightarrow>
     string + duration \<Rightarrow> tls_error + bytes list \<Rightarrow> conn \<Rightarrow> duration \<Rightarrow> ping_result" where
  "ping sha256 verify cr t addr dc seed unverified tcp net c login =
     (case tcp of
        Inl e \<Rightarrow> TcpFailed e
      | Inr d \<Rightarrow>
          (case Dial sha256 verify addr dc net of
             Some e \<Rightarrow> TlsFailed (milliseconds d) e
           | None \<Rightarrow>
               (case ClientHandshake cr t seed c of
                  (_, Some e) \<Rightarrow> KeyRefused (milliseconds d) e
                | (_, None) \<Rightarrow> KeyAccepted (milliseconds d) (milliseconds login) unverified)))"

text \<open>What the button does: a message at once, or a status; \<open>in_time\<close>: the answer came before the timeout.\<close>

datatype ping_click = FillInFirst | BadKeyText | Pinged ping_result

definition onPingCheck ::
  "(bytes \<Rightarrow> bytes) \<Rightarrow> (string \<Rightarrow> bytes list \<Rightarrow> bool) \<Rightarrow> crypto \<Rightarrow> tls \<Rightarrow> clientTLSConfig \<Rightarrow> files \<Rightarrow> form \<Rightarrow>
     string + duration \<Rightarrow> tls_error + bytes list \<Rightarrow> conn \<Rightarrow> duration \<Rightarrow> bool \<Rightarrow> ping_click" where
  "onPingCheck sha256 verify cr t cfg fs f tcp net c login in_time =
     (let addr = trim_space (vpnAddrEdit f); keyStr = trim_space (clientKeyEdit f) in
      if addr = '''' \<or> keyStr = '''' then FillInFirst
      else case DecodeKey keyStr of
             None \<Rightarrow> BadKeyText
           | Some seed \<Rightarrow>
               (case pingDialConfig cfg fs of
                  (dc, unverified) \<Rightarrow>
                    Pinged (if in_time then ping sha256 verify cr t addr dc seed unverified tcp net c login else NoAnswer)))"

text \<open>An accepted key without the remark means that the server's certificate was checked: it is the pinned one, or its
  chain is valid for the name.\<close>

lemma accepted_ping:
  assumes "onPingCheck sha256 verify cr t cfg fs f tcp net c login in_time = Pinged (KeyAccepted a b False)"
  shows "\<exists>seed certs. DecodeKey (trim_space (clientKeyEdit f)) = Some seed \<and> net = Inr certs \<and> snd (ClientHandshake cr t seed c) = None \<and>
     (case Pin (fst (pingDialConfig cfg fs)) of
        Some pin \<Rightarrow> certs \<noteq> [] \<and> sha256 (hd certs) = pin
      | None \<Rightarrow> verify (sni_name (trim_space (vpnAddrEdit f)) (fst (pingDialConfig cfg fs))) certs)"
proof -
  obtain dc where p: "pingDialConfig cfg fs = (dc, False)"
    using assms by (auto simp: onPingCheck_def ping_def Let_def split: if_splits option.splits sum.splits prod.splits)
  then have ins: "\<not> Insecure dc" by (auto simp: pingDialConfig_def Let_def split: sum.splits if_splits)
  obtain seed d where s: "DecodeKey (trim_space (clientKeyEdit f)) = Some seed" "Dial sha256 verify (trim_space (vpnAddrEdit f)) dc net = None"
      "snd (ClientHandshake cr t seed c) = None"
    using assms p by (auto simp: onPingCheck_def ping_def Let_def split: if_splits option.splits sum.splits prod.splits)
  then show ?thesis using p ins
    by (auto simp: Dial_def check_server_def split: sum.splits option.splits list.splits if_splits)
qed

section \<open>The start and the end of the tray\<close>

text \<open>The calls of the GUI library in \<^verbatim>\<open>runApp\<close> that can fail, in order; the first failure ends it.\<close>

datatype gui_call = IconGray | IconGreen | IconRed | CreateWindow | NewNotifyIcon | SetNotifyIcon | ShowNotifyIcon

definition gui_calls :: "gui_call list" where
  "gui_calls = [IconGray, IconGreen, IconRed, CreateWindow, NewNotifyIcon, SetNotifyIcon, ShowNotifyIcon]"

fun first_failure :: "(gui_call \<Rightarrow> string option) \<Rightarrow> gui_call list \<Rightarrow> (gui_call \<times> string) option" where
  "first_failure fails [] = None"
| "first_failure fails (c # cs) = (case fails c of Some e \<Rightarrow> Some (c, e) | None \<Rightarrow> first_failure fails cs)"

record started =
  st_job :: job_state
  st_tray :: tray
  st_marks :: "nat list fset"
  st_folder :: folder_check
  st_window :: window
  st_alerts :: "load_alert list"
  st_visible :: bool

text \<open>What the start finds: files and saved connections, the answers for the folders, a rule left by a crash.\<close>

record surroundings =
  e_disk :: disk
  e_load :: load_env
  e_ui :: ui_env
  e_default_name :: string
  e_protect :: "string \<Rightarrow> string option"
  e_unprotect :: "string \<Rightarrow> string option"
  e_clean :: "nat list \<Rightarrow> nat list"
  e_lower :: "nat \<Rightarrow> nat"
  e_folders :: "nat list option list"
  e_marks :: "nat list fset"
  e_writable :: bool
  e_leftover :: bool
  e_job :: "nat option \<times> bool"

definition empty_form :: form where
  "empty_form = \<lparr>nameEdit = '''', vpnAddrEdit = '''', clientKeyEdit = '''', gameProcEdit = ''''\<rparr>"

definition start_window :: "surroundings \<Rightarrow> window \<times> load_alert list \<times> bool" where
  "start_window env =
     (case loadConnections (e_protect env) (e_unprotect env) (e_default_name env) (e_disk env) (e_load env) [] of
        (fs, cs, alerts) \<Rightarrow>
          let w = \<lparr>w_disk = fs, w_conns = cs, w_index = u_redrawn (e_ui env), w_form = empty_form, w_loaded = ''''\<rparr>
          in case cs of
               [] \<Rightarrow> (w, alerts, True)
             | c # _ \<Rightarrow> (select_row (e_ui env) (c_name c) w, alerts, False))"

definition runApp :: "(gui_call \<Rightarrow> string option) \<Rightarrow> surroundings \<Rightarrow> nat list \<Rightarrow> (gui_call \<times> string) + started" where
  "runApp fails env exeDir =
     (case first_failure fails gui_calls of
        Some e \<Rightarrow> Inl e
      | None \<Rightarrow>
          (case warnIfNotInstalled (e_clean env) (e_lower env) (e_folders env) exeDir (e_writable env) (e_marks env) of
             (marks, folder) \<Rightarrow>
               (case start_window env of
                  (w, alerts, visible) \<Rightarrow>
                    Inr \<lparr>st_job = fst (createClientJob (fst (e_job env)) (snd (e_job env)) no_job), st_tray = tray_start (e_leftover env),
                         st_marks = marks, st_folder = folder, st_window = w, st_alerts = alerts, st_visible = visible\<rparr>)))"

datatype tray_end = NoExePath string | NotElevated elevate_error | ElevatedCopyRuns | StartFailed gui_call string | AppRuns started

text \<open>\<open>exe\<close> is the path of the program with its folder.\<close>

definition tray_main :: "string + (nat list \<times> nat list) \<Rightarrow> bool \<Rightarrow> nat \<Rightarrow> (gui_call \<Rightarrow> string option) \<Rightarrow> surroundings \<Rightarrow> tray_end" where
  "tray_main exe elevated shell fails env =
     (case exe of
        Inl e \<Rightarrow> NoExePath e
      | Inr (path, exeDir) \<Rightarrow>
          if \<not> elevated then (case relaunchElevated path shell of Some e \<Rightarrow> NotElevated e | None \<Rightarrow> ElevatedCopyRuns)
          else (case runApp fails env exeDir of Inl (c, e) \<Rightarrow> StartFailed c e | Inr s \<Rightarrow> AppRuns s))"

definition quit :: "tray \<Rightarrow> tray" where
  "quit s = teardownRoutes (stopClient s)"

lemma index_of_first: "index_of (c_name c) (c # cs) = Some 0"
  by simp

text \<open>The tray runs only with administrator rights. It then shows its window if nothing is saved, and otherwise has the first
  connection selected, with its fields filled in; and the button to connect does nothing until the
  block a crash may have left is removed.\<close>

lemma tray_starts:
  assumes "tray_main exe elevated shell fails env = AppRuns s"
  shows "elevated \<and> phase (st_tray s) = Tearing \<and> (\<forall>tc i. startConnect i (st_tray s) = (st_tray s)\<lparr>shown := StBusy\<rparr>) \<and>
     (st_visible s \<longleftrightarrow> w_conns (st_window s) = []) \<and>
     (w_conns (st_window s) \<noteq> [] \<longrightarrow> selected (st_window s) = Some (hd (w_conns (st_window s))) \<and>
        (u_event (e_ui env) \<longrightarrow> w_form (st_window s) = fst (fillFieldsFrom (hd (w_conns (st_window s))))))"
proof -
  obtain path exeDir where e: "elevated" "exe = Inr (path, exeDir)" "runApp fails env exeDir = Inr s"
    using assms by (auto simp: tray_main_def split: sum.splits if_splits option.splits)
  obtain fs cs alerts where l: "loadConnections (e_protect env) (e_unprotect env) (e_default_name env) (e_disk env) (e_load env) [] = (fs, cs, alerts)"
    by (metis prod_cases3)
  have t: "st_tray s = tray_start (e_leftover env)" and w: "(st_window s, st_alerts s, st_visible s) = start_window env"
    using e(3) by (auto simp: runApp_def split: option.splits prod.splits)
  have "startConnect i (tray_start b) = (tray_start b)\<lparr>shown := StBusy\<rparr>" for i b
    by (simp add: startConnect_def tray_start_def)
  moreover have "phase (tray_start b) = Tearing" for b by (simp add: tray_start_def)
  moreover have "(st_visible s \<longleftrightarrow> w_conns (st_window s) = []) \<and>
     (w_conns (st_window s) \<noteq> [] \<longrightarrow> selected (st_window s) = Some (hd (w_conns (st_window s))) \<and>
        (u_event (e_ui env) \<longrightarrow> w_form (st_window s) = fst (fillFieldsFrom (hd (w_conns (st_window s))))))"
  proof (cases cs)
    case Nil
    then show ?thesis using w l by (simp add: start_window_def Let_def)
  next
    case (Cons c cs')
    then show ?thesis using w l
      by (auto simp: start_window_def Let_def select_row_def selected_def onListSelectionChanged_def split: prod.splits)
  qed
  ultimately show ?thesis using e(1) t by simp
qed

text \<open>Leaving through the menu stops the client and removes the block.\<close>

lemma quit_cleans_up: "clientCmd (quit s) = None \<and> \<not> blocked (quit s)"
  by (auto simp: quit_def teardownRoutes_def stopClient_def split: option.split)

end
