(* ===== verification/Handlers.thy ===== *)
theory Handlers
  imports Streams DropChannel Bans
begin

text \<open>
  The connection handlers of the reliable and the droppable channel as a whole: \<^verbatim>\<open>handleConn\<close> of cmd/server/reliable.go and
  \<^verbatim>\<open>handleDroppableConn\<close> of cmd/server/drop.go. The others are in the theories of their channels.
\<close>

section \<open>The droppable channel\<close>

text \<open>The read loop, on the bytes that follow the session ID; \<open>now i\<close> is when frame \<open>i\<close> has been read. The last
  component is the error that ends it.\<close>

lemma read_frame_consumes: "read_frame ins = Inr (f, rest) \<Longrightarrow> length (fst rest) < length (fst ins)"
proof -
  assume r: "read_frame ins = Inr (f, rest)"
  obtain h r1 n p where h: "read_full headerSize ins = Inr (h, r1)" and p: "read_full n r1 = Inr (p, rest)"
    using r by (auto simp: read_frame_def Let_def split: sum.splits)
  show ?thesis using read_full_InrD [OF h] read_full_InrD [OF p] by (simp add: headerSize_def)
qed

function drop_loop :: "dropChannel \<Rightarrow> nat \<Rightarrow> (nat \<Rightarrow> time) \<Rightarrow> nat \<Rightarrow> instream \<Rightarrow> dropChannel \<times> io_error" where
  "drop_loop g c now i ins =
     (case read_frame ins of
        Inl e \<Rightarrow> (g, e)
      | Inr (f, rest) \<Rightarrow> drop_loop (drop_step g (DropFrame c (now i) f)) c now (Suc i) rest)"
  by pat_completeness auto
termination
  by (relation "measure (\<lambda>(g, c, now, i, ins). length (fst ins))") (auto dest: read_frame_consumes)

declare drop_loop.simps [simp del]

text \<open>\<open>ins\<close> is what the client sends after the login; \<open>t0\<close> and \<open>t1\<close> are when the path joins and leaves. The result is the summary
  that is logged.\<close>

definition handleDroppableConn ::
  "dropChannel \<Rightarrow> nat \<Rightarrow> peer option \<Rightarrow> instream \<Rightarrow> (nat \<Rightarrow> time) \<Rightarrow> time \<Rightarrow> time \<Rightarrow> dropChannel \<times> dropSummary option" where
  "handleDroppableConn g c auth ins now t0 t1 =
     (case auth of
        None \<Rightarrow> (g, None)
      | Some p \<Rightarrow>
          (case read_full 8 ins of
             Inl e \<Rightarrow> (g, None)
           | Inr (sidBuf, rest) \<Rightarrow>
               let sid = hex_string sidBuf in
               (case drop_loop (drop_step g (DropJoin c sid t0)) c now 0 rest of
                  (g1, e) \<Rightarrow> (drop_step g1 (DropLeave c t1), map_option summary (fmlookup (drops g1) sid)))))"

text \<open>A connection is a sequence of steps of the channel, so that what holds for all of those holds with it.\<close>

lemma drop_loop_steps: "\<exists>es. fst (drop_loop g c now i ins) = foldl drop_step g es"
proof (induction g c now i ins rule: drop_loop.induct)
  case (1 g c now i ins)
  show ?case
  proof (cases "read_frame ins")
    case (Inl e)
    then show ?thesis by (subst drop_loop.simps) (simp add: exI [of _ "[]"])
  next
    case (Inr r)
    obtain f rest where r: "r = (f, rest)" by (cases r)
    obtain es where "fst (drop_loop (drop_step g (DropFrame c (now i) f)) c now (Suc i) rest) =
        foldl drop_step (drop_step g (DropFrame c (now i) f)) es" using 1 [OF Inr r [symmetric]] by blast
    then show ?thesis using Inr r by (subst drop_loop.simps) (simp add: exI [of _ "DropFrame c (now i) f # es"])
  qed
qed

lemma drop_handler_steps: "\<exists>es. fst (handleDroppableConn g c auth ins now t0 t1) = foldl drop_step g es"
proof (cases "\<exists>p sidBuf rest. auth = Some p \<and> read_full 8 ins = Inr (sidBuf, rest)")
  case False
  then have "fst (handleDroppableConn g c auth ins now t0 t1) = foldl drop_step g []"
    by (auto simp: handleDroppableConn_def split: option.splits sum.splits)
  then show ?thesis by blast
next
  case True
  then obtain p sidBuf rest where a: "auth = Some p" "read_full 8 ins = Inr (sidBuf, rest)" by blast
  let ?j = "DropJoin c (hex_string sidBuf) t0"
  obtain es where "fst (drop_loop (drop_step g ?j) c now 0 rest) = foldl drop_step (drop_step g ?j) es"
    using drop_loop_steps by blast
  then have "fst (handleDroppableConn g c auth ins now t0 t1) = foldl drop_step g (?j # es @ [DropLeave c t1])"
    using a by (auto simp: handleDroppableConn_def Let_def split: prod.split)
  then show ?thesis by blast
qed

text \<open>What is counted is what was sent: the frames written by a client, one after the other, are each recorded, in order.\<close>

lemma drop_loop_counts:
  assumes "fmlookup (drop_conns g) c = Some sid" "fmlookup (drops g) sid = Some s" "list_all fits fs"
  shows "\<exists>g' e'. drop_loop g c now i (concat (map marshal fs), e) = (g', e') \<and>
     fmlookup (drops g') sid = Some (record_all s (zip (map now [i..<i + length fs]) fs))"
  using assms
proof (induction fs arbitrary: g s i)
  case Nil
  have "read_frame ([], e) = Inl e \<or> (\<exists>e2. read_frame ([], e) = Inl e2)"
    by (auto simp: read_frame_def read_full_def headerSize_def)
  then obtain e2 where "read_frame ([], e) = Inl e2" by auto
  then show ?case using Nil by (subst drop_loop.simps) simp
next
  case (Cons f fs)
  let ?g = "drop_step g (DropFrame c (now i) f)"
  have r: "read_frame (concat (map marshal (f # fs)), e) = Inr (f, (concat (map marshal fs), e))"
    using read_frame_marshal [of f "concat (map marshal fs)" e] Cons.prems(3) by simp
  have g: "fmlookup (drop_conns ?g) c = Some sid" "fmlookup (drops ?g) sid = Some (fst (record_frame s (now i) f))"
    using Cons.prems(1,2) by (simp_all add: drop_step_def)
  have "[i..<i + length (f # fs)] = i # [Suc i..<Suc i + length fs]" by (simp add: upt_conv_Cons del: upt_Suc)
  then show ?case using Cons.IH [OF g, of "Suc i"] Cons.prems(3) r by (subst drop_loop.simps) simp
qed

lemma drop_conn_counts:
  assumes "length sidBuf = 8" "list_all fits fs"
  shows "snd (handleDroppableConn drop_start c (Some p) (sidBuf @ concat (map marshal fs), e) now t0 t1) =
     Some (summary (record_all (new_drop_session\<lparr>d_paths := d_paths new_drop_session + 1, lastActive := t0\<rparr>)
       (zip (map now [0..<length fs]) fs)))"
proof -
  let ?g = "drop_step drop_start (DropJoin c (hex_string sidBuf) t0)"
  let ?s = "new_drop_session\<lparr>d_paths := d_paths new_drop_session + 1, lastActive := t0\<rparr>"
  have g: "fmlookup (drop_conns ?g) c = Some (hex_string sidBuf)" "fmlookup (drops ?g) (hex_string sidBuf) = Some ?s"
    by (simp_all add: drop_step_def drop_start_def getDropSession_def Let_def)
  obtain g' e' where "drop_loop ?g c now 0 (concat (map marshal fs), e) = (g', e')"
      "fmlookup (drops g') (hex_string sidBuf) = Some (record_all ?s (zip (map now [0..<length fs]) fs))"
    using drop_loop_counts [OF g assms(2), of now 0 e] by auto
  then show ?thesis using assms(1) by (simp add: handleDroppableConn_def)
qed

section \<open>The reliable channel\<close>

text \<open>A session of \<^verbatim>\<open>handleConn\<close>: whether its accept loop runs, the goroutines of its streams, the messages about refused streams
  and the refused streams (each is told that its target could not be reached).\<close>

record reliable_conn =
  r_lim :: streamLimiter
  r_open :: bool
  r_running :: nat
  limitLogged :: bool
  r_reports :: nat
  r_refused :: nat

datatype reliable_event = StreamArrives | StreamDone | SessionFails

text \<open>The start: \<open>session\<close> is whether \<^verbatim>\<open>smux.Server\<close> succeeds.\<close>

definition handleConn :: "streamLimiter \<Rightarrow> peer option \<Rightarrow> bool \<Rightarrow> reliable_conn" where
  "handleConn l auth session =
     \<lparr>r_lim = l, r_open = (auth \<noteq> None \<and> session), r_running = 0, limitLogged = False, r_reports = 0, r_refused = 0\<rparr>"

definition reliable_step :: "string \<Rightarrow> reliable_conn \<Rightarrow> reliable_event \<Rightarrow> reliable_conn" where
  "reliable_step key r e =
     (case e of
        StreamArrives \<Rightarrow>
          if \<not> r_open r then r
          else (case accept_stream (r_lim r) key of
                  (l, reply, True) \<Rightarrow> r\<lparr>r_lim := l, r_running := Suc (r_running r)\<rparr>
                | (l, reply, False) \<Rightarrow>
                    r\<lparr>r_lim := l, limitLogged := True, r_reports := (if limitLogged r then r_reports r else Suc (r_reports r)),
                      r_refused := Suc (r_refused r)\<rparr>)
      | StreamDone \<Rightarrow>
          if r_running r = 0 then r else r\<lparr>r_lim := release (r_lim r) key, r_running := r_running r - 1\<rparr>
      | SessionFails \<Rightarrow> r\<lparr>r_open := False\<rparr>)"

definition reliable_inv :: "string \<Rightarrow> streamLimiter \<Rightarrow> reliable_conn \<Rightarrow> bool" where
  "reliable_inv key l r \<longleftrightarrow> limiter_ok (r_lim r) \<and> streams_of (r_lim r) key = streams_of l key + r_running r \<and>
     (\<forall>k. k \<noteq> key \<longrightarrow> streams_of (r_lim r) k = streams_of l k) \<and> r_reports r = (if limitLogged r then 1 else 0) \<and>
     (limitLogged r \<longleftrightarrow> 0 < r_refused r)"

lemma reliable_step_inv:
  assumes "reliable_inv key l r"
  shows "reliable_inv key l (reliable_step key r e)"
proof (cases e)
  case StreamArrives
  obtain l' ok why where a: "acquire (r_lim r) key = (l', ok, why)" by (metis prod_cases3)
  show ?thesis
  proof (cases ok)
    case True
    then have "take_stream (r_lim r) key = Some l'" using a by (simp add: take_stream_def)
    then show ?thesis using assms StreamArrives True a stream_quota.acquire_Some [of "r_lim r" key l']
      by (auto simp: reliable_inv_def reliable_step_def accept_stream_def)
  next
    case False
    then show ?thesis using assms StreamArrives a acquire_refused [of "r_lim r" key l' why]
      by (auto simp: reliable_inv_def reliable_step_def accept_stream_def)
  qed
next
  case StreamDone
  have "0 < r_running r \<Longrightarrow> 0 < streams_of (r_lim r) key" using assms by (simp add: reliable_inv_def)
  then show ?thesis using assms StreamDone stream_quota.release_one [of "r_lim r" key]
    by (auto simp: reliable_inv_def reliable_step_def)
qed (use assms in \<open>simp add: reliable_inv_def reliable_step_def\<close>)

text \<open>A client that did not sign in gets no stream. Otherwise the connection holds a slot of its key for every running stream and
  gives all of them back, other keys keep theirs, and however many streams are refused, one message says so.\<close>

lemma reliable_conn_accounts:
  assumes "limiter_ok l" and r_def: "r = foldl (reliable_step key) (handleConn l auth session) es"
  shows "streams_of (r_lim r) key = streams_of l key + r_running r \<and> (k \<noteq> key \<longrightarrow> streams_of (r_lim r) k = streams_of l k) \<and>
     r_reports r \<le> 1 \<and> (auth = None \<longrightarrow> r_running r = 0)"
proof -
  have i: "reliable_inv key l r0 \<Longrightarrow> reliable_inv key l (foldl (reliable_step key) r0 es)" for r0 es
    by (induction es arbitrary: r0) (auto simp: reliable_step_inv)
  have o: "\<not> r_open r0 \<and> r_running r0 = 0 \<Longrightarrow> r_running (foldl (reliable_step key) r0 es) = 0" for r0 es
  proof (induction es arbitrary: r0)
    case (Cons e es)
    have "\<not> r_open (reliable_step key r0 e) \<and> r_running (reliable_step key r0 e) = 0"
      using Cons.prems by (cases e) (simp_all add: reliable_step_def)
    then show ?case using Cons.IH by simp
  qed simp
  have "reliable_inv key l (handleConn l auth session)" using assms(1) by (simp add: reliable_inv_def handleConn_def)
  then have "reliable_inv key l r" unfolding r_def by (rule i)
  moreover have "auth = None \<Longrightarrow> r_running r = 0" unfolding r_def by (rule o) (simp add: handleConn_def)
  ultimately show ?thesis by (auto simp: reliable_inv_def)
qed

end
