(* ===== verification/Spec2Isabelle.thy ===== *)
theory Spec2Isabelle
  imports Frame Sched Glue Pktfilter Egress Flows GlueServer Bans Streams VpnServer VpnSetup Senders DropChannel Measure ClientGlue Pinning Startup VpnClient EndToEnd ServerMain ClientMain TrayConns TrayRoutes TrayClient TrayWindow Portprobe ProbeRuns Procmap VpnPeer GluePeer ClientModes DropClient TrayHost Handlers
begin

text \<open>
  \<^bold>\<open>splicertc\<close> is a tunnel over TLS connections, written in Go: a client on a restricted network (cmd/client), a
  server on a VPS (cmd/server), a small GUI for the client (cmd/tray) and a port scanner (cmd/portprobe). The
  client speaks to the server over three kinds of channel, each a TLS connection that starts with a
  challenge-response login:

  \<^item> \<^bold>\<open>reliable\<close>: a local SOCKS5 proxy; each application connection is one multiplexed stream, which the server
    connects to its target;
  \<^item> \<^bold>\<open>vpn\<close>: whole IPv4 packets between the TUN devices of both sides, one packet per frame;
  \<^item> \<^bold>\<open>glue\<close>: the UDP datagrams of games, each sent in a frame on several connections (paths) at once. The server drops the
    copies and sends the datagram from a socket of its flow; the answers come back the same way;
  \<^item> a fourth, \<^bold>\<open>droppable\<close>, is for measurements: frames that the server only counts.

  Everything under src/internal and src/cmd was looked at; what is left out is said at the end.

  \<^bold>\<open>The theories and the code they model.\<close>

  Shared: Prelude (words, bytes, time, Go maps), Contracts and Quota (the interfaces, as locales), Conn (a connection
  as a value), NetIP and NetText (packages net, strings, strconv as far as they are used).

  Packages of src/internal: Frame (frame/frame.go: format, duplicate and age filter), Glue (glue/glue.go: envelopes, path hello),
  Pktfilter (pktfilter: parsing and building packets), Sched (sched/flow.go, fq.go: FQ-CoDel), Senders (sched/pathwriter.go, shaper.go),
  Egress (egress/egress.go: where the server may connect), Auth (auth/auth.go: keys, handshake), Pinning (transport/tls.go: who
  the server is), Measure (measure/measure.go), Procmap (procmap/procmap_windows.go: whose UDP port it is); proto/target.go and
  socks5/socks5.go are in Streams, config/config.go in Startup.

  The server: Bans (auth.go), GlueServer (glue.go: sessions, paths, flows, sockets, quotas, janitor) and GluePeer (its connection handlers and
  their writers, all at once), Streams (reliable.go), Handlers (the handlers of reliable.go and drop.go as a whole),
  VpnServer and VpnPeer (vpn.go: the channel's state, the handler, the writer), VpnSetup (vpn_setup.go: addresses, firewall),
  DropChannel (drop.go), ServerMain (main.go, setupVPNTun: settings, start, accept loops, stop).

  The client: Startup and ClientMain (startup.go, main.go: settings, key, servers, pin, mode), Flows (flows.go, router.go: flow IDs and
  the channel of a flow), ClientGlue (gluepaths.go: paths, epochs, replies), VpnClient (vpnlink.go and the read loops of vpn.go and tun.go),
  VpnPeer (the writer of vpn.go), ClientModes (runVPNMode, runTunMode, runSocksMode), Streams (socks.go), DropClient (droptest.go).

  The tray: TrayConns (connections.go, ping.go: files), TrayWindow (the buttons), TrayRoutes (routes.go: script arguments, log lines),
  TrayClient (client.go, errors.go: connect and disconnect), TrayHost (winapi.go, dpapi.go, job.go, the ping, the updates of the window, the
  start). The scanner: Portprobe and ProbeRuns.

  EndToEnd joins both ends of the vpn and glue channels.

  \<^bold>\<open>How state and operations correspond.\<close> A struct is a record with the names of its fields (prefixed where two would clash), a Go map a
  finite map, a slice a list, an integer a word of its width where it can wrap around and an int or nat where the code keeps it in range. An
  operation takes the state and returns it changed; an error is a value of a sum or option type, one constructor per error of the code.
  Time, random bytes and the outcome of a system call are arguments. A pointer is a number that names the object (connections,
  sockets, writers, processes). Where goroutines share state, what one does under a lock, or in one system call, is a
  step, and the theorems hold for all sequences of steps: \<open>srv_step\<close> and \<open>host_step\<close> (glue server), \<open>vpn_step\<close> and \<open>peer_step\<close> (vpn server),
  \<open>client_step\<close> and \<open>link_step\<close> (vpn client), \<open>path_step\<close> (glue client), \<open>pw_step\<close> (path writer), \<open>sched_step\<close>, \<open>ban_step\<close>,
  \<open>drop_step\<close>, \<open>accept_step\<close>, the interleaved steps of TrayClient, \<open>pool_step\<close> (probes). The iteration order of a map is an
  argument wherever the code's result could depend on it.

  \<^bold>\<open>What the lemmas show\<close>, by group:

  \<^item> wire formats: what is written is read back, frame by frame, from any position (\<open>stream_codec\<close>, interpreted by Frame), envelopes,
    targets, keys, pins, packets and saved connections are decoded to what was encoded;
  \<^item> duplicates: the bitmap is a sliding window over the sequence numbers (\<open>dedup_filter\<close>), so each frame is delivered at
    most once, also across paths, sessions and epochs;
  \<^item> queues: the scheduler loses nothing it does not count, keeps its limits, always finds a packet when there is one; a flow's packets
    arrive in order at the other end of a vpn connection (VpnPeer); on a glue path the accept message comes first and then whole frames,
    and no path stays behind (GluePeer); the path writer and the shaper keep their bounds;
  \<^item> the server's resources: counters of sessions, paths, flows and slots are exact after any run (\<open>quota\<close>, \<open>guarded_system\<close>), idle
    things and only those are removed (\<open>expiring_table\<close>);
  \<^item> what the server does for others: only signed-in clients, only allowed destinations, only packets from the client's own address, no
    rules left behind in the firewall, no start without a key file unless asked for;
  \<^item> what the client trusts: one key, one pin and one server identity for every channel, and the pin it saved on first use;
  \<^item> the tray: keys are never lost or written in the clear, a new key lets its owner in, a disconnect wins over a connect in progress, the
    script gets only values;
  \<^item> whole paths: a game's datagram and its answer, a SOCKS connection, a vpn packet in both directions, a process and its channel, a
    test run of the droppable channel.

  \<^bold>\<open>Termination, bounds and fuel.\<close> No fuel is used. Loops that end by their data are structural or have a measure (the turns of the
  scheduler by \<open>turn_order\<close>, CoDel's drop loop by the queue); \<open>trim\<close>, \<open>dequeueLocked\<close> and \<open>fill_batch\<close> are partial functions that are proved to
  return on every reachable state. A loop that runs until an error is a step function. Bounds that matter are stated with the theorems: frame
  payloads up to \<open>MaxPayload\<close>, sequence numbers less than \<open>2\<^sup>3\<^sup>1\<close> apart, instants in the range of an int64 of
  nanoseconds. Floating-point numbers (shaper, ping statistics) are real numbers; rounding is not modelled.

  \<^bold>\<open>Parameters.\<close> Not code of the repository, hence arguments with their documented behaviour as hypotheses where it is needed: Ed25519 and
  the TLS exporter (\<open>crypto\<close>, \<open>tls\<close>), SHA-256 and the check of certificate chains, the hash of flow keys, JSON decoding, DNS, the TUN
  device, smux, iptables (\<open>iptables_ok\<close>), DPAPI (\<open>seals\<close>, \<open>dpapi_ok\<close>), Unicode's lower case (\<open>lower_ok\<close>), the answers of Windows calls, the PowerShell script.

  \<^bold>\<open>Not modelled.\<close> The construction of the tray's window (main.go, theme.go), which is calls of the GUI library walk, and what the Windows
  calls of winapi.go, dpapi.go and job.go do inside; cmd/gencert, cmd/genkey and cmd/tunprobe, which call the crypto and TUN
  libraries and print the result; socket options and error numbers per platform (transport/sockopt, proto/errno); the TLS listener
  and the making of TLS settings in transport/tls.go; deadlines of connections, except as an error of a read or write that can
  come at any time; log lines, except where another program reads them.
\<close>

end
